(* ===== verification/Prelude.thy ===== *)
theory Prelude
  imports Main "HOL-Library.Word"
begin

text \<open>
  Shared vocabulary of the development: the outcome type of kernel code and its sequencing,
  the scan of a fixed-size table for the first matching slot, and the interfaces (locales)
  that several components implement: a table of slots, an invariant of a step relation, a simulation.
\<close>

named_theorems kexec \<open>symbolic execution of kernel operations\<close>
named_theorems kstate \<open>how the lock operations act on the fields of the state\<close>

type_synonym uint = "32 word"
type_synonym uchar = "8 word"

subsection \<open>Outcomes of kernel code\<close>

text \<open>
  Kernel code either returns, panics, gives up the processor inside \<open>sched\<close> (the call to
  \<open>swtch\<close>), spins on a spinlock another processor holds, or touches memory it must not
  touch. The state is carried by the outcomes after which the machine goes on.
\<close>

datatype ('s, 'a) res =
    Ok 'a 's
  | Panic string
  | Swtch 's
  | Spin 's
  | Fault string

type_synonym ('s, 'a) kop = "'s \<Rightarrow> ('s, 'a) res"

definition kret :: "'a \<Rightarrow> ('s, 'a) kop" where
  "kret x s = Ok x s"

definition kpanic :: "string \<Rightarrow> ('s, 'a) kop" where
  "kpanic msg s = Panic msg"

definition kfault :: "string \<Rightarrow> ('s, 'a) kop" where
  "kfault msg s = Fault msg"

definition kget :: "('s \<Rightarrow> 'a) \<Rightarrow> ('s, 'a) kop" where
  "kget f s = Ok (f s) s"

definition kmod :: "('s \<Rightarrow> 's) \<Rightarrow> ('s, unit) kop" where
  "kmod f s = Ok () (f s)"

text \<open>Following a pointer that may be null.\<close>

definition deref :: "'a option \<Rightarrow> ('s, 'a) kop" where
  "deref q = (case q of None \<Rightarrow> kfault ''null pointer'' | Some x \<Rightarrow> kret x)"

definition kbind :: "('s, 'a) kop \<Rightarrow> ('a \<Rightarrow> ('s, 'b) kop) \<Rightarrow> ('s, 'b) kop" where
  "kbind m f s =
     (case m s of
        Ok x t \<Rightarrow> f x t
      | Panic msg \<Rightarrow> Panic msg
      | Swtch t \<Rightarrow> Swtch t
      | Spin t \<Rightarrow> Spin t
      | Fault msg \<Rightarrow> Fault msg)"

definition kseq :: "('s, 'a) kop \<Rightarrow> ('s, 'b) kop \<Rightarrow> ('s, 'b) kop" where
  "kseq m n = kbind m (\<lambda>_. n)"

lemma kret_apply [simp, kexec]: "kret x s = Ok x s"
  by (simp add: kret_def)

lemma kpanic_apply [simp, kexec]: "kpanic msg s = Panic msg"
  by (simp add: kpanic_def)

lemma kfault_apply [simp, kexec]: "kfault msg s = Fault msg"
  by (simp add: kfault_def)

lemma kget_apply [simp, kexec]: "kget f s = Ok (f s) s"
  by (simp add: kget_def)

lemma deref_simps [simp, kexec]: "deref None = kfault ''null pointer''" "deref (Some x) = kret x"
  by (simp_all add: deref_def)

lemma kmod_apply [simp, kexec]: "kmod f s = Ok () (f s)"
  by (simp add: kmod_def)

text \<open>
  Sequencing unfolds to a case distinction on the outcome of the first operation; the
  simplifier evaluates that outcome before it looks at the branches.
\<close>

lemma kbind_apply [kexec]:
  "kbind m f s =
     (case m s of
        Ok x t \<Rightarrow> f x t
      | Panic msg \<Rightarrow> Panic msg
      | Swtch t \<Rightarrow> Swtch t
      | Spin t \<Rightarrow> Spin t
      | Fault msg \<Rightarrow> Fault msg)"
  by (simp add: kbind_def)

lemma kseq_apply [kexec]:
  "kseq m n s =
     (case m s of
        Ok x t \<Rightarrow> n t
      | Panic msg \<Rightarrow> Panic msg
      | Swtch t \<Rightarrow> Swtch t
      | Spin t \<Rightarrow> Spin t
      | Fault msg \<Rightarrow> Fault msg)"
  by (simp add: kseq_def kbind_def)

lemma kbind_assoc: "kbind (kbind m f) g = kbind m (\<lambda>x. kbind (f x) g)"
  by (rule ext) (simp add: kbind_def split: res.splits)

lemma kbind_OkE:
  assumes "kbind m f s = Ok y u"
  obtains x t where "m s = Ok x t" and "f x t = Ok y u"
  using assms by (auto simp: kbind_def split: res.splits)

text \<open>A counted loop: the body for each index in turn.\<close>

fun each :: "('i \<Rightarrow> ('s, unit) kop) \<Rightarrow> 'i list \<Rightarrow> ('s, unit) kop" where
  "each f [] = kret ()"
| "each f (i # is) = kseq (f i) (each f is)"

lemma each_append: "each f (xs @ ys) = kseq (each f xs) (each f ys)"
  by (rule ext, induction xs) (auto simp: kseq_apply split: res.split)

text \<open>The state an outcome leaves behind, if the machine goes on.\<close>

fun res_state :: "('s, 'a) res \<Rightarrow> 's option" where
  "res_state (Ok x s) = Some s"
| "res_state (Swtch s) = Some s"
| "res_state (Spin s) = Some s"
| "res_state (Panic msg) = None"
| "res_state (Fault msg) = None"

subsection \<open>Scanning a table\<close>

text \<open>
  Most of the kernel's tables are arrays searched from the first slot for one that satisfies a
  condition: the free process, the free file, the cached inode, the mutex with a given id.
\<close>

fun scan :: "('a \<Rightarrow> bool) \<Rightarrow> 'a list \<Rightarrow> nat option" where
  "scan P [] = None"
| "scan P (x # xs) = (if P x then Some 0 else map_option Suc (scan P xs))"

lemma scan_None_iff [simp]: "scan P xs = None \<longleftrightarrow> (\<forall>x\<in>set xs. \<not> P x)"
  by (induction xs) auto

lemma scan_SomeD:
  "scan P xs = Some i \<Longrightarrow> i < length xs \<and> P (xs ! i) \<and> (\<forall>j<i. \<not> P (xs ! j))"
proof (induction xs arbitrary: i)
  case (Cons x xs)
  show ?case
  proof (cases "P x")
    case False
    with Cons.prems obtain k where k: "scan P xs = Some k" "i = Suc k" by auto
    with Cons.IH False show ?thesis by (auto simp: less_Suc_eq_0_disj)
  qed (use Cons.prems in auto)
qed simp

lemma scan_Some_iff:
  "scan P xs = Some i \<longleftrightarrow> i < length xs \<and> P (xs ! i) \<and> (\<forall>j<i. \<not> P (xs ! j))"
proof
  assume r: "i < length xs \<and> P (xs ! i) \<and> (\<forall>j<i. \<not> P (xs ! j))"
  then have "scan P xs \<noteq> None" by (auto simp del: not_None_eq)
  then obtain k where k: "scan P xs = Some k" by (auto simp del: scan_None_iff)
  with scan_SomeD [OF k] r show "scan P xs = Some i" by (metis nat_neq_iff)
qed (rule scan_SomeD)

lemma scan_less: "scan P xs = Some i \<Longrightarrow> i < length xs"
  by (simp add: scan_SomeD)

lemma scan_map: "scan P (map f xs) = scan (\<lambda>x. P (f x)) xs"
  by (induction xs) auto

lemma scan_cong: "(\<And>x. x \<in> set xs \<Longrightarrow> P x = Q x) \<Longrightarrow> scan P xs = scan Q xs"
  by (induction xs) auto

lemma scan_list_update_same:
  "(i < length xs \<Longrightarrow> P v = P (xs ! i)) \<Longrightarrow> scan P (xs[i := v]) = scan P xs"
proof (induction xs arbitrary: i)
  case (Cons x xs)
  then show ?case by (cases i) auto
qed simp

lemma nth_update_at: "j < length xs \<Longrightarrow> xs[i := x] ! j = (if i = j then x else xs ! j)"
  by (cases "i < length xs") (auto simp: nth_list_update list_update_beyond)

lemma map_list_update_same: "f v = f (xs ! i) \<Longrightarrow> map f (xs[i := v]) = map f xs"
  by (metis list_update_id map_update)

subsection \<open>A table of slots\<close>

text \<open>
  The contract the allocation loops share: a free slot is found by a scan from the first slot and
  is made busy, and no other slot changes. A table with no free slot is left alone.
\<close>

locale slot_table =
  fixes is_free :: "'a \<Rightarrow> bool"
    and claim :: "nat \<Rightarrow> 'a \<Rightarrow> 'a"
  assumes claim_busy: "is_free x \<Longrightarrow> \<not> is_free (claim i x)"
begin

lemma alloc_first_free:
  assumes "scan is_free xs = Some i"
  shows "i < length xs" and "is_free (xs ! i)" and "\<And>j. j < i \<Longrightarrow> \<not> is_free (xs ! j)"
  using scan_SomeD [OF assms] by auto

lemma alloc_busy:
  assumes "scan is_free xs = Some i"
  shows "\<not> is_free (xs[i := claim i (xs ! i)] ! i)"
  using alloc_first_free [OF assms] by (simp add: claim_busy)

lemma alloc_frame:
  assumes "j \<noteq> i"
  shows "xs[i := claim i (xs ! i)] ! j = xs ! j"
  using assms by simp

lemma alloc_free_count:
  assumes "scan is_free xs = Some i"
  shows "Suc (length (filter is_free (xs[i := claim i (xs ! i)]))) = length (filter is_free xs)"
proof -
  from alloc_first_free [OF assms] have i: "i < length xs" and f: "is_free (xs ! i)" by auto
  have split: "xs = take i xs @ xs ! i # drop (Suc i) xs"
    using i by (simp add: id_take_nth_drop)
  have upd: "xs[i := claim i (xs ! i)] = take i xs @ claim i (xs ! i) # drop (Suc i) xs"
    using i by (simp add: upd_conv_take_nth_drop)
  have "length (filter is_free xs) =
      length (filter is_free (take i xs)) + Suc (length (filter is_free (drop (Suc i) xs)))"
    by (subst split) (use f in simp)
  moreover have "length (filter is_free (xs[i := claim i (xs ! i)])) =
      length (filter is_free (take i xs)) + length (filter is_free (drop (Suc i) xs))"
    using upd claim_busy [OF f] by simp
  ultimately show ?thesis by simp
qed

end

subsection \<open>Invariants of step relations\<close>

inductive reach :: "('s \<Rightarrow> 's \<Rightarrow> bool) \<Rightarrow> 's \<Rightarrow> 's \<Rightarrow> bool" for step :: "'s \<Rightarrow> 's \<Rightarrow> bool" where
  reach_refl [intro]: "reach step s s"
| reach_step [intro]: "reach step s t \<Longrightarrow> step t u \<Longrightarrow> reach step s u"

lemma reach_trans: "reach r t u \<Longrightarrow> reach r s t \<Longrightarrow> reach r s u"
  by (induction rule: reach.induct) (auto intro: reach_step)

lemma reach_one: "r s t \<Longrightarrow> reach r s t"
  by (blast intro: reach_step reach_refl)

locale step_invariant =
  fixes init :: "'s \<Rightarrow> bool"
    and step :: "'s \<Rightarrow> 's \<Rightarrow> bool"
    and inv :: "'s \<Rightarrow> bool"
  assumes inv_init: "init s \<Longrightarrow> inv s"
    and inv_step: "inv s \<Longrightarrow> step s t \<Longrightarrow> inv t"
begin

lemma inv_reach_from: "reach step s t \<Longrightarrow> inv s \<Longrightarrow> inv t"
  by (induction rule: reach.induct) (auto intro: inv_step)

lemma inv_reach: "init s \<Longrightarrow> reach step s t \<Longrightarrow> inv t"
  by (blast intro: inv_reach_from inv_init)

end

text \<open>
  Refinement of a step relation by a more detailed one: every detailed step is an abstract step or
  leaves the abstraction unchanged.
\<close>

locale simulation =
  fixes cstep :: "'c \<Rightarrow> 'c \<Rightarrow> bool"
    and astep :: "'a \<Rightarrow> 'a \<Rightarrow> bool"
    and absf :: "'c \<Rightarrow> 'a"
  assumes sim_step: "cstep s t \<Longrightarrow> astep (absf s) (absf t) \<or> absf t = absf s"
begin

lemma sim_reach: "reach cstep s t \<Longrightarrow> reach astep (absf s) (absf t)"
proof (induction rule: reach.induct)
  case (reach_step s t u)
  with sim_step [of t u] show ?case by (auto intro: reach.reach_step)
qed auto

end

end
