(* ===== verification/Spinlock.thy ===== *)
theory Spinlock
  imports Prelude
begin

text \<open>
  Processors, interrupt nesting and spinlocks: \<open>spinlock.c\<close>, \<open>spinlock.h\<close>, the
  per-processor part of \<open>proc.h\<close> and the functions of \<open>proc.c\<close> that find the running
  processor, process and thread. The state is the record \<open>machine\<close>, which every later
  component extends with its own fields.
\<close>

subsection \<open>State\<close>

text \<open>
  The spinlocks of the kernel, one constructor per \<open>struct spinlock\<close> object. The locks of
  mutexes, pipes, buffers and inodes are indexed by their table position.
\<close>

datatype lockid =
    LkPtable | LkMutexTable | LkMutex nat | LkTicks | LkKmem | LkBcache | LkIde | LkLog
  | LkIcache | LkFtable | LkPipe nat | LkCons | LkBuf nat | LkInode nat

record spinlock =
  locked :: uint
  lk_name :: string
  lk_cpu :: "nat option"

record cpu =
  apicid :: nat
  started :: uint
  ncli :: int
  intena :: bool
  cpu_proc :: "nat option"
  cpu_thread :: "nat option"
  ts_esp0 :: uint

text \<open>
  \<open>eflags_if\<close> is the interrupt flag and \<open>lapic_id\<close> the local APIC id of the processor
  that executes the code, \<open>cr3\<close> its page-table register; \<open>cpus\<close> is the array
  \<open>cpus[0..ncpu)\<close>. Of the task-state segment only the kernel stack pointer is kept.
\<close>

record machine =
  eflags_if :: bool
  lapic_id :: nat
  cr3 :: uint
  cpus :: "cpu list"
  locks :: "lockid \<Rightarrow> spinlock"

subsection \<open>The running processor\<close>

definition upd_cpu :: "nat \<Rightarrow> (cpu \<Rightarrow> cpu) \<Rightarrow> 'm machine_scheme \<Rightarrow> 'm machine_scheme" where
  "upd_cpu c f s = s\<lparr>cpus := (cpus s)[c := f (cpus s ! c)]\<rparr>"

definition upd_lock :: "lockid \<Rightarrow> (spinlock \<Rightarrow> spinlock) \<Rightarrow> 'm machine_scheme \<Rightarrow> 'm machine_scheme" where
  "upd_lock lk f s = s\<lparr>locks := (locks s)(lk := f (locks s lk))\<rparr>"

definition this_cpu :: "'m machine_scheme \<Rightarrow> nat option" where
  "this_cpu s = scan (\<lambda>c. apicid c = lapic_id s) (cpus s)"

definition mycpu :: "('m machine_scheme, nat) kop" where
  "mycpu s =
     (if eflags_if s then Panic ''mycpu called with interrupts enabled''
      else case this_cpu s of
             Some i \<Rightarrow> Ok i s
           | None \<Rightarrow> Panic ''unknown apicid'')"

definition cpuid :: "('m machine_scheme, nat) kop" where
  "cpuid = mycpu"

subsection \<open>Interrupt nesting\<close>

definition pushcli :: "('m machine_scheme, unit) kop" where
  "pushcli =
     kbind (kget eflags_if) (\<lambda>eflags.
     kseq (kmod (\<lambda>s. s\<lparr>eflags_if := False\<rparr>))
     (kbind mycpu (\<lambda>c.
     kseq (kmod (upd_cpu c (\<lambda>k. if ncli k = 0 then k\<lparr>intena := eflags\<rparr> else k)))
     (kmod (upd_cpu c (\<lambda>k. k\<lparr>ncli := ncli k + 1\<rparr>))))))"

definition popcli :: "('m machine_scheme, unit) kop" where
  "popcli =
     kbind (kget eflags_if) (\<lambda>e.
     if e then kpanic ''popcli - interruptible'' else
     kbind mycpu (\<lambda>c.
     kseq (kmod (upd_cpu c (\<lambda>k. k\<lparr>ncli := ncli k - 1\<rparr>)))
     (kbind (kget (\<lambda>s. cpus s ! c)) (\<lambda>k.
     if ncli k < 0 then kpanic ''popcli''
     else if ncli k = 0 \<and> intena k then kmod (\<lambda>s. s\<lparr>eflags_if := True\<rparr>)
     else kret ()))))"

subsection \<open>Spinlocks\<close>

definition initlock :: "lockid \<Rightarrow> string \<Rightarrow> ('m machine_scheme, unit) kop" where
  "initlock lk name = kmod (upd_lock lk (\<lambda>l. l\<lparr>lk_name := name, locked := 0, lk_cpu := None\<rparr>))"

definition holding :: "lockid \<Rightarrow> ('m machine_scheme, bool) kop" where
  "holding lk =
     kseq pushcli
     (kbind (kget (\<lambda>s. locked (locks s lk) \<noteq> 0)) (\<lambda>l.
     kbind (if l then kbind mycpu (\<lambda>c. kget (\<lambda>s. lk_cpu (locks s lk) = Some c)) else kret False) (\<lambda>r.
     kseq popcli (kret r))))"

text \<open>
  \<open>acquire\<close> in the three pieces that are atomic with respect to other processors: up to the
  spin loop, one round of the loop (the atomic \<open>xchg\<close>), and the record of the holder.
\<close>

definition acquire_enter :: "lockid \<Rightarrow> ('m machine_scheme, unit) kop" where
  "acquire_enter lk =
     kseq pushcli
     (kbind (holding lk) (\<lambda>h. if h then kpanic ''acquire'' else kret ()))"

definition xchg :: "lockid \<Rightarrow> uint \<Rightarrow> ('m machine_scheme, uint) kop" where
  "xchg lk v = kbind (kget (\<lambda>s. locked (locks s lk))) (\<lambda>old.
     kseq (kmod (upd_lock lk (\<lambda>l. l\<lparr>locked := v\<rparr>))) (kret old))"

definition acquire_xchg :: "lockid \<Rightarrow> ('m machine_scheme, unit) kop" where
  "acquire_xchg lk = kbind (xchg lk 1) (\<lambda>old. if old \<noteq> 0 then Spin else kret ())"

definition acquire_record :: "lockid \<Rightarrow> ('m machine_scheme, unit) kop" where
  "acquire_record lk = kbind mycpu (\<lambda>c. kmod (upd_lock lk (\<lambda>l. l\<lparr>lk_cpu := Some c\<rparr>)))"

definition acquire :: "lockid \<Rightarrow> ('m machine_scheme, unit) kop" where
  "acquire lk = kseq (acquire_enter lk) (kseq (acquire_xchg lk) (acquire_record lk))"

text \<open>\<open>release\<close> in two pieces: up to the store that frees the lock, and that store.\<close>

definition release_enter :: "lockid \<Rightarrow> ('m machine_scheme, unit) kop" where
  "release_enter lk =
     kbind (holding lk) (\<lambda>h.
     if \<not> h then kpanic ''release'' else kmod (upd_lock lk (\<lambda>l. l\<lparr>lk_cpu := None\<rparr>)))"

definition release_store :: "lockid \<Rightarrow> ('m machine_scheme, unit) kop" where
  "release_store lk = kseq (kmod (upd_lock lk (\<lambda>l. l\<lparr>locked := 0\<rparr>))) popcli"

definition release :: "lockid \<Rightarrow> ('m machine_scheme, unit) kop" where
  "release lk = kseq (release_enter lk) (release_store lk)"

subsection \<open>The running process and thread\<close>

definition myproc :: "('m machine_scheme, nat option) kop" where
  "myproc =
     kseq pushcli
     (kbind mycpu (\<lambda>c.
     kbind (kget (\<lambda>s. cpu_proc (cpus s ! c))) (\<lambda>p.
     kseq popcli (kret p))))"

definition mythread :: "('m machine_scheme, nat option) kop" where
  "mythread =
     kseq pushcli
     (kbind mycpu (\<lambda>c.
     kbind (kget (\<lambda>s. cpu_thread (cpus s ! c))) (\<lambda>t.
     kseq popcli (kret t))))"

subsection \<open>Symbolic execution\<close>

text \<open>
  The effect of the operations on a state whose running processor is known and whose nesting
  count is consistent. \<open>push\<close>, \<open>pop\<close>, \<open>acq\<close> and \<open>rel\<close> are the states the operations
  end in; \<open>settle\<close> is what a balanced pair leaves behind, which records the interrupt flag in
  \<open>intena\<close> when no section is open.
\<close>

definition cur :: "'m machine_scheme \<Rightarrow> cpu" where
  "cur s = cpus s ! the (this_cpu s)"

definition upd_cur :: "(cpu \<Rightarrow> cpu) \<Rightarrow> 'm machine_scheme \<Rightarrow> 'm machine_scheme" where
  "upd_cur f s = upd_cpu (the (this_cpu s)) f s"

definition cpu_inv :: "'m machine_scheme \<Rightarrow> bool" where
  "cpu_inv s \<longleftrightarrow> this_cpu s \<noteq> None \<and> 0 \<le> ncli (cur s) \<and> (eflags_if s \<longrightarrow> ncli (cur s) = 0)"

definition push :: "'m machine_scheme \<Rightarrow> 'm machine_scheme" where
  "push s = (upd_cur (\<lambda>k. k\<lparr>intena := (if ncli k = 0 then eflags_if s else intena k), ncli := ncli k + 1\<rparr>) s)
     \<lparr>eflags_if := False\<rparr>"

definition pop :: "'m machine_scheme \<Rightarrow> 'm machine_scheme" where
  "pop s = (upd_cur (\<lambda>k. k\<lparr>ncli := ncli k - 1\<rparr>) s)
     \<lparr>eflags_if := (ncli (cur s) = 1 \<and> intena (cur s))\<rparr>"

definition settle :: "'m machine_scheme \<Rightarrow> 'm machine_scheme" where
  "settle s = upd_cur (\<lambda>k. if ncli k = 0 then k\<lparr>intena := eflags_if s\<rparr> else k) s"

definition acq :: "lockid \<Rightarrow> 'm machine_scheme \<Rightarrow> 'm machine_scheme" where
  "acq lk s = upd_lock lk (\<lambda>l. l\<lparr>locked := 1, lk_cpu := this_cpu s\<rparr>) (push s)"

definition rel :: "lockid \<Rightarrow> 'm machine_scheme \<Rightarrow> 'm machine_scheme" where
  "rel lk s = pop (upd_lock lk (\<lambda>l. l\<lparr>lk_cpu := None, locked := 0\<rparr>) s)"

definition lock_free :: "lockid \<Rightarrow> 'm machine_scheme \<Rightarrow> bool" where
  "lock_free lk s \<longleftrightarrow> locked (locks s lk) = 0 \<and> lk_cpu (locks s lk) = None"

definition lock_held :: "lockid \<Rightarrow> 'm machine_scheme \<Rightarrow> bool" where
  "lock_held lk s \<longleftrightarrow> locked (locks s lk) = 1 \<and> lk_cpu (locks s lk) = this_cpu s"

definition in_cs :: "'m machine_scheme \<Rightarrow> bool" where
  "in_cs s \<longleftrightarrow> this_cpu s \<noteq> None \<and> 1 \<le> ncli (cur s) \<and> \<not> eflags_if s"

lemmas machine_defs = upd_cur_def upd_cpu_def upd_lock_def push_def pop_def settle_def acq_def rel_def

lemma this_cpu_upd_cpu [simp]:
  "(\<And>k. apicid (f k) = apicid k) \<Longrightarrow> this_cpu (upd_cpu c f s) = this_cpu s"
  by (simp add: this_cpu_def upd_cpu_def scan_list_update_same)

lemma this_cpu_upd_cur [simp]:
  "(\<And>k. apicid (f k) = apicid k) \<Longrightarrow> this_cpu (upd_cur f s) = this_cpu s"
  by (simp add: upd_cur_def)

lemma this_cpu_frame [simp]:
  "this_cpu (s\<lparr>eflags_if := e\<rparr>) = this_cpu s"
  "this_cpu (s\<lparr>locks := l\<rparr>) = this_cpu s"
  "this_cpu (upd_lock lk f s) = this_cpu s"
  by (simp_all add: this_cpu_def upd_lock_def)

lemma this_cpu_ops [simp]:
  "this_cpu (push s) = this_cpu s"
  "this_cpu (pop s) = this_cpu s"
  "this_cpu (settle s) = this_cpu s"
  "this_cpu (acq lk s) = this_cpu s"
  "this_cpu (rel lk s) = this_cpu s"
  by (simp_all add: push_def pop_def settle_def acq_def rel_def)

lemma this_cpu_less: "this_cpu s = Some c \<Longrightarrow> c < length (cpus s)"
  by (simp add: this_cpu_def scan_less)

lemma cur_upd_cur:
  "this_cpu s \<noteq> None \<Longrightarrow> (\<And>k. apicid (f k) = apicid k) \<Longrightarrow> cur (upd_cur f s) = f (cur s)"
  by (auto simp: cur_def upd_cur_def) (simp add: upd_cpu_def this_cpu_less)

lemma cur_frame [simp]:
  "cur (s\<lparr>eflags_if := e\<rparr>) = cur s"
  "cur (s\<lparr>locks := l\<rparr>) = cur s"
  "cur (upd_lock lk f s) = cur s"
  by (simp_all add: cur_def upd_lock_def)

lemma eflags_ops [simp]:
  "eflags_if (upd_cpu c f s) = eflags_if s"
  "eflags_if (upd_cur f s) = eflags_if s"
  "eflags_if (upd_lock lk g s) = eflags_if s"
  "\<not> eflags_if (push s)"
  "\<not> eflags_if (acq lk s)"
  "eflags_if (settle s) = eflags_if s"
  by (simp_all add: machine_defs)

lemma cur_ops:
  assumes "this_cpu s \<noteq> None"
  shows "cur (push s) = (cur s)\<lparr>intena := (if ncli (cur s) = 0 then eflags_if s else intena (cur s)), ncli := ncli (cur s) + 1\<rparr>"
    and "cur (pop s) = (cur s)\<lparr>ncli := ncli (cur s) - 1\<rparr>"
    and "cur (settle s) = (if ncli (cur s) = 0 then (cur s)\<lparr>intena := eflags_if s\<rparr> else cur s)"
    and "cur (acq lk s) = (cur s)\<lparr>intena := (if ncli (cur s) = 0 then eflags_if s else intena (cur s)), ncli := ncli (cur s) + 1\<rparr>"
    and "cur (rel lk s) = (cur s)\<lparr>ncli := ncli (cur s) - 1\<rparr>"
  using assms by (simp_all add: push_def pop_def settle_def acq_def rel_def cur_upd_cur)

lemma locks_ops [simp]:
  "locks (upd_cpu c f s) = locks s"
  "locks (upd_cur f s) = locks s"
  "locks (push s) = locks s"
  "locks (pop s) = locks s"
  "locks (settle s) = locks s"
  "locks (upd_lock lk g s) = (locks s)(lk := g (locks s lk))"
  "locks (acq lk s) = (locks s)(lk := (locks s lk)\<lparr>locked := 1, lk_cpu := this_cpu s\<rparr>)"
  "locks (rel lk s) = (locks s)(lk := (locks s lk)\<lparr>lk_cpu := None, locked := 0\<rparr>)"
  by (simp_all add: machine_defs)

lemma cpus_upd_lock [simp]: "cpus (upd_lock lk f s) = cpus s"
  by (simp add: upd_lock_def)

lemma cpu_inv_this: "cpu_inv s \<Longrightarrow> this_cpu s \<noteq> None"
  by (simp add: cpu_inv_def)

lemma in_cs_cpu_inv: "in_cs s \<Longrightarrow> cpu_inv s"
  by (simp add: in_cs_def cpu_inv_def)

lemma in_cs_push [simp]: "cpu_inv s \<Longrightarrow> in_cs (push s)"
  by (simp add: in_cs_def cpu_inv_def cur_ops)

lemma in_cs_acq [simp]: "cpu_inv s \<Longrightarrow> in_cs (acq lk s)"
  by (simp add: in_cs_def cpu_inv_def cur_ops)

lemma cpu_inv_settle [simp]: "cpu_inv (settle s) = cpu_inv s"
  by (cases "this_cpu s = None") (auto simp: cpu_inv_def cur_ops)

lemma cpu_inv_push [simp]: "cpu_inv s \<Longrightarrow> cpu_inv (push s)"
  by (simp add: in_cs_cpu_inv)

lemma cpu_inv_acq [simp]: "cpu_inv s \<Longrightarrow> cpu_inv (acq lk s)"
  by (simp add: in_cs_cpu_inv)

lemma in_cs_settle [simp]: "in_cs (settle s) = in_cs s"
  by (cases "this_cpu s = None") (auto simp: in_cs_def cur_ops)

lemma settle_in_cs [simp]: "in_cs s \<Longrightarrow> settle s = s"
  by (simp add: in_cs_def settle_def upd_cur_def upd_cpu_def cur_def)

lemma upd_cpu_compose:
  "upd_cpu c f (upd_cpu c g s) = upd_cpu c (\<lambda>k. f (g k)) s"
  by (cases "c < length (cpus s)") (simp_all add: upd_cpu_def list_update_beyond)

lemma upd_cur_compose:
  "(\<And>k. apicid (g k) = apicid k) \<Longrightarrow> upd_cur f (upd_cur g s) = upd_cur (\<lambda>k. f (g k)) s"
  by (simp add: upd_cur_def upd_cpu_compose)

lemma upd_cur_eflags: "upd_cur f (s\<lparr>eflags_if := e\<rparr>) = (upd_cur f s)\<lparr>eflags_if := e\<rparr>"
  by (simp add: upd_cur_def upd_cpu_def)

lemma settle_settle [simp]: "settle (settle s) = settle s"
proof -
  have "settle (settle s) = upd_cur (\<lambda>k. if ncli k = 0 then k\<lparr>intena := eflags_if s\<rparr> else k) (settle s)"
    by (subst settle_def) (simp only: eflags_ops(6) cong: if_cong)
  also have "\<dots> = settle s"
    unfolding settle_def by (subst upd_cur_compose) (auto intro!: arg_cong2 [where f = upd_cur])
  finally show ?thesis .
qed

lemma mycpu_ok [kexec]: "this_cpu s = Some c \<Longrightarrow> \<not> eflags_if s \<Longrightarrow> mycpu s = Ok c s"
  by (simp add: mycpu_def)

lemma pushcli_ok [kexec]:
  assumes "cpu_inv s"
  shows "pushcli s = Ok () (push s)"
proof -
  from assms obtain c where c: "this_cpu s = Some c" by (auto simp: cpu_inv_def)
  note l = this_cpu_less [OF c]
  have "mycpu (s\<lparr>eflags_if := False\<rparr>) = Ok c (s\<lparr>eflags_if := False\<rparr>)"
    by (rule mycpu_ok) (simp_all add: c)
  then show ?thesis
    by (simp add: pushcli_def kexec) (simp add: push_def upd_cur_def upd_cpu_def c l)
qed

lemma popcli_ok [kexec]:
  assumes "in_cs s"
  shows "popcli s = Ok () (pop s)"
proof -
  from assms obtain c where c: "this_cpu s = Some c" and e: "\<not> eflags_if s"
    and n: "1 \<le> ncli (cpus s ! c)" by (auto simp: in_cs_def cur_def)
  note l = this_cpu_less [OF c]
  have m: "mycpu s = Ok c s" by (rule mycpu_ok) (simp_all add: c e)
  show ?thesis
    using n l e by (simp add: popcli_def kexec m) (auto simp: kexec pop_def upd_cur_def upd_cpu_def c cur_def)
qed

lemma pop_push:
  assumes "cpu_inv s"
  shows "pop (push s) = settle s"
proof -
  have e: "(ncli (cur (push s)) = 1 \<and> intena (cur (push s))) = eflags_if s"
    using assms by (auto simp: cur_ops cpu_inv_def)
  have "pop (push s) = (upd_cur (\<lambda>k. k\<lparr>ncli := ncli k - 1\<rparr>) (push s))\<lparr>eflags_if := eflags_if s\<rparr>"
    unfolding pop_def e ..
  also have "\<dots> = upd_cur (\<lambda>k. k\<lparr>intena := (if ncli k = 0 then eflags_if s else intena k)\<rparr>) s"
    unfolding push_def upd_cur_eflags
    by (subst upd_cur_compose) (simp_all add: upd_cur_def upd_cpu_def)
  also have "\<dots> = settle s"
    unfolding settle_def by (rule arg_cong2 [where f = upd_cur]) auto
  finally show ?thesis .
qed

lemma holding_ok [kexec]:
  assumes "cpu_inv s"
  shows "holding lk s = Ok (locked (locks s lk) \<noteq> 0 \<and> lk_cpu (locks s lk) = this_cpu s) (settle s)"
proof -
  from assms obtain c where c: "this_cpu s = Some c" by (auto simp: cpu_inv_def)
  have m: "mycpu (push s) = Ok c (push s)" by (rule mycpu_ok) (simp_all add: c)
  have p: "popcli (push s) = Ok () (settle s)"
    using assms by (simp add: popcli_ok pop_push)
  show ?thesis
    using assms by (cases "locked (locks s lk) = 0") (simp_all add: holding_def kexec m p c)
qed

lemma myproc_ok [kexec]:
  assumes "cpu_inv s"
  shows "myproc s = Ok (cpu_proc (cur s)) (settle s)"
proof -
  from assms obtain c where c: "this_cpu s = Some c" by (auto simp: cpu_inv_def)
  have m: "mycpu (push s) = Ok c (push s)" by (rule mycpu_ok) (simp_all add: c)
  have p: "popcli (push s) = Ok () (settle s)"
    using assms by (simp add: popcli_ok pop_push)
  have r: "cpus (push s) ! c = cur (push s)" by (simp add: cur_def c)
  show ?thesis
    using assms by (simp add: myproc_def kexec m p r cur_ops cpu_inv_this)
qed

lemma mythread_ok [kexec]:
  assumes "cpu_inv s"
  shows "mythread s = Ok (cpu_thread (cur s)) (settle s)"
proof -
  from assms obtain c where c: "this_cpu s = Some c" by (auto simp: cpu_inv_def)
  have m: "mycpu (push s) = Ok c (push s)" by (rule mycpu_ok) (simp_all add: c)
  have p: "popcli (push s) = Ok () (settle s)"
    using assms by (simp add: popcli_ok pop_push)
  have r: "cpus (push s) ! c = cur (push s)" by (simp add: cur_def c)
  show ?thesis
    using assms by (simp add: mythread_def kexec m p r cur_ops cpu_inv_this)
qed

lemma acquire_enter_ok [kexec]:
  assumes "cpu_inv s" and "lk_cpu (locks s lk) \<noteq> this_cpu s \<or> locked (locks s lk) = 0"
  shows "acquire_enter lk s = Ok () (push s)"
  using assms by (auto simp: acquire_enter_def kexec)

lemma acquire_panic:
  assumes "cpu_inv s" and "lock_held lk s"
  shows "acquire lk s = Panic ''acquire''"
  using assms by (simp add: acquire_def acquire_enter_def kexec lock_held_def)

lemma acquire_ok [kexec]:
  assumes "cpu_inv s" and "lock_free lk s"
  shows "acquire lk s = Ok () (acq lk s)"
proof -
  from assms obtain c where c: "this_cpu s = Some c" by (auto simp: cpu_inv_def)
  let ?t = "upd_lock lk (\<lambda>l. l\<lparr>locked := 1\<rparr>) (push s)"
  have m: "mycpu ?t = Ok c ?t" by (rule mycpu_ok) (simp_all add: c)
  show ?thesis
    using assms
    by (simp add: acquire_def kexec lock_free_def acquire_xchg_def xchg_def acquire_record_def m)
      (simp add: acq_def upd_lock_def c)
qed

lemma release_ok [kexec]:
  assumes "in_cs s" and "lock_held lk s"
  shows "release lk s = Ok () (rel lk s)"
proof -
  let ?t = "upd_lock lk (\<lambda>l. l\<lparr>lk_cpu := None, locked := 0\<rparr>) s"
  have i: "in_cs ?t" using assms by (simp add: in_cs_def)
  have eq: "upd_lock lk (\<lambda>l. l\<lparr>locked := 0\<rparr>) (upd_lock lk (\<lambda>l. l\<lparr>lk_cpu := None\<rparr>) s) = ?t"
    by (simp add: upd_lock_def)
  show ?thesis
    using assms popcli_ok [OF i]
    by (simp add: release_def release_enter_def release_store_def kexec in_cs_cpu_inv lock_held_def eq rel_def)
qed

lemma release_panic:
  assumes "cpu_inv s" and "\<not> lock_held lk s" and "locked (locks s lk) \<in> {0, 1}"
  shows "release lk s = Panic ''release''"
  using assms by (cases "locked (locks s lk) = 0") (simp_all add: release_def release_enter_def kexec lock_held_def)

subsection \<open>Balanced sections\<close>

lemma upd_lock_id: "f (locks s lk) = locks s lk \<Longrightarrow> upd_lock lk f s = s"
  by (simp add: upd_lock_def)

lemma upd_lock_compose: "upd_lock lk f (upd_lock lk g s) = upd_lock lk (\<lambda>l. f (g l)) s"
  by (simp add: upd_lock_def)

lemma upd_lock_commute:
  "lk \<noteq> lk' \<Longrightarrow> upd_lock lk f (upd_lock lk' g s) = upd_lock lk' g (upd_lock lk f s)"
  by (simp add: upd_lock_def fun_upd_twist)

lemma push_upd_lock: "push (upd_lock lk f s) = upd_lock lk f (push s)"
  by (simp add: push_def upd_cur_def upd_cpu_def upd_lock_def this_cpu_def)

lemma pop_upd_lock: "pop (upd_lock lk f s) = upd_lock lk f (pop s)"
  by (simp add: pop_def upd_cur_def upd_cpu_def upd_lock_def this_cpu_def cur_def)

lemma lock_free_upd_id:
  "lock_free lk s \<Longrightarrow> upd_lock lk (\<lambda>l. l\<lparr>lk_cpu := None, locked := 0\<rparr>) s = s"
  by (rule upd_lock_id) (simp add: lock_free_def)

lemma lock_free_ops [simp]:
  "lock_free lk (push s) = lock_free lk s"
  "lock_free lk (settle s) = lock_free lk s"
  "lock_free lk (pop s) = lock_free lk s"
  "lk \<noteq> lk' \<Longrightarrow> lock_free lk (acq lk' s) = lock_free lk s"
  "lock_free lk (rel lk' s) = (lk = lk' \<or> lock_free lk s)"
  by (auto simp: lock_free_def)

lemma lock_held_ops [simp]:
  "lock_held lk (acq lk s)"
  "lock_held lk (settle s) = lock_held lk s"
  "lk \<noteq> lk' \<Longrightarrow> lock_held lk (acq lk' s) = lock_held lk s"
  "lk \<noteq> lk' \<Longrightarrow> lock_held lk (rel lk' s) = lock_held lk s"
  by (simp_all add: lock_held_def)

lemma rel_acq [simp]:
  assumes "cpu_inv s" and "lock_free lk s"
  shows "rel lk (acq lk s) = settle s"
  using assms
  by (simp add: rel_def acq_def upd_lock_compose lock_free_upd_id pop_push)

lemma rel_acq_acq [simp]:
  assumes "cpu_inv s" and "lock_free lk s" and "lk \<noteq> lk'"
  shows "rel lk (acq lk' (acq lk s)) = acq lk' s"
proof -
  let ?f = "\<lambda>l. l\<lparr>locked := 1, lk_cpu := this_cpu s\<rparr>"
  have "rel lk (acq lk' (acq lk s)) =
      upd_lock lk (\<lambda>l. l\<lparr>lk_cpu := None, locked := 0\<rparr>) (upd_lock lk' ?f (upd_lock lk ?f (pop (push (push s)))))"
    by (simp add: rel_def acq_def push_upd_lock pop_upd_lock)
  also have "\<dots> = upd_lock lk' ?f (upd_lock lk (\<lambda>l. (?f l)\<lparr>lk_cpu := None, locked := 0\<rparr>) (push s))"
    using assms by (simp add: pop_push upd_lock_commute upd_lock_compose)
  also have "\<dots> = acq lk' s"
    using assms by (simp add: lock_free_upd_id acq_def)
  finally show ?thesis .
qed

lemma acq_settle [simp]:
  assumes "cpu_inv s"
  shows "acq lk (settle s) = acq lk s"
proof -
  have "push (settle s) = push s"
  proof -
    have "push (settle s) = (upd_cur (\<lambda>k. k\<lparr>intena := (if ncli k = 0 then eflags_if s else intena k), ncli := ncli k + 1\<rparr>)
        (settle s))\<lparr>eflags_if := False\<rparr>"
      unfolding push_def eflags_ops(6) ..
    also have "\<dots> = push s"
      unfolding settle_def push_def
      by (subst upd_cur_compose)
        (auto intro!: arg_cong [where f = "\<lambda>f. (upd_cur f s)\<lparr>eflags_if := False\<rparr>"] simp: fun_eq_iff)
    finally show ?thesis .
  qed
  then show ?thesis by (simp add: acq_def)
qed

lemmas frame_defs = machine_defs this_cpu_def cur_def cpu_inv_def in_cs_def lock_free_def lock_held_def

lemma cpu_proc_ops [simp]:
  assumes "cpu_inv s"
  shows "cpu_proc (cur (acq lk s)) = cpu_proc (cur s)"
    and "cpu_thread (cur (acq lk s)) = cpu_thread (cur s)"
    and "cpu_proc (cur (settle s)) = cpu_proc (cur s)"
    and "cpu_thread (cur (settle s)) = cpu_thread (cur s)"
    and "ncli (cur (settle s)) = ncli (cur s)"
    and "ncli (cur (acq lk s)) = ncli (cur s) + 1"
  using assms by (simp_all add: cur_ops cpu_inv_this)

subsection \<open>Many processors\<close>

text \<open>
  The processors contend for one lock. Each is outside, between \<open>pushcli\<close> and a successful
  exchange (spinning), past the exchange, in the critical section, or past the first half of
  \<open>release\<close>. A step is one atomic piece of \<open>acquire\<close> or \<open>release\<close> run by one processor
  on the shared lock and processor table, with its own interrupt flag and APIC id.
\<close>

datatype cpc = Outside | Spinning | Got | Critical | Releasing

record smp =
  smp_if :: "nat \<Rightarrow> bool"
  smp_cr3 :: "nat \<Rightarrow> uint"
  smp_cpus :: "cpu list"
  smp_locks :: "lockid \<Rightarrow> spinlock"
  smp_pc :: "nat \<Rightarrow> cpc"

definition on_cpu :: "nat \<Rightarrow> smp \<Rightarrow> machine" where
  "on_cpu c g = \<lparr>eflags_if = smp_if g c, lapic_id = apicid (smp_cpus g ! c),
     cr3 = smp_cr3 g c, cpus = smp_cpus g, locks = smp_locks g\<rparr>"

definition cpu_commit :: "nat \<Rightarrow> cpc \<Rightarrow> machine \<Rightarrow> smp \<Rightarrow> smp" where
  "cpu_commit c p m g = \<lparr>smp_if = (smp_if g)(c := eflags_if m), smp_cr3 = (smp_cr3 g)(c := cr3 m), smp_cpus = cpus m,
     smp_locks = locks m, smp_pc = (smp_pc g)(c := p)\<rparr>"

inductive smp_step :: "lockid \<Rightarrow> smp \<Rightarrow> smp \<Rightarrow> bool" for lk :: lockid where
  enter: "c < length (smp_cpus g) \<Longrightarrow> smp_pc g c = Outside \<Longrightarrow>
     acquire_enter lk (on_cpu c g) = Ok () m \<Longrightarrow> smp_step lk g (cpu_commit c Spinning m g)"
| spin: "c < length (smp_cpus g) \<Longrightarrow> smp_pc g c = Spinning \<Longrightarrow>
     acquire_xchg lk (on_cpu c g) = Spin m \<Longrightarrow> smp_step lk g (cpu_commit c Spinning m g)"
| exchange: "c < length (smp_cpus g) \<Longrightarrow> smp_pc g c = Spinning \<Longrightarrow>
     acquire_xchg lk (on_cpu c g) = Ok () m \<Longrightarrow> smp_step lk g (cpu_commit c Got m g)"
| record_holder: "c < length (smp_cpus g) \<Longrightarrow> smp_pc g c = Got \<Longrightarrow>
     acquire_record lk (on_cpu c g) = Ok () m \<Longrightarrow> smp_step lk g (cpu_commit c Critical m g)"
| leave: "c < length (smp_cpus g) \<Longrightarrow> smp_pc g c = Critical \<Longrightarrow>
     release_enter lk (on_cpu c g) = Ok () m \<Longrightarrow> smp_step lk g (cpu_commit c Releasing m g)"
| store: "c < length (smp_cpus g) \<Longrightarrow> smp_pc g c = Releasing \<Longrightarrow>
     release_store lk (on_cpu c g) = Ok () m \<Longrightarrow> smp_step lk g (cpu_commit c Outside m g)"

definition smp_init :: "lockid \<Rightarrow> smp \<Rightarrow> bool" where
  "smp_init lk g \<longleftrightarrow>
     distinct (map apicid (smp_cpus g)) \<and>
     locked (smp_locks g lk) = 0 \<and> lk_cpu (smp_locks g lk) = None \<and>
     (\<forall>c < length (smp_cpus g). smp_pc g c = Outside \<and> ncli (smp_cpus g ! c) = 0) \<and>
     (\<forall>c \<ge> length (smp_cpus g). smp_pc g c = Outside)"

text \<open>
  The invariant: the lock word is set exactly when one processor is between its exchange and its
  final store, the holder field names a processor only while that processor is in its critical
  section, and the nesting count is one exactly outside \<open>Outside\<close>.
\<close>

definition owns :: "cpc \<Rightarrow> bool" where
  "owns p \<longleftrightarrow> p \<in> {Got, Critical, Releasing}"

definition smp_inv :: "lockid \<Rightarrow> smp \<Rightarrow> bool" where
  "smp_inv lk g \<longleftrightarrow>
     distinct (map apicid (smp_cpus g)) \<and>
     locked (smp_locks g lk) = (if \<exists>c. owns (smp_pc g c) then 1 else 0) \<and>
     (\<forall>c d. owns (smp_pc g c) \<longrightarrow> owns (smp_pc g d) \<longrightarrow> c = d) \<and>
     (\<forall>c. lk_cpu (smp_locks g lk) = Some c \<longleftrightarrow> smp_pc g c = Critical) \<and>
     (\<forall>c < length (smp_cpus g). ncli (smp_cpus g ! c) = (if smp_pc g c = Outside then 0 else 1) \<and>
        (smp_pc g c \<noteq> Outside \<longrightarrow> \<not> smp_if g c)) \<and>
     (\<forall>c \<ge> length (smp_cpus g). smp_pc g c = Outside)"

lemma owns_simps [simp]: "\<not> owns Outside" "\<not> owns Spinning" "owns Got" "owns Critical" "owns Releasing"
  by (simp_all add: owns_def)

lemma smp_inv_unique: "smp_inv lk g \<Longrightarrow> owns (smp_pc g c) \<Longrightarrow> owns (smp_pc g d) \<Longrightarrow> c = d"
  by (simp add: smp_inv_def)

lemma smp_inv_holder: "smp_inv lk g \<Longrightarrow> lk_cpu (smp_locks g lk) = Some c \<longleftrightarrow> smp_pc g c = Critical"
  by (simp add: smp_inv_def)

lemma smp_inv_locked: "smp_inv lk g \<Longrightarrow> owns (smp_pc g c) \<Longrightarrow> locked (smp_locks g lk) = 1"
  by (auto simp: smp_inv_def)

lemma smp_inv_range: "smp_inv lk g \<Longrightarrow> smp_pc g c \<noteq> Outside \<Longrightarrow> c < length (smp_cpus g) \<and> \<not> smp_if g c"
  unfolding smp_inv_def by (meson linorder_not_less)

lemma smp_no_owner:
  "smp_inv lk g \<Longrightarrow> locked (smp_locks g lk) = 0 \<Longrightarrow> \<not> owns (smp_pc g c)"
  by (auto simp: smp_inv_def split: if_splits)

lemma on_cpu_simps [simp]:
  "eflags_if (on_cpu c g) = smp_if g c" "cpus (on_cpu c g) = smp_cpus g" "locks (on_cpu c g) = smp_locks g"
  "lapic_id (on_cpu c g) = apicid (smp_cpus g ! c)"
  by (simp_all add: on_cpu_def)

lemma commit_simps [simp]:
  "smp_if (cpu_commit c p m g) = (smp_if g)(c := eflags_if m)" "smp_cpus (cpu_commit c p m g) = cpus m"
  "smp_locks (cpu_commit c p m g) = locks m" "smp_pc (cpu_commit c p m g) = (smp_pc g)(c := p)"
  by (simp_all add: cpu_commit_def)

lemma on_cpu_this:
  assumes "distinct (map apicid (smp_cpus g))" and "c < length (smp_cpus g)"
  shows "this_cpu (on_cpu c g) = Some c"
  unfolding this_cpu_def scan_Some_iff
proof (intro conjI allI impI)
  fix j assume "j < c"
  with assms show "\<not> apicid (cpus (on_cpu c g) ! j) = lapic_id (on_cpu c g)"
    by (auto simp: distinct_conv_nth dest: less_trans)
qed (use assms in simp_all)

lemma on_cpu_inv:
  assumes "smp_inv lk g" and "c < length (smp_cpus g)"
  shows "cpu_inv (on_cpu c g)" and "this_cpu (on_cpu c g) = Some c"
    and "smp_pc g c \<noteq> Outside \<Longrightarrow> in_cs (on_cpu c g)"
proof -
  from assms have d: "distinct (map apicid (smp_cpus g))" by (simp add: smp_inv_def)
  show t: "this_cpu (on_cpu c g) = Some c" by (rule on_cpu_this [OF d assms(2)])
  show "cpu_inv (on_cpu c g)" "smp_pc g c \<noteq> Outside \<Longrightarrow> in_cs (on_cpu c g)"
    using assms t by (auto simp: cpu_inv_def in_cs_def cur_def smp_inv_def)
qed

lemma cpus_upd_cur: "this_cpu s = Some c \<Longrightarrow> cpus (upd_cur f s) = (cpus s)[c := f (cpus s ! c)]"
  by (simp add: upd_cur_def upd_cpu_def)

lemma cpus_push:
  "this_cpu s = Some c \<Longrightarrow> cpus (push s) = (cpus s)[c := (cpus s ! c)
     \<lparr>intena := (if ncli (cpus s ! c) = 0 then eflags_if s else intena (cpus s ! c)), ncli := ncli (cpus s ! c) + 1\<rparr>]"
  by (simp add: push_def cpus_upd_cur)

lemma cpus_pop:
  "this_cpu s = Some c \<Longrightarrow> cpus (pop s) = (cpus s)[c := (cpus s ! c)\<lparr>ncli := ncli (cpus s ! c) - 1\<rparr>]"
  by (simp add: pop_def cpus_upd_cur)

lemma acquire_enter_step:
  assumes "smp_inv lk g" and "c < length (smp_cpus g)" and "smp_pc g c = Outside"
  shows "acquire_enter lk (on_cpu c g) = Ok () (push (on_cpu c g))"
  using assms on_cpu_inv [OF assms(1,2)] by (auto intro!: acquire_enter_ok simp: smp_inv_def)

lemma acquire_xchg_step:
  "acquire_xchg lk (on_cpu c g) =
     (let m = upd_lock lk (\<lambda>l. l\<lparr>locked := 1\<rparr>) (on_cpu c g)
      in if locked (smp_locks g lk) \<noteq> 0 then Spin m else Ok () m)"
  by (simp add: acquire_xchg_def xchg_def kexec Let_def)

lemma acquire_record_step:
  assumes "smp_inv lk g" and "c < length (smp_cpus g)" and "smp_pc g c = Got"
  shows "acquire_record lk (on_cpu c g) = Ok () (upd_lock lk (\<lambda>l. l\<lparr>lk_cpu := Some c\<rparr>) (on_cpu c g))"
proof -
  note o = on_cpu_inv [OF assms(1,2)]
  have "mycpu (on_cpu c g) = Ok c (on_cpu c g)"
    using assms o by (intro mycpu_ok) (auto simp: smp_inv_def)
  then show ?thesis by (simp add: acquire_record_def kexec)
qed

lemma release_enter_step:
  assumes "smp_inv lk g" and "c < length (smp_cpus g)" and "smp_pc g c = Critical"
  shows "release_enter lk (on_cpu c g) = Ok () (upd_lock lk (\<lambda>l. l\<lparr>lk_cpu := None\<rparr>) (on_cpu c g))"
proof -
  note o = on_cpu_inv [OF assms(1,2)]
  have i: "in_cs (on_cpu c g)" using o(3) assms(3) by simp
  have "lk_cpu (smp_locks g lk) = Some c" "locked (smp_locks g lk) = 1"
    using assms smp_inv_holder [OF assms(1)] smp_inv_locked [OF assms(1), of c] by simp_all
  then show ?thesis using o i by (simp add: release_enter_def kexec)
qed

lemma release_store_step:
  assumes "smp_inv lk g" and "c < length (smp_cpus g)" and "smp_pc g c = Releasing"
  shows "release_store lk (on_cpu c g) = Ok () (pop (upd_lock lk (\<lambda>l. l\<lparr>locked := 0\<rparr>) (on_cpu c g)))"
proof -
  have "in_cs (on_cpu c g)" using on_cpu_inv(3) [OF assms(1,2)] assms(3) by simp
  then have "in_cs (upd_lock lk (\<lambda>l. l\<lparr>locked := 0\<rparr>) (on_cpu c g))" by (simp add: in_cs_def)
  then show ?thesis by (simp add: release_store_def kexec)
qed

lemmas smp_exec = acquire_enter_step acquire_xchg_step acquire_record_step release_enter_step release_store_step


lemma smp_inv_step:
  assumes inv: "smp_inv lk g" and st: "smp_step lk g h"
  shows "smp_inv lk h"
  using st
proof cases
  case (enter c m)
  with inv have m: "m = push (on_cpu c g)" by (simp add: smp_exec)
  note o = on_cpu_inv [OF inv enter(2)]
  show ?thesis
    using inv enter(2,3) unfolding enter(1) m
    by (auto simp: smp_inv_def cpus_push [OF o(2)] nth_list_update map_list_update_same split: if_splits)
next
  case (spin c m)
  then have "locked (smp_locks g lk) \<noteq> 0" and m: "m = upd_lock lk (\<lambda>l. l\<lparr>locked := 1\<rparr>) (on_cpu c g)"
    by (auto simp: smp_exec Let_def split: if_splits)
  moreover have "(smp_pc g)(c := Spinning) = smp_pc g" using spin(3) by auto
  ultimately show ?thesis
    using inv spin(2) unfolding spin(1) m by (auto simp: smp_inv_def upd_lock_def split: if_splits)
next
  case (exchange c m)
  then have "locked (smp_locks g lk) = 0" and m: "m = upd_lock lk (\<lambda>l. l\<lparr>locked := 1\<rparr>) (on_cpu c g)"
    by (auto simp: smp_exec Let_def split: if_splits)
  then have n: "\<not> owns (smp_pc g d)" for d using smp_no_owner [OF inv] by simp
  have "smp_pc g d \<noteq> Critical" for d using n [of d] by auto
  with n show ?thesis
    using inv exchange(2,3) unfolding exchange(1) m
    by (auto simp: smp_inv_def split: if_splits)
next
  case (record_holder c m)
  with inv have m: "m = upd_lock lk (\<lambda>l. l\<lparr>lk_cpu := Some c\<rparr>) (on_cpu c g)" by (simp add: smp_exec)
  have u: "owns (smp_pc g d) \<longleftrightarrow> d = c" for d
    using smp_inv_unique [OF inv, of d c] record_holder(3) by auto
  have "smp_pc g d \<noteq> Critical" for d using u [of d] record_holder(3) by (cases "d = c") auto
  then show ?thesis
    using inv u record_holder(2,3) unfolding record_holder(1) m
    by (auto simp: smp_inv_def split: if_splits)
next
  case (leave c m)
  with inv have m: "m = upd_lock lk (\<lambda>l. l\<lparr>lk_cpu := None\<rparr>) (on_cpu c g)" by (simp add: smp_exec)
  have u: "owns (smp_pc g d) \<longleftrightarrow> d = c" for d
    using smp_inv_unique [OF inv, of d c] leave(3) by auto
  have "smp_pc g d = Critical \<longleftrightarrow> d = c" for d using u [of d] leave(3) by (cases "d = c") auto
  moreover have "smp_pc g c \<noteq> Outside" using leave(3) by simp
  ultimately show ?thesis
    using inv u leave(2) unfolding leave(1) m
    by (auto simp: smp_inv_def split: if_splits)
next
  case (store c m)
  with inv have m: "m = upd_lock lk (\<lambda>l. l\<lparr>locked := 0\<rparr>) (pop (on_cpu c g))"
    by (simp add: smp_exec pop_upd_lock)
  note o = on_cpu_inv [OF inv store(2)]
  have u: "owns (smp_pc g d) \<longleftrightarrow> d = c" for d
    using smp_inv_unique [OF inv, of d c] store(3) by auto
  have n: "smp_pc g d \<noteq> Critical" for d using u [of d] store(3) by (cases "d = c") auto
  show ?thesis
    using inv u n store(2,3) unfolding store(1) m
    by (auto simp: smp_inv_def cpus_pop [OF o(2)] nth_list_update map_list_update_same split: if_splits)
qed

interpretation spin_inv: step_invariant "smp_init lk" "smp_step lk" "smp_inv lk" for lk
proof unfold_locales
  fix g assume "smp_init lk g"
  moreover from this have "smp_pc g c = Outside" for c
    by (cases "c < length (smp_cpus g)") (auto simp: smp_init_def)
  ultimately show "smp_inv lk g" by (simp add: smp_init_def smp_inv_def)
qed (rule smp_inv_step)

lemma smp_acquire_reaches:
  assumes inv: "smp_inv lk g" and c: "c < length (smp_cpus g)" and out: "smp_pc g c = Outside"
    and free: "locked (smp_locks g lk) = 0"
  obtains h where "reach (smp_step lk) g h" and "smp_pc h c = Critical"
proof -
  define g1 where "g1 = cpu_commit c Spinning (push (on_cpu c g)) g"
  have s1: "smp_step lk g g1" unfolding g1_def
    by (rule smp_step.enter [OF c out]) (rule acquire_enter_step [OF inv c out])
  have c1: "c < length (smp_cpus g1)" and p1: "smp_pc g1 c = Spinning" and f1: "locked (smp_locks g1 lk) = 0"
    using c free by (simp_all add: g1_def cpus_push [OF on_cpu_inv(2) [OF inv c]])
  define g2 where "g2 = cpu_commit c Got (upd_lock lk (\<lambda>l. l\<lparr>locked := 1\<rparr>) (on_cpu c g1)) g1"
  have s2: "smp_step lk g1 g2" unfolding g2_def
    by (rule smp_step.exchange [OF c1 p1]) (simp add: acquire_xchg_step f1)
  have i2: "smp_inv lk g2" by (rule smp_inv_step [OF smp_inv_step [OF inv s1] s2])
  have c2: "c < length (smp_cpus g2)" and p2: "smp_pc g2 c = Got" using c1 by (simp_all add: g2_def)
  define g3 where "g3 = cpu_commit c Critical (upd_lock lk (\<lambda>l. l\<lparr>lk_cpu := Some c\<rparr>) (on_cpu c g2)) g2"
  have s3: "smp_step lk g2 g3" unfolding g3_def
    by (rule smp_step.record_holder [OF c2 p2]) (rule acquire_record_step [OF i2 c2 p2])
  have "reach (smp_step lk) g g3"
    by (rule reach_step, rule reach_step, rule reach_step, rule reach_refl, rule s1, rule s2, rule s3)
  then show thesis by (rule that) (simp add: g3_def)
qed

text \<open>C1. spinlocks exclude. In every state the processors can reach by running the pieces of
  \<open>acquire\<close> and \<open>release\<close> on one lock in any interleaving, at most one processor is in its
  critical section, and it is the one the lock records as its holder, with interrupts off.\<close>

theorem spinlock_mutual_exclusion:
  assumes "smp_init lk g" and "reach (smp_step lk) g h"
    and "smp_pc h c = Critical" and "smp_pc h d = Critical"
  shows "c = d \<and> lk_cpu (smp_locks h lk) = Some c \<and> locked (smp_locks h lk) = 1 \<and> \<not> smp_if h c"
proof -
  from assms(1,2) have i: "smp_inv lk h" by (rule spin_inv.inv_reach)
  with assms(3,4) show ?thesis
    using smp_inv_unique [OF i, of c d] smp_inv_holder [OF i, of c] smp_inv_locked [OF i, of c]
      smp_inv_range [OF i, of c] by simp
qed

definition smp2 :: smp where
  "smp2 = \<lparr>smp_if = (\<lambda>_. True), smp_cr3 = (\<lambda>_. 0),
     smp_cpus = map (\<lambda>a. \<lparr>apicid = a, started = 1, ncli = 0, intena = False, cpu_proc = None, cpu_thread = None, ts_esp0 = 0\<rparr>) [0, 1],
     smp_locks = (\<lambda>_. \<lparr>locked = 0, lk_name = ''ptable'', lk_cpu = None\<rparr>),
     smp_pc = (\<lambda>_. Outside)\<rparr>"

lemma smp2_init: "smp_init LkPtable smp2"
  by (simp add: smp_init_def smp2_def less_Suc_eq numeral_2_eq_2)

theorem spinlock_mutual_exclusion_witness:
  "\<exists>h. smp_init LkPtable smp2 \<and> reach (smp_step LkPtable) smp2 h \<and> smp_pc h 0 = Critical \<and>
     lk_cpu (smp_locks h LkPtable) = Some 0 \<and> \<not> smp_if h 0"
proof -
  have "smp_inv LkPtable smp2" by (rule spin_inv.inv_init [OF smp2_init])
  moreover have "0 < length (smp_cpus smp2)" "smp_pc smp2 0 = Outside" "locked (smp_locks smp2 LkPtable) = 0"
    by (simp_all add: smp2_def)
  ultimately obtain h where "reach (smp_step LkPtable) smp2 h" "smp_pc h 0 = Critical"
    by (rule smp_acquire_reaches)
  with smp2_init spinlock_mutual_exclusion [OF smp2_init, of h 0 0] show ?thesis by blast
qed

text \<open>C6. no interleaving makes a spinlock operation panic. In every reachable state the next
  piece of \<open>acquire\<close> or \<open>release\<close> of every processor returns or, at the exchange only, spins.\<close>

theorem spinlock_never_panics:
  assumes "smp_init lk g" and "reach (smp_step lk) g h" and "c < length (smp_cpus h)"
  shows "(smp_pc h c = Outside \<longrightarrow> (\<exists>m. acquire_enter lk (on_cpu c h) = Ok () m)) \<and>
         (smp_pc h c = Spinning \<longrightarrow> (\<exists>m. acquire_xchg lk (on_cpu c h) = Ok () m \<or> acquire_xchg lk (on_cpu c h) = Spin m)) \<and>
         (smp_pc h c = Got \<longrightarrow> (\<exists>m. acquire_record lk (on_cpu c h) = Ok () m)) \<and>
         (smp_pc h c = Critical \<longrightarrow> (\<exists>m. release_enter lk (on_cpu c h) = Ok () m)) \<and>
         (smp_pc h c = Releasing \<longrightarrow> (\<exists>m. release_store lk (on_cpu c h) = Ok () m))"
proof -
  from assms(1,2) have "smp_inv lk h" by (rule spin_inv.inv_reach)
  with assms(3) show ?thesis by (auto simp: smp_exec Let_def)
qed

theorem spinlock_never_panics_witness:
  "smp_init LkPtable smp2 \<and> (\<exists>m. acquire_enter LkPtable (on_cpu 1 smp2) = Ok () m)"
proof -
  have "1 < length (smp_cpus smp2)" "smp_pc smp2 1 = Outside" by (simp_all add: smp2_def)
  with spinlock_never_panics [OF smp2_init reach_refl, of 1] smp2_init show ?thesis by blast
qed

end
