(* ===== verification/Proc.thy ===== *)
theory Proc
  imports Spinlock
begin

text \<open>
  The process and thread tables (\<open>proc.h\<close>, the data of \<open>proc.c\<close>) and the part of
  \<open>proc.c\<close> that moves threads between running, runnable and sleeping: \<open>sched\<close>,
  \<open>yield\<close>, \<open>sleep\<close>, \<open>wakeup1\<close>, \<open>wakeup\<close>, \<open>kill\<close> and the scheduler loop,
  with the address-space switches of \<open>vm.c\<close> they call.
\<close>

subsection \<open>Constants and data\<close>

definition NPROC :: nat where "NPROC = 64"
definition NTHREAD :: nat where "NTHREAD = 16"
definition NOFILE :: nat where "NOFILE = 16"
definition KSTACKSIZE :: uint where "KSTACKSIZE = 4096"
definition KERNBASE :: uint where "KERNBASE = 0x80000000"

definition V2P :: "uint \<Rightarrow> uint" where "V2P a = a - KERNBASE"
definition P2V :: "uint \<Rightarrow> uint" where "P2V a = a + KERNBASE"

datatype procstate = UNUSED | EMBRYO | USED | ZOMBIE

datatype threadstate = UNINIT | SLEEPING | RUNNABLE | RUNNING | BLOCKED | TERMINATED

text \<open>
  Sleep channels are addresses of kernel objects. Only equality matters, so each kind of object
  that code sleeps on has a constructor, indexed by its table position.
\<close>

datatype chan =
    ChProc nat | ChThread nat | ChMutexTid nat | ChTicks | ChLog | ChBuf nat
  | ChBufLock nat | ChInodeLock nat | ChPipeNread nat | ChPipeNwrite nat | ChInput

record trapframe =
  tf_edi :: uint  tf_esi :: uint  tf_ebp :: uint  tf_oesp :: uint
  tf_ebx :: uint  tf_edx :: uint  tf_ecx :: uint  tf_eax :: uint
  tf_gs :: uint  tf_fs :: uint  tf_es :: uint  tf_ds :: uint
  tf_trapno :: uint  tf_err :: uint  tf_eip :: uint  tf_cs :: uint
  tf_eflags :: uint  tf_esp :: uint  tf_ss :: uint

record kcontext =
  ctx_edi :: uint  ctx_esi :: uint  ctx_ebx :: uint  ctx_ebp :: uint  ctx_eip :: uint

text \<open>
  A thread pointer is an index of the flat thread table; row \<open>i\<close> of the C table is the range
  \<open>NTHREAD * i \<dots> NTHREAD * i + NTHREAD - 1\<close>. The trap frame is stored in the thread instead of
  on its kernel stack. \<open>sched_intena\<close> is the local variable of \<open>sched\<close> that survives the
  context switch on the thread's own stack.
\<close>

record kthread =
  kstack :: uint
  ustack :: uint
  tstate :: threadstate
  tid :: int
  tproc :: "nat option"
  tf :: trapframe
  tcontext :: kcontext
  chan :: "chan option"
  exitRequest :: bool
  sched_intena :: bool

text \<open>
  \<open>p_threads\<close> is the first index of the process's row; it is written by \<open>allocproc\<close>
  before the state leaves \<open>UNUSED\<close>. Open files and the current directory are indices of the
  file table and the inode cache.
\<close>

record proc =
  sz :: uint
  pgdir :: uint
  pstate :: procstate
  pid :: int
  parent :: "nat option"
  killed :: bool
  ofile :: "nat option list"
  cwd :: "nat option"
  pname :: "uchar list"
  p_threads :: nat

text \<open>
  The thread table has one slot more than the C array: the memory just behind the table, which
  \<open>kthread_join\<close> reads when it is called from the last row.
\<close>

record ptable = machine +
  procs :: "proc list"
  ttable :: "kthread list"
  initproc :: "nat option"
  nextpid :: int
  nexttid :: int
  kpgdir :: uint

lemma procs_frame [simp]:
  "procs (push s) = procs s"
  "procs (pop s) = procs s"
  "procs (settle s) = procs s"
  "procs (acq lk s) = procs s"
  "procs (rel lk s) = procs s"
  "procs (upd_cpu c g s) = procs s"
  "procs (upd_cur g s) = procs s"
  "procs (upd_lock lk h s) = procs s"
  "settle (s\<lparr>procs := x\<rparr>) = (settle s)\<lparr>procs := x\<rparr>"
  "acq lk (s\<lparr>procs := x\<rparr>) = (acq lk s)\<lparr>procs := x\<rparr>"
  "rel lk (s\<lparr>procs := x\<rparr>) = (rel lk s)\<lparr>procs := x\<rparr>"
  "upd_cpu c g (s\<lparr>procs := x\<rparr>) = (upd_cpu c g s)\<lparr>procs := x\<rparr>"
  "upd_cur g (s\<lparr>procs := x\<rparr>) = (upd_cur g s)\<lparr>procs := x\<rparr>"
  "upd_lock lk h (s\<lparr>procs := x\<rparr>) = (upd_lock lk h s)\<lparr>procs := x\<rparr>"
  "this_cpu (s\<lparr>procs := x\<rparr>) = this_cpu s"
  "cur (s\<lparr>procs := x\<rparr>) = cur s"
  "cpu_inv (s\<lparr>procs := x\<rparr>) = cpu_inv s"
  "in_cs (s\<lparr>procs := x\<rparr>) = in_cs s"
  "lock_free lk (s\<lparr>procs := x\<rparr>) = lock_free lk s"
  "lock_held lk (s\<lparr>procs := x\<rparr>) = lock_held lk s"
  by (simp_all add: frame_defs)

lemma ttable_frame [simp]:
  "ttable (push s) = ttable s"
  "ttable (pop s) = ttable s"
  "ttable (settle s) = ttable s"
  "ttable (acq lk s) = ttable s"
  "ttable (rel lk s) = ttable s"
  "ttable (upd_cpu c g s) = ttable s"
  "ttable (upd_cur g s) = ttable s"
  "ttable (upd_lock lk h s) = ttable s"
  "settle (s\<lparr>ttable := x\<rparr>) = (settle s)\<lparr>ttable := x\<rparr>"
  "acq lk (s\<lparr>ttable := x\<rparr>) = (acq lk s)\<lparr>ttable := x\<rparr>"
  "rel lk (s\<lparr>ttable := x\<rparr>) = (rel lk s)\<lparr>ttable := x\<rparr>"
  "upd_cpu c g (s\<lparr>ttable := x\<rparr>) = (upd_cpu c g s)\<lparr>ttable := x\<rparr>"
  "upd_cur g (s\<lparr>ttable := x\<rparr>) = (upd_cur g s)\<lparr>ttable := x\<rparr>"
  "upd_lock lk h (s\<lparr>ttable := x\<rparr>) = (upd_lock lk h s)\<lparr>ttable := x\<rparr>"
  "this_cpu (s\<lparr>ttable := x\<rparr>) = this_cpu s"
  "cur (s\<lparr>ttable := x\<rparr>) = cur s"
  "cpu_inv (s\<lparr>ttable := x\<rparr>) = cpu_inv s"
  "in_cs (s\<lparr>ttable := x\<rparr>) = in_cs s"
  "lock_free lk (s\<lparr>ttable := x\<rparr>) = lock_free lk s"
  "lock_held lk (s\<lparr>ttable := x\<rparr>) = lock_held lk s"
  by (simp_all add: frame_defs)

lemma initproc_frame [simp]:
  "initproc (push s) = initproc s"
  "initproc (pop s) = initproc s"
  "initproc (settle s) = initproc s"
  "initproc (acq lk s) = initproc s"
  "initproc (rel lk s) = initproc s"
  "initproc (upd_cpu c g s) = initproc s"
  "initproc (upd_cur g s) = initproc s"
  "initproc (upd_lock lk h s) = initproc s"
  "settle (s\<lparr>initproc := x\<rparr>) = (settle s)\<lparr>initproc := x\<rparr>"
  "acq lk (s\<lparr>initproc := x\<rparr>) = (acq lk s)\<lparr>initproc := x\<rparr>"
  "rel lk (s\<lparr>initproc := x\<rparr>) = (rel lk s)\<lparr>initproc := x\<rparr>"
  "upd_cpu c g (s\<lparr>initproc := x\<rparr>) = (upd_cpu c g s)\<lparr>initproc := x\<rparr>"
  "upd_cur g (s\<lparr>initproc := x\<rparr>) = (upd_cur g s)\<lparr>initproc := x\<rparr>"
  "upd_lock lk h (s\<lparr>initproc := x\<rparr>) = (upd_lock lk h s)\<lparr>initproc := x\<rparr>"
  "this_cpu (s\<lparr>initproc := x\<rparr>) = this_cpu s"
  "cur (s\<lparr>initproc := x\<rparr>) = cur s"
  "cpu_inv (s\<lparr>initproc := x\<rparr>) = cpu_inv s"
  "in_cs (s\<lparr>initproc := x\<rparr>) = in_cs s"
  "lock_free lk (s\<lparr>initproc := x\<rparr>) = lock_free lk s"
  "lock_held lk (s\<lparr>initproc := x\<rparr>) = lock_held lk s"
  by (simp_all add: frame_defs)

lemma nextpid_frame [simp]:
  "nextpid (push s) = nextpid s"
  "nextpid (pop s) = nextpid s"
  "nextpid (settle s) = nextpid s"
  "nextpid (acq lk s) = nextpid s"
  "nextpid (rel lk s) = nextpid s"
  "nextpid (upd_cpu c g s) = nextpid s"
  "nextpid (upd_cur g s) = nextpid s"
  "nextpid (upd_lock lk h s) = nextpid s"
  "settle (s\<lparr>nextpid := x\<rparr>) = (settle s)\<lparr>nextpid := x\<rparr>"
  "acq lk (s\<lparr>nextpid := x\<rparr>) = (acq lk s)\<lparr>nextpid := x\<rparr>"
  "rel lk (s\<lparr>nextpid := x\<rparr>) = (rel lk s)\<lparr>nextpid := x\<rparr>"
  "upd_cpu c g (s\<lparr>nextpid := x\<rparr>) = (upd_cpu c g s)\<lparr>nextpid := x\<rparr>"
  "upd_cur g (s\<lparr>nextpid := x\<rparr>) = (upd_cur g s)\<lparr>nextpid := x\<rparr>"
  "upd_lock lk h (s\<lparr>nextpid := x\<rparr>) = (upd_lock lk h s)\<lparr>nextpid := x\<rparr>"
  "this_cpu (s\<lparr>nextpid := x\<rparr>) = this_cpu s"
  "cur (s\<lparr>nextpid := x\<rparr>) = cur s"
  "cpu_inv (s\<lparr>nextpid := x\<rparr>) = cpu_inv s"
  "in_cs (s\<lparr>nextpid := x\<rparr>) = in_cs s"
  "lock_free lk (s\<lparr>nextpid := x\<rparr>) = lock_free lk s"
  "lock_held lk (s\<lparr>nextpid := x\<rparr>) = lock_held lk s"
  by (simp_all add: frame_defs)

lemma nexttid_frame [simp]:
  "nexttid (push s) = nexttid s"
  "nexttid (pop s) = nexttid s"
  "nexttid (settle s) = nexttid s"
  "nexttid (acq lk s) = nexttid s"
  "nexttid (rel lk s) = nexttid s"
  "nexttid (upd_cpu c g s) = nexttid s"
  "nexttid (upd_cur g s) = nexttid s"
  "nexttid (upd_lock lk h s) = nexttid s"
  "settle (s\<lparr>nexttid := x\<rparr>) = (settle s)\<lparr>nexttid := x\<rparr>"
  "acq lk (s\<lparr>nexttid := x\<rparr>) = (acq lk s)\<lparr>nexttid := x\<rparr>"
  "rel lk (s\<lparr>nexttid := x\<rparr>) = (rel lk s)\<lparr>nexttid := x\<rparr>"
  "upd_cpu c g (s\<lparr>nexttid := x\<rparr>) = (upd_cpu c g s)\<lparr>nexttid := x\<rparr>"
  "upd_cur g (s\<lparr>nexttid := x\<rparr>) = (upd_cur g s)\<lparr>nexttid := x\<rparr>"
  "upd_lock lk h (s\<lparr>nexttid := x\<rparr>) = (upd_lock lk h s)\<lparr>nexttid := x\<rparr>"
  "this_cpu (s\<lparr>nexttid := x\<rparr>) = this_cpu s"
  "cur (s\<lparr>nexttid := x\<rparr>) = cur s"
  "cpu_inv (s\<lparr>nexttid := x\<rparr>) = cpu_inv s"
  "in_cs (s\<lparr>nexttid := x\<rparr>) = in_cs s"
  "lock_free lk (s\<lparr>nexttid := x\<rparr>) = lock_free lk s"
  "lock_held lk (s\<lparr>nexttid := x\<rparr>) = lock_held lk s"
  by (simp_all add: frame_defs)

lemma kpgdir_frame [simp]:
  "kpgdir (push s) = kpgdir s"
  "kpgdir (pop s) = kpgdir s"
  "kpgdir (settle s) = kpgdir s"
  "kpgdir (acq lk s) = kpgdir s"
  "kpgdir (rel lk s) = kpgdir s"
  "kpgdir (upd_cpu c g s) = kpgdir s"
  "kpgdir (upd_cur g s) = kpgdir s"
  "kpgdir (upd_lock lk h s) = kpgdir s"
  "settle (s\<lparr>kpgdir := x\<rparr>) = (settle s)\<lparr>kpgdir := x\<rparr>"
  "acq lk (s\<lparr>kpgdir := x\<rparr>) = (acq lk s)\<lparr>kpgdir := x\<rparr>"
  "rel lk (s\<lparr>kpgdir := x\<rparr>) = (rel lk s)\<lparr>kpgdir := x\<rparr>"
  "upd_cpu c g (s\<lparr>kpgdir := x\<rparr>) = (upd_cpu c g s)\<lparr>kpgdir := x\<rparr>"
  "upd_cur g (s\<lparr>kpgdir := x\<rparr>) = (upd_cur g s)\<lparr>kpgdir := x\<rparr>"
  "upd_lock lk h (s\<lparr>kpgdir := x\<rparr>) = (upd_lock lk h s)\<lparr>kpgdir := x\<rparr>"
  "this_cpu (s\<lparr>kpgdir := x\<rparr>) = this_cpu s"
  "cur (s\<lparr>kpgdir := x\<rparr>) = cur s"
  "cpu_inv (s\<lparr>kpgdir := x\<rparr>) = cpu_inv s"
  "in_cs (s\<lparr>kpgdir := x\<rparr>) = in_cs s"
  "lock_free lk (s\<lparr>kpgdir := x\<rparr>) = lock_free lk s"
  "lock_held lk (s\<lparr>kpgdir := x\<rparr>) = lock_held lk s"
  by (simp_all add: frame_defs)

definition upd_proc :: "nat \<Rightarrow> (proc \<Rightarrow> proc) \<Rightarrow> 'm ptable_scheme \<Rightarrow> 'm ptable_scheme" where
  "upd_proc p f s = s\<lparr>procs := (procs s)[p := f (procs s ! p)]\<rparr>"

definition upd_thread :: "nat \<Rightarrow> (kthread \<Rightarrow> kthread) \<Rightarrow> 'm ptable_scheme \<Rightarrow> 'm ptable_scheme" where
  "upd_thread t f s = s\<lparr>ttable := (ttable s)[t := f (ttable s ! t)]\<rparr>"

definition row :: "nat \<Rightarrow> nat list" where
  "row base = [base ..< base + NTHREAD]"

subsection \<open>Address-space switches\<close>

definition switchkvm :: "('m ptable_scheme, unit) kop" where
  "switchkvm = kmod (\<lambda>s. s\<lparr>cr3 := V2P (kpgdir s)\<rparr>)"

definition switchuvm :: "nat option \<Rightarrow> ('m ptable_scheme, unit) kop" where
  "switchuvm q =
     (case q of None \<Rightarrow> kpanic ''switchuvm: no process'' | Some p \<Rightarrow>
     kbind mythread (\<lambda>t0. kbind (deref t0) (\<lambda>t.
     kbind (kget (\<lambda>s. kstack (ttable s ! t))) (\<lambda>ks.
     if ks = 0 then kpanic ''switchuvm: no kstack'' else
     kbind (kget (\<lambda>s. pgdir (procs s ! p))) (\<lambda>pd.
     if pd = 0 then kpanic ''switchuvm: no pgdir'' else
     kseq pushcli
     (kbind mycpu (\<lambda>c.
     kseq (kmod (upd_cpu c (\<lambda>k. k\<lparr>ts_esp0 := ks + KSTACKSIZE\<rparr>)))
     (kseq (kmod (\<lambda>s. s\<lparr>cr3 := V2P pd\<rparr>))
     popcli))))))))"

subsection \<open>Giving up the processor\<close>

text \<open>
  \<open>sched\<close> ends in \<open>swtch\<close>: control leaves the thread, so what follows in the caller is a
  separate \<open>_resume\<close> operation, which runs when the scheduler has switched back.
\<close>

definition sched :: "('m ptable_scheme, unit) kop" where
  "sched =
     kbind mythread (\<lambda>t0.
     kbind (holding LkPtable) (\<lambda>h.
     if \<not> h then kpanic ''sched ptable.lock'' else
     kbind mycpu (\<lambda>c.
     kbind (kget (\<lambda>s. ncli (cpus s ! c))) (\<lambda>n.
     if n \<noteq> 1 then kpanic ''sched locks'' else
     kbind (deref t0) (\<lambda>t.
     kbind (kget (\<lambda>s. tstate (ttable s ! t))) (\<lambda>st.
     if st = RUNNING then kpanic ''sched running'' else
     kbind (kget eflags_if) (\<lambda>e.
     if e then kpanic ''sched interruptible'' else
     kbind mycpu (\<lambda>c.
     kbind (kget (\<lambda>s. intena (cpus s ! c))) (\<lambda>i.
     kseq (kmod (upd_thread t (\<lambda>k. k\<lparr>sched_intena := i\<rparr>))) Swtch)))))))))"

definition sched_resume :: "('m ptable_scheme, unit) kop" where
  "sched_resume =
     kbind mycpu (\<lambda>c.
     kbind (kget (\<lambda>s. cpu_thread (cpus s ! c))) (\<lambda>t0.
     kbind (deref t0) (\<lambda>t.
     kbind (kget (\<lambda>s. sched_intena (ttable s ! t))) (\<lambda>i.
     kmod (upd_cpu c (\<lambda>k. k\<lparr>intena := i\<rparr>))))))"

definition yield :: "('m ptable_scheme, unit) kop" where
  "yield =
     kseq (acquire LkPtable)
     (kbind mythread (\<lambda>t0. kbind (deref t0) (\<lambda>t.
     kseq (kmod (upd_thread t (\<lambda>k. k\<lparr>tstate := RUNNABLE\<rparr>)))
     sched)))"

definition yield_resume :: "('m ptable_scheme, unit) kop" where
  "yield_resume = kseq sched_resume (release LkPtable)"

subsection \<open>Sleep and wakeup\<close>

definition sleep :: "chan \<Rightarrow> lockid option \<Rightarrow> ('m ptable_scheme, unit) kop" where
  "sleep ch lk0 =
     kbind mythread (\<lambda>t0.
     case t0 of None \<Rightarrow> kpanic ''sleep'' | Some t \<Rightarrow>
     case lk0 of None \<Rightarrow> kpanic ''sleep without lk'' | Some lk \<Rightarrow>
     kseq (if lk \<noteq> LkPtable then kseq (acquire LkPtable) (release lk) else kret ())
     (kseq (kmod (upd_thread t (\<lambda>k. k\<lparr>chan := Some ch\<rparr>)))
     (kseq (kmod (upd_thread t (\<lambda>k. k\<lparr>tstate := SLEEPING\<rparr>)))
     sched)))"

definition sleep_resume :: "lockid \<Rightarrow> ('m ptable_scheme, unit) kop" where
  "sleep_resume lk =
     kseq sched_resume
     (kbind mythread (\<lambda>t0. kbind (deref t0) (\<lambda>t.
     kseq (kmod (upd_thread t (\<lambda>k. k\<lparr>chan := None\<rparr>)))
     (if lk \<noteq> LkPtable then kseq (release LkPtable) (acquire lk) else kret ()))))"

fun wake_row :: "chan option \<Rightarrow> nat list \<Rightarrow> kthread list \<Rightarrow> kthread list" where
  "wake_row ch [] tt = tt"
| "wake_row ch (t # ts) tt = wake_row ch ts
     (if tstate (tt ! t) = SLEEPING \<and> chan (tt ! t) = ch then tt[t := (tt ! t)\<lparr>tstate := RUNNABLE\<rparr>] else tt)"

fun wake_procs :: "chan option \<Rightarrow> proc list \<Rightarrow> kthread list \<Rightarrow> kthread list" where
  "wake_procs ch [] tt = tt"
| "wake_procs ch (p # ps) tt = wake_procs ch ps
     (if pstate p = UNUSED then tt else wake_row ch (row (p_threads p)) tt)"

definition wakeup1 :: "chan option \<Rightarrow> ('m ptable_scheme, unit) kop" where
  "wakeup1 ch = kmod (\<lambda>s. s\<lparr>ttable := wake_procs ch (procs s) (ttable s)\<rparr>)"

definition wakeup :: "chan option \<Rightarrow> ('m ptable_scheme, unit) kop" where
  "wakeup ch = kseq (acquire LkPtable) (kseq (wakeup1 ch) (release LkPtable))"

definition kill :: "int \<Rightarrow> ('m ptable_scheme, int) kop" where
  "kill n =
     kseq (acquire LkPtable)
     (kbind (kget (\<lambda>s. scan (\<lambda>p. pid p = n) (procs s))) (\<lambda>r.
     case r of
       Some p \<Rightarrow> kseq (kmod (upd_proc p (\<lambda>k. k\<lparr>killed := True\<rparr>))) (kseq (release LkPtable) (kret 0))
     | None \<Rightarrow> kseq (release LkPtable) (kret (- 1))))"

subsection \<open>The scheduler\<close>

text \<open>
  The scheduler walks the process table and, inside a process that is in use, the process's row.
  Its position is where the walk goes on when the dispatched thread gives the processor back: in
  the same row, behind that thread, without another test of the process state.
\<close>

definition pick_thread :: "kthread list \<Rightarrow> nat list \<Rightarrow> nat option" where
  "pick_thread tt ts = find (\<lambda>t. tstate (tt ! t) = RUNNABLE) ts"

fun pick_proc :: "proc list \<Rightarrow> kthread list \<Rightarrow> nat list \<Rightarrow> (nat \<times> nat) option" where
  "pick_proc ps tt [] = None"
| "pick_proc ps tt (p # rest) =
     (if pstate (ps ! p) \<noteq> USED then pick_proc ps tt rest
      else case pick_thread tt (row (p_threads (ps ! p))) of
             Some t \<Rightarrow> Some (p, t)
           | None \<Rightarrow> pick_proc ps tt rest)"

definition pick_after :: "proc list \<Rightarrow> kthread list \<Rightarrow> nat \<Rightarrow> nat \<Rightarrow> (nat \<times> nat) option" where
  "pick_after ps tt p t =
     (case pick_thread tt [Suc t ..< p_threads (ps ! p) + NTHREAD] of
        Some t' \<Rightarrow> Some (p, t')
      | None \<Rightarrow> pick_proc ps tt [Suc p ..< NPROC])"

definition scheduler_init :: "('m ptable_scheme, unit) kop" where
  "scheduler_init = kbind mycpu (\<lambda>c. kmod (upd_cpu c (\<lambda>k. k\<lparr>cpu_proc := None, cpu_thread := None\<rparr>)))"

definition dispatch :: "(nat \<times> nat) option \<Rightarrow> ('m ptable_scheme, (nat \<times> nat) option) kop" where
  "dispatch q =
     (case q of
        None \<Rightarrow> kseq (release LkPtable) (kret None)
      | Some (p, t) \<Rightarrow>
          kbind mycpu (\<lambda>c.
          kseq (kmod (upd_cpu c (\<lambda>k. k\<lparr>cpu_proc := Some p, cpu_thread := Some t\<rparr>)))
          (kseq (switchuvm (Some p))
          (kseq (kmod (upd_thread t (\<lambda>k. k\<lparr>tstate := RUNNING\<rparr>)))
          (kret (Some (p, t)))))))"

definition scheduler_begin :: "('m ptable_scheme, (nat \<times> nat) option) kop" where
  "scheduler_begin =
     kseq (kmod (\<lambda>s. s\<lparr>eflags_if := True\<rparr>))
     (kseq (acquire LkPtable)
     (kbind (kget (\<lambda>s. pick_proc (procs s) (ttable s) [0 ..< NPROC])) dispatch))"

definition scheduler_continue :: "nat \<Rightarrow> nat \<Rightarrow> ('m ptable_scheme, (nat \<times> nat) option) kop" where
  "scheduler_continue p t =
     kseq switchkvm
     (kbind mycpu (\<lambda>c.
     kseq (kmod (upd_cpu c (\<lambda>k. k\<lparr>cpu_proc := None, cpu_thread := None\<rparr>)))
     (kbind (kget (\<lambda>s. pick_after (procs s) (ttable s) p t)) dispatch)))"

subsection \<open>Symbolic execution\<close>

lemma upd_thread_simps [simp]:
  "procs (upd_thread t f s) = procs s" "ttable (upd_thread t f s) = (ttable s)[t := f (ttable s ! t)]"
  "ttable (upd_proc p g s) = ttable s" "procs (upd_proc p g s) = (procs s)[p := g (procs s ! p)]"
  "this_cpu (upd_thread t f s) = this_cpu s" "this_cpu (upd_proc p g s) = this_cpu s"
  "cur (upd_thread t f s) = cur s" "cur (upd_proc p g s) = cur s"
  "in_cs (upd_thread t f s) = in_cs s" "in_cs (upd_proc p g s) = in_cs s"
  "cpu_inv (upd_thread t f s) = cpu_inv s" "cpu_inv (upd_proc p g s) = cpu_inv s"
  "lock_held lk (upd_thread t f s) = lock_held lk s" "lock_held lk (upd_proc p g s) = lock_held lk s"
  "lock_free lk (upd_thread t f s) = lock_free lk s" "lock_free lk (upd_proc p g s) = lock_free lk s"
  "eflags_if (upd_thread t f s) = eflags_if s" "eflags_if (upd_proc p g s) = eflags_if s"
  "cpus (upd_thread t f s) = cpus s" "cpus (upd_proc p g s) = cpus s"
  by (simp_all add: upd_thread_def upd_proc_def)

lemma upd_thread_lock [simp]:
  "acq lk (upd_thread t f s) = upd_thread t f (acq lk s)" "acq lk (upd_proc p g s) = upd_proc p g (acq lk s)"
  "rel lk (upd_thread t f s) = upd_thread t f (rel lk s)" "rel lk (upd_proc p g s) = upd_proc p g (rel lk s)"
  "settle (upd_thread t f s) = upd_thread t f (settle s)" "settle (upd_proc p g s) = upd_proc p g (settle s)"
  by (simp_all add: upd_thread_def upd_proc_def)

lemma upd_thread_compose: "upd_thread t f (upd_thread t g s) = upd_thread t (\<lambda>k. f (g k)) s"
  by (cases "t < length (ttable s)") (simp_all add: upd_thread_def list_update_beyond)

definition suspended :: "nat \<Rightarrow> 'm ptable_scheme \<Rightarrow> 'm ptable_scheme" where
  "suspended t s = upd_thread t (\<lambda>k. k\<lparr>sched_intena := intena (cur s)\<rparr>) s"

lemma sched_ok [kexec]:
  assumes "in_cs s" and "lock_held LkPtable s" and "ncli (cur s) = 1"
    and "cpu_thread (cur s) = Some t" and "tstate (ttable s ! t) \<noteq> RUNNING"
  shows "sched s = Swtch (suspended t s)"
proof -
  from assms(1) obtain c where c: "this_cpu s = Some c" and e: "\<not> eflags_if s" by (auto simp: in_cs_def)
  have m: "mycpu s = Ok c s" by (rule mycpu_ok [OF c e])
  have r: "cpus s ! c = cur s" by (simp add: cur_def c)
  show ?thesis
    using assms e by (simp add: sched_def kexec in_cs_cpu_inv m r lock_held_def suspended_def)
qed

lemma sched_panics:
  assumes "in_cs s"
  shows "\<not> lock_held LkPtable s \<Longrightarrow> locked (locks s LkPtable) \<in> {0, 1} \<Longrightarrow> sched s = Panic ''sched ptable.lock''"
    and "lock_held LkPtable s \<Longrightarrow> ncli (cur s) \<noteq> 1 \<Longrightarrow> sched s = Panic ''sched locks''"
    and "lock_held LkPtable s \<Longrightarrow> ncli (cur s) = 1 \<Longrightarrow> cpu_thread (cur s) = Some t \<Longrightarrow>
       tstate (ttable s ! t) = RUNNING \<Longrightarrow> sched s = Panic ''sched running''"
proof -
  from assms obtain c where c: "this_cpu s = Some c" and e: "\<not> eflags_if s" by (auto simp: in_cs_def)
  have m: "mycpu s = Ok c s" by (rule mycpu_ok [OF c e])
  have r: "cpus s ! c = cur s" by (simp add: cur_def c)
  note ex = sched_def kexec in_cs_cpu_inv [OF assms] settle_in_cs [OF assms] m r lock_held_def
  show "sched s = Panic ''sched ptable.lock''" if "\<not> lock_held LkPtable s" "locked (locks s LkPtable) \<in> {0, 1}"
    using that by (cases "locked (locks s LkPtable) = 0") (simp_all add: ex)
  show "sched s = Panic ''sched locks''" if "lock_held LkPtable s" "ncli (cur s) \<noteq> 1"
    using that by (simp add: ex)
  show "sched s = Panic ''sched running''" if "lock_held LkPtable s" "ncli (cur s) = 1"
    "cpu_thread (cur s) = Some t" "tstate (ttable s ! t) = RUNNING"
    using that by (simp add: ex)
qed

lemma rel_acq_other:
  assumes "in_cs s" and "lk \<noteq> lk'"
  shows "in_cs (rel lk (acq lk' s))" and "ncli (cur (rel lk (acq lk' s))) = ncli (cur s)"
    and "cpu_proc (cur (rel lk (acq lk' s))) = cpu_proc (cur s)"
    and "cpu_thread (cur (rel lk (acq lk' s))) = cpu_thread (cur s)"
proof -
  have t: "this_cpu s \<noteq> None" "this_cpu (acq lk' s) \<noteq> None" using assms by (simp_all add: in_cs_def)
  have e: "\<not> eflags_if (rel lk (acq lk' s))"
    using assms t by (simp add: rel_def pop_def cur_ops in_cs_def)
  show "in_cs (rel lk (acq lk' s))" "ncli (cur (rel lk (acq lk' s))) = ncli (cur s)"
    "cpu_proc (cur (rel lk (acq lk' s))) = cpu_proc (cur s)"
    "cpu_thread (cur (rel lk (acq lk' s))) = cpu_thread (cur s)"
    using assms t e by (simp_all add: in_cs_def cur_ops)
qed

definition sleeping :: "nat \<Rightarrow> chan \<Rightarrow> 'm ptable_scheme \<Rightarrow> 'm ptable_scheme" where
  "sleeping t ch s = upd_thread t (\<lambda>k. k\<lparr>chan := Some ch, tstate := SLEEPING, sched_intena := intena (cur s)\<rparr>) s"

lemma sleep_ok [kexec]:
  assumes "in_cs s" and "lock_held lk s" and "lock_free LkPtable s" and "lk \<noteq> LkPtable"
    and "ncli (cur s) = 1" and "cpu_thread (cur s) = Some t" and "t < length (ttable s)"
  shows "sleep ch (Some lk) s = Swtch (sleeping t ch (rel lk (acq LkPtable s)))"
proof -
  have i: "cpu_inv s" using assms(1) by (rule in_cs_cpu_inv)
  let ?u = "rel lk (acq LkPtable s)"
  note u = rel_acq_other [OF assms(1,4)]
  have h: "lock_held LkPtable ?u" using assms(4) by simp
  have r: "release lk (acq LkPtable s) = Ok () ?u"
    using assms i by (intro release_ok) simp_all
  show ?thesis
    using assms i u h
    by (simp add: sleep_def kexec r upd_thread_compose sleeping_def suspended_def)
qed

lemma sleep_ptable_ok [kexec]:
  assumes "in_cs s" and "lock_held LkPtable s" and "ncli (cur s) = 1"
    and "cpu_thread (cur s) = Some t" and "t < length (ttable s)"
  shows "sleep ch (Some LkPtable) s = Swtch (sleeping t ch s)"
  using assms by (simp add: sleep_def kexec in_cs_cpu_inv upd_thread_compose sleeping_def suspended_def)

lemma yield_ok [kexec]:
  assumes "cpu_inv s" and "ncli (cur s) = 0" and "lock_free LkPtable s"
    and "cpu_thread (cur s) = Some t" and "t < length (ttable s)"
  shows "yield s = Swtch (suspended t (upd_thread t (\<lambda>k. k\<lparr>tstate := RUNNABLE\<rparr>) (acq LkPtable s)))"
  using assms by (simp add: yield_def kexec)

subsection \<open>What a wakeup wakes\<close>

lemma length_wake_row [simp]: "length (wake_row ch ts tt) = length tt"
  by (induction ts arbitrary: tt) auto

lemma nth_wake_row:
  "i < length tt \<Longrightarrow> wake_row ch ts tt ! i =
     (if i \<in> set ts \<and> tstate (tt ! i) = SLEEPING \<and> chan (tt ! i) = ch
      then (tt ! i)\<lparr>tstate := RUNNABLE\<rparr> else tt ! i)"
  by (induction ts arbitrary: tt) (auto simp: nth_update_at)

lemma length_wake_procs [simp]: "length (wake_procs ch ps tt) = length tt"
  by (induction ps arbitrary: tt) auto

lemma nth_wake_procs:
  "i < length tt \<Longrightarrow> wake_procs ch ps tt ! i =
     (if (\<exists>p\<in>set ps. pstate p \<noteq> UNUSED \<and> i \<in> set (row (p_threads p))) \<and>
         tstate (tt ! i) = SLEEPING \<and> chan (tt ! i) = ch
      then (tt ! i)\<lparr>tstate := RUNNABLE\<rparr> else tt ! i)"
proof (induction ps arbitrary: tt)
  case (Cons p ps)
  then show ?case by (auto simp: nth_wake_row)
qed simp

lemma wakeup_ok [kexec]:
  assumes "cpu_inv s" and "lock_free LkPtable s"
  shows "wakeup ch s = Ok () ((settle s)\<lparr>ttable := wake_procs ch (procs s) (ttable s)\<rparr>)"
  using assms by (simp add: wakeup_def wakeup1_def kexec)

lemma kill_ok [kexec]:
  assumes "cpu_inv s" and "lock_free LkPtable s"
  shows "kill n s =
     (case scan (\<lambda>p. pid p = n) (procs s) of
        Some p \<Rightarrow> Ok 0 (upd_proc p (\<lambda>k. k\<lparr>killed := True\<rparr>) (settle s))
      | None \<Rightarrow> Ok (- 1) (settle s))"
  using assms by (cases "scan (\<lambda>p. pid p = n) (procs s)") (simp_all add: kill_def kexec del: scan_None_iff)

lemma cr3_frame [simp]:
  "this_cpu (s\<lparr>cr3 := x\<rparr>) = this_cpu s" "cur (s\<lparr>cr3 := x\<rparr>) = cur s" "in_cs (s\<lparr>cr3 := x\<rparr>) = in_cs s"
  "cpu_inv (s\<lparr>cr3 := x\<rparr>) = cpu_inv s" "lock_held lk (s\<lparr>cr3 := x\<rparr>) = lock_held lk s"
  "lock_free lk (s\<lparr>cr3 := x\<rparr>) = lock_free lk s"
  "rel lk (s\<lparr>cr3 := x\<rparr>) = (rel lk s)\<lparr>cr3 := x\<rparr>" "pop (s\<lparr>cr3 := x\<rparr>) = (pop s)\<lparr>cr3 := x\<rparr>"
  "procs (s\<lparr>cr3 := x\<rparr>) = procs s" "ttable (s\<lparr>cr3 := x\<rparr>) = ttable s"
  by (simp_all add: frame_defs)

lemma upd_cur_cs:
  assumes "in_cs s" and "\<And>k. apicid (f k) = apicid k" and "\<And>k. ncli (f k) = ncli k" 
  shows "in_cs (upd_cur f s)" "cur (upd_cur f s) = f (cur s)" 
  using assms by (simp_all add: in_cs_def cur_upd_cur)

lemma pop_upd_cur:
  assumes "this_cpu s \<noteq> None" and "\<And>k. apicid (f k) = apicid k" and "\<And>k. ncli (f k) = ncli k" 
    and "\<And>k. intena (f k) = intena k" and c: "\<And>k n. f (k\<lparr>ncli := n\<rparr>) = (f k)\<lparr>ncli := n\<rparr>"
  shows "pop (upd_cur f s) = upd_cur f (pop s)"
  using assms
  by (simp add: pop_def cur_upd_cur upd_cur_compose upd_cur_eflags)

lemma switchuvm_ok [kexec]:
  assumes "in_cs s" and "cpu_thread (cur s) = Some t" and "kstack (ttable s ! t) \<noteq> 0" and "pgdir (procs s ! p) \<noteq> 0"
  shows "switchuvm (Some p) s = Ok () ((upd_cur (\<lambda>k. k\<lparr>ts_esp0 := kstack (ttable s ! t) + KSTACKSIZE\<rparr>) s)\<lparr>cr3 := V2P (pgdir (procs s ! p))\<rparr>)"
proof -
  from assms(1) obtain c where c: "this_cpu s = Some c" by (auto simp: in_cs_def)
  note i = in_cs_cpu_inv [OF assms(1)]
  let ?f = "\<lambda>k. k\<lparr>ts_esp0 := kstack (ttable s ! t) + KSTACKSIZE\<rparr>"
  have m: "mycpu (push s) = Ok c (push s)" by (rule mycpu_ok) (simp_all add: c)
  have u: "upd_cpu c ?f (push s) = upd_cur ?f (push s)" by (simp add: upd_cur_def c)
  have p: "pop (upd_cur ?f (push s)) = upd_cur ?f s"
    using i c assms(1) by (subst pop_upd_cur) (simp_all add: pop_push)
  have cs: "in_cs (upd_cur ?f (push s))" using i by (simp add: upd_cur_cs)
  show ?thesis using assms i c by (simp add: switchuvm_def kexec m u cs p)
qed

lemma dispatch_run:
  assumes "in_cs s" and "kstack (ttable s ! t) \<noteq> 0" and "pgdir (procs s ! p) \<noteq> 0"
  shows "dispatch (Some (p, t)) s = Ok (Some (p, t)) (upd_thread t (\<lambda>k. k\<lparr>tstate := RUNNING\<rparr>)
     ((upd_cur (\<lambda>k. k\<lparr>cpu_proc := Some p, cpu_thread := Some t, ts_esp0 := kstack (ttable s ! t) + KSTACKSIZE\<rparr>) s)
       \<lparr>cr3 := V2P (pgdir (procs s ! p))\<rparr>))"
proof -
  from assms(1) obtain c where c: "this_cpu s = Some c" and e: "\<not> eflags_if s" by (auto simp: in_cs_def)
  let ?f = "\<lambda>k. k\<lparr>cpu_proc := Some p, cpu_thread := Some t\<rparr>"
  have m: "mycpu s = Ok c s" by (rule mycpu_ok [OF c e])
  have u: "upd_cpu c ?f s = upd_cur ?f s" by (simp add: upd_cur_def c)
  have i: "in_cs (upd_cur ?f s)" and k: "cpu_thread (cur (upd_cur ?f s)) = Some t"
    using assms(1) by (simp_all add: upd_cur_cs)
  show ?thesis
    using assms by (simp add: dispatch_def kexec m u switchuvm_ok [OF i k]) (simp add: upd_cur_compose)
qed

lemma dispatch_panics:
  assumes "in_cs s" and "kstack (ttable s ! t) = 0 \<or> pgdir (procs s ! p) = 0"
  shows "\<exists>msg. dispatch (Some (p, t)) s = Panic msg"
proof -
  from assms(1) obtain c where c: "this_cpu s = Some c" and e: "\<not> eflags_if s" by (auto simp: in_cs_def)
  let ?f = "\<lambda>k. k\<lparr>cpu_proc := Some p, cpu_thread := Some t\<rparr>"
  have m: "mycpu s = Ok c s" by (rule mycpu_ok [OF c e])
  have u: "upd_cpu c ?f s = upd_cur ?f s" by (simp add: upd_cur_def c)
  have i: "in_cs (upd_cur ?f s)" and k: "cpu_thread (cur (upd_cur ?f s)) = Some t"
    using assms(1) by (simp_all add: upd_cur_cs)
  show ?thesis
    by (cases "kstack (ttable s ! t) = 0")
      (use assms i k in \<open>simp_all add: dispatch_def kexec m u switchuvm_def in_cs_cpu_inv\<close>)
qed

lemma pick_thread_SomeD:
  "pick_thread tt ts = Some t \<Longrightarrow> t \<in> set ts \<and> tstate (tt ! t) = RUNNABLE"
  by (auto simp: pick_thread_def find_Some_iff)

lemma pick_thread_None: "pick_thread tt ts = None \<longleftrightarrow> (\<forall>t\<in>set ts. tstate (tt ! t) \<noteq> RUNNABLE)"
  by (auto simp: pick_thread_def find_None_iff)

lemma pick_proc_SomeD:
  "pick_proc ps tt qs = Some (p, t) \<Longrightarrow>
     p \<in> set qs \<and> pstate (ps ! p) = USED \<and> t \<in> set (row (p_threads (ps ! p))) \<and> tstate (tt ! t) = RUNNABLE"
  by (induction qs) (auto split: if_splits option.splits dest: pick_thread_SomeD)

lemma pick_proc_None:
  "pick_proc ps tt qs = None \<longleftrightarrow>
     (\<forall>p\<in>set qs. pstate (ps ! p) = USED \<longrightarrow> (\<forall>t\<in>set (row (p_threads (ps ! p))). tstate (tt ! t) \<noteq> RUNNABLE))"
  by (induction qs) (auto split: option.splits simp: pick_thread_None dest: pick_thread_SomeD)

lemma pick_after_SomeD:
  assumes "pick_after ps tt p t = Some (p', t')"
  shows "tstate (tt ! t') = RUNNABLE \<and> t' < p_threads (ps ! p') + NTHREAD \<and> (p' = p \<or> p' < NPROC)"
  using assms
  by (auto simp: pick_after_def row_def split: option.splits dest: pick_thread_SomeD pick_proc_SomeD)

end
