(* ===== verification/Sched.thy ===== *)
theory Sched
  imports Proc
begin

text \<open>
  The scheduler and the threads it runs, over all processors. A step is one section under
  \<open>ptable.lock\<close> on one processor: an idle processor picks a thread, a running thread yields or
  goes to sleep and the processor picks the next one, a thread wakes others or kills a process.
  The invariant says that no thread ever runs on two processors.
\<close>

subsection \<open>Sections under the process-table lock\<close>

definition run_on :: "nat \<Rightarrow> 'm ptable_scheme \<Rightarrow> 'm ptable_scheme" where
  "run_on c s = s\<lparr>lapic_id := apicid (cpus s ! c), eflags_if := True\<rparr>"

definition calm :: "'m ptable_scheme \<Rightarrow> bool" where
  "calm s \<longleftrightarrow> distinct (map apicid (cpus s)) \<and> (\<forall>k\<in>set (cpus s). ncli k = 0) \<and> lock_free LkPtable s"

definition busy :: "nat \<Rightarrow> 'm ptable_scheme \<Rightarrow> bool" where
  "busy c s \<longleftrightarrow> distinct (map apicid (cpus s)) \<and> this_cpu s = Some c \<and> \<not> eflags_if s \<and>
     (\<forall>d < length (cpus s). ncli (cpus s ! d) = (if d = c then 1 else 0)) \<and> lock_held LkPtable s"

definition runs :: "'m ptable_scheme \<Rightarrow> nat option list" where
  "runs s = map cpu_thread (cpus s)"

definition tst :: "'m ptable_scheme \<Rightarrow> threadstate list" where
  "tst s = map tstate (ttable s)"

definition threads_ok :: "'m ptable_scheme \<Rightarrow> bool" where
  "threads_ok s \<longleftrightarrow> (\<forall>p < length (procs s). p_threads (procs s ! p) + NTHREAD \<le> length (ttable s)) \<and> length (procs s) = NPROC"

subsection \<open>Steps\<close>

text \<open>
  How a dispatched thread goes on: a new thread releases the lock in \<open>forkret\<close>, the others
  return from \<open>sched\<close> into \<open>yield\<close> or \<open>sleep\<close>.
\<close>

inductive resumes :: "'m ptable_scheme \<Rightarrow> 'm ptable_scheme \<Rightarrow> bool" where
  first: "release LkPtable u = Ok () v \<Longrightarrow> resumes u v"
| yielded: "yield_resume u = Ok () v \<Longrightarrow> resumes u v"
| slept: "lk \<noteq> LkPtable \<Longrightarrow> lock_free lk u \<Longrightarrow> kseq (sleep_resume lk) (release lk) u = Ok () v \<Longrightarrow> resumes u v"

inductive sched_step :: "'m ptable_scheme \<Rightarrow> 'm ptable_scheme \<Rightarrow> bool" where
  idle: "c < length (cpus s) \<Longrightarrow> runs s ! c = None \<Longrightarrow>
     scheduler_begin (run_on c s) = Ok None v \<Longrightarrow> sched_step s v"
| pick: "c < length (cpus s) \<Longrightarrow> runs s ! c = None \<Longrightarrow>
     scheduler_begin (run_on c s) = Ok (Some (p, t)) u \<Longrightarrow> resumes u v \<Longrightarrow> sched_step s v"
| yield_idle: "c < length (cpus s) \<Longrightarrow> runs s ! c = Some t \<Longrightarrow> yield (run_on c s) = Swtch u \<Longrightarrow>
     p < NPROC \<Longrightarrow> scheduler_continue p t u = Ok None v \<Longrightarrow> sched_step s v"
| yield_next: "c < length (cpus s) \<Longrightarrow> runs s ! c = Some t \<Longrightarrow> yield (run_on c s) = Swtch u \<Longrightarrow>
     p < NPROC \<Longrightarrow> scheduler_continue p t u = Ok (Some (q, t')) w \<Longrightarrow> resumes w v \<Longrightarrow> sched_step s v"
| sleep_idle: "c < length (cpus s) \<Longrightarrow> runs s ! c = Some t \<Longrightarrow> lk \<noteq> LkPtable \<Longrightarrow> lock_free lk s \<Longrightarrow>
     kseq (acquire lk) (sleep ch (Some lk)) (run_on c s) = Swtch u \<Longrightarrow>
     p < NPROC \<Longrightarrow> scheduler_continue p t u = Ok None v \<Longrightarrow> sched_step s v"
| sleep_next: "c < length (cpus s) \<Longrightarrow> runs s ! c = Some t \<Longrightarrow> lk \<noteq> LkPtable \<Longrightarrow> lock_free lk s \<Longrightarrow>
     kseq (acquire lk) (sleep ch (Some lk)) (run_on c s) = Swtch u \<Longrightarrow>
     p < NPROC \<Longrightarrow> scheduler_continue p t u = Ok (Some (q, t')) w \<Longrightarrow> resumes w v \<Longrightarrow> sched_step s v"
| wake: "c < length (cpus s) \<Longrightarrow> wakeup ch' (run_on c s) = Ok () v \<Longrightarrow> sched_step s v"
| kills: "c < length (cpus s) \<Longrightarrow> kill n (run_on c s) = Ok r v \<Longrightarrow> sched_step s v"

text \<open>
  The invariant: the thread a processor records is \<open>RUNNING\<close>, no two processors record the
  same thread, and every \<open>RUNNING\<close> thread is recorded by some processor.
\<close>

definition exclusive :: "nat option list \<Rightarrow> threadstate list \<Rightarrow> bool" where
  "exclusive rs st \<longleftrightarrow>
     (\<forall>c < length rs. \<forall>t. rs ! c = Some t \<longrightarrow> t < length st \<and> st ! t = RUNNING) \<and>
     (\<forall>c < length rs. \<forall>d < length rs. \<forall>t. rs ! c = Some t \<longrightarrow> rs ! d = Some t \<longrightarrow> c = d) \<and>
     (\<forall>t < length st. st ! t = RUNNING \<longrightarrow> (\<exists>c < length rs. rs ! c = Some t))"

definition sched_inv :: "'m ptable_scheme \<Rightarrow> bool" where
  "sched_inv s \<longleftrightarrow> calm s \<and> threads_ok s \<and> exclusive (runs s) (tst s)"

subsection \<open>The effect of a section on who runs\<close>

lemma exclusiveD:
  assumes "exclusive rs st"
  shows "c < length rs \<Longrightarrow> rs ! c = Some t \<Longrightarrow> t < length st \<and> st ! t = RUNNING"
    and "c < length rs \<Longrightarrow> d < length rs \<Longrightarrow> rs ! c = Some t \<Longrightarrow> rs ! d = Some t \<Longrightarrow> c = d"
    and "t < length st \<Longrightarrow> st ! t = RUNNING \<Longrightarrow> \<exists>c < length rs. rs ! c = Some t"
  using assms unfolding exclusive_def by blast+

lemma exclusive_out:
  assumes e: "exclusive rs st" and "c < length rs" and "rs ! c = Some t" and "x \<noteq> RUNNING"
  shows "exclusive (rs[c := None]) (st[t := x])"
  unfolding exclusive_def
proof (intro conjI allI impI)
  fix d u assume "d < length (rs[c := None])" "rs[c := None] ! d = Some u"
  then have d: "d < length rs" "d \<noteq> c" "rs ! d = Some u" using assms(2) by (auto simp: nth_list_update split: if_splits)
  with assms exclusiveD(2) [OF e, of d c t] have "u \<noteq> t" by auto
  with d exclusiveD(1) [OF e] show "u < length (st[t := x])" "st[t := x] ! u = RUNNING" by simp_all
next
  fix d d' u assume "d < length (rs[c := None])" "d' < length (rs[c := None])"
    "rs[c := None] ! d = Some u" "rs[c := None] ! d' = Some u"
  then show "d = d'" using exclusiveD(2) [OF e, of d d' u] assms(2) by (auto simp: nth_list_update split: if_splits)
next
  fix u assume u: "u < length (st[t := x])" "st[t := x] ! u = RUNNING"
  then have "u \<noteq> t" using assms(4) by auto
  with u exclusiveD(3) [OF e, of u] assms(3) show "\<exists>d < length (rs[c := None]). rs[c := None] ! d = Some u"
    by (metis length_list_update nth_list_update_neq option.inject)
qed

lemma exclusive_in:
  assumes e: "exclusive rs st" and "c < length rs" and "rs ! c = None" and "t < length st" and "st ! t \<noteq> RUNNING"
  shows "exclusive (rs[c := Some t]) (st[t := RUNNING])"
  unfolding exclusive_def
proof (intro conjI allI impI)
  fix d u assume "d < length (rs[c := Some t])" "rs[c := Some t] ! d = Some u"
  then show "u < length (st[t := RUNNING])" "st[t := RUNNING] ! u = RUNNING"
    using exclusiveD(1) [OF e, of d u] assms(2,4) by (auto simp: nth_list_update split: if_splits)
next
  fix d d' u assume "d < length (rs[c := Some t])" "d' < length (rs[c := Some t])"
    "rs[c := Some t] ! d = Some u" "rs[c := Some t] ! d' = Some u"
  then show "d = d'"
    using exclusiveD(2) [OF e, of d d' u] exclusiveD(1) [OF e, of d u] exclusiveD(1) [OF e, of d' u] assms(2,5)
    by (auto simp: nth_list_update split: if_splits)
next
  fix u assume u: "u < length (st[t := RUNNING])" "st[t := RUNNING] ! u = RUNNING"
  show "\<exists>d < length (rs[c := Some t]). rs[c := Some t] ! d = Some u"
  proof (cases "u = t")
    case True
    then show ?thesis using assms(2) by (intro exI [of _ c]) simp
  next
    case False
    with u exclusiveD(3) [OF e, of u] assms(3) show ?thesis
      by (metis length_list_update nth_list_update_neq option.distinct(1))
  qed
qed

lemma exclusive_same:
  assumes "exclusive rs st" and "length st' = length st"
    and "\<And>t. t < length st \<Longrightarrow> (st' ! t = RUNNING) = (st ! t = RUNNING)"
  shows "exclusive rs st'"
  using assms unfolding exclusive_def by auto


lemma run_on_simps [simp]:
  "cpus (run_on c s) = cpus s" "locks (run_on c s) = locks s" "procs (run_on c s) = procs s"
  "ttable (run_on c s) = ttable s" "lock_free lk (run_on c s) = lock_free lk s"
  "runs (run_on c s) = runs s" "tst (run_on c s) = tst s" "eflags_if (run_on c s)"
  by (simp_all add: run_on_def lock_free_def runs_def tst_def)

lemma run_on_ok:
  assumes "calm s" and "c < length (cpus s)"
  shows "this_cpu (run_on c s) = Some c" and "cpu_inv (run_on c s)" and "cur (run_on c s) = cpus s ! c"
    and "ncli (cur (run_on c s)) = 0"
proof -
  show t: "this_cpu (run_on c s) = Some c"
    unfolding this_cpu_def scan_Some_iff
    using assms by (auto simp: calm_def run_on_def distinct_conv_nth dest: less_trans)
  then show "cpu_inv (run_on c s)" "cur (run_on c s) = cpus s ! c" "ncli (cur (run_on c s)) = 0"
    using assms by (simp_all add: cpu_inv_def cur_def calm_def)
qed

lemma cpus_acq:
  "this_cpu s = Some c \<Longrightarrow> cpus (acq lk s) = (cpus s)[c := (cpus s ! c)
     \<lparr>intena := (if ncli (cpus s ! c) = 0 then eflags_if s else intena (cpus s ! c)), ncli := ncli (cpus s ! c) + 1\<rparr>]"
  by (simp add: acq_def cpus_push)

lemma cpus_rel:
  "this_cpu s = Some c \<Longrightarrow> cpus (rel lk s) = (cpus s)[c := (cpus s ! c)\<lparr>ncli := ncli (cpus s ! c) - 1\<rparr>]"
  by (simp add: rel_def pop_upd_lock cpus_pop)

definition on_thread :: "nat \<Rightarrow> nat \<Rightarrow> 'm ptable_scheme \<Rightarrow> bool" where
  "on_thread c t s \<longleftrightarrow> c < length (cpus s) \<and> runs s ! c = Some t \<and> t < length (ttable s)"

lemma on_threadD:
  assumes "on_thread c t s" and "calm s"
  shows "cpu_inv (run_on c s)" and "ncli (cur (run_on c s)) = 0" and "cpu_thread (cur (run_on c s)) = Some t"
    and "t < length (ttable s)" and "lock_free LkPtable s" and "cur (run_on c s) = cpus s ! c"
  using assms run_on_ok [of s c] by (auto simp: on_thread_def runs_def calm_def)

lemma busyD:
  assumes "busy c s"
  shows "in_cs s" and "cur s = cpus s ! c" and "c < length (cpus s)" and "ncli (cur s) = 1"
    and "this_cpu s = Some c" and "lock_held LkPtable s" and "\<not> eflags_if s" and "cpu_inv s"
proof -
  show t: "this_cpu s = Some c" and h: "lock_held LkPtable s" and e: "\<not> eflags_if s"
    using assms by (simp_all add: busy_def)
  show l: "c < length (cpus s)" by (rule this_cpu_less [OF t])
  show "in_cs s" "cur s = cpus s ! c" "ncli (cur s) = 1"
    using assms l t by (auto simp: busy_def in_cs_def cur_def)
  then show "cpu_inv s" by (simp add: in_cs_cpu_inv)
qed

lemma busy_acq:
  assumes "calm s" and "c < length (cpus s)"
  shows "busy c (acq LkPtable (run_on c s))" and "runs (acq LkPtable (run_on c s)) = runs s"
proof -
  note r = run_on_ok [OF assms]
  show "busy c (acq LkPtable (run_on c s))" "runs (acq LkPtable (run_on c s)) = runs s"
    using assms r
    by (auto simp: busy_def calm_def cpus_acq [OF r(1)] nth_list_update map_list_update_same runs_def)
qed

lemma busy_upd_thread [simp]: "busy c (upd_thread t f s) = busy c s" "runs (upd_thread t f s) = runs s"
  by (simp_all add: busy_def runs_def)

lemma busy_cr3 [simp]: "busy c (s\<lparr>cr3 := x\<rparr>) = busy c s" "runs (s\<lparr>cr3 := x\<rparr>) = runs s" "tst (s\<lparr>cr3 := x\<rparr>) = tst s"
  by (simp_all add: busy_def runs_def tst_def)

lemma tst_upd_thread [simp]:
  "tst (upd_thread t f s) = (tst s)[t := tstate (f (ttable s ! t))]"
  by (simp add: tst_def map_update)

lemma tst_ops [simp]: "tst (acq lk s) = tst s" "tst (rel lk s) = tst s" "tst (settle s) = tst s" "tst (upd_cur f s) = tst s"
  by (simp_all add: tst_def)

lemma lock_free_upd_cur [simp]: "lock_free lk (upd_cur f s) = lock_free lk s"
  by (simp add: lock_free_def)

lemma map_update_id: "(map f xs)[i := f (xs ! i)] = map f xs"
  by (metis list_update_id map_update)

lemma busy_upd_cur:
  assumes "busy c s" and "\<And>k. apicid (f k) = apicid k" and "\<And>k. ncli (f k) = ncli k"
  shows "busy c (upd_cur f s)" and "runs (upd_cur f s) = (runs s)[c := cpu_thread (f (cpus s ! c))]"
proof -
  note b = busyD [OF assms(1)]
  have "lock_held LkPtable (upd_cur f s)" using b(6) assms(2) by (simp add: lock_held_def)
  moreover have "map apicid ((cpus s)[c := f (cpus s ! c)]) = map apicid (cpus s)"
    by (rule map_list_update_same) (rule assms(2))
  ultimately show "busy c (upd_cur f s)"
    using assms b(3,5) by (simp add: busy_def cpus_upd_cur nth_list_update del: map_update)
  show "runs (upd_cur f s) = (runs s)[c := cpu_thread (f (cpus s ! c))]"
    using b(5) by (simp add: cpus_upd_cur runs_def map_update)
qed

lemma busy_release:
  assumes "busy c s"
  shows "release LkPtable s = Ok () (rel LkPtable s)" and "calm (rel LkPtable s)"
    and "runs (rel LkPtable s) = runs s"
proof -
  note b = busyD [OF assms]
  show "release LkPtable s = Ok () (rel LkPtable s)" using b by (simp add: kexec)
  show "calm (rel LkPtable s)" "runs (rel LkPtable s) = runs s"
    using assms b(3,5)
    by (auto simp: calm_def busy_def cpus_rel nth_list_update map_list_update_same runs_def in_set_conv_nth)
qed

lemma dispatch_None_busy:
  assumes "busy c s" and "dispatch None s = Ok r v"
  shows "r = None" and "calm v" and "runs v = runs s" and "tst v = tst s" and "procs v = procs s"
  using assms busy_release [OF assms(1)] by (auto simp: dispatch_def kexec)

lemma dispatch_busy:
  assumes "busy c s" and "dispatch (Some (p, t)) s = Ok r v"
  shows "r = Some (p, t)" and "busy c v" and "runs v = (runs s)[c := Some t]"
    and "tst v = (tst s)[t := RUNNING]" and "procs v = procs s"
proof -
  note b = busyD [OF assms(1)]
  from assms(2) dispatch_panics [OF b(1)] have "kstack (ttable s ! t) \<noteq> 0 \<and> pgdir (procs s ! p) \<noteq> 0"
    by (metis res.distinct(1))
  then have "kstack (ttable s ! t) \<noteq> 0" "pgdir (procs s ! p) \<noteq> 0" by simp_all
  from dispatch_run [OF b(1) this] assms(2) have r: "r = Some (p, t)"
    and v: "v = upd_thread t (\<lambda>k. k\<lparr>tstate := RUNNING\<rparr>)
     ((upd_cur (\<lambda>k. k\<lparr>cpu_proc := Some p, cpu_thread := Some t, ts_esp0 := kstack (ttable s ! t) + KSTACKSIZE\<rparr>) s)
       \<lparr>cr3 := V2P (pgdir (procs s ! p))\<rparr>)" by simp_all
  show "r = Some (p, t)" by (rule r)
  show "busy c v" "runs v = (runs s)[c := Some t]" "tst v = (tst s)[t := RUNNING]" "procs v = procs s"
    unfolding v using assms(1) by (simp_all add: busy_upd_cur)
qed

lemma sched_resume_busy:
  assumes "busy c s" and "runs s ! c = Some t"
  shows "sched_resume s = Ok () (upd_cur (\<lambda>k. k\<lparr>intena := sched_intena (ttable s ! t)\<rparr>) s)"
proof -
  note b = busyD [OF assms(1)]
  have "mycpu s = Ok c s" by (rule mycpu_ok [OF b(5,7)])
  moreover have "cpu_thread (cpus s ! c) = Some t" using assms(2) b(3) by (simp add: runs_def)
  ultimately show ?thesis using b(5) by (simp add: sched_resume_def kexec upd_cur_def)
qed

lemma calm_settle:
  assumes "calm s" and "this_cpu s = Some c"
  shows "calm (settle s)" and "runs (settle s) = runs s"
proof -
  have c: "cpus (settle s) = (cpus s)[c := (if ncli (cpus s ! c) = 0 then (cpus s ! c)\<lparr>intena := eflags_if s\<rparr> else cpus s ! c)]"
    using assms(2) by (simp add: settle_def upd_cur_def upd_cpu_def)
  have "map apicid (cpus (settle s)) = map apicid (cpus s)" unfolding c by (rule map_list_update_same) simp
  moreover have "\<forall>k\<in>set (cpus (settle s)). ncli k = 0"
    using assms this_cpu_less [OF assms(2)] unfolding c calm_def by (auto simp: all_set_conv_all_nth nth_list_update)
  ultimately show "calm (settle s)" using assms(1) by (simp add: calm_def)
  show "runs (settle s) = runs s" unfolding runs_def c by (rule map_list_update_same) simp
qed

lemma yield_resume_busy:
  assumes "busy c s" and "runs s ! c = Some t"
  shows "yield_resume s = Ok () (rel LkPtable (upd_cur (\<lambda>k. k\<lparr>intena := sched_intena (ttable s ! t)\<rparr>) s))"
proof -
  let ?u = "upd_cur (\<lambda>k. k\<lparr>intena := sched_intena (ttable s ! t)\<rparr>) s"
  have "busy c ?u" by (rule busy_upd_cur [OF assms(1)]) simp_all
  from busy_release(1) [OF this] show ?thesis
    by (simp add: yield_resume_def kexec sched_resume_busy [OF assms])
qed

text \<open>
  A thread that returns from \<open>sleep\<close> gives back the process-table lock and takes the lock of
  its condition: it goes on as if it had just called \<open>acquire\<close>.
\<close>

definition resumed :: "nat \<Rightarrow> 'm ptable_scheme \<Rightarrow> 'm ptable_scheme" where
  "resumed t s = rel LkPtable (upd_thread t (\<lambda>k. k\<lparr>chan := None\<rparr>)
     (upd_cur (\<lambda>k. k\<lparr>intena := sched_intena (ttable s ! t)\<rparr>) s))"

lemma busy_intena:
  assumes "busy c s"
  shows "busy c (upd_cur (\<lambda>k. k\<lparr>intena := x\<rparr>) s)" and "runs (upd_cur (\<lambda>k. k\<lparr>intena := x\<rparr>) s) = runs s"
  using busy_upd_cur [OF assms, of "\<lambda>k. k\<lparr>intena := x\<rparr>"] by (simp_all add: runs_def map_update_id)

lemma resumed_calm:
  assumes "busy c s" and "runs s ! c = Some t"
  shows "calm (resumed t s)" and "runs (resumed t s) = runs s" and "this_cpu (resumed t s) = Some c"
    and "cpu_inv (resumed t s)" and "ncli (cur (resumed t s)) = 0" and "cpu_thread (cur (resumed t s)) = Some t"
    and "tst (resumed t s) = tst s" and "procs (resumed t s) = procs s"
    and "lk \<noteq> LkPtable \<Longrightarrow> lock_free lk (resumed t s) = lock_free lk s"
proof -
  define u where "u = upd_thread t (\<lambda>k. k\<lparr>chan := None\<rparr>) (upd_cur (\<lambda>k. k\<lparr>intena := sched_intena (ttable s ! t)\<rparr>) s)"
  have u: "busy c u" "runs u = runs s" using busy_intena [OF assms(1)] by (simp_all add: u_def)
  have r: "resumed t s = rel LkPtable u" by (simp add: resumed_def u_def)
  note b = busyD [OF u(1)] and br = busy_release [OF u(1)]
  show "calm (resumed t s)" and rs: "runs (resumed t s) = runs s" and th: "this_cpu (resumed t s) = Some c"
    using br u b(5) by (simp_all add: r)
  show "cpu_inv (resumed t s)" "ncli (cur (resumed t s)) = 0"
    using b unfolding r by (simp_all add: cpu_inv_def cur_ops)
  show "cpu_thread (cur (resumed t s)) = Some t"
    using rs th assms(2) this_cpu_less [OF th] unfolding runs_def cur_def by (metis nth_map option.sel)
  show "tst (resumed t s) = tst s" "procs (resumed t s) = procs s"
    by (simp_all add: r u_def tst_def map_update map_update_id)
  show "lk \<noteq> LkPtable \<Longrightarrow> lock_free lk (resumed t s) = lock_free lk s"
    by (simp add: r u_def)
qed

lemma sleep_resume_busy:
  assumes "busy c s" and "runs s ! c = Some t" and "lk \<noteq> LkPtable" and "lock_free lk s"
  shows "kseq (sleep_resume lk) f s = kseq (acquire lk) f (resumed t s)"
proof -
  let ?w = "upd_cur (\<lambda>k. k\<lparr>intena := sched_intena (ttable s ! t)\<rparr>) s"
  let ?u = "upd_thread t (\<lambda>k. k\<lparr>chan := None\<rparr>) ?w"
  note w = busy_intena [OF assms(1), of "sched_intena (ttable s ! t)"]
  note b = busyD [OF w(1)] and r = resumed_calm [OF assms(1,2)]
  have u: "busy c ?u" using w by simp
  have t: "cpu_thread (cur ?w) = Some t"
    using w(2) b(2,3) assms(2) by (simp add: runs_def) (metis nth_map)
  have a: "acquire lk (resumed t s) = Ok () (acq lk (resumed t s))"
    using assms(3,4) r by (intro acquire_ok) simp_all
  then show ?thesis
    using assms(3) b t busy_release(1) [OF u]
    by (simp add: sleep_resume_def kexec sched_resume_busy [OF assms(1,2)] resumed_def)
qed

lemma resumes_effect:
  assumes "resumes s v" and "busy c s" and "runs s ! c = Some t"
  shows "calm v \<and> runs v = runs s \<and> tst v = tst s \<and> procs v = procs s"
  using assms(1)
proof cases
  case first
  then show ?thesis using busy_release [OF assms(2)] by auto
next
  case yielded
  let ?w = "upd_cur (\<lambda>k. k\<lparr>intena := sched_intena (ttable s ! t)\<rparr>) s"
  have w: "busy c ?w" "runs ?w = runs s"
    using busy_upd_cur [OF assms(2), of "\<lambda>k. k\<lparr>intena := sched_intena (ttable s ! t)\<rparr>"] busyD(3) [OF assms(2)]
    by (simp_all add: runs_def map_update [symmetric])
  then show ?thesis
    using yielded busy_release [OF w(1)] by (auto simp: yield_resume_busy [OF assms(2,3)])
next
  case (slept lk)
  note r = resumed_calm [OF assms(2,3)]
  from slept(3) have "kseq (acquire lk) (release lk) (resumed t s) = Ok () v"
    unfolding sleep_resume_busy [OF assms(2,3) slept(1,2)] .
  then have "v = settle (resumed t s)" using slept(1,2) r by (simp add: kexec)
  with calm_settle [OF r(1,3)] r show ?thesis by simp
qed

lemma yield_effect:
  assumes "calm s" and "c < length (cpus s)" and "runs s ! c = Some t" and "t < length (ttable s)"
    and "yield (run_on c s) = Swtch u"
  shows "busy c u \<and> runs u = runs s \<and> tst u = (tst s)[t := RUNNABLE] \<and> procs u = procs s"
proof -
  note r = run_on_ok [OF assms(1,2)]
  have "cpu_thread (cur (run_on c s)) = Some t" using assms(2,3) r(3) by (simp add: runs_def)
  then have "yield (run_on c s) =
      Swtch (suspended t (upd_thread t (\<lambda>k. k\<lparr>tstate := RUNNABLE\<rparr>) (acq LkPtable (run_on c s))))"
    using assms(1,4) r by (intro yield_ok) (simp_all add: calm_def)
  with assms(5) have u: "u = suspended t (upd_thread t (\<lambda>k. k\<lparr>tstate := RUNNABLE\<rparr>) (acq LkPtable (run_on c s)))"
    by simp
  show ?thesis
    using busy_acq [OF assms(1,2)] assms(4) unfolding u suspended_def by simp
qed

lemma sleep_effect:
  assumes "calm s" and "c < length (cpus s)" and "runs s ! c = Some t" and "t < length (ttable s)"
    and "lk \<noteq> LkPtable" and "lock_free lk s"
    and "kseq (acquire lk) (sleep ch (Some lk)) (run_on c s) = Swtch u"
  shows "busy c u \<and> runs u = runs s \<and> tst u = (tst s)[t := SLEEPING] \<and> procs u = procs s"
proof -
  note r = run_on_ok [OF assms(1,2)]
  have "cpu_thread (cur (run_on c s)) = Some t" using assms(2,3) r(3) by (simp add: runs_def)
  then have "sleep ch (Some lk) (acq lk (run_on c s)) =
      Swtch (sleeping t ch (rel lk (acq LkPtable (acq lk (run_on c s)))))"
    using assms(1,4,5) r by (intro sleep_ok) (simp_all add: calm_def)
  with assms(5-7) r have u: "u = sleeping t ch (acq LkPtable (run_on c s))"
    by (simp add: kexec)
  show ?thesis
    using busy_acq [OF assms(1,2)] assms(4) unfolding u sleeping_def by simp
qed

lemma scheduler_continue_effect:
  assumes "busy c u" and "scheduler_continue p t u = Ok r v" and "pick_after (procs u) (ttable u) p t = q"
  shows "r = q"
    and "r = None \<Longrightarrow> calm v \<and> runs v = (runs u)[c := None] \<and> tst v = tst u \<and> procs v = procs u"
    and "r = Some (p', t') \<Longrightarrow>
      busy c v \<and> runs v = (runs u)[c := Some t'] \<and> tst v = (tst u)[t' := RUNNING] \<and> procs v = procs u"
proof -
  note b = busyD [OF assms(1)]
  define w where "w = upd_cur (\<lambda>k. k\<lparr>cpu_proc := None, cpu_thread := None\<rparr>) (u\<lparr>cr3 := V2P (kpgdir u)\<rparr>)"
  have "busy c (u\<lparr>cr3 := V2P (kpgdir u)\<rparr>)" using assms(1) by simp
  from busy_upd_cur [OF this, of "\<lambda>k. k\<lparr>cpu_proc := None, cpu_thread := None\<rparr>"]
  have w: "busy c w" "runs w = (runs u)[c := None]" "tst w = tst u" "procs w = procs u" "ttable w = ttable u"
    by (simp_all add: w_def)
  have m: "mycpu (u\<lparr>cr3 := V2P (kpgdir u)\<rparr>) = Ok c (u\<lparr>cr3 := V2P (kpgdir u)\<rparr>)"
    using b by (intro mycpu_ok) simp_all
  have d: "dispatch q w = Ok r v"
    using assms(2,3) w b(5) by (simp add: scheduler_continue_def switchkvm_def kexec m w_def upd_cur_def)
  show "r = q"
    using d w(1) dispatch_None_busy(1) dispatch_busy(1) by (cases q) fastforce+
  with d w show "r = None \<Longrightarrow> calm v \<and> runs v = (runs u)[c := None] \<and> tst v = tst u \<and> procs v = procs u"
    using dispatch_None_busy [of c w r v] by auto
  from \<open>r = q\<close> d w show "r = Some (p', t') \<Longrightarrow>
      busy c v \<and> runs v = (runs u)[c := Some t'] \<and> tst v = (tst u)[t' := RUNNING] \<and> procs v = procs u"
    using dispatch_busy [of c w p' t' r v] by auto
qed

lemma scheduler_begin_effect:
  assumes "calm s" and "c < length (cpus s)" and "scheduler_begin (run_on c s) = Ok r v"
    and "pick_proc (procs s) (ttable s) [0 ..< NPROC] = q"
  shows "r = q"
    and "r = None \<Longrightarrow> calm v \<and> runs v = runs s \<and> tst v = tst s \<and> procs v = procs s"
    and "r = Some (p', t') \<Longrightarrow>
      busy c v \<and> runs v = (runs s)[c := Some t'] \<and> tst v = (tst s)[t' := RUNNING] \<and> procs v = procs s"
proof -
  note ro = run_on_ok [OF assms(1,2)] and a = busy_acq [OF assms(1,2)]
  have e: "(run_on c s)\<lparr>eflags_if := True\<rparr> = run_on c s" by (simp add: run_on_def)
  have d: "dispatch q (acq LkPtable (run_on c s)) = Ok r v"
    using assms ro by (simp add: scheduler_begin_def kexec e calm_def)
  show "r = q"
    using d a(1) dispatch_None_busy(1) dispatch_busy(1) by (cases q) fastforce+
  with d a show "r = None \<Longrightarrow> calm v \<and> runs v = runs s \<and> tst v = tst s \<and> procs v = procs s"
    using dispatch_None_busy [of c "acq LkPtable (run_on c s)" r v] by auto
  from \<open>r = q\<close> d a show "r = Some (p', t') \<Longrightarrow>
      busy c v \<and> runs v = (runs s)[c := Some t'] \<and> tst v = (tst s)[t' := RUNNING] \<and> procs v = procs s"
    using dispatch_busy [of c "acq LkPtable (run_on c s)" p' t' r v] by auto
qed

lemmas frame_ext_defs = frame_defs upd_thread_def upd_proc_def run_on_def calm_def runs_def

subsection \<open>The invariant\<close>

lemma threads_ok_cong:
  "procs v = procs s \<Longrightarrow> length (tst v) = length (tst s) \<Longrightarrow> threads_ok v = threads_ok s"
  by (simp add: threads_ok_def tst_def)

lemma pick_in_range:
  assumes "threads_ok s" and "p < NPROC" and "t < p_threads (procs s ! p) + NTHREAD"
  shows "t < length (ttable s)"
  using assms by (auto simp: threads_ok_def dest: less_le_trans)

lemma nth_tst: "t < length (ttable s) \<Longrightarrow> tst s ! t = tstate (ttable s ! t)"
  by (simp add: tst_def)

lemma length_tst_runs [simp]: "length (tst s) = length (ttable s)" "length (runs s) = length (cpus s)"
  by (simp_all add: tst_def runs_def)

text \<open>A thread that gave up the processor is followed by the idle loop or by the next thread.\<close>

lemma continue_inv:
  assumes u: "busy c u" "threads_ok u" "exclusive ((runs u)[c := None]) (tst u)"
    and p: "p < NPROC" and st: "scheduler_continue p t u = Ok r v"
  shows "r = None \<Longrightarrow> sched_inv v"
    and "r = Some (q, t') \<Longrightarrow> resumes v w \<Longrightarrow> sched_inv w"
proof -
  note eff = scheduler_continue_effect [OF u(1) st refl]
  show "sched_inv v" if "r = None"
    using eff(2) [OF that] u threads_ok_cong [of v u] by (simp add: sched_inv_def)
  assume r: "r = Some (q, t')" and res: "resumes v w"
  note c = busyD(3) [OF u(1)]
  from r eff(1) pick_after_SomeD [of "procs u" "ttable u" p t q t']
  have t': "tstate (ttable u ! t') = RUNNABLE" "t' < p_threads (procs u ! q) + NTHREAD" "q = p \<or> q < NPROC" by auto
  then have l: "t' < length (ttable u)" using pick_in_range [OF u(2)] p by auto
  have v: "busy c v" "runs v = (runs u)[c := Some t']" "tst v = (tst u)[t' := RUNNING]" "procs v = procs u"
    using eff(3) [OF r] by auto
  have e: "exclusive (((runs u)[c := None])[c := Some t']) ((tst u)[t' := RUNNING])"
    using u(3) c l t'(1) by (intro exclusive_in) (simp_all add: nth_tst)
  have "runs v ! c = Some t'" using v(2) c by simp
  from resumes_effect [OF res v(1) this] show "sched_inv w"
    using v e u(2) threads_ok_cong [of w u] by (simp add: sched_inv_def)
qed

lemma begin_inv:
  assumes inv: "sched_inv s" and c: "c < length (cpus s)" and free: "runs s ! c = None"
    and st: "scheduler_begin (run_on c s) = Ok r v"
  shows "r = None \<Longrightarrow> sched_inv v"
    and "r = Some (q, t') \<Longrightarrow> resumes v w \<Longrightarrow> sched_inv w"
proof -
  from inv have s: "calm s" "threads_ok s" "exclusive (runs s) (tst s)" by (simp_all add: sched_inv_def)
  note eff = scheduler_begin_effect [OF s(1) c st refl]
  show "sched_inv v" if "r = None"
    using eff(2) [OF that] s threads_ok_cong [of v s] by (simp add: sched_inv_def)
  assume r: "r = Some (q, t')" and res: "resumes v w"
  from r eff(1) pick_proc_SomeD [of "procs s" "ttable s" "[0 ..< NPROC]" q t']
  have t': "q < NPROC" "t' < p_threads (procs s ! q) + NTHREAD" "tstate (ttable s ! t') = RUNNABLE"
    by (auto simp: row_def)
  then have l: "t' < length (ttable s)" using pick_in_range [OF s(2)] by auto
  have v: "busy c v" "runs v = (runs s)[c := Some t']" "tst v = (tst s)[t' := RUNNING]" "procs v = procs s"
    using eff(3) [OF r] by auto
  have e: "exclusive ((runs s)[c := Some t']) ((tst s)[t' := RUNNING])"
    using s(3) c l t'(3) free by (intro exclusive_in) (simp_all add: nth_tst)
  have "runs v ! c = Some t'" using v(2) c by simp
  from resumes_effect [OF res v(1) this] show "sched_inv w"
    using v e s(2) threads_ok_cong [of w s] by (simp add: sched_inv_def)
qed

lemma gave_up:
  assumes inv: "sched_inv s" and c: "c < length (cpus s)" and t: "runs s ! c = Some t" and x: "x \<noteq> RUNNING"
    and u: "busy c u \<and> runs u = runs s \<and> tst u = (tst s)[t := x] \<and> procs u = procs s"
  shows "busy c u" and "threads_ok u" and "exclusive ((runs u)[c := None]) (tst u)"
  using assms threads_ok_cong [of u s] exclusive_out [of "runs s" "tst s" c t x]
  by (auto simp: sched_inv_def)

lemma running_in_range:
  assumes "sched_inv s" and "c < length (cpus s)" and "runs s ! c = Some t"
  shows "calm s" and "t < length (ttable s)"
  using assms exclusiveD(1) [of "runs s" "tst s" c t] by (auto simp: sched_inv_def)

lemma wake_inv:
  assumes inv: "sched_inv s" and c: "c < length (cpus s)" and st: "wakeup ch (run_on c s) = Ok () v"
  shows "sched_inv v"
proof -
  from inv have s: "calm s" "threads_ok s" "exclusive (runs s) (tst s)" by (simp_all add: sched_inv_def)
  note r = run_on_ok [OF s(1) c]
  have v: "v = (settle (run_on c s))\<lparr>ttable := wake_procs ch (procs s) (ttable s)\<rparr>"
    using st wakeup_ok [OF r(2)] s(1) by (simp add: calm_def)
  have n: "calm (settle (run_on c s))" "runs (settle (run_on c s)) = runs s"
    using calm_settle [OF _ r(1)] s(1) by (simp_all add: calm_def)
  have e: "exclusive (runs s) (map tstate (wake_procs ch (procs s) (ttable s)))"
    by (rule exclusive_same [OF s(3)]) (auto simp: tst_def nth_wake_procs)
  show ?thesis
    using n e s(2) unfolding v sched_inv_def
    by (simp add: calm_def threads_ok_def runs_def tst_def)
qed

lemma kill_inv:
  assumes inv: "sched_inv s" and c: "c < length (cpus s)" and st: "kill n (run_on c s) = Ok r v"
  shows "sched_inv v"
proof -
  from inv have s: "calm s" "threads_ok s" "exclusive (runs s) (tst s)" by (simp_all add: sched_inv_def)
  note r = run_on_ok [OF s(1) c]
  have n: "calm (settle (run_on c s))" "runs (settle (run_on c s)) = runs s"
    using calm_settle [OF _ r(1)] s(1) by (simp_all add: calm_def)
  have "v = settle (run_on c s) \<or> (\<exists>p. v = upd_proc p (\<lambda>k. k\<lparr>killed := True\<rparr>) (settle (run_on c s)))"
    using st kill_ok [OF r(2), of n] s(1)
    by (cases "scan (\<lambda>p. pid p = n) (procs s)") (simp_all add: calm_def del: scan_None_iff, blast+)
  then show ?thesis
    using n s(2,3) unfolding sched_inv_def
    by (auto simp: calm_def threads_ok_def runs_def tst_def nth_update_at)
qed

lemma sched_inv_step:
  assumes "sched_inv s" and "sched_step s v"
  shows "sched_inv v"
  using assms(2)
proof cases
  case (yield_idle c t u p)
  note r = running_in_range [OF assms(1) yield_idle(1,2)]
  note g = gave_up [OF assms(1) yield_idle(1,2) _ yield_effect [OF r(1) yield_idle(1,2) r(2) yield_idle(3)]]
  show ?thesis by (rule continue_inv(1) [OF g yield_idle(4,5)]) simp_all
next
  case (yield_next c t u p q t' w)
  note r = running_in_range [OF assms(1) yield_next(1,2)]
  note g = gave_up [OF assms(1) yield_next(1,2) _ yield_effect [OF r(1) yield_next(1,2) r(2) yield_next(3)]]
  show ?thesis by (rule continue_inv(2) [OF g yield_next(4,5) _ yield_next(6)]) simp_all
next
  case (sleep_idle c t lk ch u p)
  note r = running_in_range [OF assms(1) sleep_idle(1,2)]
  note g = gave_up [OF assms(1) sleep_idle(1,2) _ sleep_effect [OF r(1) sleep_idle(1,2) r(2) sleep_idle(3-5)]]
  show ?thesis by (rule continue_inv(1) [OF g sleep_idle(6,7)]) simp_all
next
  case (sleep_next c t lk ch u p q t' w)
  note r = running_in_range [OF assms(1) sleep_next(1,2)]
  note g = gave_up [OF assms(1) sleep_next(1,2) _ sleep_effect [OF r(1) sleep_next(1,2) r(2) sleep_next(3-5)]]
  show ?thesis by (rule continue_inv(2) [OF g sleep_next(6,7) _ sleep_next(8)]) simp_all
qed (use assms(1) begin_inv wake_inv kill_inv in blast)+


definition sched_boot :: "'m ptable_scheme \<Rightarrow> bool" where
  "sched_boot s \<longleftrightarrow> calm s \<and> threads_ok s \<and>
     (\<forall>k\<in>set (cpus s). cpu_thread k = None) \<and> (\<forall>k\<in>set (ttable s). tstate k \<noteq> RUNNING)"

interpretation sched_invariant: step_invariant sched_boot sched_step sched_inv
proof unfold_locales
  fix s :: "'m ptable_scheme" assume "sched_boot s"
  then show "sched_inv s"
    by (auto simp: sched_boot_def sched_inv_def exclusive_def runs_def tst_def)
qed (rule sched_inv_step)

subsection \<open>Properties\<close>

text \<open>C4. \<open>wakeup(chan)\<close> returns, makes every thread that sleeps on the channel and lies in the
  row of a process in use runnable, and changes nothing else in the two tables.\<close>

theorem wakeup_wakes_exactly_the_sleepers:
  assumes "cpu_inv s" and "lock_free LkPtable s"
  shows "\<exists>s'. wakeup (Some ch) s = Ok () s' \<and> procs s' = procs s \<and> length (ttable s') = length (ttable s) \<and>
     (\<forall>i < length (ttable s). ttable s' ! i =
        (if (\<exists>p\<in>set (procs s). pstate p \<noteq> UNUSED \<and> p_threads p \<le> i \<and> i < p_threads p + NTHREAD) \<and>
            tstate (ttable s ! i) = SLEEPING \<and> chan (ttable s ! i) = Some ch
         then (ttable s ! i)\<lparr>tstate := RUNNABLE\<rparr> else ttable s ! i))"
  using assms by (simp add: wakeup_ok nth_wake_procs row_def)


text \<open>C2. From a state in which no processor runs a thread, however the processors schedule,
  yield, sleep, wake and kill: the thread a processor records is \<open>RUNNING\<close>, two processors never
  record the same thread, and every \<open>RUNNING\<close> thread is recorded by a processor.\<close>

theorem thread_runs_on_at_most_one_cpu:
  assumes "sched_boot s" and "reach sched_step s v"
  shows "(\<forall>c < length (cpus v). \<forall>d < length (cpus v). \<forall>t.
        cpu_thread (cpus v ! c) = Some t \<longrightarrow> cpu_thread (cpus v ! d) = Some t \<longrightarrow> c = d) \<and>
     (\<forall>t < length (ttable v). tstate (ttable v ! t) = RUNNING \<longleftrightarrow>
        (\<exists>c < length (cpus v). cpu_thread (cpus v ! c) = Some t))"
proof -
  have e: "exclusive (runs v) (tst v)"
    using sched_invariant.inv_reach [OF assms] by (simp add: sched_inv_def)
  show ?thesis using exclusiveD [OF e] by (simp add: runs_def tst_def) (metis nth_map)
qed

text \<open>C5. The scheduler is work-conserving: when some process in use has a runnable thread and
  the processes in use have a page table and their runnable threads a kernel stack, one pass picks
  a runnable thread of a process in use, marks it running, records it on the processor and
  installs the page table of its process.\<close>

theorem scheduler_dispatches_a_runnable_thread:
  assumes "calm s" and "c < length (cpus s)" and "threads_ok s"
    and "p < NPROC" and "pstate (procs s ! p) = USED" and "t \<in> set (row (p_threads (procs s ! p)))"
    and "tstate (ttable s ! t) = RUNNABLE"
    and "\<And>p t. p < NPROC \<Longrightarrow> pstate (procs s ! p) = USED \<Longrightarrow> t \<in> set (row (p_threads (procs s ! p))) \<Longrightarrow>
       tstate (ttable s ! t) = RUNNABLE \<Longrightarrow> pgdir (procs s ! p) \<noteq> 0 \<and> kstack (ttable s ! t) \<noteq> 0"
  shows "\<exists>q k u. scheduler_begin (run_on c s) = Ok (Some (q, k)) u \<and>
     q < NPROC \<and> pstate (procs s ! q) = USED \<and> k \<in> set (row (p_threads (procs s ! q))) \<and>
     tstate (ttable s ! k) = RUNNABLE \<and> tstate (ttable u ! k) = RUNNING \<and>
     cpu_proc (cpus u ! c) = Some q \<and> cpu_thread (cpus u ! c) = Some k \<and> cr3 u = V2P (pgdir (procs s ! q))"
proof -
  note ro = run_on_ok [OF assms(1,2)] and a = busy_acq [OF assms(1,2)]
  note b = busyD [OF a(1)]
  have e: "(run_on c s)\<lparr>eflags_if := True\<rparr> = run_on c s" by (simp add: run_on_def)
  have "pick_proc (procs s) (ttable s) [0 ..< NPROC] \<noteq> None"
    using assms(4-7) by (auto simp: pick_proc_None simp del: not_None_eq)
  then obtain q k where pick: "pick_proc (procs s) (ttable s) [0 ..< NPROC] = Some (q, k)" by auto
  note pk = pick_proc_SomeD [OF pick]
  have l: "k < length (ttable s)" using pk pick_in_range [OF assms(3), of q k] by (simp add: row_def)
  have "kstack (ttable (acq LkPtable (run_on c s)) ! k) \<noteq> 0" "pgdir (procs (acq LkPtable (run_on c s)) ! q) \<noteq> 0"
    using pk assms(8) [of q k] by simp_all
  note d = dispatch_run [OF b(1) this]
  have s: "scheduler_begin (run_on c s) = dispatch (Some (q, k)) (acq LkPtable (run_on c s))"
    using assms(1) ro pick by (simp add: scheduler_begin_def kexec e calm_def)
  show ?thesis
    unfolding s d using pk l b(3,5) assms(2) by (simp add: cpus_upd_cur) (simp add: upd_thread_def)
qed

subsection \<open>A concrete machine\<close>

text \<open>
  The tables as the loader leaves them (all zero), two processors, and one process with a
  runnable thread.
\<close>

definition tf0 :: trapframe where
  "tf0 = \<lparr>tf_edi = 0, tf_esi = 0, tf_ebp = 0, tf_oesp = 0, tf_ebx = 0, tf_edx = 0, tf_ecx = 0, tf_eax = 0,
     tf_gs = 0, tf_fs = 0, tf_es = 0, tf_ds = 0, tf_trapno = 0, tf_err = 0, tf_eip = 0, tf_cs = 0,
     tf_eflags = 0, tf_esp = 0, tf_ss = 0\<rparr>"

definition thread0 :: kthread where
  "thread0 = \<lparr>kstack = 0, ustack = 0, tstate = UNINIT, tid = 0, tproc = None, tf = tf0,
     tcontext = \<lparr>ctx_edi = 0, ctx_esi = 0, ctx_ebx = 0, ctx_ebp = 0, ctx_eip = 0\<rparr>,
     chan = None, exitRequest = False, sched_intena = False\<rparr>"

definition proc0 :: proc where
  "proc0 = \<lparr>sz = 0, pgdir = 0, pstate = UNUSED, pid = 0, parent = None, killed = False,
     ofile = replicate NOFILE None, cwd = None, pname = [], p_threads = 0\<rparr>"

definition cpu0 :: "nat \<Rightarrow> cpu" where
  "cpu0 i = \<lparr>apicid = i, started = 1, ncli = 0, intena = False, cpu_proc = None, cpu_thread = None, ts_esp0 = 0\<rparr>"

definition ready :: ptable where
  "ready = \<lparr>eflags_if = True, lapic_id = 0, cr3 = 0, cpus = [cpu0 0, cpu0 1],
     locks = (\<lambda>_. \<lparr>locked = 0, lk_name = [], lk_cpu = None\<rparr>),
     procs = proc0\<lparr>pgdir := 0x80200000, pstate := USED, pid := 1\<rparr> # replicate 63 proc0,
     ttable = thread0\<lparr>kstack := 0x80300000, tstate := RUNNABLE, tid := 1, tproc := Some 0\<rparr> # replicate 1024 thread0,
     initproc = Some 0, nextpid = 2, nexttid = 2, kpgdir = 0x80400000\<rparr>"

definition parked :: ptable where
  "parked = ready\<lparr>cpus := [(cpu0 0)\<lparr>cpu_proc := Some 0, cpu_thread := Some 0\<rparr>, cpu0 1],
     ttable := thread0\<lparr>kstack := 0x80300000, tstate := RUNNING, tid := 1, tproc := Some 0\<rparr> # replicate 1024 thread0\<rparr>"

lemma nth_Cons_replicate: "i < Suc n \<Longrightarrow> (x # replicate n y) ! i = (if i = 0 then x else y)"
  by (cases i) simp_all

lemma ready_calm: "calm ready" "calm parked" "cpu_inv ready" "lock_free lk ready" "lock_free lk parked"
  by (simp_all add: calm_def ready_def parked_def cpu0_def lock_free_def cpu_inv_def this_cpu_def cur_def)

lemma ready_threads: "threads_ok ready" "length (ttable ready) = 1025" "length (ttable parked) = 1025"
  by (simp_all add: threads_ok_def ready_def parked_def NPROC_def NTHREAD_def nth_Cons_replicate proc0_def)

lemma ready_boot: "sched_boot ready"
  using ready_calm ready_threads by (auto simp: sched_boot_def ready_def cpu0_def thread0_def)

lemma ready_procs:
  assumes "p < NPROC" and "pstate (procs ready ! p) = USED"
  shows "p = 0" and "pgdir (procs ready ! p) = 0x80200000" and "p_threads (procs ready ! p) = 0"
  using assms by (auto simp: ready_def nth_Cons_replicate NPROC_def proc0_def split: if_splits)

lemma ready_runnable:
  "t \<in> set (row 0) \<Longrightarrow> tstate (ttable ready ! t) = RUNNABLE \<longleftrightarrow> t = 0"
  by (auto simp: row_def NTHREAD_def ready_def nth_Cons_replicate thread0_def)

theorem wakeup_wakes_exactly_the_sleepers_witness:
  "\<exists>s'. wakeup (Some ChTicks) ready = Ok () s' \<and> procs s' = procs ready \<and> tstate (ttable s' ! 0) = RUNNABLE"
proof -
  from wakeup_wakes_exactly_the_sleepers [OF ready_calm(3,4)]
  obtain s' where s': "wakeup (Some ChTicks) ready = Ok () s'" "procs s' = procs ready"
    and i: "\<forall>i < length (ttable ready). ttable s' ! i =
        (if (\<exists>p\<in>set (procs ready). pstate p \<noteq> UNUSED \<and> p_threads p \<le> i \<and> i < p_threads p + NTHREAD) \<and>
            tstate (ttable ready ! i) = SLEEPING \<and> chan (ttable ready ! i) = Some ChTicks
         then (ttable ready ! i)\<lparr>tstate := RUNNABLE\<rparr> else ttable ready ! i)" by blast
  from i have "ttable s' ! 0 = ttable ready ! 0"
    by (simp add: ready_threads) (simp add: ready_def thread0_def)
  with s' show ?thesis by (simp add: ready_def)
qed


theorem scheduler_dispatches_a_runnable_thread_witness:
  "\<exists>q k u. scheduler_begin (run_on 1 ready) = Ok (Some (q, k)) u \<and> tstate (ttable u ! k) = RUNNING \<and>
     cpu_thread (cpus u ! 1) = Some k"
proof -
  have a: "1 < length (cpus ready)" "0 < NPROC" "pstate (procs ready ! 0) = USED"
      "0 \<in> set (row (p_threads (procs ready ! 0)))" "tstate (ttable ready ! 0) = RUNNABLE"
    by (simp_all add: ready_def NPROC_def proc0_def row_def NTHREAD_def)
  have b: "pgdir (procs ready ! p) \<noteq> 0 \<and> kstack (ttable ready ! t) \<noteq> 0"
    if "p < NPROC" "pstate (procs ready ! p) = USED" "t \<in> set (row (p_threads (procs ready ! p)))"
      "tstate (ttable ready ! t) = RUNNABLE" for p t
    using ready_procs [OF that(1,2)] that(3,4) ready_runnable [of t] by (simp add: ready_def)
  from scheduler_dispatches_a_runnable_thread [OF ready_calm(1) a(1) ready_threads(1) a(2-5) b]
  show ?thesis by blast
qed

text \<open>One pass of the scheduler on the second processor leads to a state in which its thread runs there.\<close>

lemma ready_step:
  "\<exists>v. sched_step ready v \<and> runs v = [None, Some 0]"
proof -
  note ro = run_on_ok [OF ready_calm(1), of 1] and ba = busy_acq [OF ready_calm(1), of 1]
  have l: "1 < length (cpus ready)" by (simp add: ready_def)
  have pick: "pick_proc (procs ready) (ttable ready) [0 ..< NPROC] = Some (0, 0)"
    by (simp add: NPROC_def upt_rec pick_thread_def row_def NTHREAD_def ready_def proc0_def)
  have "kstack (ttable (acq LkPtable (run_on 1 ready)) ! 0) \<noteq> 0" "pgdir (procs (acq LkPtable (run_on 1 ready)) ! 0) \<noteq> 0"
    by (simp_all add: ready_def)
  note d = dispatch_run [OF busyD(1) [OF ba(1) [OF l]] this]
  have e: "(run_on c ready)\<lparr>eflags_if := True\<rparr> = run_on c ready" for c by (simp add: run_on_def)
  have b: "scheduler_begin (run_on 1 ready) = dispatch (Some (0, 0)) (acq LkPtable (run_on 1 ready))"
    using ready_calm ro(2) [OF l] pick by (simp add: scheduler_begin_def kexec e)
  from b d obtain u where u: "scheduler_begin (run_on 1 ready) = Ok (Some (0, 0)) u" by auto
  note eff = scheduler_begin_effect(3) [OF ready_calm(1) l u pick refl]
  have r: "runs ready = [None, None]" by (simp add: ready_def runs_def cpu0_def)
  have n: "runs ready ! 1 = None" by (simp add: r)
  have "resumes u (rel LkPtable u)" using busy_release(1) eff by (blast intro: resumes.first)
  from sched_step.pick [OF l n u this] busy_release(3) [of 1 u] eff r
  show ?thesis by (intro exI [of _ "rel LkPtable u"]) simp
qed

theorem thread_runs_on_at_most_one_cpu_witness:
  "\<exists>v. reach sched_step ready v \<and> runs v = [None, Some 0] \<and> tstate (ttable v ! 0) = RUNNING"
proof -
  from ready_step obtain v where v: "sched_step ready v" "runs v = [None, Some 0]" by blast
  have r: "reach sched_step ready v" by (rule reach_one) (rule v(1))
  have "sched_inv v" by (rule sched_invariant.inv_reach [OF ready_boot r])
  then have l: "0 < length (ttable v)" using exclusiveD(1) [of "runs v" "tst v" 1 0] v(2) by (simp add: sched_inv_def)
  have c: "length (cpus v) = 2" "cpu_thread (cpus v ! 1) = Some 0"
    using v(2) length_tst_runs(2) [of v] nth_map [of 1 "cpus v" cpu_thread] by (simp_all add: runs_def)
  from thread_runs_on_at_most_one_cpu [OF ready_boot r] l c have "tstate (ttable v ! 0) = RUNNING" by auto
  with r v(2) show ?thesis by blast
qed

end
