(* ===== verification/Sleeplock.thy ===== *)
theory Sleeplock
  imports Sched
begin

text \<open>
  Sleeping locks (\<open>sleeplock.c\<close>), which protect disk buffers and inodes across blocking
  operations. A lock is named by the object it lives in; its spinlock and its sleep channel follow
  from the name.
\<close>

subsection \<open>State and operations\<close>

datatype slid = SlBuf nat | SlInode nat

record sleeplock =
  slocked :: bool
  sl_pid :: int

record sltable = ptable +
  sleeplocks :: "slid \<Rightarrow> sleeplock"

lemma sleeplocks_frame [simp]:
  "sleeplocks (push s) = sleeplocks s"
  "sleeplocks (pop s) = sleeplocks s"
  "sleeplocks (settle s) = sleeplocks s"
  "sleeplocks (acq lk s) = sleeplocks s"
  "sleeplocks (rel lk s) = sleeplocks s"
  "sleeplocks (upd_cpu c g s) = sleeplocks s"
  "sleeplocks (upd_cur g s) = sleeplocks s"
  "sleeplocks (upd_lock lk h s) = sleeplocks s"
  "sleeplocks (upd_thread t k s) = sleeplocks s"
  "sleeplocks (upd_proc p q s) = sleeplocks s"
  "sleeplocks (run_on c s) = sleeplocks s"
  "settle (s\<lparr>sleeplocks := x\<rparr>) = (settle s)\<lparr>sleeplocks := x\<rparr>"
  "acq lk (s\<lparr>sleeplocks := x\<rparr>) = (acq lk s)\<lparr>sleeplocks := x\<rparr>"
  "rel lk (s\<lparr>sleeplocks := x\<rparr>) = (rel lk s)\<lparr>sleeplocks := x\<rparr>"
  "upd_cpu c g (s\<lparr>sleeplocks := x\<rparr>) = (upd_cpu c g s)\<lparr>sleeplocks := x\<rparr>"
  "upd_cur g (s\<lparr>sleeplocks := x\<rparr>) = (upd_cur g s)\<lparr>sleeplocks := x\<rparr>"
  "upd_lock lk h (s\<lparr>sleeplocks := x\<rparr>) = (upd_lock lk h s)\<lparr>sleeplocks := x\<rparr>"
  "upd_thread t k (s\<lparr>sleeplocks := x\<rparr>) = (upd_thread t k s)\<lparr>sleeplocks := x\<rparr>"
  "upd_proc p q (s\<lparr>sleeplocks := x\<rparr>) = (upd_proc p q s)\<lparr>sleeplocks := x\<rparr>"
  "run_on c (s\<lparr>sleeplocks := x\<rparr>) = (run_on c s)\<lparr>sleeplocks := x\<rparr>"
  "this_cpu (s\<lparr>sleeplocks := x\<rparr>) = this_cpu s"
  "cur (s\<lparr>sleeplocks := x\<rparr>) = cur s"
  "cpu_inv (s\<lparr>sleeplocks := x\<rparr>) = cpu_inv s"
  "in_cs (s\<lparr>sleeplocks := x\<rparr>) = in_cs s"
  "lock_free lk (s\<lparr>sleeplocks := x\<rparr>) = lock_free lk s"
  "lock_held lk (s\<lparr>sleeplocks := x\<rparr>) = lock_held lk s"
  "calm (s\<lparr>sleeplocks := x\<rparr>) = calm s"
  "runs (s\<lparr>sleeplocks := x\<rparr>) = runs s"
  by (simp_all add: frame_ext_defs)

fun sl_lk :: "slid \<Rightarrow> lockid" where
  "sl_lk (SlBuf b) = LkBuf b"
| "sl_lk (SlInode i) = LkInode i"

fun sl_chan :: "slid \<Rightarrow> chan" where
  "sl_chan (SlBuf b) = ChBufLock b"
| "sl_chan (SlInode i) = ChInodeLock i"

definition upd_sl :: "slid \<Rightarrow> sleeplock \<Rightarrow> 'm sltable_scheme \<Rightarrow> 'm sltable_scheme" where
  "upd_sl l v s = s\<lparr>sleeplocks := (sleeplocks s)(l := v)\<rparr>"

definition initsleeplock :: "slid \<Rightarrow> ('m sltable_scheme, unit) kop" where
  "initsleeplock l =
     kseq (initlock (sl_lk l) ''sleep lock'')
     (kmod (upd_sl l \<lparr>slocked = False, sl_pid = 0\<rparr>))"

definition acquiresleep_loop :: "slid \<Rightarrow> ('m sltable_scheme, unit) kop" where
  "acquiresleep_loop l =
     kbind (kget (\<lambda>s. slocked (sleeplocks s l))) (\<lambda>b.
     if b then sleep (sl_chan l) (Some (sl_lk l))
     else
       kseq (kmod (\<lambda>s. upd_sl l ((sleeplocks s l)\<lparr>slocked := True\<rparr>) s))
       (kbind myproc (\<lambda>p0. kbind (deref p0) (\<lambda>p.
       kseq (kmod (\<lambda>s. upd_sl l ((sleeplocks s l)\<lparr>sl_pid := pid (procs s ! p)\<rparr>) s))
       (release (sl_lk l))))))"

definition acquiresleep :: "slid \<Rightarrow> ('m sltable_scheme, unit) kop" where
  "acquiresleep l = kseq (acquire (sl_lk l)) (acquiresleep_loop l)"

definition acquiresleep_resume :: "slid \<Rightarrow> ('m sltable_scheme, unit) kop" where
  "acquiresleep_resume l = kseq (sleep_resume (sl_lk l)) (acquiresleep_loop l)"

definition releasesleep :: "slid \<Rightarrow> ('m sltable_scheme, unit) kop" where
  "releasesleep l =
     kseq (acquire (sl_lk l))
     (kseq (kmod (upd_sl l \<lparr>slocked = False, sl_pid = 0\<rparr>))
     (kseq (wakeup (Some (sl_chan l)))
     (release (sl_lk l))))"

definition holdingsleep :: "slid \<Rightarrow> ('m sltable_scheme, bool) kop" where
  "holdingsleep l =
     kseq (acquire (sl_lk l))
     (kbind (kget (\<lambda>s. slocked (sleeplocks s l))) (\<lambda>b.
     kbind (if b then kbind myproc (\<lambda>p0. kbind (deref p0) (\<lambda>p. kget (\<lambda>s. sl_pid (sleeplocks s l) = pid (procs s ! p))))
            else kret False) (\<lambda>r.
     kseq (release (sl_lk l)) (kret r))))"

subsection \<open>Symbolic execution\<close>

lemma sl_lk_neq [simp]: "sl_lk l \<noteq> LkPtable" "LkPtable \<noteq> sl_lk l"
  by (cases l; simp)+

lemma upd_sl_simps [simp]:
  "sleeplocks (upd_sl l v s) = (sleeplocks s)(l := v)" "procs (upd_sl l v s) = procs s" "ttable (upd_sl l v s) = ttable s"
  "upd_sl l w (upd_sl l v s) = upd_sl l w s"
  "acq lk (upd_sl l v s) = upd_sl l v (acq lk s)" "rel lk (upd_sl l v s) = upd_sl l v (rel lk s)"
  "settle (upd_sl l v s) = upd_sl l v (settle s)"
  "cpu_inv (upd_sl l v s) = cpu_inv s" "in_cs (upd_sl l v s) = in_cs s" "cur (upd_sl l v s) = cur s"
  "lock_free lk (upd_sl l v s) = lock_free lk s" "lock_held lk (upd_sl l v s) = lock_held lk s"
  "this_cpu (upd_sl l v s) = this_cpu s"
  by (simp_all add: upd_sl_def)

lemma acquiresleep_ok [kexec]:
  assumes "cpu_inv s" and "lock_free (sl_lk l) s" and "\<not> slocked (sleeplocks s l)" and "cpu_proc (cur s) = Some p"
  shows "acquiresleep l s = Ok () (upd_sl l ((sleeplocks s l)\<lparr>slocked := True, sl_pid := pid (procs s ! p)\<rparr>) (settle s))"
  using assms by (simp add: acquiresleep_def acquiresleep_loop_def kexec)

lemma acquiresleep_blocks [kexec]:
  assumes "cpu_inv s" and "lock_free (sl_lk l) s" and "lock_free LkPtable s" and "slocked (sleeplocks s l)"
    and "ncli (cur s) = 0" and "cpu_thread (cur s) = Some t" and "t < length (ttable s)"
  shows "acquiresleep l s = Swtch (sleeping t (sl_chan l) (acq LkPtable s))"
  using assms by (simp add: acquiresleep_def acquiresleep_loop_def kexec)

lemma releasesleep_ok [kexec]:
  assumes "cpu_inv s" and "lock_free (sl_lk l) s" and "lock_free LkPtable s"
  shows "releasesleep l s = Ok () ((upd_sl l \<lparr>slocked = False, sl_pid = 0\<rparr> (settle s))
     \<lparr>ttable := wake_procs (Some (sl_chan l)) (procs s) (ttable s)\<rparr>)"
  using assms by (simp add: releasesleep_def kexec)

lemma holdingsleep_ok [kexec]:
  assumes "cpu_inv s" and "lock_free (sl_lk l) s" and "cpu_proc (cur s) = Some p"
  shows "holdingsleep l s = Ok (slocked (sleeplocks s l) \<and> sl_pid (sleeplocks s l) = pid (procs s ! p)) (settle s)"
  using assms by (cases "slocked (sleeplocks s l)") (simp_all add: holdingsleep_def kexec)

subsection \<open>Mutual exclusion\<close>

text \<open>
  Threads that use one sleeping lock, on any processor and under any schedule. The second component
  collects the threads whose last \<open>acquiresleep\<close> returned and that have not released since. Between
  the lock operations the rest of the kernel runs and leaves this lock alone.
\<close>

definition quiet :: "slid \<Rightarrow> 'm sltable_scheme \<Rightarrow> bool" where
  "quiet l s \<longleftrightarrow> calm s \<and> lock_free (sl_lk l) s"

inductive sl_step :: "slid \<Rightarrow> 'm sltable_scheme \<times> nat set \<Rightarrow> 'm sltable_scheme \<times> nat set \<Rightarrow> bool" for l :: slid where
  takes: "quiet l s \<Longrightarrow> on_thread c t s \<Longrightarrow>
     acquiresleep l (run_on c s) = Ok () v \<Longrightarrow> sl_step l (s, H) (v, insert t H)"
| blocks: "quiet l s \<Longrightarrow> on_thread c t s \<Longrightarrow>
     acquiresleep l (run_on c s) = Swtch (u :: 'm sltable_scheme) \<Longrightarrow> quiet l v \<Longrightarrow> sleeplocks v l = sleeplocks u l \<Longrightarrow> sl_step l (s, H) (v, H)"
| wakes: "busy c u \<Longrightarrow> lock_free (sl_lk l) u \<Longrightarrow> sleeplocks u l = sleeplocks s l \<Longrightarrow> on_thread c t u \<Longrightarrow>
     acquiresleep_resume l u = Ok () v \<Longrightarrow> sl_step l (s, H) (v, insert t H)"
| blocks_again: "busy c u \<Longrightarrow> lock_free (sl_lk l) u \<Longrightarrow> sleeplocks u l = sleeplocks s l \<Longrightarrow> on_thread c t u \<Longrightarrow>
     acquiresleep_resume l u = Swtch (w :: 'm sltable_scheme) \<Longrightarrow> quiet l v \<Longrightarrow> sleeplocks v l = sleeplocks w l \<Longrightarrow> sl_step l (s, H) (v, H)"
| gives: "quiet l s \<Longrightarrow> on_thread c t s \<Longrightarrow> t \<in> H \<Longrightarrow>
     releasesleep l (run_on c s) = Ok () v \<Longrightarrow> sl_step l (s, H) (v, H - {t})"
| other: "quiet l v \<Longrightarrow> sleeplocks v l = sleeplocks s l \<Longrightarrow> sl_step l (s, H) (v, H)"

definition sl_inv :: "slid \<Rightarrow> 'm sltable_scheme \<times> nat set \<Rightarrow> bool" where
  "sl_inv l g \<longleftrightarrow> (slocked (sleeplocks (fst g) l) \<longleftrightarrow> snd g \<noteq> {}) \<and> (\<forall>t\<in>snd g. \<forall>t'\<in>snd g. t = t')"

lemma sleep_not_Ok: "sleep ch lk s \<noteq> Ok x v"
  by (auto simp: sleep_def sched_def kexec deref_def split: res.splits if_splits option.splits)

lemma acquiresleep_Ok:
  assumes "acquiresleep l s = Ok () v" and "cpu_inv s" and "lock_free (sl_lk l) s"
  shows "\<not> slocked (sleeplocks s l) \<and> slocked (sleeplocks v l)"
proof -
  have n: "\<not> slocked (sleeplocks s l)"
    using assms by (auto simp: acquiresleep_def acquiresleep_loop_def kexec sleep_not_Ok)
  moreover obtain p where "cpu_proc (cur s) = Some p"
    using n assms by (cases "cpu_proc (cur s)") (simp_all add: acquiresleep_def acquiresleep_loop_def kexec)
  ultimately show ?thesis using assms by (auto simp: acquiresleep_ok)
qed

lemma acquiresleep_Swtch:
  assumes "acquiresleep l s = Swtch u" and "cpu_inv s" and "lock_free (sl_lk l) s" and "lock_free LkPtable s"
    and "ncli (cur s) = 0" and "cpu_thread (cur s) = Some t" and "t < length (ttable s)"
  shows "slocked (sleeplocks s l) \<and> sleeplocks u = sleeplocks s"
proof -
  have "slocked (sleeplocks s l)"
  proof (rule ccontr)
    assume "\<not> slocked (sleeplocks s l)"
    then show False
      using assms by (cases "cpu_proc (cur s)") (simp_all add: acquiresleep_def acquiresleep_loop_def kexec)
  qed
  with assms show ?thesis by (auto simp: acquiresleep_blocks sleeping_def)
qed

lemma acquiresleep_resume_eq:
  assumes "busy c u" and "on_thread c t u" and "lock_free (sl_lk l) u"
  shows "acquiresleep_resume l u = acquiresleep l (resumed t u)"
  using assms unfolding acquiresleep_resume_def acquiresleep_def on_thread_def
  by (simp add: sleep_resume_busy)

lemma resumed_sleeplocks [simp]: "sleeplocks (resumed t s) = sleeplocks s"
  by (simp add: resumed_def)

lemma sl_inv_step:
  assumes "sl_inv l g" and "sl_step l g h"
  shows "sl_inv l h"
  using assms(2)
proof cases
  case (takes s c t v H)
  then have "\<not> slocked (sleeplocks s l) \<and> slocked (sleeplocks v l)"
    using acquiresleep_Ok [OF takes(5)] on_threadD [OF takes(4)] by (simp add: quiet_def)
  then show ?thesis using assms(1) takes(1,2) by (auto simp: sl_inv_def)
next
  case (blocks s c t u v H)
  then show ?thesis
    using acquiresleep_Swtch [OF blocks(5), of t] on_threadD [OF blocks(4)] assms(1)
    by (simp add: sl_inv_def quiet_def)
next
  case (wakes c u s t v H)
  have t: "runs u ! c = Some t" using wakes(6) by (simp add: on_thread_def)
  have "acquiresleep l (resumed t u) = Ok () v"
    using wakes(7) unfolding acquiresleep_resume_eq [OF wakes(3,6,4)] .
  from acquiresleep_Ok [OF this] have "\<not> slocked (sleeplocks u l) \<and> slocked (sleeplocks v l)"
    using resumed_calm [OF wakes(3) t] wakes(4) by simp
  then show ?thesis using assms(1) wakes(1,2,5) by (auto simp: sl_inv_def)
next
  case (blocks_again c u s t w v H)
  have t: "runs u ! c = Some t" "t < length (ttable (resumed t u))"
    using blocks_again(6) by (simp_all add: on_thread_def resumed_def)
  have "acquiresleep l (resumed t u) = Swtch w"
    using blocks_again(7) unfolding acquiresleep_resume_eq [OF blocks_again(3,6,4)] .
  from acquiresleep_Swtch [OF this _ _ _ _ _ t(2)] have "sleeplocks w = sleeplocks u"
    using resumed_calm [OF blocks_again(3) t(1)] blocks_again(4) by (simp add: calm_def)
  then show ?thesis using assms(1) blocks_again(1,2,5,9) by (auto simp: sl_inv_def)
next
  case (gives s c t H v)
  then have "releasesleep l (run_on c s) = Ok () ((upd_sl l \<lparr>slocked = False, sl_pid = 0\<rparr> (settle (run_on c s)))
     \<lparr>ttable := wake_procs (Some (sl_chan l)) (procs s) (ttable s)\<rparr>)"
    using on_threadD [OF gives(4)] by (simp add: releasesleep_ok quiet_def)
  then show ?thesis using gives assms(1) by (auto simp: sl_inv_def)
next
  case (other v s H)
  then show ?thesis using assms(1) by (simp add: sl_inv_def)
qed

definition sl_init :: "slid \<Rightarrow> 'm sltable_scheme \<times> nat set \<Rightarrow> bool" where
  "sl_init l g \<longleftrightarrow> \<not> slocked (sleeplocks (fst g) l) \<and> snd g = {}"

interpretation sl_invariant: step_invariant "sl_init l" "sl_step l" "sl_inv l" for l
proof unfold_locales
  fix g :: "'m sltable_scheme \<times> nat set" assume "sl_init l g"
  then show "sl_inv l g" by (simp add: sl_init_def sl_inv_def)
qed (rule sl_inv_step)

text \<open>C11. A sleeping lock excludes: from a lock that is free, however threads on any processors
  acquire it, block on it, are woken and release it, at most one thread is between a returned
  \<open>acquiresleep\<close> and its \<open>releasesleep\<close>, and the lock's flag says whether there is one.\<close>

theorem sleeplock_mutual_exclusion:
  assumes "\<not> slocked (sleeplocks s l)" and "reach (sl_step l) (s, {}) (v, H)"
  shows "card H \<le> 1 \<and> (slocked (sleeplocks v l) \<longleftrightarrow> H \<noteq> {})"
proof -
  have "sl_inv l (v, H)"
    using assms by (intro sl_invariant.inv_reach [of l "(s, {})"]) (simp_all add: sl_init_def)
  then have "(\<forall>t\<in>H. \<forall>t'\<in>H. t = t') \<and> (slocked (sleeplocks v l) \<longleftrightarrow> H \<noteq> {})" by (simp add: sl_inv_def)
  moreover from this have "H = {} \<or> (\<exists>t. H = {t})" by blast
  ultimately show ?thesis by auto
qed

text \<open>The machine of two processors with the thread of its first process running and every lock free.\<close>

definition parked_sl :: sltable where
  "parked_sl = ptable.extend parked \<lparr>sleeplocks = (\<lambda>_. \<lparr>slocked = False, sl_pid = 0\<rparr>)\<rparr>"

lemma parked_sl_ok: "quiet l parked_sl" "on_thread 0 0 parked_sl" "cpu_proc (cpus parked_sl ! 0) = Some 0"
  using ready_calm ready_threads
  by (simp_all add: parked_sl_def quiet_def calm_def on_thread_def runs_def lock_free_def ptable.extend_def parked_def)

theorem sleeplock_mutual_exclusion_witness:
  "\<exists>v. reach (sl_step (SlBuf 3)) (parked_sl, {}) (v, {0}) \<and> card {0 :: nat} \<le> 1 \<and> slocked (sleeplocks v (SlBuf 3))"
proof -
  have calm: "calm parked_sl" using parked_sl_ok(1) by (simp add: quiet_def)
  note o = on_threadD [OF parked_sl_ok(2) calm]
  have free: "\<not> slocked (sleeplocks parked_sl (SlBuf 3))" by (simp add: parked_sl_def ptable.extend_def)
  have p: "cpu_proc (cur (run_on 0 parked_sl)) = Some 0" using o(6) parked_sl_ok(3) by simp
  have "lock_free (sl_lk (SlBuf 3)) (run_on 0 parked_sl)" using parked_sl_ok(1) [of "SlBuf 3"] by (simp add: quiet_def)
  from acquiresleep_ok [OF o(1) this _ p] free
  obtain v where "acquiresleep (SlBuf 3) (run_on 0 parked_sl) = Ok () v" by simp
  from sl_step.takes [OF parked_sl_ok(1,2) this, of "{}"]
  have r: "reach (sl_step (SlBuf 3)) (parked_sl, {}) (v, {0})" by (intro reach_one) simp
  from sleeplock_mutual_exclusion [OF free r] r show ?thesis by blast
qed

end
