(* ===== verification/Mutex.thy ===== *)
theory Mutex
  imports Sleeplock
begin

text \<open>
  The mutexes of the thread package (\<open>mutex.c\<close>): a table of \<open>MAX_MUTEXES\<close> mutexes with
  allocation, deallocation, lock and unlock. A thread that finds the mutex locked sleeps; the rest of
  its call is \<open>mutex_lock_resume\<close>.
\<close>

subsection \<open>State\<close>

definition MAX_MUTEXES :: nat where "MAX_MUTEXES = 64"

record mutex =
  mid :: int
  mlocked :: int
  mtid :: int
  mused :: bool
  mwaiting :: int

text \<open>
  The table has one slot more than the C array: the memory behind the array, which lock, unlock and
  dealloc read when no mutex of the table has the id they look for.
\<close>

record mtable = sltable +
  mutexes :: "mutex list"

lemma mutexes_frame [simp]:
  "mutexes (push s) = mutexes s"
  "mutexes (pop s) = mutexes s"
  "mutexes (settle s) = mutexes s"
  "mutexes (acq lk s) = mutexes s"
  "mutexes (rel lk s) = mutexes s"
  "mutexes (upd_cpu c g s) = mutexes s"
  "mutexes (upd_cur g s) = mutexes s"
  "mutexes (upd_lock lk h s) = mutexes s"
  "mutexes (upd_thread t k s) = mutexes s"
  "mutexes (upd_proc p q s) = mutexes s"
  "mutexes (run_on c s) = mutexes s"
  "settle (s\<lparr>mutexes := x\<rparr>) = (settle s)\<lparr>mutexes := x\<rparr>"
  "acq lk (s\<lparr>mutexes := x\<rparr>) = (acq lk s)\<lparr>mutexes := x\<rparr>"
  "rel lk (s\<lparr>mutexes := x\<rparr>) = (rel lk s)\<lparr>mutexes := x\<rparr>"
  "upd_cpu c g (s\<lparr>mutexes := x\<rparr>) = (upd_cpu c g s)\<lparr>mutexes := x\<rparr>"
  "upd_cur g (s\<lparr>mutexes := x\<rparr>) = (upd_cur g s)\<lparr>mutexes := x\<rparr>"
  "upd_lock lk h (s\<lparr>mutexes := x\<rparr>) = (upd_lock lk h s)\<lparr>mutexes := x\<rparr>"
  "upd_thread t k (s\<lparr>mutexes := x\<rparr>) = (upd_thread t k s)\<lparr>mutexes := x\<rparr>"
  "upd_proc p q (s\<lparr>mutexes := x\<rparr>) = (upd_proc p q s)\<lparr>mutexes := x\<rparr>"
  "run_on c (s\<lparr>mutexes := x\<rparr>) = (run_on c s)\<lparr>mutexes := x\<rparr>"
  "this_cpu (s\<lparr>mutexes := x\<rparr>) = this_cpu s"
  "cur (s\<lparr>mutexes := x\<rparr>) = cur s"
  "cpu_inv (s\<lparr>mutexes := x\<rparr>) = cpu_inv s"
  "in_cs (s\<lparr>mutexes := x\<rparr>) = in_cs s"
  "lock_free lk (s\<lparr>mutexes := x\<rparr>) = lock_free lk s"
  "lock_held lk (s\<lparr>mutexes := x\<rparr>) = lock_held lk s"
  "calm (s\<lparr>mutexes := x\<rparr>) = calm s"
  "runs (s\<lparr>mutexes := x\<rparr>) = runs s"
  by (simp_all add: frame_ext_defs)

lemma mutexes_sl [simp]: "mutexes (upd_sl l v s) = mutexes s" "mutexes (resumed t s) = mutexes s"
  by (simp_all add: upd_sl_def resumed_def)

definition upd_mutex :: "nat \<Rightarrow> (mutex \<Rightarrow> mutex) \<Rightarrow> 'm mtable_scheme \<Rightarrow> 'm mtable_scheme" where
  "upd_mutex m f s = s\<lparr>mutexes := (mutexes s)[m := f (mutexes s ! m)]\<rparr>"

subsection \<open>Operations\<close>

definition kthread_mutex_alloc :: "('m mtable_scheme, int) kop" where
  "kthread_mutex_alloc =
     kseq (acquire LkMutexTable)
     (kbind (kget (\<lambda>s. scan (\<lambda>m. \<not> mused m) (take MAX_MUTEXES (mutexes s)))) (\<lambda>r.
     kseq (case r of
             Some i \<Rightarrow> kmod (upd_mutex i (\<lambda>m. m\<lparr>mid := int i, mlocked := 0, mtid := 0, mused := True, mwaiting := 0\<rparr>))
           | None \<Rightarrow> kret ())
     (kseq (release LkMutexTable)
     (kret (case r of Some i \<Rightarrow> int i | None \<Rightarrow> - 1)))))"

text \<open>The search all three other operations start with; it ends behind the table when the id is not there.\<close>

definition mutex_index :: "int \<Rightarrow> mutex list \<Rightarrow> nat" where
  "mutex_index i ms = (case scan (\<lambda>m. mid m = i) (take MAX_MUTEXES ms) of Some k \<Rightarrow> k | None \<Rightarrow> MAX_MUTEXES)"

definition kthread_mutex_dealloc :: "int \<Rightarrow> ('m mtable_scheme, int) kop" where
  "kthread_mutex_dealloc i =
     kseq (acquire LkMutexTable)
     (kbind (kget (\<lambda>s. mutex_index i (mutexes s))) (\<lambda>m.
     kbind (kget (\<lambda>s. mutexes s ! m)) (\<lambda>x.
     if m < MAX_MUTEXES then
       if mlocked x = 1 then kseq (release LkMutexTable) (kret (- 1))
       else if \<not> mused x then kseq (release LkMutexTable) (kret (- 1))
       else
         kseq (kmod (upd_mutex m (\<lambda>x. x\<lparr>mid := 0, mlocked := 0, mtid := 0, mused := False, mwaiting := 0\<rparr>)))
         (kseq (release LkMutexTable) (kret 0))
     else if mid x \<noteq> i then kseq (release LkMutexTable) (kret (- 1))
     else kseq (release LkMutexTable) (kret (- 1)))))"

definition mutex_find :: "int \<Rightarrow> ('m mtable_scheme, nat) kop" where
  "mutex_find i =
     kseq (acquire LkMutexTable)
     (kbind (kget (\<lambda>s. mutex_index i (mutexes s))) (\<lambda>m.
     kseq (release LkMutexTable) (kret m)))"

text \<open>What the call does to the mutex: counting the caller among the waiters, and taking a free mutex.\<close>

definition mtx_enter :: "int \<Rightarrow> mutex \<Rightarrow> mutex" where
  "mtx_enter i m = (if mtid m \<noteq> i then m\<lparr>mwaiting := mwaiting m + 1\<rparr> else m)"

definition mtx_grab :: "int \<Rightarrow> mutex \<Rightarrow> mutex" where
  "mtx_grab i m0 =
     (let m = (if mtid m0 \<noteq> i then m0\<lparr>mwaiting := mwaiting m0 - 1\<rparr> else m0)
      in if mtid m \<noteq> i \<or> (mtid m = i \<and> mwaiting m = 0) then m\<lparr>mlocked := 1, mtid := i\<rparr> else m)"

definition mutex_lock_loop :: "nat \<Rightarrow> nat \<Rightarrow> ('m mtable_scheme, int) kop" where
  "mutex_lock_loop m t =
     kbind (kget (\<lambda>s. mlocked (mutexes s ! m))) (\<lambda>l.
     if l \<noteq> 0 then kseq (sleep (ChMutexTid m) (Some (LkMutex m))) (kret 0)
     else
       kseq (kmod (\<lambda>s. upd_mutex m (mtx_grab (tid (ttable s ! t))) s))
       (kseq (release (LkMutex m)) (kret 0)))"

definition mutex_lock_enter :: "nat \<Rightarrow> nat \<Rightarrow> ('m mtable_scheme, int) kop" where
  "mutex_lock_enter m t =
     kseq (acquire (LkMutex m))
     (kseq (kmod (\<lambda>s. upd_mutex m (mtx_enter (tid (ttable s ! t))) s))
     (mutex_lock_loop m t))"

definition mutex_lock_resume :: "nat \<Rightarrow> nat \<Rightarrow> ('m mtable_scheme, int) kop" where
  "mutex_lock_resume m t = kseq (sleep_resume (LkMutex m)) (mutex_lock_loop m t)"

definition kthread_mutex_lock :: "int \<Rightarrow> ('m mtable_scheme, int) kop" where
  "kthread_mutex_lock i =
     kbind (mutex_find i) (\<lambda>m.
     kbind (kget (\<lambda>s. mutexes s ! m)) (\<lambda>x.
     if mid x \<noteq> i then kret (- 1)
     else if \<not> mused x then kret (- 1)
     else kbind mythread (\<lambda>t0. kbind (deref t0) (mutex_lock_enter m))))"

definition mutex_unlock_enter :: "nat \<Rightarrow> ('m mtable_scheme, int) kop" where
  "mutex_unlock_enter m =
     kseq (acquire (LkMutex m))
     (kbind (kget (\<lambda>s. mlocked (mutexes s ! m))) (\<lambda>l.
     if l = 0 then kseq (release (LkMutex m)) (kret (- 1))
     else
       kseq (kmod (upd_mutex m (\<lambda>x. x\<lparr>mlocked := 0\<rparr>)))
       (kseq (release (LkMutex m))
       (kseq (wakeup (Some (ChMutexTid m)))
       (kret 0)))))"

definition kthread_mutex_unlock :: "int \<Rightarrow> ('m mtable_scheme, int) kop" where
  "kthread_mutex_unlock i =
     kbind (mutex_find i) (\<lambda>m.
     kbind (kget (\<lambda>s. mutexes s ! m)) (\<lambda>x.
     if mid x \<noteq> i then kret (- 1)
     else kbind mythread (\<lambda>t0. kbind (deref t0) (\<lambda>t.
     kbind (kget (\<lambda>s. tid (ttable s ! t) \<noteq> mtid (mutexes s ! m))) (\<lambda>w.
     if w then kret (- 1) else mutex_unlock_enter m)))))"


subsection \<open>Symbolic execution\<close>

lemma upd_mutex_simps [simp]:
  "mutexes (upd_mutex m f s) = (mutexes s)[m := f (mutexes s ! m)]"
  "procs (upd_mutex m f s) = procs s" "ttable (upd_mutex m f s) = ttable s"
  "acq lk (upd_mutex m f s) = upd_mutex m f (acq lk s)" "rel lk (upd_mutex m f s) = upd_mutex m f (rel lk s)"
  "settle (upd_mutex m f s) = upd_mutex m f (settle s)"
  "upd_thread t k (upd_mutex m f s) = upd_mutex m f (upd_thread t k s)"
  "cpu_inv (upd_mutex m f s) = cpu_inv s" "in_cs (upd_mutex m f s) = in_cs s" "cur (upd_mutex m f s) = cur s"
  "lock_free lk (upd_mutex m f s) = lock_free lk s" "lock_held lk (upd_mutex m f s) = lock_held lk s"
  "this_cpu (upd_mutex m f s) = this_cpu s"
  by (simp_all add: upd_mutex_def)

lemma upd_mutex_compose: "upd_mutex m f (upd_mutex m g s) = upd_mutex m (\<lambda>x. f (g x)) s"
  by (cases "m < length (mutexes s)") (simp_all add: upd_mutex_def list_update_beyond)

lemma sleeping_upd_mutex [simp]: "sleeping t ch (upd_mutex m f s) = upd_mutex m f (sleeping t ch s)"
  "mutexes (sleeping t ch s) = mutexes s"
  by (simp_all add: sleeping_def)

lemma mutex_find_ok [kexec]:
  assumes "cpu_inv s" and "lock_free LkMutexTable s"
  shows "mutex_find i s = Ok (mutex_index i (mutexes s)) (settle s)"
  using assms by (simp add: mutex_find_def kexec)

lemma kthread_mutex_alloc_ok [kexec]:
  assumes "cpu_inv s" and "lock_free LkMutexTable s"
  shows "kthread_mutex_alloc s =
     (case scan (\<lambda>m. \<not> mused m) (take MAX_MUTEXES (mutexes s)) of
        Some i \<Rightarrow> Ok (int i) (upd_mutex i (\<lambda>m. m\<lparr>mid := int i, mlocked := 0, mtid := 0, mused := True, mwaiting := 0\<rparr>) (settle s))
      | None \<Rightarrow> Ok (- 1) (settle s))"
  using assms by (cases "scan (\<lambda>m. \<not> mused m) (take MAX_MUTEXES (mutexes s))")
    (simp_all add: kthread_mutex_alloc_def kexec del: scan_None_iff)

lemma kthread_mutex_dealloc_ok [kexec]:
  assumes "cpu_inv s" and "lock_free LkMutexTable s"
  shows "kthread_mutex_dealloc i s =
     (let m = mutex_index i (mutexes s); x = mutexes s ! m
      in if m < MAX_MUTEXES \<and> mlocked x \<noteq> 1 \<and> mused x
         then Ok 0 (upd_mutex m (\<lambda>x. x\<lparr>mid := 0, mlocked := 0, mtid := 0, mused := False, mwaiting := 0\<rparr>) (settle s))
         else Ok (- 1) (settle s))"
  using assms by (simp add: kthread_mutex_dealloc_def kexec Let_def)

lemma mtx_enter_locked [simp]: "mlocked (mtx_enter i m) = mlocked m" "mtid (mtx_enter i m) = mtid m"
  by (simp_all add: mtx_enter_def)

lemma mutex_lock_enter_ok [kexec]:
  assumes "cpu_inv s" and "lock_free (LkMutex m) s" and "m < length (mutexes s)" and "mlocked (mutexes s ! m) = 0"
  shows "mutex_lock_enter m t s =
     Ok 0 (upd_mutex m (\<lambda>x. mtx_grab (tid (ttable s ! t)) (mtx_enter (tid (ttable s ! t)) x)) (settle s))"
  using assms by (simp add: mutex_lock_enter_def mutex_lock_loop_def kexec upd_mutex_compose)

lemma mutex_lock_enter_blocks [kexec]:
  assumes "cpu_inv s" and "lock_free (LkMutex m) s" and "lock_free LkPtable s" and "m < length (mutexes s)"
    and "mlocked (mutexes s ! m) \<noteq> 0"
    and "ncli (cur s) = 0" and "cpu_thread (cur s) = Some t" and "t < length (ttable s)"
  shows "mutex_lock_enter m t s =
     Swtch (upd_mutex m (mtx_enter (tid (ttable s ! t))) (sleeping t (ChMutexTid m) (acq LkPtable s)))"
  using assms by (simp add: mutex_lock_enter_def mutex_lock_loop_def kexec)

text \<open>The loop a woken thread goes on with, entered with the mutex's spinlock just taken.\<close>

lemma mutex_lock_loop_ok:
  assumes "cpu_inv s" and "lock_free (LkMutex m) s" and "mlocked (mutexes s ! m) = 0"
  shows "kseq (acquire (LkMutex m)) (mutex_lock_loop m t) s = Ok 0 (upd_mutex m (mtx_grab (tid (ttable s ! t))) (settle s))"
  using assms by (simp add: mutex_lock_loop_def kexec)

lemma mutex_lock_loop_blocks:
  assumes "cpu_inv s" and "lock_free (LkMutex m) s" and "lock_free LkPtable s" and "mlocked (mutexes s ! m) \<noteq> 0"
    and "ncli (cur s) = 0" and "cpu_thread (cur s) = Some t" and "t < length (ttable s)"
  shows "kseq (acquire (LkMutex m)) (mutex_lock_loop m t) s = Swtch (sleeping t (ChMutexTid m) (acq LkPtable s))"
  using assms by (simp add: mutex_lock_loop_def kexec)

lemma mutex_unlock_enter_ok [kexec]:
  assumes "cpu_inv s" and "lock_free (LkMutex m) s" and "lock_free LkPtable s"
  shows "mutex_unlock_enter m s =
     (if mlocked (mutexes s ! m) = 0 then Ok (- 1) (settle s)
      else Ok 0 ((upd_mutex m (\<lambda>x. x\<lparr>mlocked := 0\<rparr>) (settle s))
        \<lparr>ttable := wake_procs (Some (ChMutexTid m)) (procs s) (ttable s)\<rparr>))"
  using assms by (simp add: mutex_unlock_enter_def kexec)

lemma kthread_mutex_lock_eq:
  assumes "cpu_inv s" and "lock_free LkMutexTable s" and "cpu_thread (cur s) = Some t" 
  shows "kthread_mutex_lock i s =
     (let m = mutex_index i (mutexes s); x = mutexes s ! m
      in if mid x \<noteq> i \<or> \<not> mused x then Ok (- 1) (settle s) else mutex_lock_enter m t (settle s))"
  using assms by (simp add: kthread_mutex_lock_def kexec Let_def)

lemma kthread_mutex_unlock_eq:
  assumes "cpu_inv s" and "lock_free LkMutexTable s" and "cpu_thread (cur s) = Some t" 
  shows "kthread_mutex_unlock i s =
     (let m = mutex_index i (mutexes s); x = mutexes s ! m
      in if mid x \<noteq> i \<or> tid (ttable s ! t) \<noteq> mtid x then Ok (- 1) (settle s) else mutex_unlock_enter m (settle s))"
  using assms by (simp add: kthread_mutex_unlock_def kexec Let_def)

subsection \<open>The mutex as its users see it\<close>

text \<open>
  One mutex and the threads that use it, by thread id: those that hold it and those that wait
  inside \<open>kthread_mutex_lock\<close>.
\<close>

type_synonym mtx_view = "mutex \<times> int set \<times> int set"

definition mtx_gain :: "int \<Rightarrow> mutex \<Rightarrow> int set \<Rightarrow> int set" where
  "mtx_gain i m H = (if mlocked m \<noteq> 0 then insert i H else H)"

inductive mtx_step :: "mtx_view \<Rightarrow> mtx_view \<Rightarrow> bool" where
  lock: "i \<notin> W \<Longrightarrow> mlocked m = 0 \<Longrightarrow> m' = mtx_grab i (mtx_enter i m) \<Longrightarrow>
     mtx_step (m, H, W) (m', mtx_gain i m' H, W)"
| wait: "i \<notin> W \<Longrightarrow> mlocked m \<noteq> 0 \<Longrightarrow> mtx_step (m, H, W) (mtx_enter i m, H, insert i W)"
| wake: "i \<in> W \<Longrightarrow> mlocked m = 0 \<Longrightarrow> m' = mtx_grab i m \<Longrightarrow>
     mtx_step (m, H, W) (m', mtx_gain i m' H, W - {i})"
| unlock: "i \<notin> W \<Longrightarrow> mlocked m \<noteq> 0 \<Longrightarrow> mtid m = i \<Longrightarrow>
     mtx_step (m, H, W) (m\<lparr>mlocked := 0\<rparr>, H - {i}, W)"

definition mtx_inv :: "mtx_view \<Rightarrow> bool" where
  "mtx_inv g \<longleftrightarrow> (case g of (m, H, W) \<Rightarrow>
     finite W \<and> (mlocked m = 0 \<and> H = {} \<and> mtid m \<notin> W \<or> mlocked m = 1 \<and> H = {mtid m}) \<and>
     mwaiting m = int (card (W - {mtid m})))"

definition mtx_init :: "mtx_view \<Rightarrow> bool" where
  "mtx_init g \<longleftrightarrow> (case g of (m, H, W) \<Rightarrow> mlocked m = 0 \<and> mwaiting m = 0 \<and> H = {} \<and> W = {})"

lemma mtx_grab_cases:
  obtains (took) "mtid m \<noteq> i \<or> mwaiting m = 0" "mtx_grab i m = m\<lparr>mwaiting := (if mtid m \<noteq> i then mwaiting m - 1 else mwaiting m), mlocked := 1, mtid := i\<rparr>"
    | (passed) "mtid m = i" "mwaiting m \<noteq> 0" "mtx_grab i m = m"
  by (cases "mtid m \<noteq> i \<or> mwaiting m = 0") (auto simp: mtx_grab_def Let_def)

lemma mtx_inv_step:
  assumes "mtx_inv g" and "mtx_step g h"
  shows "mtx_inv h"
  using assms(2)
proof cases
  case (lock i W m m' H)
  then show ?thesis
    using assms(1) by (auto simp: mtx_inv_def mtx_gain_def mtx_enter_def mtx_grab_def Let_def)
next
  case (wait i W m H)
  then show ?thesis
    using assms(1) by (auto simp: mtx_inv_def mtx_enter_def insert_Diff_if)
next
  case (wake i W m m' H)
  then have "mtid m \<noteq> i" "mtid m \<notin> W" using assms(1) by (auto simp: mtx_inv_def)
  then show ?thesis
    using wake assms(1) by (auto simp: mtx_inv_def mtx_gain_def mtx_grab_def Let_def card_Diff_singleton_if of_nat_diff)
      (metis One_nat_def Suc_leI card_gt_0_iff empty_iff of_nat_1 of_nat_diff)
next
  case (unlock i W m H)
  then show ?thesis using assms(1) by (auto simp: mtx_inv_def)
qed

interpretation mtx_invariant: step_invariant mtx_init mtx_step mtx_inv
proof unfold_locales
  fix g assume "mtx_init g"
  then show "mtx_inv g" by (auto simp: mtx_init_def mtx_inv_def)
qed (rule mtx_inv_step)

subsection \<open>The kernel's mutex refines it\<close>

text \<open>
  Threads on any processors lock and unlock mutex \<open>m\<close>; the rest of the kernel may do anything
  that leaves this mutex and the thread ids alone.
\<close>

definition mtx_quiet :: "nat \<Rightarrow> 'm mtable_scheme \<Rightarrow> bool" where
  "mtx_quiet m s \<longleftrightarrow> calm s \<and> lock_free (LkMutex m) s \<and> m < length (mutexes s)"

type_synonym 'm mtx_sys = "'m mtable_scheme \<times> int set \<times> int set"

definition view :: "nat \<Rightarrow> 'm mtx_sys \<Rightarrow> mtx_view" where
  "view m g = (case g of (s, H, W) \<Rightarrow> (mutexes s ! m, H, W))"

inductive mutex_step :: "nat \<Rightarrow> 'm mtx_sys \<Rightarrow> 'm mtx_sys \<Rightarrow> bool" for m :: nat where
  locks: "mtx_quiet m s \<Longrightarrow> on_thread c t s \<Longrightarrow> i = tid (ttable s ! t) \<Longrightarrow> i \<notin> W \<Longrightarrow>
     mutex_lock_enter m t (run_on c s) = Ok r v \<Longrightarrow>
     mutex_step m (s, H, W) (v, mtx_gain i (mutexes v ! m) H, W)"
| blocks: "mtx_quiet m s \<Longrightarrow> on_thread c t s \<Longrightarrow> i = tid (ttable s ! t) \<Longrightarrow> i \<notin> W \<Longrightarrow>
     mutex_lock_enter m t (run_on c s) = Swtch (u :: 'm mtable_scheme) \<Longrightarrow>
     mtx_quiet m v \<Longrightarrow> mutexes v ! m = mutexes u ! m \<Longrightarrow>
     mutex_step m (s, H, W) (v, H, insert i W)"
| wakes: "busy c u \<Longrightarrow> lock_free (LkMutex m) u \<Longrightarrow> m < length (mutexes u) \<Longrightarrow> mutexes u ! m = mutexes s ! m \<Longrightarrow>
     on_thread c t u \<Longrightarrow> i = tid (ttable u ! t) \<Longrightarrow> i \<in> W \<Longrightarrow>
     mutex_lock_resume m t u = Ok r v \<Longrightarrow>
     mutex_step m (s, H, W) (v, mtx_gain i (mutexes v ! m) H, W - {i})"
| blocks_again: "busy c u \<Longrightarrow> lock_free (LkMutex m) u \<Longrightarrow> m < length (mutexes u) \<Longrightarrow> mutexes u ! m = mutexes s ! m \<Longrightarrow>
     on_thread c t u \<Longrightarrow> tid (ttable u ! t) \<in> W \<Longrightarrow>
     mutex_lock_resume m t u = Swtch (w :: 'm mtable_scheme) \<Longrightarrow>
     mtx_quiet m v \<Longrightarrow> mutexes v ! m = mutexes w ! m \<Longrightarrow>
     mutex_step m (s, H, W) (v, H, W)"
| unlocks: "mtx_quiet m s \<Longrightarrow> on_thread c t s \<Longrightarrow> i = tid (ttable s ! t) \<Longrightarrow> i \<notin> W \<Longrightarrow>
     mtid (mutexes s ! m) = i \<Longrightarrow> mutex_unlock_enter m (run_on c s) = Ok r v \<Longrightarrow>
     mutex_step m (s, H, W) (v, if r = 0 then H - {i} else H, W)"
| other: "mtx_quiet m v \<Longrightarrow> mutexes v ! m = mutexes s ! m \<Longrightarrow> mutex_step m (s, H, W) (v, H, W)"

lemma mutex_lock_resume_eq:
  assumes "busy c u" and "on_thread c t u" and "lock_free (LkMutex m) u"
  shows "mutex_lock_resume m t u = kseq (acquire (LkMutex m)) (mutex_lock_loop m t) (resumed t u)"
  using assms unfolding mutex_lock_resume_def on_thread_def by (simp add: sleep_resume_busy)

lemma resumed_ttable: "tid (ttable (resumed t s) ! t) = tid (ttable s ! t)" "length (ttable (resumed t s)) = length (ttable s)"
  by (cases "t < length (ttable s)", simp_all add: resumed_def list_update_beyond)

lemma mutex_lock_enter_cases:
  assumes "mtx_quiet m s" and "on_thread c t s"
  defines "i \<equiv> tid (ttable s ! t)"
  shows "mutex_lock_enter m t (run_on c s) = Ok r v \<Longrightarrow>
      mlocked (mutexes s ! m) = 0 \<and> mutexes v ! m = mtx_grab i (mtx_enter i (mutexes s ! m))"
    and "mutex_lock_enter m t (run_on c s) = Swtch u \<Longrightarrow>
      mlocked (mutexes s ! m) \<noteq> 0 \<and> mutexes u ! m = mtx_enter i (mutexes s ! m)"
proof -
  from assms(1) have q: "calm s" "lock_free (LkMutex m) s" "m < length (mutexes s)" by (simp_all add: mtx_quiet_def)
  note o = on_threadD [OF assms(2) q(1)]
  show "mlocked (mutexes s ! m) = 0 \<and> mutexes v ! m = mtx_grab i (mtx_enter i (mutexes s ! m))"
    if "mutex_lock_enter m t (run_on c s) = Ok r v"
    using that o q by (cases "mlocked (mutexes s ! m) = 0") (auto simp: mutex_lock_enter_ok mutex_lock_enter_blocks i_def)
  show "mlocked (mutexes s ! m) \<noteq> 0 \<and> mutexes u ! m = mtx_enter i (mutexes s ! m)"
    if "mutex_lock_enter m t (run_on c s) = Swtch u"
    using that o q by (cases "mlocked (mutexes s ! m) = 0") (auto simp: mutex_lock_enter_ok mutex_lock_enter_blocks i_def)
qed

lemma mutex_lock_resume_cases:
  assumes "busy c s" and "on_thread c t s" and "lock_free (LkMutex m) s" and "m < length (mutexes s)"
  defines "i \<equiv> tid (ttable s ! t)"
  shows "mutex_lock_resume m t s = Ok r v \<Longrightarrow>
      mlocked (mutexes s ! m) = 0 \<and> mutexes v ! m = mtx_grab i (mutexes s ! m)"
    and "mutex_lock_resume m t s = Swtch u \<Longrightarrow>
      mlocked (mutexes s ! m) \<noteq> 0 \<and> mutexes u ! m = mutexes s ! m"
proof -
  note e = mutex_lock_resume_eq [OF assms(1-3)]
  have t: "runs s ! c = Some t" "t < length (ttable s)" using assms(2) by (simp_all add: on_thread_def)
  note q = resumed_calm [OF assms(1) t(1)]
  have l: "lock_free (LkMutex m) (resumed t s)" "lock_free LkPtable (resumed t s)" using q assms(3) by (simp_all add: calm_def)
  show "mlocked (mutexes s ! m) = 0 \<and> mutexes v ! m = mtx_grab i (mutexes s ! m)"
    if "mutex_lock_resume m t s = Ok r v"
    using that q l t assms(4) unfolding e
    by (cases "mlocked (mutexes s ! m) = 0") (auto simp: mutex_lock_loop_ok mutex_lock_loop_blocks i_def resumed_ttable)
  show "mlocked (mutexes s ! m) \<noteq> 0 \<and> mutexes u ! m = mutexes s ! m"
    if "mutex_lock_resume m t s = Swtch u"
    using that q l t assms(4) unfolding e
    by (cases "mlocked (mutexes s ! m) = 0") (auto simp: mutex_lock_loop_ok mutex_lock_loop_blocks i_def resumed_ttable)
qed

interpretation mutex_sim: simulation "mutex_step m" mtx_step "view m" for m
proof unfold_locales
  fix g h :: "'m mtx_sys" assume "mutex_step m g h"
  then show "mtx_step (view m g) (view m h) \<or> view m h = view m g"
  proof cases
    case (locks s c t i W r v H)
    with mutex_lock_enter_cases(1) [OF locks(3,4,7)] show ?thesis by (auto simp: view_def intro: mtx_step.lock)
  next
    case (blocks s c t i W u v H)
    with mutex_lock_enter_cases(2) [OF blocks(3,4,7)] show ?thesis by (auto simp: view_def intro: mtx_step.wait)
  next
    case (wakes c u s t i W r v H)
    with mutex_lock_resume_cases(1) [OF wakes(3,7,4,5,10)] show ?thesis by (auto simp: view_def intro: mtx_step.wake)
  next
    case (blocks_again c u s t W w v H)
    with mutex_lock_resume_cases(2) [OF blocks_again(3,7,4,5,9)] show ?thesis by (auto simp: view_def)
  next
    case (unlocks s c t i W r v H)
    from unlocks(3) have q: "calm s" "lock_free (LkMutex m) s" "m < length (mutexes s)" by (simp_all add: mtx_quiet_def)
    note o = on_threadD [OF unlocks(4) q(1)]
    show ?thesis
    proof (cases "mlocked (mutexes s ! m) = 0")
      case True
      with unlocks q o have "r = - 1" "mutexes v = mutexes s" by (auto simp: mutex_unlock_enter_ok)
      then show ?thesis by (simp add: unlocks view_def)
    next
      case False
      with unlocks q o have "r = 0" "mutexes v ! m = (mutexes s ! m)\<lparr>mlocked := 0\<rparr>" by (auto simp: mutex_unlock_enter_ok)
      then show ?thesis using False unlocks by (auto simp: view_def intro: mtx_step.unlock)
    qed
  qed (auto simp: view_def)
qed

subsection \<open>The table\<close>

text \<open>
  Allocation keeps an id equal to the slot's position and deallocation clears it, so a search finds
  an allocated mutex at its own position.
\<close>

definition mutex_wf :: "mutex list \<Rightarrow> bool" where
  "mutex_wf ms \<longleftrightarrow> length ms = Suc MAX_MUTEXES \<and>
     (\<forall>k < MAX_MUTEXES. mid (ms ! k) = (if mused (ms ! k) then int k else 0))"

definition mutex_claim :: "nat \<Rightarrow> mutex \<Rightarrow> mutex" where
  "mutex_claim i m = m\<lparr>mid := int i, mlocked := 0, mtid := 0, mused := True, mwaiting := 0\<rparr>"

interpretation mutex_slots: slot_table "\<lambda>m. \<not> mused m" mutex_claim
  by unfold_locales (simp add: mutex_claim_def)

lemma mutex_index_used:
  assumes "mutex_wf ms" and "k < MAX_MUTEXES" and "mused (ms ! k)"
  shows "mutex_index (int k) ms = k"
proof -
  have "scan (\<lambda>m. mid m = int k) (take MAX_MUTEXES ms) = Some k"
    unfolding scan_Some_iff using assms by (auto simp: mutex_wf_def split: if_splits)
  then show ?thesis by (simp add: mutex_index_def)
qed

lemma mutex_wf_update:
  assumes "mutex_wf ms" and "mid x = (if mused x then int k else 0)"
  shows "mutex_wf (ms[k := x])"
  using assms by (auto simp: mutex_wf_def nth_update_at)

lemma mutex_wf_same:
  assumes "mutex_wf ms" and "mid x = mid (ms ! k)" and "mused x = mused (ms ! k)"
  shows "mutex_wf (ms[k := x])"
  using assms by (auto simp: mutex_wf_def nth_update_at)

lemma mtx_grab_id [simp]: "mid (mtx_grab i m) = mid m" "mused (mtx_grab i m) = mused m"
  "mid (mtx_enter i m) = mid m" "mused (mtx_enter i m) = mused m"
  by (simp_all add: mtx_grab_def mtx_enter_def Let_def)

lemma scan_take: "scan P (take n xs) = Some i \<Longrightarrow> i < n \<and> i < length xs \<and> P (xs ! i) \<and> (\<forall>j<i. \<not> P (xs ! j))"
  by (auto simp: scan_Some_iff)

subsection \<open>Properties\<close>


text \<open>C29. A mutex just allocated is usable: \<open>kthread_mutex_alloc\<close> returns the lowest free id (or -1,
  exactly when every mutex is in use), and locking that id makes the caller its holder.\<close>

theorem mutex_alloc_then_lock:
  assumes "cpu_inv s" and "lock_free LkMutexTable s" and "mutex_wf (mutexes s)"
    and "cpu_thread (cur s) = Some t" and "tid (ttable s ! t) \<noteq> 0" and "\<And>m. lock_free (LkMutex m) s"
  shows "\<exists>r u. kthread_mutex_alloc s = Ok r u \<and> mutex_wf (mutexes u) \<and>
     (r = - 1 \<longleftrightarrow> (\<forall>k < MAX_MUTEXES. mused (mutexes s ! k))) \<and>
     (r \<noteq> - 1 \<longrightarrow>
        0 \<le> r \<and> nat r < MAX_MUTEXES \<and> \<not> mused (mutexes s ! nat r) \<and> (\<forall>k < nat r. mused (mutexes s ! k)) \<and>
        (\<exists>v. kthread_mutex_lock r u = Ok 0 v \<and>
           mutexes v = (mutexes s)[nat r := \<lparr>mid = r, mlocked = 1, mtid = tid (ttable s ! t), mused = True, mwaiting = 0\<rparr>]))"
proof (cases "scan (\<lambda>m. \<not> mused m) (take MAX_MUTEXES (mutexes s))")
  case None
  then have "\<forall>k < MAX_MUTEXES. mused (mutexes s ! k)"
    using assms(3) by (simp add: all_set_conv_all_nth mutex_wf_def)
  with None assms show ?thesis by (simp add: kthread_mutex_alloc_ok del: scan_None_iff)
next
  case (Some i)
  let ?u = "upd_mutex i (mutex_claim i) (settle s)"
  note i = scan_take [OF Some]
  have l: "length (mutexes s) = Suc MAX_MUTEXES" using assms(3) by (simp add: mutex_wf_def)
  have a: "kthread_mutex_alloc s = Ok (int i) ?u"
    using assms Some by (simp add: kthread_mutex_alloc_ok mutex_claim_def [abs_def])
  have wf: "mutex_wf (mutexes ?u)"
    using assms(3) by (auto simp: mutex_claim_def intro: mutex_wf_update)
  have "mutex_index (int i) (mutexes ?u) = i"
    by (rule mutex_index_used [OF wf]) (use i in \<open>simp_all add: mutex_claim_def\<close>)
  then have "kthread_mutex_lock (int i) ?u = mutex_lock_enter i t ?u"
    using assms i by (simp add: kthread_mutex_lock_eq mutex_claim_def)
  also have "\<dots> = Ok 0 (upd_mutex i (\<lambda>x. mtx_grab (tid (ttable s ! t)) (mtx_enter (tid (ttable s ! t)) x)) ?u)"
    using assms i by (subst mutex_lock_enter_ok) (simp_all add: mutex_claim_def)
  finally have k: "kthread_mutex_lock (int i) ?u = \<dots>" .
  have "mtx_grab (tid (ttable s ! t)) (mtx_enter (tid (ttable s ! t)) (mutex_claim i (mutexes s ! i))) =
      \<lparr>mid = int i, mlocked = 1, mtid = tid (ttable s ! t), mused = True, mwaiting = 0\<rparr>"
    using assms(5) by (simp add: mtx_grab_def mtx_enter_def mutex_claim_def Let_def)
  with a k wf i l show ?thesis by auto
qed

text \<open>Unlocking is for the holder: \<open>kthread_mutex_unlock\<close> on an allocated mutex returns 0 exactly
  when the mutex is locked and records the caller, and then frees it and wakes its waiters; in every
  other case it returns -1 and changes neither the mutexes nor the threads.\<close>

lemma mutex_unlock_only_by_holder:
  assumes "cpu_inv s" and "lock_free LkMutexTable s" and "lock_free (LkMutex k) s" and "lock_free LkPtable s"
    and "cpu_thread (cur s) = Some t" and "mutex_wf (mutexes s)" and "k < MAX_MUTEXES" and "mused (mutexes s ! k)"
  shows "\<exists>r v. kthread_mutex_unlock (int k) s = Ok r v \<and>
     (if mlocked (mutexes s ! k) \<noteq> 0 \<and> mtid (mutexes s ! k) = tid (ttable s ! t)
      then r = 0 \<and> mutexes v = (mutexes s)[k := (mutexes s ! k)\<lparr>mlocked := 0\<rparr>] \<and>
        ttable v = wake_procs (Some (ChMutexTid k)) (procs s) (ttable s)
      else r = - 1 \<and> mutexes v = mutexes s \<and> ttable v = ttable s)"
proof -
  note i = mutex_index_used [OF assms(6-8)]
  have "mid (mutexes s ! k) = int k" using assms(6-8) by (simp add: mutex_wf_def)
  with i assms show ?thesis
    by (cases "mlocked (mutexes s ! k) = 0") (auto simp: kthread_mutex_unlock_eq mutex_unlock_enter_ok Let_def)
qed

text \<open>C31. A call of \<open>kthread_mutex_lock\<close> can return 0 without locking: when the mutex is free, the
  caller is the thread that held it last and others wait, the call changes nothing and reports success.
  The state is reachable: a thread locks, another waits, the first unlocks.\<close>

theorem mutex_lock_can_succeed_without_locking:
  assumes "cpu_inv s" and "lock_free LkMutexTable s" and "lock_free (LkMutex k) s"
    and "cpu_thread (cur s) = Some t" and "mutex_wf (mutexes s)" and "k < MAX_MUTEXES" and "mused (mutexes s ! k)"
    and "mlocked (mutexes s ! k) = 0" and "mtid (mutexes s ! k) = tid (ttable s ! t)" and "mwaiting (mutexes s ! k) \<noteq> 0"
  shows "(\<exists>v. kthread_mutex_lock (int k) s = Ok 0 v \<and> mutexes v = mutexes s \<and> mlocked (mutexes v ! k) = 0) \<and>
     (\<forall>m a b. mlocked m = 0 \<longrightarrow> mwaiting m = 0 \<longrightarrow> mtid m = 0 \<longrightarrow> a \<noteq> b \<longrightarrow> a \<noteq> 0 \<longrightarrow> b \<noteq> 0 \<longrightarrow>
        reach mtx_step (m, {}, {}) (m\<lparr>mtid := a, mwaiting := 1\<rparr>, {}, {b}))"
proof (intro conjI allI impI)
  note i = mutex_index_used [OF assms(5-7)]
  have "mid (mutexes s ! k) = int k" "k < length (mutexes s)" using assms(5-7) by (simp_all add: mutex_wf_def)
  then have "kthread_mutex_lock (int k) s =
      Ok 0 (upd_mutex k (\<lambda>x. mtx_grab (tid (ttable s ! t)) (mtx_enter (tid (ttable s ! t)) x)) (settle s))"
    using assms i by (simp add: kthread_mutex_lock_eq mutex_lock_enter_ok Let_def)
  moreover have "mtx_grab (tid (ttable s ! t)) (mtx_enter (tid (ttable s ! t)) (mutexes s ! k)) = mutexes s ! k"
    using assms(8-10) by (simp add: mtx_grab_def mtx_enter_def Let_def)
  ultimately show "\<exists>v. kthread_mutex_lock (int k) s = Ok 0 v \<and> mutexes v = mutexes s \<and> mlocked (mutexes v ! k) = 0"
    using assms(8) by simp
next
  fix m :: mutex and a b :: int
  assume m: "mlocked m = 0" "mwaiting m = 0" "mtid m = 0" "a \<noteq> b" "a \<noteq> 0" "b \<noteq> 0"
  let ?l = "m\<lparr>mlocked := 1, mtid := a\<rparr>"
  have "mtx_step (m, {}, {}) (?l, {a}, {})"
    using m mtx_step.lock [of a "{}" m ?l "{}"] by (simp add: mtx_grab_def mtx_enter_def mtx_gain_def Let_def)
  moreover have "mtx_step (?l, {a}, {}) (?l\<lparr>mwaiting := 1\<rparr>, {a}, {b})"
    using m mtx_step.wait [of b "{}" ?l "{a}"] by (simp add: mtx_enter_def)
  moreover have "mtx_step (?l\<lparr>mwaiting := 1\<rparr>, {a}, {b}) (m\<lparr>mtid := a, mwaiting := 1\<rparr>, {}, {b})"
  proof -
    have eq: "?l\<lparr>mwaiting := 1\<rparr>\<lparr>mlocked := 0\<rparr> = m\<lparr>mtid := a, mwaiting := 1\<rparr>" using m(1) by (cases m) simp
    show ?thesis using m mtx_step.unlock [of a "{b}" "?l\<lparr>mwaiting := 1\<rparr>" "{a}"] unfolding eq by simp
  qed
  ultimately show "reach mtx_step (m, {}, {}) (m\<lparr>mtid := a, mwaiting := 1\<rparr>, {}, {b})"
    by (intro reach_step [OF reach_step [OF reach_one]])
qed

subsection \<open>A concrete machine\<close>

definition mutex0 :: mutex where
  "mutex0 = \<lparr>mid = 0, mlocked = 0, mtid = 0, mused = False, mwaiting = 0\<rparr>"

definition parked_m :: "mutex \<Rightarrow> mtable" where
  "parked_m m = sltable.extend parked_sl \<lparr>mutexes = m # replicate MAX_MUTEXES mutex0\<rparr>"

lemma parked_m_ok: "calm (parked_m m)" "lock_free lk (parked_m m)" "on_thread 0 0 (parked_m m)"
    "tid (ttable (parked_m m) ! 0) = 1" "mutexes (parked_m m) = m # replicate MAX_MUTEXES mutex0"
  using ready_calm ready_threads
  by (simp_all add: parked_m_def parked_sl_def calm_def on_thread_def runs_def lock_free_def
      ptable.extend_def sltable.extend_def parked_def)

lemma parked_m_wf: "mid m = 0 \<Longrightarrow> mutex_wf (mutexes (parked_m m))"
  by (auto simp: mutex_wf_def parked_m_ok nth_Cons_replicate mutex0_def MAX_MUTEXES_def)

lemmas parked_m_run = on_threadD [OF parked_m_ok(3,1)]

theorem mutex_alloc_then_lock_witness:
  "\<exists>u v. kthread_mutex_alloc (run_on 0 (parked_m mutex0)) = Ok 0 u \<and> kthread_mutex_lock 0 u = Ok 0 v \<and>
     mlocked (mutexes v ! 0) = 1"
proof -
  let ?s = "run_on 0 (parked_m mutex0)"
  have wf: "mutex_wf (mutexes ?s)" using parked_m_wf [of mutex0] by (simp add: mutex0_def)
  have t: "cpu_thread (cur ?s) = Some 0" "tid (ttable ?s ! 0) \<noteq> 0" "\<And>lk. lock_free lk ?s" "cpu_inv ?s"
    using parked_m_run parked_m_ok by simp_all
  have free: "0 < MAX_MUTEXES" "\<not> mused (mutexes ?s ! 0)" by (simp_all add: MAX_MUTEXES_def parked_m_ok mutex0_def)
  from mutex_alloc_then_lock [OF t(4,3) wf t(1,2,3)] obtain r u where
    u: "kthread_mutex_alloc ?s = Ok r u" "r = - 1 \<longleftrightarrow> (\<forall>k < MAX_MUTEXES. mused (mutexes ?s ! k))"
    and v: "r \<noteq> - 1 \<Longrightarrow> 0 \<le> r \<and> (\<forall>k < nat r. mused (mutexes ?s ! k)) \<and>
      (\<exists>v. kthread_mutex_lock r u = Ok 0 v \<and>
           mutexes v = (mutexes ?s)[nat r := \<lparr>mid = r, mlocked = 1, mtid = tid (ttable ?s ! 0), mused = True, mwaiting = 0\<rparr>])"
    by blast
  from u(2) free have r: "r \<noteq> - 1" by auto
  with v free have "nat r = 0" "0 \<le> r" by (auto intro: ccontr)
  then have "r = 0" by simp
  with u(1) v [OF r] show ?thesis by (auto simp: parked_m_ok)
qed

lemma parked_m_lk: "lock_free lk (run_on 0 (parked_m m))"
  by (simp add: parked_m_ok)

theorem mutex_lock_can_succeed_without_locking_witness:
  "\<exists>v. kthread_mutex_lock 0 (run_on 0 (parked_m \<lparr>mid = 0, mlocked = 0, mtid = 1, mused = True, mwaiting = 1\<rparr>)) = Ok 0 v \<and>
     mlocked (mutexes v ! 0) = 0"
proof -
  let ?m = "\<lparr>mid = 0, mlocked = 0, mtid = 1, mused = True, mwaiting = 1\<rparr>"
  let ?s = "run_on 0 (parked_m ?m)"
  have wf: "mutex_wf (mutexes ?s)" using parked_m_wf [of ?m] by simp
  have "0 < MAX_MUTEXES" "mused (mutexes ?s ! 0)" "mlocked (mutexes ?s ! 0) = 0"
    "mtid (mutexes ?s ! 0) = tid (ttable ?s ! 0)" "mwaiting (mutexes ?s ! 0) \<noteq> 0"
    by (simp_all add: MAX_MUTEXES_def parked_m_ok)
  from mutex_lock_can_succeed_without_locking [OF parked_m_run(1) parked_m_lk parked_m_lk parked_m_run(3) wf this, THEN conjunct1]
  show ?thesis by auto
qed


end
