(* ===== verification/Mem.thy ===== *)
theory Mem
  imports Prelude
begin

unbundle bit_operations_syntax

text \<open>
  Memory as the kernel addresses it, one byte per 32-bit address, with little-endian words, and the
  routines of \<open>string.c\<close> over it.
\<close>

type_synonym memory = "uint \<Rightarrow> uchar"

subsection \<open>Words in memory\<close>

definition rd32 :: "memory \<Rightarrow> uint \<Rightarrow> uint" where
  "rd32 m a = ucast (m a) OR push_bit 8 (ucast (m (a + 1))) OR push_bit 16 (ucast (m (a + 2))) OR push_bit 24 (ucast (m (a + 3)))"

definition wr32 :: "uint \<Rightarrow> uint \<Rightarrow> memory \<Rightarrow> memory" where
  "wr32 a v m = m(a := ucast v, a + 1 := ucast (drop_bit 8 v), a + 2 := ucast (drop_bit 16 v), a + 3 := ucast (drop_bit 24 v))"

definition aligned4 :: "uint \<Rightarrow> bool" where
  "aligned4 a \<longleftrightarrow> unat a mod 4 = 0"

lemma word_of_bytes:
  fixes v :: uint
  shows "ucast (ucast v :: uchar) OR push_bit 8 (ucast (ucast (drop_bit 8 v) :: uchar)) OR
     push_bit 16 (ucast (ucast (drop_bit 16 v) :: uchar)) OR push_bit 24 (ucast (ucast (drop_bit 24 v) :: uchar)) = v"
  (is "?l = v")
proof (rule bit_word_eqI)
  fix n assume n: "n < LENGTH(32)"
  then show "bit ?l n = bit v n"
    by (simp add: bit_simps) (cases "n < 8"; cases "n < 16"; cases "n < 24"; auto)
qed

lemma rd32_wr32 [simp]: "rd32 (wr32 a v m) a = v"
proof -
  have "a + 1 \<noteq> a" "a + 2 \<noteq> a" "a + 3 \<noteq> a" "a + 2 \<noteq> a + 1" "a + 3 \<noteq> a + 1" "a + 3 \<noteq> a + 2" by simp_all
  then show ?thesis by (simp add: rd32_def wr32_def word_of_bytes)
qed

lemma aligned4_add:
  assumes "aligned4 a" and "k < 4"
  shows "unat (a + of_nat k) = unat a + k"
proof -
  have "unat a < 4294967296" using unsigned_less [of a] by simp
  then have "unat a + k < 4294967296" using assms unfolding aligned4_def by presburger
  moreover have "unat (of_nat k :: uint) = k" using assms by (simp add: unat_of_nat)
  ultimately show ?thesis by (simp add: unat_word_ariths)
qed

lemma aligned4_disjoint:
  assumes "aligned4 a" and "aligned4 b" and "a \<noteq> b" and "i < 4" and "j < 4"
  shows "a + of_nat i \<noteq> b + of_nat j"
proof
  assume "a + of_nat i = b + of_nat j"
  then have e: "unat a + i = unat b + j" using aligned4_add assms by metis
  have "unat a = unat b" using e assms(1,2,4,5) unfolding aligned4_def by presburger
  with assms(3) show False by (auto dest: unsigned_word_eqI)
qed

lemma wr32_other:
  assumes "\<And>i. i < 4 \<Longrightarrow> b \<noteq> a + of_nat i"
  shows "wr32 a v m b = m b"
  using assms [of 0] assms [of 1] assms [of 2] assms [of 3] by (simp add: wr32_def)

lemma rd32_wr32_other [simp]:
  assumes "aligned4 a" and "aligned4 b" and "a \<noteq> b"
  shows "rd32 (wr32 a v m) b = rd32 m b"
proof -
  have "wr32 a v m (b + of_nat j) = m (b + of_nat j)" if "j < 4" for j
    by (rule wr32_other) (use assms that aligned4_disjoint in metis)
  from this [of 0] this [of 1] this [of 2] this [of 3] show ?thesis by (simp add: rd32_def)
qed

subsection \<open>Filling and copying\<close>

fun stosb :: "uint \<Rightarrow> uchar \<Rightarrow> nat \<Rightarrow> memory \<Rightarrow> memory" where
  "stosb a v 0 m = m"
| "stosb a v (Suc n) m = stosb (a + 1) v n (m(a := v))"

fun stosl :: "uint \<Rightarrow> uint \<Rightarrow> nat \<Rightarrow> memory \<Rightarrow> memory" where
  "stosl a w 0 m = m"
| "stosl a w (Suc n) m = stosl (a + 4) w n (wr32 a w m)"

definition memset :: "uint \<Rightarrow> uint \<Rightarrow> uint \<Rightarrow> memory \<Rightarrow> memory" where
  "memset dst c n m =
     (if unat dst mod 4 = 0 \<and> unat n mod 4 = 0 then
        let c = c AND 0xFF
        in stosl dst (push_bit 24 c OR push_bit 16 c OR push_bit 8 c OR c) (unat n div 4) m
      else stosb dst (ucast c) (unat n) m)"

fun copy_up :: "uint \<Rightarrow> uint \<Rightarrow> nat \<Rightarrow> memory \<Rightarrow> memory" where
  "copy_up d s 0 m = m"
| "copy_up d s (Suc n) m = copy_up (d + 1) (s + 1) n (m(d := m s))"

fun copy_down :: "uint \<Rightarrow> uint \<Rightarrow> nat \<Rightarrow> memory \<Rightarrow> memory" where
  "copy_down d s 0 m = m"
| "copy_down d s (Suc n) m = copy_down (d - 1) (s - 1) n (m(d - 1 := m (s - 1)))"

definition memmove :: "uint \<Rightarrow> uint \<Rightarrow> uint \<Rightarrow> memory \<Rightarrow> memory" where
  "memmove dst src n m =
     (if src < dst \<and> src + n > dst then copy_down (dst + n) (src + n) (unat n) m
      else copy_up dst src (unat n) m)"

definition memcpy :: "uint \<Rightarrow> uint \<Rightarrow> uint \<Rightarrow> memory \<Rightarrow> memory" where
  "memcpy dst src n m = memmove dst src n m"

lemma unat_lt32: "unat (n :: uint) < 2 ^ 32"
proof -
  have "unat n < 2 ^ LENGTH(32)" by (rule unsigned_less)
  then show ?thesis by simp
qed

lemma unat_le32: "unat (n :: uint) \<le> 2 ^ 32"
  using unat_lt32 [of n] by simp

lemma unat_pred: "(x :: uint) \<noteq> 0 \<Longrightarrow> unat (x - 1) = unat x - 1"
  by (rule unat_minus_one)

lemma unat_max: "unat (- 1 :: uint) = 2 ^ 32 - 1"
  by (simp add: unsigned_minus_1_eq_mask mask_eq_exp_minus_1)

lemma stosb_at:
  "n \<le> 2 ^ 32 \<Longrightarrow> stosb d v n m a = (if unat (a - d) < n then v else m a)"
proof (induction n arbitrary: d m)
  case (Suc n)
  show ?case
  proof (cases "a = d")
    case True
    with Suc show ?thesis by (simp add: unat_max)
  next
    case False
    then have "a - d \<noteq> 0" by simp
    from unat_pred [OF this] have p: "unat (a - (d + 1)) = unat (a - d) - 1" by (simp add: algebra_simps)
    have "0 < unat (a - d)" using \<open>a - d \<noteq> 0\<close> by (simp add: unat_gt_0)
    with Suc p False show ?thesis by auto
  qed
qed simp

lemma copy_up_at:
  "n \<le> 2 ^ 32 \<Longrightarrow> d = s \<or> n \<le> unat (d - s) \<Longrightarrow>
     copy_up d s n m a = (if unat (a - d) < n then m (s + (a - d)) else m a)"
proof (induction n arbitrary: d s m)
  case (Suc n)
  have ih: "copy_up (d + 1) (s + 1) n (m(d := m s)) a =
      (if unat (a - (d + 1)) < n then (m(d := m s)) (s + 1 + (a - (d + 1))) else (m(d := m s)) a)"
    by (rule Suc.IH) (use Suc.prems in auto)
  show ?case
  proof (cases "a = d")
    case True
    with Suc.prems ih show ?thesis by (simp add: unat_max)
  next
    case False
    then have z: "a - d \<noteq> 0" by simp
    from unat_pred [OF this] have p: "unat (a - (d + 1)) = unat (a - d) - 1" by (simp add: algebra_simps)
    have pos: "0 < unat (a - d)" using z by (simp add: unat_gt_0)
    have "s + (a - d) \<noteq> d" if "unat (a - d) < Suc n"
    proof
      assume "s + (a - d) = d"
      then have "a - d = d - s" by (simp add: algebra_simps)
      with Suc.prems(2) that z show False by auto
    qed
    moreover have "s + 1 + (a - (d + 1)) = s + (a - d)" by (simp add: algebra_simps)
    ultimately show ?thesis using ih p pos False by auto
  qed
qed simp

lemma copy_down_at:
  "n < 2 ^ 32 \<Longrightarrow> n \<le> unat (s - d) \<or> d = s \<Longrightarrow>
     copy_down d s n m a = (if unat (d - 1 - a) < n then m (s - (d - a)) else m a)"
proof (induction n arbitrary: d s m)
  case (Suc n)
  have ih: "copy_down (d - 1) (s - 1) n (m(d - 1 := m (s - 1))) a =
      (if unat (d - 1 - 1 - a) < n then (m(d - 1 := m (s - 1))) (s - 1 - (d - 1 - a)) else (m(d - 1 := m (s - 1))) a)"
    by (rule Suc.IH) (use Suc.prems in auto)
  show ?case
  proof (cases "a = d - 1")
    case True
    with Suc.prems ih show ?thesis by (simp add: unat_max)
  next
    case False
    then have z: "d - 1 - a \<noteq> 0" by auto
    from unat_pred [OF this] have p: "unat (d - 1 - 1 - a) = unat (d - 1 - a) - 1" by (simp add: algebra_simps)
    have pos: "0 < unat (d - 1 - a)" using z by (simp add: unat_gt_0)
    have "s - (d - a) \<noteq> d - 1" if "unat (d - 1 - a) < Suc n"
    proof
      assume "s - (d - a) = d - 1"
      then have "d - 1 - a = s - d" by (simp add: algebra_simps)
      with Suc.prems(2) that z show False by auto
    qed
    moreover have e: "s - 1 - (d - 1 - a) = s - (d - a)" by (simp add: algebra_simps)
    ultimately show ?thesis unfolding copy_down.simps ih e p using pos False by auto
  qed
qed simp

lemma unat_mult4: "unat (a :: uint) mod 4 = 0 \<Longrightarrow> unat (a + 4) mod 4 = 0"
proof -
  assume "unat a mod 4 = 0"
  then have "(unat a + 4) mod 2 ^ 32 mod 4 = 0" by (simp add: mod_mod_cancel)
  then show ?thesis by (simp add: unat_word_ariths)
qed

text \<open>Four equal bytes as a word.\<close>

lemma wr32_bytes:
  fixes v :: uchar and w :: uint
  assumes "ucast w = v" and "ucast (drop_bit 8 w) = v" and "ucast (drop_bit 16 w) = v" and "ucast (drop_bit 24 w) = v"
  shows "wr32 a w m = stosb a v 4 m"
proof -
  have "stosb a v 4 m = stosb a v (Suc (Suc (Suc (Suc 0)))) m" by (simp add: numeral_eq_Suc)
  then show ?thesis using assms by (simp add: wr32_def add.commute)
qed

lemma stosb_add: "stosb a v (n + k) m = stosb (a + of_nat n) v k (stosb a v n m)"
  by (induction n arbitrary: a m) (simp_all add: add.commute add.left_commute)

lemma stosl_bytes:
  assumes "ucast w = v" and "ucast (drop_bit 8 w) = v" and "ucast (drop_bit 16 w) = v" and "ucast (drop_bit 24 w) = v"
  shows "stosl a w n m = stosb a v (4 * n) m"
proof (induction n arbitrary: a m)
  case (Suc n)
  have "stosb a v (4 * Suc n) m = stosb a v (4 + 4 * n) m" by simp
  also have "\<dots> = stosb (a + 4) v (4 * n) (stosb a v 4 m)" by (simp add: stosb_add del: stosb.simps)
  finally show ?case using Suc wr32_bytes [OF assms] by simp
qed simp

lemma fill_word_bytes:
  fixes c :: uint
  defines "w \<equiv> push_bit 24 (c AND 0xFF) OR push_bit 16 (c AND 0xFF) OR push_bit 8 (c AND 0xFF) OR (c AND 0xFF)"
  shows "ucast w = (ucast c :: uchar)" and "ucast (drop_bit 8 w) = (ucast c :: uchar)"
    and "ucast (drop_bit 16 w) = (ucast c :: uchar)" and "ucast (drop_bit 24 w) = (ucast c :: uchar)"
proof -
  have ff: "(0xFF :: uint) = mask 8" by (simp add: mask_eq_exp_minus_1)
  show "ucast w = (ucast c :: uchar)" "ucast (drop_bit 8 w) = (ucast c :: uchar)"
     "ucast (drop_bit 16 w) = (ucast c :: uchar)" "ucast (drop_bit 24 w) = (ucast c :: uchar)"
    unfolding w_def ff by (rule bit_word_eqI; auto simp: bit_simps)+
qed

lemma memset_stosb: "memset dst c n m = stosb dst (ucast c) (unat n) m"
  unfolding memset_def Let_def using stosl_bytes [OF fill_word_bytes] by (auto simp: mult_div_mod_eq)

lemma memset_at: "memset dst c n m a = (if a - dst < n then ucast c else m a)"
  using stosb_at [OF unat_le32, of dst "ucast c" n m a] by (simp add: memset_stosb word_less_nat_alt)

lemma memmove_at:
  assumes "unat src + unat n < 2 ^ 32" and "unat dst + unat n < 2 ^ 32"
  shows "memmove dst src n m a = (if a - dst < n then m (src + (a - dst)) else m a)"
proof (cases "src < dst \<and> src + n > dst")
  case True
  have e: "copy_down (dst + n) (src + n) (unat n) m a =
      (if unat (dst + n - 1 - a) < unat n then m (src + n - (dst + n - a)) else m a)"
  proof (rule copy_down_at)
    show "unat n < 2 ^ 32" by (rule unat_lt32)
    have "unat (src - dst) = 2 ^ 32 - (unat dst - unat src)"
      using True by (simp add: unat_sub_if' word_less_nat_alt)
    then have "unat n \<le> unat (src + n - (dst + n))" using assms True by (simp add: word_less_nat_alt)
    then show "unat n \<le> unat (src + n - (dst + n)) \<or> dst + n = src + n" by simp
  qed
  have "dst + n - 1 - a < n \<longleftrightarrow> a - dst < n"
  proof -
    define k where "k = a - dst"
    have e: "dst + n - 1 - a = n - 1 - k" by (simp add: k_def)
    have "n - 1 - k < n \<longleftrightarrow> k < n"
      using unat_lt32 [of k]
      by (cases "n = 0") (auto simp: word_less_nat_alt unat_sub_if' unat_pred split: if_splits)
    then show ?thesis unfolding e by (simp add: k_def)
  qed
  moreover have "src + n - (dst + n - a) = src + (a - dst)" by (simp add: algebra_simps)
  ultimately show ?thesis using True e by (simp add: memmove_def word_less_nat_alt)
next
  case False
  have "dst = src \<or> unat n \<le> unat (dst - src)"
  proof (cases "src < dst")
    case True
    with False assms show ?thesis
      by (auto simp: word_less_nat_alt unat_sub_if' unat_word_ariths(1) not_less)
  next
    case nl: False
    then show ?thesis using assms
      by (auto simp: word_less_nat_alt unat_sub_if' dest: unsigned_word_eqI)
  qed
  with False copy_up_at [OF unat_le32, of dst src n m a] show ?thesis
    by (auto simp: memmove_def word_less_nat_alt)
qed

subsection \<open>Comparing and copying strings\<close>

fun memcmp :: "memory \<Rightarrow> uint \<Rightarrow> uint \<Rightarrow> nat \<Rightarrow> int" where
  "memcmp m s1 s2 0 = 0"
| "memcmp m s1 s2 (Suc n) =
     (if m s1 \<noteq> m s2 then uint (m s1) - uint (m s2) else memcmp m (s1 + 1) (s2 + 1) n)"

fun strncmp :: "memory \<Rightarrow> uint \<Rightarrow> uint \<Rightarrow> nat \<Rightarrow> int" where
  "strncmp m p q 0 = 0"
| "strncmp m p q (Suc n) =
     (if m p \<noteq> 0 \<and> m p = m q then strncmp m (p + 1) (q + 1) n else uint (m p) - uint (m q))"

fun zero_pad :: "uint \<Rightarrow> nat \<Rightarrow> memory \<Rightarrow> memory" where
  "zero_pad s 0 m = m"
| "zero_pad s (Suc n) m = zero_pad (s + 1) n (m(s := 0))"

fun strncpy_loop :: "uint \<Rightarrow> uint \<Rightarrow> nat \<Rightarrow> memory \<Rightarrow> memory" where
  "strncpy_loop s t 0 m = m"
| "strncpy_loop s t (Suc n) m =
     (let m' = m(s := m t) in if m t \<noteq> 0 then strncpy_loop (s + 1) (t + 1) n m' else zero_pad (s + 1) n m')"

definition strncpy :: "uint \<Rightarrow> uint \<Rightarrow> int \<Rightarrow> memory \<Rightarrow> memory" where
  "strncpy s t n m = strncpy_loop s t (nat n) m"

fun safestrcpy_loop :: "uint \<Rightarrow> uint \<Rightarrow> nat \<Rightarrow> memory \<Rightarrow> memory" where
  "safestrcpy_loop s t 0 m = m(s := 0)"
| "safestrcpy_loop s t (Suc n) m =
     (let m' = m(s := m t) in if m t \<noteq> 0 then safestrcpy_loop (s + 1) (t + 1) n m' else m'(s + 1 := 0))"

definition safestrcpy :: "uint \<Rightarrow> uint \<Rightarrow> int \<Rightarrow> memory \<Rightarrow> memory" where
  "safestrcpy s t n m = (if n \<le> 0 then m else safestrcpy_loop s t (nat n - 1) m)"

partial_function (option) strlen_from :: "memory \<Rightarrow> uint \<Rightarrow> nat \<Rightarrow> nat option" where
  "strlen_from m s n = (if m (s + of_nat n) = 0 then Some n else strlen_from m s (Suc n))"

definition strlen :: "memory \<Rightarrow> uint \<Rightarrow> nat option" where
  "strlen m s = strlen_from m s 0"

lemma strlen_from_found:
  assumes "m (s + of_nat (n + k)) = 0" and "\<And>j. j < k \<Longrightarrow> m (s + of_nat (n + j)) \<noteq> 0"
  shows "strlen_from m s n = Some (n + k)"
  using assms
proof (induction k arbitrary: n)
  case 0
  then show ?case by (simp add: strlen_from.simps)
next
  case (Suc k)
  have "strlen_from m s (Suc n) = Some (Suc n + k)"
  proof (rule Suc.IH)
    show "m (s + of_nat (Suc n + k)) = 0" using Suc.prems(1) by simp
    show "\<And>j. j < k \<Longrightarrow> m (s + of_nat (Suc n + j)) \<noteq> 0" using Suc.prems(2) [of "Suc j" for j] by simp
  qed
  then show ?case using Suc.prems(2) [of 0] by (simp add: strlen_from.simps [of m s n])
qed

lemma strlen_found:
  assumes "m (s + of_nat k) = 0" and "\<And>j. j < k \<Longrightarrow> m (s + of_nat j) \<noteq> 0"
  shows "strlen m s = Some k"
  using strlen_from_found [of m s 0 k] assms by (simp add: strlen_def)

lemma of_nat_inj32: "i < 2 ^ 32 \<Longrightarrow> j < 2 ^ 32 \<Longrightarrow> (of_nat i :: uint) = of_nat j \<longleftrightarrow> i = j"
  by (auto dest!: arg_cong [where f = unat] simp: unat_of_nat)

text \<open>
  A string copied with \<open>safestrcpy\<close>: the bytes before the terminator are those of the source, a
  terminator is written inside the buffer, and nothing outside the buffer changes.
\<close>

lemma safestrcpy_loop_frame:
  "n < 2 ^ 32 \<Longrightarrow> n < unat (a - s) \<Longrightarrow> safestrcpy_loop s t n m a = m a"
proof (induction n arbitrary: s t m)
  case 0
  then have "a \<noteq> s" by auto
  then show ?case by simp
next
  case (Suc n)
  then have "a - s \<noteq> 0" by auto
  from unat_pred [OF this] have p: "unat (a - (s + 1)) = unat (a - s) - 1" by (simp add: algebra_simps)
  with Suc.prems have q: "n < unat (a - (s + 1))" "a \<noteq> s" by auto
  moreover from this have "a \<noteq> s + 1" by auto
  ultimately show ?case using Suc by (simp add: Let_def)
qed

lemma safestrcpy_loop_at:
  "n < 2 ^ 32 - 1 \<Longrightarrow> (\<And>i j. i \<le> n \<Longrightarrow> j \<le> n \<Longrightarrow> s + of_nat i \<noteq> t + of_nat j) \<Longrightarrow>
     \<exists>k \<le> n. safestrcpy_loop s t n m (s + of_nat k) = 0 \<and>
      (\<forall>i < k. safestrcpy_loop s t n m (s + of_nat i) = m (t + of_nat i) \<and> m (t + of_nat i) \<noteq> 0) \<and>
      (k < n \<longrightarrow> m (t + of_nat k) = 0)"
proof (induction n arbitrary: s t m)
  case (Suc n)
  let ?m = "m(s := m t)" and ?r = "safestrcpy_loop s t (Suc n) m"
  show ?case
  proof (cases "m t = 0")
    case True
    then have "?r s = 0" by (simp add: Let_def)
    with True show ?thesis by (intro exI [of _ 0]) simp
  next
    case False
    then have r: "?r = safestrcpy_loop (s + 1) (t + 1) n ?m" by (simp add: Let_def)
    have "n < 2 ^ 32 - 1" using Suc.prems by simp
    moreover have "s + 1 + of_nat i \<noteq> t + 1 + of_nat j" if "i \<le> n" "j \<le> n" for i j
      using Suc.prems(2) [of "Suc i" "Suc j"] that by (simp add: ac_simps)
    ultimately obtain k where k: "k \<le> n" "?r (s + 1 + of_nat k) = 0"
      "\<And>i. i < k \<Longrightarrow> ?r (s + 1 + of_nat i) = ?m (t + 1 + of_nat i) \<and> ?m (t + 1 + of_nat i) \<noteq> 0"
      "k < n \<longrightarrow> ?m (t + 1 + of_nat k) = 0"
      using Suc.IH [of "s + 1" "t + 1" ?m] unfolding r by blast
    have m: "?m (t + 1 + of_nat i) = m (t + of_nat (Suc i))" if "i \<le> n" for i
      using Suc.prems(2) [of 0 "Suc i"] that by (simp add: ac_simps)
    have "?r s = m t"
      unfolding r using Suc.prems(1) by (subst safestrcpy_loop_frame) (simp_all add: unat_max)
    then have "?r (s + of_nat i) = m (t + of_nat i) \<and> m (t + of_nat i) \<noteq> 0" if "i < Suc k" for i
      using that k(1,3) m False by (cases i) (simp_all add: ac_simps)
    with k m show ?thesis by (intro exI [of _ "Suc k"]) (simp add: ac_simps)
  qed
qed simp

subsection \<open>Properties\<close>

text \<open>C28. \<open>safestrcpy\<close> into a buffer of \<open>n\<close> bytes that does not overlap the source always terminates
  the string inside the buffer: the bytes before the terminator are those of the source, the string is
  cut only when it does not fit, and no byte outside the buffer changes.\<close>

theorem safestrcpy_terminates_inside_buffer:
  assumes "0 < n" and "n < 2 ^ 32" and "\<And>i j. i < nat n \<Longrightarrow> j < nat n \<Longrightarrow> s + of_nat i \<noteq> t + of_nat j"
  shows "(\<exists>k < nat n. safestrcpy s t n m (s + of_nat k) = 0 \<and>
       (\<forall>i < k. safestrcpy s t n m (s + of_nat i) = m (t + of_nat i) \<and> m (t + of_nat i) \<noteq> 0) \<and>
       (k < nat n - 1 \<longrightarrow> m (t + of_nat k) = 0)) \<and>
     (\<forall>a. nat n \<le> unat (a - s) \<longrightarrow> safestrcpy s t n m a = m a)"
proof -
  have n: "nat n - 1 < 2 ^ 32 - 1" using assms(1,2) by (simp add: nat_less_iff)
  have r: "safestrcpy s t n m = safestrcpy_loop s t (nat n - 1) m" using assms(1) by (simp add: safestrcpy_def)
  have "\<exists>k \<le> nat n - 1. safestrcpy_loop s t (nat n - 1) m (s + of_nat k) = 0 \<and>
      (\<forall>i < k. safestrcpy_loop s t (nat n - 1) m (s + of_nat i) = m (t + of_nat i) \<and> m (t + of_nat i) \<noteq> 0) \<and>
      (k < nat n - 1 \<longrightarrow> m (t + of_nat k) = 0)"
    by (rule safestrcpy_loop_at [OF n]) (use assms in auto)
  moreover have "k < nat n" if "k \<le> nat n - 1" for k using that assms(1) by linarith
  moreover have "safestrcpy_loop s t (nat n - 1) m a = m a" if "nat n \<le> unat (a - s)" for a
    by (rule safestrcpy_loop_frame) (use n that assms(1) in auto)
  ultimately show ?thesis unfolding r by blast
qed

definition demo_memory :: memory where
  "demo_memory = (\<lambda>_. 0)(100 := 72, 101 := 105, 102 := 33)"

theorem safestrcpy_terminates_inside_buffer_witness:
  "safestrcpy 200 100 3 demo_memory 250 = 0 \<and> (\<exists>k < 3. safestrcpy 200 100 3 demo_memory (200 + of_nat k) = 0)"
proof -
  have "(200 :: uint) + of_nat i \<noteq> 100 + of_nat j" if "i < nat 3" "j < nat 3" for i j
  proof -
    have "i = 0 \<or> i = 1 \<or> i = 2" "j = 0 \<or> j = 1 \<or> j = 2" using that by auto
    then show ?thesis by auto
  qed
  from safestrcpy_terminates_inside_buffer [of 3 200 100 demo_memory, OF _ _ this]
  have "(\<exists>k < 3. safestrcpy 200 100 3 demo_memory (200 + of_nat k) = 0)"
    "\<forall>a. 3 \<le> unat (a - 200 :: uint) \<longrightarrow> safestrcpy 200 100 3 demo_memory a = demo_memory a" by auto
  from this(1) this(2) [rule_format, of 250] show ?thesis by (simp add: demo_memory_def)
qed

end
