(* ===== verification/Kalloc.thy ===== *)
theory Kalloc
  imports Mutex Mem
begin

unbundle bit_operations_syntax

text \<open>
  The physical page allocator (\<open>kalloc.c\<close>): a free list threaded through the free pages
  themselves. The abstraction is the list of free pages in the order the links give.
\<close>

subsection \<open>State and operations\<close>

definition PGSIZE :: uint where "PGSIZE = 4096"
definition PHYSTOP :: uint where "PHYSTOP = 0xE000000"

definition PGROUNDUP :: "uint \<Rightarrow> uint" where
  "PGROUNDUP a = (a + PGSIZE - 1) AND NOT (PGSIZE - 1)"

definition PGROUNDDOWN :: "uint \<Rightarrow> uint" where
  "PGROUNDDOWN a = a AND NOT (PGSIZE - 1)"

text \<open>
  \<open>kernel_end\<close> is the address the linker gives to the symbol \<open>end\<close>, the first address behind
  the kernel image; no operation changes it.
\<close>

record kmem = mtable +
  mem :: memory
  freelist :: uint
  use_lock :: bool
  kernel_end :: uint

lemma mem_frame [simp]:
  "mem (push s) = mem s"
  "mem (pop s) = mem s"
  "mem (settle s) = mem s"
  "mem (acq lk s) = mem s"
  "mem (rel lk s) = mem s"
  "mem (upd_cpu c g s) = mem s"
  "mem (upd_cur g s) = mem s"
  "mem (upd_lock lk h s) = mem s"
  "mem (upd_thread t k s) = mem s"
  "mem (upd_proc p q s) = mem s"
  "mem (run_on c s) = mem s"
  "settle (s\<lparr>mem := x\<rparr>) = (settle s)\<lparr>mem := x\<rparr>"
  "acq lk (s\<lparr>mem := x\<rparr>) = (acq lk s)\<lparr>mem := x\<rparr>"
  "rel lk (s\<lparr>mem := x\<rparr>) = (rel lk s)\<lparr>mem := x\<rparr>"
  "upd_cpu c g (s\<lparr>mem := x\<rparr>) = (upd_cpu c g s)\<lparr>mem := x\<rparr>"
  "upd_cur g (s\<lparr>mem := x\<rparr>) = (upd_cur g s)\<lparr>mem := x\<rparr>"
  "upd_lock lk h (s\<lparr>mem := x\<rparr>) = (upd_lock lk h s)\<lparr>mem := x\<rparr>"
  "upd_thread t k (s\<lparr>mem := x\<rparr>) = (upd_thread t k s)\<lparr>mem := x\<rparr>"
  "upd_proc p q (s\<lparr>mem := x\<rparr>) = (upd_proc p q s)\<lparr>mem := x\<rparr>"
  "run_on c (s\<lparr>mem := x\<rparr>) = (run_on c s)\<lparr>mem := x\<rparr>"
  "this_cpu (s\<lparr>mem := x\<rparr>) = this_cpu s"
  "cur (s\<lparr>mem := x\<rparr>) = cur s"
  "cpu_inv (s\<lparr>mem := x\<rparr>) = cpu_inv s"
  "in_cs (s\<lparr>mem := x\<rparr>) = in_cs s"
  "lock_free lk (s\<lparr>mem := x\<rparr>) = lock_free lk s"
  "lock_held lk (s\<lparr>mem := x\<rparr>) = lock_held lk s"
  "calm (s\<lparr>mem := x\<rparr>) = calm s"
  "runs (s\<lparr>mem := x\<rparr>) = runs s"
  by (simp_all add: frame_ext_defs)

lemma freelist_frame [simp]:
  "freelist (push s) = freelist s"
  "freelist (pop s) = freelist s"
  "freelist (settle s) = freelist s"
  "freelist (acq lk s) = freelist s"
  "freelist (rel lk s) = freelist s"
  "freelist (upd_cpu c g s) = freelist s"
  "freelist (upd_cur g s) = freelist s"
  "freelist (upd_lock lk h s) = freelist s"
  "freelist (upd_thread t k s) = freelist s"
  "freelist (upd_proc p q s) = freelist s"
  "freelist (run_on c s) = freelist s"
  "settle (s\<lparr>freelist := x\<rparr>) = (settle s)\<lparr>freelist := x\<rparr>"
  "acq lk (s\<lparr>freelist := x\<rparr>) = (acq lk s)\<lparr>freelist := x\<rparr>"
  "rel lk (s\<lparr>freelist := x\<rparr>) = (rel lk s)\<lparr>freelist := x\<rparr>"
  "upd_cpu c g (s\<lparr>freelist := x\<rparr>) = (upd_cpu c g s)\<lparr>freelist := x\<rparr>"
  "upd_cur g (s\<lparr>freelist := x\<rparr>) = (upd_cur g s)\<lparr>freelist := x\<rparr>"
  "upd_lock lk h (s\<lparr>freelist := x\<rparr>) = (upd_lock lk h s)\<lparr>freelist := x\<rparr>"
  "upd_thread t k (s\<lparr>freelist := x\<rparr>) = (upd_thread t k s)\<lparr>freelist := x\<rparr>"
  "upd_proc p q (s\<lparr>freelist := x\<rparr>) = (upd_proc p q s)\<lparr>freelist := x\<rparr>"
  "run_on c (s\<lparr>freelist := x\<rparr>) = (run_on c s)\<lparr>freelist := x\<rparr>"
  "this_cpu (s\<lparr>freelist := x\<rparr>) = this_cpu s"
  "cur (s\<lparr>freelist := x\<rparr>) = cur s"
  "cpu_inv (s\<lparr>freelist := x\<rparr>) = cpu_inv s"
  "in_cs (s\<lparr>freelist := x\<rparr>) = in_cs s"
  "lock_free lk (s\<lparr>freelist := x\<rparr>) = lock_free lk s"
  "lock_held lk (s\<lparr>freelist := x\<rparr>) = lock_held lk s"
  "calm (s\<lparr>freelist := x\<rparr>) = calm s"
  "runs (s\<lparr>freelist := x\<rparr>) = runs s"
  by (simp_all add: frame_ext_defs)

lemma use_lock_frame [simp]:
  "use_lock (push s) = use_lock s"
  "use_lock (pop s) = use_lock s"
  "use_lock (settle s) = use_lock s"
  "use_lock (acq lk s) = use_lock s"
  "use_lock (rel lk s) = use_lock s"
  "use_lock (upd_cpu c g s) = use_lock s"
  "use_lock (upd_cur g s) = use_lock s"
  "use_lock (upd_lock lk h s) = use_lock s"
  "use_lock (upd_thread t k s) = use_lock s"
  "use_lock (upd_proc p q s) = use_lock s"
  "use_lock (run_on c s) = use_lock s"
  "settle (s\<lparr>use_lock := x\<rparr>) = (settle s)\<lparr>use_lock := x\<rparr>"
  "acq lk (s\<lparr>use_lock := x\<rparr>) = (acq lk s)\<lparr>use_lock := x\<rparr>"
  "rel lk (s\<lparr>use_lock := x\<rparr>) = (rel lk s)\<lparr>use_lock := x\<rparr>"
  "upd_cpu c g (s\<lparr>use_lock := x\<rparr>) = (upd_cpu c g s)\<lparr>use_lock := x\<rparr>"
  "upd_cur g (s\<lparr>use_lock := x\<rparr>) = (upd_cur g s)\<lparr>use_lock := x\<rparr>"
  "upd_lock lk h (s\<lparr>use_lock := x\<rparr>) = (upd_lock lk h s)\<lparr>use_lock := x\<rparr>"
  "upd_thread t k (s\<lparr>use_lock := x\<rparr>) = (upd_thread t k s)\<lparr>use_lock := x\<rparr>"
  "upd_proc p q (s\<lparr>use_lock := x\<rparr>) = (upd_proc p q s)\<lparr>use_lock := x\<rparr>"
  "run_on c (s\<lparr>use_lock := x\<rparr>) = (run_on c s)\<lparr>use_lock := x\<rparr>"
  "this_cpu (s\<lparr>use_lock := x\<rparr>) = this_cpu s"
  "cur (s\<lparr>use_lock := x\<rparr>) = cur s"
  "cpu_inv (s\<lparr>use_lock := x\<rparr>) = cpu_inv s"
  "in_cs (s\<lparr>use_lock := x\<rparr>) = in_cs s"
  "lock_free lk (s\<lparr>use_lock := x\<rparr>) = lock_free lk s"
  "lock_held lk (s\<lparr>use_lock := x\<rparr>) = lock_held lk s"
  "calm (s\<lparr>use_lock := x\<rparr>) = calm s"
  "runs (s\<lparr>use_lock := x\<rparr>) = runs s"
  by (simp_all add: frame_ext_defs)

lemma kernel_end_frame [simp]:
  "kernel_end (push s) = kernel_end s"
  "kernel_end (pop s) = kernel_end s"
  "kernel_end (settle s) = kernel_end s"
  "kernel_end (acq lk s) = kernel_end s"
  "kernel_end (rel lk s) = kernel_end s"
  "kernel_end (upd_cpu c g s) = kernel_end s"
  "kernel_end (upd_cur g s) = kernel_end s"
  "kernel_end (upd_lock lk h s) = kernel_end s"
  "kernel_end (upd_thread t k s) = kernel_end s"
  "kernel_end (upd_proc p q s) = kernel_end s"
  "kernel_end (run_on c s) = kernel_end s"
  "settle (s\<lparr>kernel_end := x\<rparr>) = (settle s)\<lparr>kernel_end := x\<rparr>"
  "acq lk (s\<lparr>kernel_end := x\<rparr>) = (acq lk s)\<lparr>kernel_end := x\<rparr>"
  "rel lk (s\<lparr>kernel_end := x\<rparr>) = (rel lk s)\<lparr>kernel_end := x\<rparr>"
  "upd_cpu c g (s\<lparr>kernel_end := x\<rparr>) = (upd_cpu c g s)\<lparr>kernel_end := x\<rparr>"
  "upd_cur g (s\<lparr>kernel_end := x\<rparr>) = (upd_cur g s)\<lparr>kernel_end := x\<rparr>"
  "upd_lock lk h (s\<lparr>kernel_end := x\<rparr>) = (upd_lock lk h s)\<lparr>kernel_end := x\<rparr>"
  "upd_thread t k (s\<lparr>kernel_end := x\<rparr>) = (upd_thread t k s)\<lparr>kernel_end := x\<rparr>"
  "upd_proc p q (s\<lparr>kernel_end := x\<rparr>) = (upd_proc p q s)\<lparr>kernel_end := x\<rparr>"
  "run_on c (s\<lparr>kernel_end := x\<rparr>) = (run_on c s)\<lparr>kernel_end := x\<rparr>"
  "this_cpu (s\<lparr>kernel_end := x\<rparr>) = this_cpu s"
  "cur (s\<lparr>kernel_end := x\<rparr>) = cur s"
  "cpu_inv (s\<lparr>kernel_end := x\<rparr>) = cpu_inv s"
  "in_cs (s\<lparr>kernel_end := x\<rparr>) = in_cs s"
  "lock_free lk (s\<lparr>kernel_end := x\<rparr>) = lock_free lk s"
  "lock_held lk (s\<lparr>kernel_end := x\<rparr>) = lock_held lk s"
  "calm (s\<lparr>kernel_end := x\<rparr>) = calm s"
  "runs (s\<lparr>kernel_end := x\<rparr>) = runs s"
  by (simp_all add: frame_ext_defs)

definition kmem_lock :: "('m kmem_scheme, unit) kop" where
  "kmem_lock = kbind (kget use_lock) (\<lambda>b. if b then acquire LkKmem else kret ())"

definition kmem_unlock :: "('m kmem_scheme, unit) kop" where
  "kmem_unlock = kbind (kget use_lock) (\<lambda>b. if b then release LkKmem else kret ())"

definition page_ok :: "uint \<Rightarrow> uint \<Rightarrow> bool" where
  "page_ok e v \<longleftrightarrow> unat v mod 4096 = 0 \<and> e \<le> v \<and> V2P v < PHYSTOP"

definition kfree :: "uint \<Rightarrow> ('m kmem_scheme, unit) kop" where
  "kfree v =
     kbind (kget kernel_end) (\<lambda>e.
     if unat v mod 4096 \<noteq> 0 \<or> v < e \<or> PHYSTOP \<le> V2P v then kpanic ''kfree'' else
     kseq (kmod (\<lambda>s. s\<lparr>mem := memset v 1 PGSIZE (mem s)\<rparr>))
     (kseq kmem_lock
     (kseq (kmod (\<lambda>s. s\<lparr>mem := wr32 v (freelist s) (mem s)\<rparr>))
     (kseq (kmod (\<lambda>s. s\<lparr>freelist := v\<rparr>))
     kmem_unlock))))"

definition kalloc :: "('m kmem_scheme, uint) kop" where
  "kalloc =
     kseq kmem_lock
     (kbind (kget freelist) (\<lambda>r.
     kseq (if r \<noteq> 0 then kmod (\<lambda>s. s\<lparr>freelist := rd32 (mem s) r\<rparr>) else kret ())
     (kseq kmem_unlock
     (kret r))))"

text \<open>
  The loop of \<open>freerange\<close>. A round moves one page up, so as long as the address does not wrap
  around, a page count bounds the number of rounds; the fuel is the size of the address space in pages.
\<close>

fun freerange_loop :: "nat \<Rightarrow> uint \<Rightarrow> uint \<Rightarrow> ('m kmem_scheme, unit) kop" where
  "freerange_loop 0 p vend = kfault ''freerange wraps around''"
| "freerange_loop (Suc n) p vend =
     (if p + PGSIZE \<le> vend then kseq (kfree p) (freerange_loop n (p + PGSIZE) vend) else kret ())"

definition freerange :: "uint \<Rightarrow> uint \<Rightarrow> ('m kmem_scheme, unit) kop" where
  "freerange vstart vend = freerange_loop (2 ^ 20) (PGROUNDUP vstart) vend"

definition kinit1 :: "uint \<Rightarrow> uint \<Rightarrow> ('m kmem_scheme, unit) kop" where
  "kinit1 vstart vend =
     kseq (initlock LkKmem ''kmem'')
     (kseq (kmod (\<lambda>s. s\<lparr>use_lock := False\<rparr>))
     (freerange vstart vend))"

definition kinit2 :: "uint \<Rightarrow> uint \<Rightarrow> ('m kmem_scheme, unit) kop" where
  "kinit2 vstart vend =
     kseq (freerange vstart vend)
     (kmod (\<lambda>s. s\<lparr>use_lock := True\<rparr>))"

subsection \<open>The free list\<close>

fun flist :: "memory \<Rightarrow> uint \<Rightarrow> uint list \<Rightarrow> bool" where
  "flist m p [] \<longleftrightarrow> p = 0"
| "flist m p (q # qs) \<longleftrightarrow> p = q \<and> q \<noteq> 0 \<and> flist m (rd32 m q) qs"

definition kmem_inv :: "'m kmem_scheme \<Rightarrow> uint list \<Rightarrow> bool" where
  "kmem_inv s ps \<longleftrightarrow> flist (mem s) (freelist s) ps \<and> distinct ps \<and> (\<forall>p\<in>set ps. page_ok (kernel_end s) p)"

lemma flist_cong:
  "(\<And>p. p \<in> set ps \<Longrightarrow> rd32 m' p = rd32 m p) \<Longrightarrow> flist m' p ps = flist m p ps"
  by (induction ps arbitrary: p) auto

lemma page_aligned4: "unat (v :: uint) mod 4096 = 0 \<Longrightarrow> aligned4 v"
  unfolding aligned4_def using mod_mod_cancel [of 4 4096 "unat v"] by simp

lemma page_ok_aligned: "page_ok e v \<Longrightarrow> aligned4 v"
  by (simp add: page_ok_def page_aligned4)

text \<open>Distinct pages do not overlap.\<close>

lemma page_add:
  assumes "unat (x :: uint) mod 4096 = 0" and "i < 4096"
  shows "unat (x + of_nat i) = unat x + i"
proof -
  from assms(1) obtain a where a: "unat x = 4096 * a" by (auto simp: mod_0_imp_dvd elim: dvdE)
  have "unat x < 4294967296" using unat_lt32 [of x] by simp
  with a assms(2) have "a < 1048576" by simp
  with a assms(2) have "unat x + i < 4294967296" by simp
  moreover have "unat (of_nat i :: uint) = i" using assms by (simp add: unat_of_nat)
  ultimately show ?thesis by (simp add: unat_word_ariths)
qed

lemma page_disjoint:
  assumes "unat (p :: uint) mod 4096 = 0" and "unat q mod 4096 = 0" and "p \<noteq> q" and "k < 4096"
  shows "\<not> q + of_nat k - p < PGSIZE"
proof
  assume lt: "q + of_nat k - p < PGSIZE"
  define j where "j = unat (q + of_nat k - p)"
  have j: "j < 4096" using lt by (simp add: j_def PGSIZE_def word_less_nat_alt)
  have "q + of_nat k = p + of_nat j" by (simp add: j_def)
  then have e: "unat q + k = unat p + j" using page_add assms j by metis
  have "(unat q + k) div 4096 = unat q div 4096" "(unat p + j) div 4096 = unat p div 4096"
    using assms(1,2,4) j by (auto simp: mod_0_imp_dvd elim!: dvdE)
  with e have "unat q div 4096 = unat p div 4096" by simp
  then have "unat q = unat p" using assms(1,2) by (metis div_mult_mod_eq add_cancel_right_right)
  with assms(3) show False by (auto dest: unsigned_word_eqI)
qed


subsection \<open>Allocation and release of a page\<close>

definition kmem_ready :: "'m kmem_scheme \<Rightarrow> bool" where
  "kmem_ready s \<longleftrightarrow> cpu_inv s \<and> lock_free LkKmem s"

definition ksettle :: "'m kmem_scheme \<Rightarrow> 'm kmem_scheme" where
  "ksettle s = (if use_lock s then settle s else s)"

lemma ksettle_simps [simp]:
  "mem (ksettle s) = mem s" "freelist (ksettle s) = freelist s" "use_lock (ksettle s) = use_lock s"
  "kernel_end (ksettle s) = kernel_end s" "kmem_ready (ksettle s) = kmem_ready s" "cpu_inv (ksettle s) = cpu_inv s"
  "lock_free lk (ksettle s) = lock_free lk s" "ksettle (ksettle s) = ksettle s"
  by (simp_all add: ksettle_def kmem_ready_def)

lemma kmem_ready_frame [simp]:
  "kmem_ready (s\<lparr>mem := x\<rparr>) = kmem_ready s" "kmem_ready (s\<lparr>freelist := y\<rparr>) = kmem_ready s"
  by (simp_all add: kmem_ready_def)

lemma kalloc_ok [kexec]:
  assumes "kmem_ready s"
  shows "kalloc s = Ok (freelist s)
     (if freelist s = 0 then ksettle s else (ksettle s)\<lparr>freelist := rd32 (mem s) (freelist s)\<rparr>)"
  using assms by (simp add: kalloc_def kmem_lock_def kmem_unlock_def kexec ksettle_def kmem_ready_def)

lemma kfree_ok [kexec]:
  assumes "kmem_ready s" and "page_ok (kernel_end s) v"
  shows "kfree v s = Ok () ((ksettle s)\<lparr>mem := wr32 v (freelist s) (memset v 1 PGSIZE (mem s)), freelist := v\<rparr>)"
  using assms
  by (simp add: kfree_def kmem_lock_def kmem_unlock_def kexec ksettle_def page_ok_def kmem_ready_def not_less not_le)

lemma kfree_panics: "\<not> page_ok (kernel_end s) v \<Longrightarrow> kfree v s = Panic ''kfree''"
  by (auto simp: kfree_def kexec page_ok_def not_less not_le)

lemma kfree_mem_outside:
  assumes "unat v mod 4096 = 0" and "\<not> a - v < PGSIZE"
  shows "wr32 v x (memset v 1 PGSIZE m) a = m a"
proof -
  have "a \<noteq> v + of_nat i" if "i < 4" for i
  proof
    assume "a = v + of_nat i"
    then have "a - v = of_nat i" by simp
    then show False using assms(2) that by (simp add: PGSIZE_def word_less_nat_alt unat_of_nat)
  qed
  then have "wr32 v x (memset v 1 PGSIZE m) a = memset v 1 PGSIZE m a" by (rule wr32_other)
  then show ?thesis using assms(2) by (simp add: memset_at)
qed

lemma rd32_page_cong:
  assumes "\<And>a. \<not> a - v < PGSIZE \<Longrightarrow> m' a = m a" and "unat v mod 4096 = 0" and "unat p mod 4096 = 0" and "p \<noteq> v"
  shows "rd32 m' p = rd32 m p"
proof -
  have "m' (p + of_nat i) = m (p + of_nat i)" if "i < 4" for i
    by (rule assms(1)) (use assms(2-4) that page_disjoint [of v p i] in auto)
  from this [of 0] this [of 1] this [of 2] this [of 3] show ?thesis by (simp add: rd32_def)
qed

text \<open>Nothing the kernel writes into a page that is not free disturbs the free list.\<close>

lemma kmem_inv_write:
  assumes "kmem_inv s ps" and "\<And>a. \<not> a - v < PGSIZE \<Longrightarrow> m' a = mem s a" and "unat v mod 4096 = 0" and "v \<notin> set ps"
  shows "kmem_inv (s\<lparr>mem := m'\<rparr>) ps"
proof -
  have "flist m' (freelist s) ps = flist (mem s) (freelist s) ps"
  proof (rule flist_cong)
    fix p assume "p \<in> set ps"
    with assms(1,4) have "unat p mod 4096 = 0" "p \<noteq> v" by (auto simp: kmem_inv_def page_ok_def)
    with assms(2,3) show "rd32 m' p = rd32 (mem s) p" by (intro rd32_page_cong) simp_all
  qed
  then show ?thesis using assms(1) by (simp add: kmem_inv_def)
qed

lemma kmem_inv_ksettle [simp]: "kmem_inv (ksettle s) ps = kmem_inv s ps"
  by (simp add: kmem_inv_def)

lemma kmem_inv_kalloc:
  assumes "kmem_inv s (p # ps)"
  shows "freelist s = p" and "p \<noteq> 0" and "kmem_inv (s\<lparr>freelist := rd32 (mem s) p\<rparr>) ps"
    and "page_ok (kernel_end s) p" and "p \<notin> set ps"
  using assms by (auto simp: kmem_inv_def)

lemma kmem_inv_kfree:
  assumes "kmem_inv s ps" and "page_ok (kernel_end s) v" and "v \<noteq> 0" and "v \<notin> set ps"
  shows "kmem_inv (s\<lparr>mem := wr32 v (freelist s) (memset v 1 PGSIZE (mem s)), freelist := v\<rparr>) (v # ps)"
proof -
  let ?m = "wr32 v (freelist s) (memset v 1 PGSIZE (mem s))"
  have al: "unat v mod 4096 = 0" using assms(2) by (simp add: page_ok_def)
  have "kmem_inv (s\<lparr>mem := ?m\<rparr>) ps"
    by (rule kmem_inv_write [OF assms(1) _ al assms(4)]) (rule kfree_mem_outside [OF al])
  then show ?thesis using assms by (simp add: kmem_inv_def)
qed

subsection \<open>A source of pages\<close>

text \<open>
  What the clients of the allocator rely on: the free pages form a list of distinct pages, allocation
  takes the first (and returns the null pointer when there is none), and release puts a page back.
\<close>

locale page_source =
  fixes free_list :: "'s \<Rightarrow> uint list \<Rightarrow> bool"
    and is_page :: "'s \<Rightarrow> uint \<Rightarrow> bool"
    and alloc :: "('s, uint) kop"
    and free :: "uint \<Rightarrow> ('s, unit) kop"
  assumes free_list_pages: "free_list s ps \<Longrightarrow> distinct ps \<and> 0 \<notin> set ps \<and> (\<forall>p\<in>set ps. is_page s p)"
    and alloc_none: "free_list s [] \<Longrightarrow> \<exists>u. alloc s = Ok 0 u \<and> free_list u [] \<and> is_page u = is_page s"
    and alloc_some: "free_list s (p # ps) \<Longrightarrow> \<exists>u. alloc s = Ok p u \<and> free_list u ps \<and> is_page u = is_page s"
    and free_page: "free_list s ps \<Longrightarrow> is_page s p \<Longrightarrow> p \<noteq> 0 \<Longrightarrow> p \<notin> set ps \<Longrightarrow>
       \<exists>u. free p s = Ok () u \<and> free_list u (p # ps) \<and> is_page u = is_page s"
begin

fun alloc_many :: "nat \<Rightarrow> ('s, uint list) kop" where
  "alloc_many 0 = kret []"
| "alloc_many (Suc n) = kbind alloc (\<lambda>p. kbind (alloc_many n) (\<lambda>ps. kret (p # ps)))"

lemma alloc_many_ok:
  "free_list s ps \<Longrightarrow> n \<le> length ps \<Longrightarrow>
     \<exists>u. alloc_many n s = Ok (take n ps) u \<and> free_list u (drop n ps) \<and> is_page u = is_page s"
proof (induction n arbitrary: s ps)
  case (Suc n)
  then obtain p qs where ps: "ps = p # qs" by (cases ps) auto
  with Suc.prems obtain u where u: "alloc s = Ok p u" "free_list u qs" "is_page u = is_page s"
    using alloc_some by blast
  from Suc.IH [OF u(2)] Suc.prems ps obtain w where
    "alloc_many n u = Ok (take n qs) w" "free_list w (drop n qs)" "is_page w = is_page u" by auto
  with u ps show ?case by (simp add: kexec)
qed (auto simp: kexec)

lemma alloc_many_distinct:
  assumes "free_list s ps" and "n \<le> length ps"
  obtains qs u where "alloc_many n s = Ok qs u" and "distinct qs" and "length qs = n" and "0 \<notin> set qs"
    and "\<And>rs. free_list u rs \<Longrightarrow> rs = drop n ps \<Longrightarrow> set qs \<inter> set rs = {}"
proof -
  from alloc_many_ok [OF assms] obtain u where u: "alloc_many n s = Ok (take n ps) u" by blast
  from free_list_pages [OF assms(1)] have d: "distinct ps" "0 \<notin> set ps" by auto
  show thesis
    by (rule that [OF u]) (use d assms(2) in \<open>auto dest: in_set_takeD simp: set_take_disj_set_drop_if_distinct\<close>)
qed

lemma alloc_then_free:
  assumes "free_list s (p # ps)"
  shows "\<exists>u. kbind alloc free s = Ok () u \<and> free_list u (p # ps)"
proof -
  from alloc_some [OF assms] obtain u where u: "alloc s = Ok p u" "free_list u ps" "is_page u = is_page s" by blast
  have "\<exists>w. free p u = Ok () w \<and> free_list w (p # ps)"
    using free_page [OF u(2), of p] free_list_pages [OF assms] u(3) by auto
  with u(1) show ?thesis by (auto simp: kexec)
qed

end

definition kmem_list :: "'m kmem_scheme \<Rightarrow> uint list \<Rightarrow> bool" where
  "kmem_list s ps \<longleftrightarrow> kmem_ready s \<and> kmem_inv s ps"

lemma kmem_inv_nonzero: "kmem_inv s ps \<Longrightarrow> 0 \<notin> set ps"
proof -
  have "flist m p ps \<Longrightarrow> 0 \<notin> set ps" for m p by (induction ps arbitrary: p) auto
  then show "kmem_inv s ps \<Longrightarrow> 0 \<notin> set ps" by (auto simp: kmem_inv_def)
qed

interpretation kmem_pages: page_source kmem_list "\<lambda>s. page_ok (kernel_end s)" kalloc kfree
proof unfold_locales
  fix s :: "'m kmem_scheme" and ps :: "uint list"
  assume "kmem_list s ps"
  then show "distinct ps \<and> 0 \<notin> set ps \<and> (\<forall>p\<in>set ps. page_ok (kernel_end s) p)"
    using kmem_inv_nonzero by (auto simp: kmem_list_def kmem_inv_def)
next
  fix s :: "'m kmem_scheme"
  assume s: "kmem_list s []"
  then have "freelist s = 0" by (simp add: kmem_list_def kmem_inv_def)
  with s show "\<exists>u. kalloc s = Ok 0 u \<and> kmem_list u [] \<and> page_ok (kernel_end u) = page_ok (kernel_end s)"
    by (simp add: kalloc_ok kmem_list_def)
next
  fix s :: "'m kmem_scheme" and p :: uint and ps
  assume s: "kmem_list s (p # ps)"
  then show "\<exists>u. kalloc s = Ok p u \<and> kmem_list u ps \<and> page_ok (kernel_end u) = page_ok (kernel_end s)"
    using kmem_inv_kalloc [of "ksettle s" p ps] by (simp add: kalloc_ok kmem_list_def)
next
  fix s :: "'m kmem_scheme" and ps and p :: uint
  assume "kmem_list s ps" "page_ok (kernel_end s) p" "p \<noteq> 0" "p \<notin> set ps"
  then show "\<exists>u. kfree p s = Ok () u \<and> kmem_list u (p # ps) \<and> page_ok (kernel_end u) = page_ok (kernel_end s)"
    using kmem_inv_kfree [of "ksettle s" ps p] by (simp add: kfree_ok kmem_list_def)
qed

subsection \<open>Freeing a region\<close>

lemma round_down_mask: "(x :: uint) AND NOT (mask 12) = push_bit 12 (drop_bit 12 x)"
  by (rule bit_word_eqI) (auto simp: bit_simps)

lemma page_mask: "NOT (PGSIZE - 1) = NOT (mask 12)"
  by (simp add: PGSIZE_def mask_eq_exp_minus_1)

lemma unat_PGROUNDDOWN: "unat (PGROUNDDOWN x) = unat x div 4096 * 4096"
proof -
  have "unat x div 4096 * 4096 \<le> unat x" by simp
  then have "unat x div 4096 * 4096 < 4294967296" using unat_lt32 [of x] by simp
  then show ?thesis
    unfolding PGROUNDDOWN_def page_mask round_down_mask unsigned_push_bit_eq unsigned_drop_bit_eq
    by (simp add: push_bit_eq_mult drop_bit_eq_div take_bit_eq_mod)
qed

lemma unat_PGROUNDUP:
  assumes "unat x + 4095 < 2 ^ 32"
  shows "unat (PGROUNDUP x) = (unat x + 4095) div 4096 * 4096"
proof -
  have "x + PGSIZE - 1 = x + 4095" by (simp add: PGSIZE_def)
  then have "PGROUNDUP x = PGROUNDDOWN (x + 4095)" by (simp only: PGROUNDUP_def PGROUNDDOWN_def)
  moreover have "unat (x + 4095) = unat x + 4095" using assms by (simp add: unat_word_ariths)
  ultimately show ?thesis using unat_PGROUNDDOWN [of "x + 4095"] by simp
qed

definition region_pages :: "uint \<Rightarrow> nat \<Rightarrow> uint list" where
  "region_pages p n = map (\<lambda>i. p + of_nat i * PGSIZE) [0 ..< n]"

lemma region_pages_Suc: "region_pages p (Suc n) = p # region_pages (p + PGSIZE) n"
  by (simp add: region_pages_def upt_conv_Cons map_Suc_upt [symmetric] algebra_simps del: upt_Suc)

lemma unat_region_page:
  assumes "unat p + 4096 * n < 2 ^ 32" and "i \<le> n"
  shows "unat (p + of_nat i * PGSIZE) = unat p + 4096 * i"
proof -
  have "of_nat i * PGSIZE = (of_nat (4096 * i) :: uint)" by (simp add: PGSIZE_def)
  moreover have "unat (of_nat (4096 * i) :: uint) = 4096 * i"
    unfolding unat_of_nat using assms by simp
  ultimately have "unat (of_nat i * PGSIZE) = 4096 * i" by simp
  then show ?thesis using assms unat_add_lem [of p "of_nat i * PGSIZE"] by simp
qed

lemma freerange_loop_ok:
  "kmem_list s ps \<Longrightarrow> n < fuel \<Longrightarrow> unat p + 4096 * n \<le> unat vend \<Longrightarrow> unat vend < unat p + 4096 * Suc n \<Longrightarrow>
     unat vend + 4096 < 2 ^ 32 \<Longrightarrow>
     \<forall>q\<in>set (region_pages p n). page_ok (kernel_end s) q \<and> q \<noteq> 0 \<and> q \<notin> set ps \<Longrightarrow>
     \<exists>u. freerange_loop fuel p vend s = Ok () u \<and> kmem_list u (rev (region_pages p n) @ ps) \<and> kernel_end u = kernel_end s"
proof (induction n arbitrary: s ps p fuel)
  case 0
  then obtain f where f: "fuel = Suc f" by (cases fuel) auto
  have "unat (p + PGSIZE) = unat p + 4096" using 0 by (simp add: PGSIZE_def unat_word_ariths)
  with 0 f show ?case by (simp add: word_le_nat_alt region_pages_def)
next
  case (Suc n)
  then obtain f where f: "fuel = Suc f" by (cases fuel) auto
  have up: "unat (p + PGSIZE) = unat p + 4096" using Suc.prems by (simp add: PGSIZE_def unat_word_ariths)
  then have go: "p + PGSIZE \<le> vend" using Suc.prems by (simp add: word_le_nat_alt)
  note pg = Suc.prems(6) [unfolded region_pages_Suc]
  from pg kmem_pages.free_page [OF Suc.prems(1), of p] obtain u where
    u: "kfree p s = Ok () u" "kmem_list u (p # ps)" "page_ok (kernel_end u) = page_ok (kernel_end s)" by auto
  have e: "kernel_end u = kernel_end s"
    using u(1) Suc.prems(1) pg by (auto simp: kfree_ok kmem_list_def)
  have d: "p \<noteq> q" if "q \<in> set (region_pages (p + PGSIZE) n)" for q
  proof -
    from that obtain i where i: "i < n" "q = p + PGSIZE + of_nat i * PGSIZE" by (auto simp: region_pages_def)
    then have q: "q = p + of_nat (Suc i) * PGSIZE" by (simp add: algebra_simps)
    have "unat q = unat p + 4096 * Suc i"
      unfolding q by (rule unat_region_page [where n = "Suc n"]) (use i Suc.prems in simp_all)
    then show ?thesis by auto
  qed
  have "\<exists>w. freerange_loop f (p + PGSIZE) vend u = Ok () w \<and>
      kmem_list w (rev (region_pages (p + PGSIZE) n) @ p # ps) \<and> kernel_end w = kernel_end u"
    by (rule Suc.IH [OF u(2)]) (use Suc.prems f up pg d u(3) in auto)
  with u(1) e f go show ?case by (auto simp: kexec region_pages_Suc)
qed

lemma set_region_pages:
  assumes "unat p mod 4096 = 0" and "unat p + 4096 * n < 2 ^ 32"
  shows "set (region_pages p n) = {q :: uint. unat q mod 4096 = 0 \<and> unat p \<le> unat q \<and> unat q + 4096 \<le> unat p + 4096 * n}"
proof (intro set_eqI iffI)
  fix q assume "q \<in> set (region_pages p n)"
  then obtain i where i: "i < n" "q = p + of_nat i * PGSIZE" by (auto simp: region_pages_def)
  then have "unat q = unat p + 4096 * i" using unat_region_page [OF assms(2), of i] by simp
  with assms(1) i(1) show "q \<in> {q :: uint. unat q mod 4096 = 0 \<and> unat p \<le> unat q \<and> unat q + 4096 \<le> unat p + 4096 * n}"
    by (auto simp: mod_0_imp_dvd)
next
  fix q assume q: "q \<in> {q :: uint. unat q mod 4096 = 0 \<and> unat p \<le> unat q \<and> unat q + 4096 \<le> unat p + 4096 * n}"
  with assms(1) have "4096 dvd unat q" "4096 dvd unat p" "unat p \<le> unat q" by (auto simp: mod_0_imp_dvd)
  then have "4096 dvd unat q - unat p" by (meson dvd_diff_nat)
  then obtain i where i: "unat q - unat p = 4096 * i" by (auto elim: dvdE)
  with q have iq: "unat q = unat p + 4096 * i" "i < n" by auto
  then have "unat q = unat (p + of_nat i * PGSIZE)" using unat_region_page [OF assms(2), of i] by simp
  then have "q = p + of_nat i * PGSIZE" by (rule unsigned_word_eqI)
  with iq(2) show "q \<in> set (region_pages p n)" by (auto simp: region_pages_def)
qed

subsection \<open>Properties\<close>

text \<open>C16. The allocator implements a list of free pages threaded through the pages themselves:
  \<open>kalloc\<close> returns the first page and removes it, or the null pointer when the list is empty;
  \<open>kfree\<close> of a page that is not free puts it in front and writes only that page; anything that is
  not a page of the managed range makes it panic.\<close>

theorem kalloc_kfree_implement_page_list:
  assumes "kmem_list s ps"
  shows "(\<exists>u. kalloc s = Ok (case ps of [] \<Rightarrow> 0 | p # qs \<Rightarrow> p) u \<and> kmem_list u (tl ps) \<and> mem u = mem s) \<and>
     (\<forall>v. page_ok (kernel_end s) v \<and> v \<noteq> 0 \<and> v \<notin> set ps \<longrightarrow>
        (\<exists>u. kfree v s = Ok () u \<and> kmem_list u (v # ps) \<and> (\<forall>a. \<not> a - v < PGSIZE \<longrightarrow> mem u a = mem s a))) \<and>
     (\<forall>v. \<not> page_ok (kernel_end s) v \<longrightarrow> kfree v s = Panic ''kfree'')"
proof (intro conjI allI impI)
  have r: "kmem_ready s" using assms by (simp add: kmem_list_def)
  show "\<exists>u. kalloc s = Ok (case ps of [] \<Rightarrow> 0 | p # qs \<Rightarrow> p) u \<and> kmem_list u (tl ps) \<and> mem u = mem s"
  proof (cases ps)
    case Nil
    then obtain u where "kalloc s = Ok 0 u" "kmem_list u []" using kmem_pages.alloc_none assms by blast
    with Nil r show ?thesis by (auto simp: kalloc_ok)
  next
    case (Cons p qs)
    then obtain u where "kalloc s = Ok p u" "kmem_list u qs" using kmem_pages.alloc_some assms by blast
    with Cons r show ?thesis by (auto simp: kalloc_ok)
  qed
next
  fix v assume v: "page_ok (kernel_end s) v \<and> v \<noteq> 0 \<and> v \<notin> set ps"
  then obtain u where u: "kfree v s = Ok () u" "kmem_list u (v # ps)"
    using kmem_pages.free_page [OF assms, of v] by blast
  moreover have "mem u a = mem s a" if "\<not> a - v < PGSIZE" for a
    using u(1) v assms that kfree_mem_outside [of v a] by (auto simp: kfree_ok kmem_list_def page_ok_def)
  ultimately show "\<exists>u. kfree v s = Ok () u \<and> kmem_list u (v # ps) \<and> (\<forall>a. \<not> a - v < PGSIZE \<longrightarrow> mem u a = mem s a)"
    by blast
qed (rule kfree_panics)

lemma region_pages_whole:
  assumes p: "unat p mod 4096 = 0" "unat vstart \<le> unat p" "unat p < unat vstart + 4096"
    and n: "unat p + 4096 * n \<le> unat (vend :: uint)" "unat vend < unat p + 4096 * Suc n"
  shows "set (region_pages p n) = {q. unat q mod 4096 = 0 \<and> unat vstart \<le> unat q \<and> unat q + 4096 \<le> unat vend}"
proof -
  have v: "unat vend < 2 ^ LENGTH(32)" by (rule unsigned_less)
  have r: "set (region_pages p n) = {q. unat q mod 4096 = 0 \<and> unat p \<le> unat q \<and> unat q + 4096 \<le> unat p + 4096 * n}"
    by (rule set_region_pages [OF p(1)]) (use n(1) v in simp)
  show ?thesis
    unfolding r
  proof (rule Collect_cong, rule iffI)
    fix q :: uint assume q: "unat q mod 4096 = 0 \<and> unat vstart \<le> unat q \<and> unat q + 4096 \<le> unat vend"
    from q p(1) obtain a c where a: "unat q = 4096 * a" "unat p = 4096 * c" by (auto simp: mod_0_imp_dvd elim!: dvdE)
    have "4096 * (a + 1) < 4096 * (c + n + 1)" "4096 * c < 4096 * (a + 1)" using a q p n by simp_all
    then have "a + 1 \<le> c + n" "c \<le> a" by simp_all
    then show "unat q mod 4096 = 0 \<and> unat p \<le> unat q \<and> unat q + 4096 \<le> unat p + 4096 * n" using a by simp
  qed (use p n in auto)
qed

lemma usable_page:
  assumes b: "unat vend \<le> 0x8E000000" "0x80000000 \<le> unat vstart" and "e \<le> vstart"
    and q: "unat q mod 4096 = 0" "unat vstart \<le> unat q" "unat q + 4096 \<le> unat vend"
  shows "page_ok e q \<and> q \<noteq> 0"
proof -
  have "unat (V2P q) = unat q - 0x80000000"
    using q b by (simp add: V2P_def KERNBASE_def unat_sub_if')
  with q b assms(3) have "page_ok e q" by (simp add: page_ok_def word_le_nat_alt word_less_nat_alt PHYSTOP_def)
  moreover have "q \<noteq> 0" using q b by auto
  ultimately show ?thesis by simp
qed

text \<open>C17. \<open>freerange\<close> on a region of the managed range whose pages are not free ends, and adds to the
  free list exactly the whole pages that lie inside the region.\<close>

theorem freerange_frees_exactly_the_whole_pages:
  assumes "kmem_list s ps" and "KERNBASE \<le> kernel_end s" and "kernel_end s \<le> vstart" and "vstart \<le> vend"
    and "vend \<le> P2V PHYSTOP" and "\<And>q. q \<in> set ps \<Longrightarrow> \<not> (vstart \<le> q \<and> q \<le> vend)"
  shows "\<exists>u qs. freerange vstart vend s = Ok () u \<and> kmem_list u (qs @ ps) \<and>
     set qs = {q. unat q mod 4096 = 0 \<and> unat vstart \<le> unat q \<and> unat q + 4096 \<le> unat vend}"
proof -
  have b: "unat vend \<le> 0x8E000000" "unat vstart \<le> unat vend" "0x80000000 \<le> unat vstart"
    using assms(2-5) by (auto simp: word_le_nat_alt P2V_def KERNBASE_def PHYSTOP_def)
  define p where "p = PGROUNDUP vstart"
  have up: "unat p = (unat vstart + 4095) div 4096 * 4096"
    unfolding p_def by (rule unat_PGROUNDUP) (use b in simp)
  then have p: "unat p mod 4096 = 0" "unat vstart \<le> unat p" "unat p < unat vstart + 4096" by auto
  define n where "n = (unat vend - unat p) div 4096"
  show ?thesis
  proof (cases "unat p \<le> unat vend")
    case True
    have n: "unat p + 4096 * n \<le> unat vend" "unat vend < unat p + 4096 * Suc n"
      using True unfolding n_def by auto
    have eq: "set (region_pages p n) = {q. unat q mod 4096 = 0 \<and> unat vstart \<le> unat q \<and> unat q + 4096 \<le> unat vend}"
      by (rule region_pages_whole [OF p n])
    have "\<exists>u. freerange_loop (2 ^ 20) p vend s = Ok () u \<and> kmem_list u (rev (region_pages p n) @ ps) \<and> kernel_end u = kernel_end s"
    proof (rule freerange_loop_ok [OF assms(1) _ n])
      show "n < 2 ^ 20" using n b by simp
      show "unat vend + 4096 < 2 ^ 32" using b by simp
      show "\<forall>q\<in>set (region_pages p n). page_ok (kernel_end s) q \<and> q \<noteq> 0 \<and> q \<notin> set ps"
      proof
        fix q assume "q \<in> set (region_pages p n)"
        then have q: "unat q mod 4096 = 0" "unat vstart \<le> unat q" "unat q + 4096 \<le> unat vend" unfolding eq by auto
        then show "page_ok (kernel_end s) q \<and> q \<noteq> 0 \<and> q \<notin> set ps"
          using usable_page [OF b(1,3) assms(3) q] assms(6) [of q] by (auto simp: word_le_nat_alt)
      qed
    qed
    then show ?thesis unfolding freerange_def p_def [symmetric] eq [symmetric] by (metis set_rev)
  next
    case False
    have up1: "unat (p + PGSIZE) = unat p + 4096" using p b by (simp add: PGSIZE_def unat_word_ariths)
    then have "\<not> p + PGSIZE \<le> vend" using False by (simp add: word_le_nat_alt)
    then have l: "freerange_loop (Suc k) p vend s = Ok () s" for k by simp
    have e: "Suc (2 ^ 20 - 1) = (2 :: nat) ^ 20" by simp
    from l [of "2 ^ 20 - 1"] have "freerange_loop (2 ^ 20) p vend s = Ok () s" unfolding e .
    moreover have "{q :: uint. unat q mod 4096 = 0 \<and> unat vstart \<le> unat q \<and> unat q + 4096 \<le> unat vend} = {}"
    proof (rule equals0I)
      fix q :: uint assume q: "q \<in> {q. unat q mod 4096 = 0 \<and> unat vstart \<le> unat q \<and> unat q + 4096 \<le> unat vend}"
      then have "unat vstart \<le> unat q" "unat q + 4096 \<le> unat vend" by simp_all
      then show False using p(3) False by linarith
    qed
    ultimately show ?thesis
      using assms(1) unfolding freerange_def p_def [symmetric] by (metis append_Nil empty_set)
  qed
qed

definition parked_k :: kmem where
  "parked_k = mtable.extend (parked_m mutex0) \<lparr>mem = (\<lambda>_. 0), freelist = 0, use_lock = True, kernel_end = 0x80110000\<rparr>"

lemma parked_k_ok: "kmem_list (run_on 0 parked_k) []" "kernel_end parked_k = 0x80110000"
proof -
  have "calm parked_k" "on_thread 0 0 parked_k" "lock_free LkKmem parked_k"
    using ready_calm ready_threads
    by (simp_all add: parked_k_def parked_m_def parked_sl_def calm_def on_thread_def runs_def lock_free_def
        ptable.extend_def sltable.extend_def mtable.extend_def parked_def)
  then show "kmem_list (run_on 0 parked_k) []"
    using on_threadD(1) [of 0 0 parked_k]
    by (simp add: kmem_list_def kmem_inv_def kmem_ready_def) (simp add: parked_k_def mtable.extend_def)
qed (simp add: parked_k_def mtable.extend_def)

theorem kalloc_kfree_implement_page_list_witness:
  "\<exists>u. kfree 0x80112000 (run_on 0 parked_k) = Ok () u \<and> kmem_list u [0x80112000]"
proof -
  have "page_ok (kernel_end (run_on 0 parked_k)) 0x80112000"
    by (simp add: page_ok_def parked_k_ok(2) V2P_def KERNBASE_def PHYSTOP_def)
  with kalloc_kfree_implement_page_list [OF parked_k_ok(1), THEN conjunct2, THEN conjunct1]
  show ?thesis by force
qed

theorem freerange_frees_exactly_the_whole_pages_witness:
  "\<exists>u qs. freerange 0x80110001 0x80113000 (run_on 0 parked_k) = Ok () u \<and> kmem_list u qs \<and> 0x80112000 \<in> set qs"
proof -
  have "KERNBASE \<le> kernel_end (run_on 0 parked_k)" "kernel_end (run_on 0 parked_k) \<le> 0x80110001"
    "(0x80110001 :: uint) \<le> 0x80113000" "0x80113000 \<le> P2V PHYSTOP"
    by (simp_all add: parked_k_ok(2) KERNBASE_def P2V_def PHYSTOP_def)
  from freerange_frees_exactly_the_whole_pages [OF parked_k_ok(1) this] show ?thesis by fastforce
qed

end
