(* ===== verification/Vm.thy ===== *)
theory Vm
  imports Kalloc
begin

unbundle bit_operations_syntax

text \<open>
  Page tables (\<open>vm.c\<close>): two-level x86 tables in pages of the allocator, the kernel map, and the
  growth, shrinking, copying and release of user address spaces.
\<close>

subsection \<open>Page-table entries\<close>

definition PTE_P :: uint where "PTE_P = 1"
definition PTE_W :: uint where "PTE_W = 2"
definition PTE_U :: uint where "PTE_U = 4"
definition EXTMEM :: uint where "EXTMEM = 0x100000"
definition DEVSPACE :: uint where "DEVSPACE = 0xFE000000"
definition KERNLINK :: uint where "KERNLINK = KERNBASE + EXTMEM"
definition NPDENTRIES :: nat where "NPDENTRIES = 1024"

definition PDX :: "uint \<Rightarrow> uint" where "PDX va = drop_bit 22 va AND 0x3FF"
definition PTX :: "uint \<Rightarrow> uint" where "PTX va = drop_bit 12 va AND 0x3FF"
definition PGADDR :: "uint \<Rightarrow> uint \<Rightarrow> uint \<Rightarrow> uint" where
  "PGADDR d t f = push_bit 22 d OR push_bit 12 t OR f"
definition PTE_ADDR :: "uint \<Rightarrow> uint" where "PTE_ADDR pte = pte AND NOT 0xFFF"
definition PTE_FLAGS :: "uint \<Rightarrow> uint" where "PTE_FLAGS pte = pte AND 0xFFF"

definition present :: "uint \<Rightarrow> bool" where "present e \<longleftrightarrow> e AND PTE_P \<noteq> 0"

subsection \<open>Walking and mapping\<close>

definition walkpgdir :: "uint \<Rightarrow> uint \<Rightarrow> bool \<Rightarrow> ('m kmem_scheme, uint) kop" where
  "walkpgdir pd va alloc =
     kbind (kget (\<lambda>s. rd32 (mem s) (pd + 4 * PDX va))) (\<lambda>pde.
     if present pde then kret (P2V (PTE_ADDR pde) + 4 * PTX va)
     else if \<not> alloc then kret 0
     else kbind kalloc (\<lambda>pgtab.
       if pgtab = 0 then kret 0
       else
         kseq (kmod (\<lambda>s. s\<lparr>mem := memset pgtab 0 PGSIZE (mem s)\<rparr>))
         (kseq (kmod (\<lambda>s. s\<lparr>mem := wr32 (pd + 4 * PDX va) (V2P pgtab OR PTE_P OR PTE_W OR PTE_U) (mem s)\<rparr>))
         (kret (pgtab + 4 * PTX va)))))"

text \<open>
  The loop of \<open>mappages\<close> moves up one page per round until it meets the last page; page addresses
  repeat after \<open>2 ^ 20\<close> rounds, so that much fuel is always enough.
\<close>

fun mappages_loop :: "nat \<Rightarrow> uint \<Rightarrow> uint \<Rightarrow> uint \<Rightarrow> uint \<Rightarrow> uint \<Rightarrow> ('m kmem_scheme, int) kop" where
  "mappages_loop 0 pd a final pa perm = kfault ''mappages''"
| "mappages_loop (Suc n) pd a final pa perm =
     kbind (walkpgdir pd a True) (\<lambda>pte.
     if pte = 0 then kret (- 1)
     else kbind (kget (\<lambda>s. rd32 (mem s) pte)) (\<lambda>v.
       if present v then kpanic ''remap''
       else
         kseq (kmod (\<lambda>s. s\<lparr>mem := wr32 pte (pa OR perm OR PTE_P) (mem s)\<rparr>))
         (if a = final then kret 0 else mappages_loop n pd (a + PGSIZE) final (pa + PGSIZE) perm)))"

definition mappages :: "uint \<Rightarrow> uint \<Rightarrow> uint \<Rightarrow> uint \<Rightarrow> uint \<Rightarrow> ('m kmem_scheme, int) kop" where
  "mappages pd va len pa perm =
     mappages_loop (2 ^ 20) pd (PGROUNDDOWN va) (PGROUNDDOWN (va + len - 1)) pa perm"

subsection \<open>Shrinking and releasing\<close>

text \<open>The loop of \<open>deallocuvm\<close>; a missing page table is skipped as a whole.\<close>

fun deallocuvm_loop :: "nat \<Rightarrow> uint \<Rightarrow> uint \<Rightarrow> uint \<Rightarrow> ('m kmem_scheme, unit) kop" where
  "deallocuvm_loop 0 pd a oldsz = kfault ''deallocuvm''"
| "deallocuvm_loop (Suc n) pd a oldsz =
     (if a < oldsz then
        kbind (walkpgdir pd a False) (\<lambda>pte.
        if pte = 0 then deallocuvm_loop n pd (PGADDR (PDX a + 1) 0 0 - PGSIZE + PGSIZE) oldsz
        else kbind (kget (\<lambda>s. rd32 (mem s) pte)) (\<lambda>v.
          if present v then
            if PTE_ADDR v = 0 then kpanic ''kfree''
            else
              kseq (kfree (P2V (PTE_ADDR v)))
              (kseq (kmod (\<lambda>s. s\<lparr>mem := wr32 pte 0 (mem s)\<rparr>))
              (deallocuvm_loop n pd (a + PGSIZE) oldsz))
          else deallocuvm_loop n pd (a + PGSIZE) oldsz))
      else kret ())"

definition deallocuvm :: "uint \<Rightarrow> uint \<Rightarrow> uint \<Rightarrow> ('m kmem_scheme, uint) kop" where
  "deallocuvm pd oldsz newsz =
     (if oldsz \<le> newsz then kret oldsz
      else kseq (deallocuvm_loop (2 ^ 20) pd (PGROUNDUP newsz) oldsz) (kret newsz))"

fun freevm_loop :: "nat \<Rightarrow> nat \<Rightarrow> uint \<Rightarrow> ('m kmem_scheme, unit) kop" where
  "freevm_loop 0 i pd = kret ()"
| "freevm_loop (Suc n) i pd =
     kbind (kget (\<lambda>s. rd32 (mem s) (pd + 4 * of_nat i))) (\<lambda>pde.
     kseq (if present pde then kfree (P2V (PTE_ADDR pde)) else kret ())
     (freevm_loop n (Suc i) pd))"

definition freevm :: "uint \<Rightarrow> ('m kmem_scheme, unit) kop" where
  "freevm pd =
     (if pd = 0 then kpanic ''freevm: no pgdir''
      else
        kseq (deallocuvm pd KERNBASE 0)
        (kseq (freevm_loop NPDENTRIES 0 pd)
        (kfree pd)))"

subsection \<open>Growing\<close>

fun allocuvm_loop :: "nat \<Rightarrow> uint \<Rightarrow> uint \<Rightarrow> uint \<Rightarrow> uint \<Rightarrow> ('m kmem_scheme, uint) kop" where
  "allocuvm_loop 0 pd a oldsz newsz = kfault ''allocuvm''"
| "allocuvm_loop (Suc n) pd a oldsz newsz =
     (if a < newsz then
        kbind kalloc (\<lambda>m.
        if m = 0 then kseq (deallocuvm pd newsz oldsz) (kret 0)
        else
          kseq (kmod (\<lambda>s. s\<lparr>mem := memset m 0 PGSIZE (mem s)\<rparr>))
          (kbind (mappages pd a PGSIZE (V2P m) (PTE_W OR PTE_U)) (\<lambda>r.
          if r < 0 then kseq (deallocuvm pd newsz oldsz) (kseq (kfree m) (kret 0))
          else allocuvm_loop n pd (a + PGSIZE) oldsz newsz)))
      else kret newsz)"

definition allocuvm :: "uint \<Rightarrow> uint \<Rightarrow> uint \<Rightarrow> ('m kmem_scheme, uint) kop" where
  "allocuvm pd oldsz newsz =
     (if KERNBASE \<le> newsz then kret 0
      else if newsz < oldsz then kret oldsz
      else allocuvm_loop (2 ^ 20) pd (PGROUNDUP oldsz) oldsz newsz)"

subsection \<open>The kernel part and whole address spaces\<close>

text \<open>
  The kernel's mappings, present in every page table. \<open>data\<close> is the address the linker gives to
  the start of the kernel's writable data.
\<close>

definition kmap :: "uint \<Rightarrow> (uint \<times> uint \<times> uint \<times> uint) list" where
  "kmap data =
     [(KERNBASE, 0, EXTMEM, PTE_W),
      (KERNLINK, V2P KERNLINK, V2P data, 0),
      (data, V2P data, PHYSTOP, PTE_W),
      (DEVSPACE, DEVSPACE, 0, PTE_W)]"

fun setupkvm_loop :: "(uint \<times> uint \<times> uint \<times> uint) list \<Rightarrow> uint \<Rightarrow> ('m kmem_scheme, uint) kop" where
  "setupkvm_loop [] pd = kret pd"
| "setupkvm_loop ((virt, phys_start, phys_end, perm) # ks) pd =
     kbind (mappages pd virt (phys_end - phys_start) phys_start perm) (\<lambda>r.
     if r < 0 then kseq (freevm pd) (kret 0) else setupkvm_loop ks pd)"

definition setupkvm :: "uint \<Rightarrow> ('m kmem_scheme, uint) kop" where
  "setupkvm data =
     kbind kalloc (\<lambda>pd.
     if pd = 0 then kret 0
     else
       kseq (kmod (\<lambda>s. s\<lparr>mem := memset pd 0 PGSIZE (mem s)\<rparr>))
       (if DEVSPACE < P2V PHYSTOP then kpanic ''PHYSTOP too high''
        else setupkvm_loop (kmap data) pd))"

definition kvmalloc :: "uint \<Rightarrow> ('m kmem_scheme, unit) kop" where
  "kvmalloc data = kbind (setupkvm data) (\<lambda>d. kseq (kmod (\<lambda>s. s\<lparr>kpgdir := d\<rparr>)) switchkvm)"

definition inituvm :: "uint \<Rightarrow> uint \<Rightarrow> uint \<Rightarrow> ('m kmem_scheme, unit) kop" where
  "inituvm pd init usz =
     (if PGSIZE \<le> usz then kpanic ''inituvm: more than a page''
      else
        kbind kalloc (\<lambda>m.
        kseq (kmod (\<lambda>s. s\<lparr>mem := memset m 0 PGSIZE (mem s)\<rparr>))
        (kseq (mappages pd 0 PGSIZE (V2P m) (PTE_W OR PTE_U))
        (kmod (\<lambda>s. s\<lparr>mem := memmove m init usz (mem s)\<rparr>)))))"

definition clearpteu :: "uint \<Rightarrow> uint \<Rightarrow> ('m kmem_scheme, unit) kop" where
  "clearpteu pd uva =
     kbind (walkpgdir pd uva False) (\<lambda>pte.
     if pte = 0 then kpanic ''clearpteu''
     else kmod (\<lambda>s. s\<lparr>mem := wr32 pte (rd32 (mem s) pte AND NOT PTE_U) (mem s)\<rparr>))"

fun copyuvm_loop :: "nat \<Rightarrow> uint \<Rightarrow> uint \<Rightarrow> uint \<Rightarrow> uint \<Rightarrow> ('m kmem_scheme, uint) kop" where
  "copyuvm_loop 0 pd d i usz = kfault ''copyuvm''"
| "copyuvm_loop (Suc n) pd d i usz =
     (if i < usz then
        kbind (walkpgdir pd i False) (\<lambda>pte.
        if pte = 0 then kpanic ''copyuvm: pte should exist''
        else kbind (kget (\<lambda>s. rd32 (mem s) pte)) (\<lambda>v.
        if \<not> present v then kpanic ''copyuvm: page not present''
        else kbind kalloc (\<lambda>m.
        if m = 0 then kseq (freevm d) (kret 0)
        else
          kseq (kmod (\<lambda>s. s\<lparr>mem := memmove m (P2V (PTE_ADDR v)) PGSIZE (mem s)\<rparr>))
          (kbind (mappages d i PGSIZE (V2P m) (PTE_FLAGS v)) (\<lambda>r.
          if r < 0 then kseq (kfree m) (kseq (freevm d) (kret 0))
          else copyuvm_loop n pd d (i + PGSIZE) usz)))))
      else kret d)"

definition copyuvm :: "uint \<Rightarrow> uint \<Rightarrow> uint \<Rightarrow> ('m kmem_scheme, uint) kop" where
  "copyuvm data pd usz =
     kbind (setupkvm data) (\<lambda>d. if d = 0 then kret 0 else copyuvm_loop (2 ^ 20) pd d 0 usz)"

subsection \<open>Access to user memory\<close>

fun put_bytes :: "uint \<Rightarrow> uchar list \<Rightarrow> memory \<Rightarrow> memory" where
  "put_bytes a [] m = m"
| "put_bytes a (b # bs) m = put_bytes (a + 1) bs (m(a := b))"

definition uva2ka :: "uint \<Rightarrow> uint \<Rightarrow> ('m kmem_scheme, uint) kop" where
  "uva2ka pd uva =
     kbind (walkpgdir pd uva False) (\<lambda>pte.
     if pte = 0 then kfault ''null pointer''
     else kbind (kget (\<lambda>s. rd32 (mem s) pte)) (\<lambda>v.
     if v AND PTE_P = 0 then kret 0
     else if v AND PTE_U = 0 then kret 0
     else kret (P2V (PTE_ADDR v))))"

fun copyout_loop :: "nat \<Rightarrow> uint \<Rightarrow> uint \<Rightarrow> uchar list \<Rightarrow> ('m kmem_scheme, int) kop" where
  "copyout_loop 0 pd va buf = kfault ''copyout''"
| "copyout_loop (Suc k) pd va buf =
     (if buf = [] then kret 0
      else
        let va0 = PGROUNDDOWN va
        in kbind (uva2ka pd va0) (\<lambda>pa0.
           if pa0 = 0 then kret (- 1)
           else
             let n = min (unat (PGSIZE - (va - va0))) (length buf)
             in kseq (kmod (\<lambda>s. s\<lparr>mem := put_bytes (pa0 + (va - va0)) (take n buf) (mem s)\<rparr>))
                (copyout_loop k pd (va0 + PGSIZE) (drop n buf))))"

definition copyout :: "uint \<Rightarrow> uint \<Rightarrow> uchar list \<Rightarrow> ('m kmem_scheme, int) kop" where
  "copyout pd va buf = copyout_loop (Suc (length buf)) pd va buf"


subsection \<open>Entries in pages\<close>

lemma ff3_mask: "(0x3FF :: uint) = mask 10" "(0xFFF :: uint) = mask 12"
  by (simp_all add: mask_eq_exp_minus_1)

lemma unat_PDX: "unat (PDX va) = unat va div 4194304"
proof -
  have "unat va div 4194304 < 1024" using unat_lt32 [of va] by (simp add: less_mult_imp_div_less)
  then show ?thesis
    unfolding PDX_def ff3_mask take_bit_eq_mask [symmetric] unsigned_take_bit_eq unsigned_drop_bit_eq
    by (simp add: drop_bit_eq_div take_bit_eq_mod)
qed

lemma unat_PTX: "unat (PTX va) = unat va div 4096 mod 1024"
  using unat_lt32 [of va] unfolding PTX_def ff3_mask take_bit_eq_mask [symmetric] unsigned_take_bit_eq unsigned_drop_bit_eq
  by (simp add: drop_bit_eq_div take_bit_eq_mod)

text \<open>Entry \<open>i\<close> of the table in page \<open>p\<close>.\<close>

definition entry :: "uint \<Rightarrow> nat \<Rightarrow> uint" where
  "entry p i = p + 4 * of_nat i"

definition aligned_page :: "uint \<Rightarrow> bool" where
  "aligned_page p \<longleftrightarrow> unat p mod 4096 = 0"

lemma unat_entry: "aligned_page p \<Longrightarrow> i < 1024 \<Longrightarrow> unat (entry p i) = unat p + 4 * i"
  using page_add [of p "4 * i"] by (simp add: entry_def aligned_page_def)

lemma entry_in_page: "i < 1024 \<Longrightarrow> entry p i - p < PGSIZE"
  by (simp add: entry_def PGSIZE_def word_less_nat_alt unat_word_ariths unat_of_nat)

lemma entry_aligned: "aligned_page p \<Longrightarrow> i < 1024 \<Longrightarrow> aligned4 (entry p i)"
  unfolding aligned4_def using unat_entry [of p i] mod_mod_cancel [of 4 4096 "unat p"]
  by (simp add: aligned_page_def mod_add_eq [symmetric, of "unat p"] del: mod_add_eq)

lemma entry_inj:
  assumes "aligned_page p" and "aligned_page q" and "i < 1024" and "j < 1024" and "entry p i = entry q j"
  shows "p = q \<and> i = j"
proof -
  from assms obtain a b where a: "unat p = 4096 * a" "unat q = 4096 * b"
    by (auto simp: aligned_page_def mod_0_imp_dvd elim!: dvdE)
  have "unat p + 4 * i = unat q + 4 * j" using assms unat_entry by metis
  with a have e: "1024 * a + i = 1024 * b + j" by simp
  then have "(1024 * a + i) div 1024 = (1024 * b + j) div 1024" by simp
  with assms(3,4) have "a = b" by simp
  with e a have "unat p = unat q" "i = j" by simp_all
  then show ?thesis by (auto dest: unsigned_word_eqI)
qed

definition ent :: "memory \<Rightarrow> uint \<Rightarrow> nat \<Rightarrow> uint" where
  "ent m p i = rd32 m (entry p i)"

lemma ent_wr32:
  assumes "aligned_page p" and "aligned_page q" and "i < 1024" and "j < 1024"
  shows "ent (wr32 (entry q j) v m) p i = (if p = q \<and> i = j then v else ent m p i)"
proof (cases "p = q \<and> i = j")
  case False
  then have "entry q j \<noteq> entry p i" using entry_inj [OF assms] by auto
  with False assms entry_aligned show ?thesis unfolding ent_def by (subst rd32_wr32_other) auto
qed (auto simp: ent_def)

lemma page_off_disjoint:
  assumes "aligned_page p" and "aligned_page q" and "p \<noteq> q" and "a - p < PGSIZE"
  shows "\<not> a - q < PGSIZE"
proof -
  define k where "k = unat (a - p)"
  have "k < 4096" using assms(4) by (simp add: k_def PGSIZE_def word_less_nat_alt)
  moreover have "a = p + of_nat k" by (simp add: k_def)
  ultimately show ?thesis using page_disjoint [of q p k] assms by (simp add: aligned_page_def)
qed

lemma entry_bytes_in_page:
  assumes "aligned_page p" and "i < 1024" and "k < 4"
  shows "entry p i + of_nat k - p < PGSIZE"
proof -
  have "entry p i + of_nat k - p = of_nat (4 * i + k)" by (simp add: entry_def)
  then show ?thesis using assms by (simp add: PGSIZE_def word_less_nat_alt unat_of_nat del: of_nat_add of_nat_mult)
qed

lemma ent_cong:
  assumes "aligned_page p" and "i < 1024" and "\<And>a. a - p < PGSIZE \<Longrightarrow> m' a = m a"
  shows "ent m' p i = ent m p i"
proof -
  have "m' (entry p i + of_nat k) = m (entry p i + of_nat k)" if "k < 4" for k
    by (rule assms(3)) (rule entry_bytes_in_page [OF assms(1,2) that])
  from this [of 0] this [of 1] this [of 2] this [of 3] show ?thesis by (simp add: ent_def rd32_def)
qed

lemma ent_memset:
  assumes "aligned_page p" and "aligned_page q" and "i < 1024"
  shows "ent (memset q 0 PGSIZE m) p i = (if p = q then 0 else ent m p i)"
proof (cases "p = q")
  case True
  have "memset q 0 PGSIZE m (entry q i + of_nat k) = 0" if "k < 4" for k
    using entry_bytes_in_page [OF assms(2,3) that] by (simp add: memset_at)
  from this [of 0] this [of 1] this [of 2] this [of 3] True show ?thesis by (simp add: ent_def rd32_def)
next
  case False
  then have "ent (memset q 0 PGSIZE m) p i = ent m p i"
    by (intro ent_cong) (use assms page_off_disjoint in \<open>auto simp: memset_at\<close>)
  with False show ?thesis by simp
qed

lemma wr32_entry_outside:
  assumes "aligned_page q" and "j < 1024" and "\<not> a - q < PGSIZE"
  shows "wr32 (entry q j) v m a = m a"
  by (rule wr32_other) (use assms entry_bytes_in_page in blast)

subsection \<open>A page table as a map\<close>

definition pgtab :: "memory \<Rightarrow> uint \<Rightarrow> nat \<Rightarrow> uint" where
  "pgtab m pd i = P2V (PTE_ADDR (ent m pd i))"

definition pdx :: "uint \<Rightarrow> nat" where "pdx va = unat va div 4194304"
definition ptx :: "uint \<Rightarrow> nat" where "ptx va = unat va div 4096 mod 1024"

text \<open>The entry that maps \<open>va\<close>, zero when there is no page table for it.\<close>

definition pte :: "memory \<Rightarrow> uint \<Rightarrow> uint \<Rightarrow> uint" where
  "pte m pd va = (if present (ent m pd (pdx va)) then ent m (pgtab m pd (pdx va)) (ptx va) else 0)"

text \<open>
  A well-formed page directory: it and its page tables are pages, all different, and none is free.
\<close>

definition pgt_wf :: "memory \<Rightarrow> uint \<Rightarrow> uint list \<Rightarrow> bool" where
  "pgt_wf m pd ps \<longleftrightarrow> aligned_page pd \<and> pd \<notin> set ps \<and>
     (\<forall>i < 1024. present (ent m pd i) \<longrightarrow>
        aligned_page (pgtab m pd i) \<and> pgtab m pd i \<noteq> pd \<and> pgtab m pd i \<notin> set ps \<and> pgtab m pd i \<noteq> 0 \<and>
        (\<forall>j < 1024. present (ent m pd j) \<longrightarrow> pgtab m pd j = pgtab m pd i \<longrightarrow> j = i))"

lemma pdx_less [simp]: "pdx va < 1024"
  using unat_lt32 [of va] by (simp add: pdx_def less_mult_imp_div_less)

lemma ptx_less [simp]: "ptx va < 1024"
  by (simp add: ptx_def)

lemma entry_PDX: "pd + 4 * PDX va = entry pd (pdx va)"
  by (simp add: entry_def pdx_def unat_PDX [symmetric])

lemma entry_PTX: "pd + 4 * PTX va = entry pd (ptx va)"
  by (simp add: entry_def ptx_def unat_PTX [symmetric])

lemma same_page: "pdx va = pdx vb \<and> ptx va = ptx vb \<longleftrightarrow> unat va div 4096 = unat vb div 4096"
proof -
  have "pdx v = unat v div 4096 div 1024" "ptx v = unat v div 4096 mod 1024" for v
    by (simp_all add: pdx_def ptx_def div_mult2_eq [symmetric])
  then show ?thesis by (metis div_mult_mod_eq)
qed

subsection \<open>Composing an entry\<close>

lemma aligned_page_bits: "aligned_page x \<longleftrightarrow> (\<forall>n < 12. \<not> bit x n)"
proof -
  have "aligned_page x \<longleftrightarrow> unat (take_bit 12 x) = 0"
    unfolding aligned_page_def unsigned_take_bit_eq by (simp add: take_bit_eq_mod)
  also have "\<dots> \<longleftrightarrow> take_bit 12 x = 0" by (simp add: unat_eq_0)
  also have "\<dots> \<longleftrightarrow> (\<forall>n < 12. \<not> bit x n)"
    by (auto simp: bit_eq_iff bit_simps)
  finally show ?thesis .
qed

definition is_flags :: "uint \<Rightarrow> bool" where
  "is_flags f \<longleftrightarrow> PTE_FLAGS f = f"

lemma is_flags_bits: "is_flags f \<Longrightarrow> bit f n \<Longrightarrow> n < 12"
  unfolding is_flags_def PTE_FLAGS_def ff3_mask by (metis bit_and_iff bit_mask_iff)

lemma PTE_ADDR_compose:
  assumes "aligned_page x" and "is_flags f"
  shows "PTE_ADDR (x OR f) = x" and "PTE_FLAGS (x OR f) = f"
proof -
  have x: "\<not> bit x n" if "n < 12" for n using assms(1) that by (simp add: aligned_page_bits)
  have f: "n < 12" if "bit f n" for n by (rule is_flags_bits [OF assms(2) that])
  show "PTE_ADDR (x OR f) = x"
    unfolding PTE_ADDR_def ff3_mask by (rule bit_word_eqI) (use x f in \<open>auto simp: bit_simps\<close>)
  show "PTE_FLAGS (x OR f) = f"
    unfolding PTE_FLAGS_def ff3_mask by (rule bit_word_eqI) (use x f in \<open>auto simp: bit_simps\<close>)
qed

lemma is_flags_small [simp]: "is_flags 0" "is_flags PTE_P" "is_flags PTE_W" "is_flags PTE_U"
  by (simp_all add: is_flags_def PTE_FLAGS_def PTE_P_def PTE_W_def PTE_U_def)

lemma is_flags_or [simp]: "is_flags f \<Longrightarrow> is_flags g \<Longrightarrow> is_flags (f OR g)"
  by (simp add: is_flags_def PTE_FLAGS_def bit.conj_disj_distrib2)

lemma is_flags_PTE_FLAGS [simp]: "is_flags (PTE_FLAGS x)"
  by (simp add: is_flags_def PTE_FLAGS_def)

lemma present_or_P [simp]: "present (x OR PTE_P)" "present (x OR (PTE_P OR f))" "present (x OR (f OR PTE_P))"
proof -
  have *: "present y" if "bit y 0" for y :: uint
  proof -
    have "bit (y AND PTE_P) 0" using that by (simp add: bit_simps PTE_P_def)
    then show ?thesis unfolding present_def by (metis bit_0_eq bot_apply bot_bool_def)
  qed
  show "present (x OR PTE_P)" "present (x OR (PTE_P OR f))" "present (x OR (f OR PTE_P))"
    by (rule *; simp add: bit_simps PTE_P_def)+
qed

lemma not_present_0 [simp]: "\<not> present 0"
  by (simp add: present_def)

lemma P2V_V2P [simp]: "P2V (V2P x) = x" "V2P (P2V x) = x"
  by (simp_all add: P2V_def V2P_def)

lemma aligned_V2P [simp]: "aligned_page (V2P x) = aligned_page x" "aligned_page (P2V x) = aligned_page x"
proof -
  have k: "aligned_page (y + 0x80000000) = aligned_page y" for y :: uint
  proof -
    have "unat (y + 0x80000000) mod 4096 = (unat y + 2147483648) mod 4294967296 mod 4096" by (simp add: unat_word_ariths)
    also have "\<dots> = (unat y + 2147483648) mod 4096" by (rule mod_mod_cancel) simp
    also have "\<dots> = unat y mod 4096" by (simp add: mod_add_eq [symmetric, of "unat y"] del: mod_add_eq)
    finally show ?thesis by (simp add: aligned_page_def)
  qed
  show "aligned_page (P2V x) = aligned_page x" by (simp add: P2V_def KERNBASE_def k)
  show "aligned_page (V2P x) = aligned_page x" using k [of "V2P x"] by (simp add: V2P_def KERNBASE_def)
qed

subsection \<open>Walking\<close>

lemma walkpgdir_present:
  "present (ent (mem s) pd (pdx va)) \<Longrightarrow>
     walkpgdir pd va al s = Ok (entry (pgtab (mem s) pd (pdx va)) (ptx va)) s"
  by (simp add: walkpgdir_def kexec entry_PDX entry_PTX ent_def pgtab_def)

lemma walkpgdir_absent:
  "\<not> present (ent (mem s) pd (pdx va)) \<Longrightarrow> walkpgdir pd va False s = Ok 0 s"
  by (simp add: walkpgdir_def kexec entry_PDX ent_def)

definition new_table :: "uint \<Rightarrow> uint \<Rightarrow> uint \<Rightarrow> memory \<Rightarrow> memory" where
  "new_table pd va t m = wr32 (entry pd (pdx va)) (V2P t OR PTE_P OR PTE_W OR PTE_U) (memset t 0 PGSIZE m)"

lemma walkpgdir_alloc:
  assumes "kmem_list s ps" and "\<not> present (ent (mem s) pd (pdx va))"
  shows "walkpgdir pd va True s =
     (case ps of
        [] \<Rightarrow> Ok 0 (ksettle s)
      | t # qs \<Rightarrow> Ok (entry t (ptx va)) ((ksettle s)\<lparr>freelist := rd32 (mem s) t, mem := new_table pd va t (mem s)\<rparr>))"
proof (cases ps)
  case Nil
  then have "freelist s = 0" using assms(1) by (simp add: kmem_list_def kmem_inv_def)
  with Nil assms show ?thesis by (simp add: walkpgdir_def kexec entry_PDX ent_def kmem_list_def)
next
  case (Cons t qs)
  then have "freelist s = t" "t \<noteq> 0" using assms(1) kmem_inv_kalloc [of s t qs] by (simp_all add: kmem_list_def)
  with Cons assms show ?thesis
    by (simp add: walkpgdir_def kexec entry_PDX entry_PTX ent_def kmem_list_def new_table_def)
qed

text \<open>
  A page table the walk inserts is empty: no mapping changes, the directory stays well-formed, and
  memory changes only in the directory and in the new page.
\<close>

lemma new_table_ent:
  assumes "aligned_page pd" and "aligned_page t" and "aligned_page p" and "i < 1024" and "t \<noteq> pd"
  shows "ent (new_table pd va t m) p i =
     (if p = pd \<and> i = pdx va then V2P t OR PTE_P OR PTE_W OR PTE_U else if p = t then 0 else ent m p i)"
  using assms by (simp add: new_table_def ent_wr32 ent_memset)

lemma new_table_entry:
  assumes "aligned_page t"
  shows "present (V2P t OR PTE_P OR PTE_W OR PTE_U)" and "P2V (PTE_ADDR (V2P t OR PTE_P OR PTE_W OR PTE_U)) = t"
proof -
  have "is_flags (PTE_P OR PTE_W OR PTE_U)" by simp
  from PTE_ADDR_compose(1) [of "V2P t", OF _ this] assms
  show "P2V (PTE_ADDR (V2P t OR PTE_P OR PTE_W OR PTE_U)) = t" by (simp add: or.assoc)
  show "present (V2P t OR PTE_P OR PTE_W OR PTE_U)" by (simp add: or.assoc)
qed

lemma new_table_ok:
  assumes wf: "pgt_wf m pd (t # qs)" and t: "aligned_page t" "t \<noteq> 0" "t \<notin> set qs"
    and np: "\<not> present (ent m pd (pdx va))"
  shows "pgt_wf (new_table pd va t m) pd qs" and "pte (new_table pd va t m) pd vb = pte m pd vb"
    and "present (ent (new_table pd va t m) pd (pdx va))" and "pgtab (new_table pd va t m) pd (pdx va) = t"
    and "\<And>a. \<not> a - t < PGSIZE \<Longrightarrow> \<not> a - pd < PGSIZE \<Longrightarrow> new_table pd va t m a = m a"
proof -
  let ?m = "new_table pd va t m"
  have pd: "aligned_page pd" "t \<noteq> pd" using wf by (auto simp: pgt_wf_def)
  have tb: "aligned_page (pgtab m pd i)" "pgtab m pd i \<noteq> t" "pgtab m pd i \<noteq> pd" if "i < 1024" "present (ent m pd i)" for i
    using wf that by (auto simp: pgt_wf_def)
  have d: "ent ?m pd i = (if i = pdx va then V2P t OR PTE_P OR PTE_W OR PTE_U else ent m pd i)" if "i < 1024" for i
    using new_table_ent [OF pd(1) t(1) pd(1) that pd(2)] pd(2) by auto
  show pr: "present (ent ?m pd (pdx va))" and pt: "pgtab ?m pd (pdx va) = t"
    using d [of "pdx va"] new_table_entry [OF t(1)] by (simp_all add: pgtab_def)
  have same: "ent ?m pd i = ent m pd i" "pgtab ?m pd i = pgtab m pd i" if "i < 1024" "i \<noteq> pdx va" for i
    using d that by (simp_all add: pgtab_def)
  show "pgt_wf ?m pd qs"
    unfolding pgt_wf_def
  proof (intro conjI allI impI)
    fix i assume i: "i < 1024" "present (ent ?m pd i)"
    show "aligned_page (pgtab ?m pd i)" "pgtab ?m pd i \<noteq> pd" "pgtab ?m pd i \<notin> set qs" "pgtab ?m pd i \<noteq> 0"
      using wf i t pt same [OF i(1)] pd by (cases "i = pdx va"; auto simp: pgt_wf_def)+
    fix j assume j: "j < 1024" "present (ent ?m pd j)" "pgtab ?m pd j = pgtab ?m pd i"
    show "j = i"
    proof (cases "i = pdx va \<or> j = pdx va")
      case True
      then show ?thesis using i j pt same tb by metis
    next
      case False
      then show ?thesis using wf i j same by (simp add: pgt_wf_def)
    qed
  qed (use wf in \<open>auto simp: pgt_wf_def\<close>)
  show "pte ?m pd vb = pte m pd vb"
  proof (cases "pdx vb = pdx va")
    case True
    have "ent ?m t (ptx vb) = 0" using new_table_ent [OF pd(1) t(1) t(1) ptx_less pd(2)] pd(2) by simp
    with True np pr pt show ?thesis by (simp add: pte_def)
  next
    case False
    have "ent ?m (pgtab m pd (pdx vb)) (ptx vb) = ent m (pgtab m pd (pdx vb)) (ptx vb)" if "present (ent m pd (pdx vb))"
      using new_table_ent [OF pd(1) t(1) tb(1) [OF pdx_less that] ptx_less pd(2)] tb [OF pdx_less that] by simp
    with same [OF pdx_less False] show ?thesis by (simp add: pte_def)
  qed
  show "?m a = m a" if "\<not> a - t < PGSIZE" "\<not> a - pd < PGSIZE" for a
    using that pd(1) by (simp add: new_table_def wr32_entry_outside memset_at)
qed

subsection \<open>Writing an entry\<close>

lemma set_pte_ok:
  fixes v vb :: uint
  assumes wf: "pgt_wf m pd ps" and pr: "present (ent m pd (pdx va))"
  defines "t \<equiv> pgtab m pd (pdx va)"
  defines "m' \<equiv> wr32 (entry t (ptx va)) v m"
  shows "pgt_wf m' pd ps" and "pte m' pd vb = (if unat vb div 4096 = unat va div 4096 then v else pte m pd vb)"
    and "\<And>i. i < 1024 \<Longrightarrow> ent m' pd i = ent m pd i"
    and "\<And>a. \<not> a - t < PGSIZE \<Longrightarrow> m' a = m a"
proof -
  have t: "aligned_page t" "t \<noteq> pd" "t \<notin> set ps" using wf pr by (auto simp: pgt_wf_def t_def)
  have pd: "aligned_page pd" using wf by (simp add: pgt_wf_def)
  show d: "ent m' pd i = ent m pd i" if "i < 1024" for i
    using ent_wr32 [OF pd t(1) that ptx_less] t(2) by (simp add: m'_def)
  then have tab: "pgtab m' pd i = pgtab m pd i" if "i < 1024" for i using that by (simp add: pgtab_def)
  show "pgt_wf m' pd ps" using wf d tab by (simp add: pgt_wf_def)
  show "m' a = m a" if "\<not> a - t < PGSIZE" for a
    using that t(1) by (simp add: m'_def wr32_entry_outside)
  show "pte m' pd vb = (if unat vb div 4096 = unat va div 4096 then v else pte m pd vb)"
  proof (cases "present (ent m pd (pdx vb))")
    case True
    then have tb: "aligned_page (pgtab m pd (pdx vb))"
      and inj: "pgtab m pd (pdx vb) = t \<longrightarrow> pdx vb = pdx va" using wf pr by (auto simp: pgt_wf_def t_def)
    have "pte m' pd vb = ent m' (pgtab m pd (pdx vb)) (ptx vb)" using True by (simp add: pte_def d tab)
    also have "\<dots> = (if pgtab m pd (pdx vb) = t \<and> ptx vb = ptx va then v else ent m (pgtab m pd (pdx vb)) (ptx vb))"
      unfolding m'_def by (rule ent_wr32 [OF tb t(1) ptx_less ptx_less])
    also have "\<dots> = (if pdx vb = pdx va \<and> ptx vb = ptx va then v else pte m pd vb)"
      using inj True by (auto simp: pte_def t_def)
    finally show ?thesis using same_page [of vb va] by simp
  next
    case False
    then have "\<not> (pdx vb = pdx va \<and> ptx vb = ptx va)" using pr by auto
    with False show ?thesis using same_page [of vb va] by (simp add: pte_def d)
  qed
qed

subsection \<open>Mapping a range of pages\<close>

text \<open>
  The pages that belong to the page table or may become part of it: the directory, its tables and the
  free pages. Mapping writes nowhere else.
\<close>

definition pg_tables :: "memory \<Rightarrow> uint \<Rightarrow> uint set" where
  "pg_tables m pd = pgtab m pd ` {i. i < 1024 \<and> present (ent m pd i)}"

lemma new_table_tables:
  assumes pd: "aligned_page pd" and t: "aligned_page t" "t \<noteq> pd" and np: "\<not> present (ent m pd (pdx va))"
  shows "pg_tables (new_table pd va t m) pd = insert t (pg_tables m pd)"
proof -
  let ?m = "new_table pd va t m"
  have d: "ent ?m pd i = (if i = pdx va then V2P t OR PTE_P OR PTE_W OR PTE_U else ent m pd i)" if "i < 1024" for i
    using new_table_ent [OF pd t(1) pd that t(2)] t(2) by auto
  then have tab: "pgtab ?m pd i = (if i = pdx va then t else pgtab m pd i)" if "i < 1024" for i
    using that new_table_entry [OF t(1)] by (simp add: pgtab_def)
  have "present (ent ?m pd i) \<longleftrightarrow> i = pdx va \<or> present (ent m pd i)" if "i < 1024" for i
    using d [OF that] new_table_entry(1) [OF t(1)] by simp
  then have "{i. i < 1024 \<and> present (ent ?m pd i)} = insert (pdx va) {i. i < 1024 \<and> present (ent m pd i)}"
    using pdx_less [of va] by auto
  then have "pg_tables ?m pd = insert t (pgtab ?m pd ` {i. i < 1024 \<and> present (ent m pd i)})"
    unfolding pg_tables_def using tab [OF pdx_less] by simp
  also have "pgtab ?m pd ` {i. i < 1024 \<and> present (ent m pd i)} = pg_tables m pd"
    unfolding pg_tables_def by (rule image_cong) (use tab np in auto)
  finally show ?thesis .
qed

definition vm_pages :: "memory \<Rightarrow> uint \<Rightarrow> uint list \<Rightarrow> uint set" where
  "vm_pages m pd ps = insert pd (set ps \<union> pg_tables m pd)"

definition vm_ok :: "'m kmem_scheme \<Rightarrow> uint \<Rightarrow> uint list \<Rightarrow> bool" where
  "vm_ok s pd ps \<longleftrightarrow> kmem_list s ps \<and> pgt_wf (mem s) pd ps"

definition same_outside :: "uint set \<Rightarrow> memory \<Rightarrow> memory \<Rightarrow> bool" where
  "same_outside P m m' \<longleftrightarrow> (\<forall>a. (\<forall>p\<in>P. \<not> a - p < PGSIZE) \<longrightarrow> m' a = m a)"

lemma same_outside_trans: "same_outside P m m' \<Longrightarrow> same_outside P m' m'' \<Longrightarrow> same_outside P m m''"
  by (simp add: same_outside_def)

lemma same_outside_refl [simp]: "same_outside P m m"
  by (simp add: same_outside_def)

lemma kmem_list_write:
  assumes "kmem_list s ps" and "aligned_page t" and "t \<notin> set ps" and "\<And>a. \<not> a - t < PGSIZE \<Longrightarrow> m' a = mem s a"
  shows "kmem_list (s\<lparr>mem := m'\<rparr>) ps"
  using assms kmem_inv_write [of s ps t m'] by (simp add: kmem_list_def aligned_page_def)

text \<open>The walk that allocates, as one step: it either finds no free page or gives the entry's address.\<close>

lemma walkpgdir_cases:
  assumes ok: "vm_ok s pd ps"
  obtains (none) u where "walkpgdir pd va True s = Ok 0 u" and "ps = []" and "vm_ok u pd []" and "mem u = mem s"
    | (found) u qs where "walkpgdir pd va True s = Ok (entry (pgtab (mem u) pd (pdx va)) (ptx va)) u"
      and "vm_ok u pd qs" and "present (ent (mem u) pd (pdx va))"
      and "\<And>vb. pte (mem u) pd vb = pte (mem s) pd vb" and "vm_pages (mem u) pd qs = vm_pages (mem s) pd ps"
      and "same_outside (vm_pages (mem s) pd ps) (mem s) (mem u)" and "length ps \<le> Suc (length qs)"
proof (cases "present (ent (mem s) pd (pdx va))")
  case True
  show thesis by (rule found [OF walkpgdir_present [OF True] ok True]) simp_all
next
  case False
  from ok have kl: "kmem_list s ps" and wf: "pgt_wf (mem s) pd ps" by (simp_all add: vm_ok_def)
  show thesis
  proof (cases ps)
    case Nil
    have "kmem_list (ksettle s) []" using kl Nil by (simp add: kmem_list_def)
    then show thesis using none [of "ksettle s"] walkpgdir_alloc [OF kl False] wf Nil by (simp add: vm_ok_def)
  next
    case (Cons t qs)
    let ?u = "(ksettle s)\<lparr>freelist := rd32 (mem s) t, mem := new_table pd va t (mem s)\<rparr>"
    have t: "aligned_page t" "t \<noteq> 0" "t \<notin> set qs" "freelist s = t"
      using kl Cons kmem_inv_kalloc [of s t qs] by (auto simp: kmem_list_def page_ok_def aligned_page_def)
    note nt = new_table_ok [OF wf [unfolded Cons] t(1-3) False]
    have l1: "kmem_list ((ksettle s)\<lparr>freelist := rd32 (mem s) t\<rparr>) qs"
      using kl Cons kmem_inv_kalloc [of "ksettle s" t qs] by (simp add: kmem_list_def)
    have pd: "aligned_page pd" "pd \<notin> set qs" "t \<noteq> pd" using wf Cons by (auto simp: pgt_wf_def)
    have m1: "kmem_list ((ksettle s)\<lparr>freelist := rd32 (mem s) t\<rparr>\<lparr>mem := memset t 0 PGSIZE (mem s)\<rparr>) qs"
      by (rule kmem_list_write [OF l1 t(1,3)]) (simp add: memset_at)
    have "kmem_list ((ksettle s)\<lparr>freelist := rd32 (mem s) t\<rparr>\<lparr>mem := memset t 0 PGSIZE (mem s)\<rparr>
        \<lparr>mem := new_table pd va t (mem s)\<rparr>) qs"
      by (rule kmem_list_write [OF m1 pd(1,2)]) (simp add: new_table_def wr32_entry_outside pd(1))
    then have l2: "kmem_list ?u qs" by simp
    note tb = new_table_tables [OF pd(1) t(1) pd(3) False]
    show thesis
    proof (rule found)
      show "walkpgdir pd va True s = Ok (entry (pgtab (mem ?u) pd (pdx va)) (ptx va)) ?u"
        using walkpgdir_alloc [OF kl False] Cons nt(4) by simp
      show "vm_ok ?u pd qs" using l2 nt(1) by (simp add: vm_ok_def)
      show "present (ent (mem ?u) pd (pdx va))" using nt(3) by simp
      show "\<And>vb. pte (mem ?u) pd vb = pte (mem s) pd vb" using nt(2) by simp
      show "vm_pages (mem ?u) pd qs = vm_pages (mem s) pd ps" unfolding vm_pages_def using tb by (auto simp: Cons)
      show "same_outside (vm_pages (mem s) pd ps) (mem s) (mem ?u)"
        using nt(5) by (auto simp: same_outside_def vm_pages_def Cons)
      show "length ps \<le> Suc (length qs)" by (simp add: Cons)
    qed
  qed
qed

definition pn :: "uint \<Rightarrow> nat" where "pn va = unat va div 4096"

definition mapped :: "memory \<Rightarrow> memory \<Rightarrow> uint \<Rightarrow> uint \<Rightarrow> nat \<Rightarrow> uint \<Rightarrow> uint \<Rightarrow> bool" where
  "mapped m m' pd a n pa perm \<longleftrightarrow> (\<forall>vb. pte m' pd vb =
     (if pn a \<le> pn vb \<and> pn vb < pn a + n then (pa + of_nat (pn vb - pn a) * PGSIZE) OR perm OR PTE_P else pte m pd vb))"

lemma set_pte_tables:
  "pgt_wf m pd ps \<Longrightarrow> present (ent m pd (pdx va)) \<Longrightarrow>
     pg_tables (wr32 (entry (pgtab m pd (pdx va)) (ptx va)) v m) pd = pg_tables m pd"
  using set_pte_ok(3) [of m pd ps va] by (auto simp: pg_tables_def pgtab_def image_def)

lemma vm_set_pte:
  fixes v vb :: uint
  assumes "vm_ok s pd ps" and "present (ent (mem s) pd (pdx va))"
  defines "u \<equiv> s\<lparr>mem := wr32 (entry (pgtab (mem s) pd (pdx va)) (ptx va)) v (mem s)\<rparr>"
  shows "vm_ok u pd ps" and "vm_pages (mem u) pd ps = vm_pages (mem s) pd ps"
    and "same_outside (vm_pages (mem s) pd ps) (mem s) (mem u)"
    and "pte (mem u) pd vb = (if pn vb = pn va then v else pte (mem s) pd vb)"
proof -
  from assms(1) have kl: "kmem_list s ps" and wf: "pgt_wf (mem s) pd ps" by (simp_all add: vm_ok_def)
  note sp = set_pte_ok [OF wf assms(2)]
  have t: "aligned_page (pgtab (mem s) pd (pdx va))" "pgtab (mem s) pd (pdx va) \<notin> set ps"
    using wf assms(2) by (auto simp: pgt_wf_def)
  show "vm_ok u pd ps"
    using kmem_list_write [OF kl t sp(4)] sp(1) by (simp add: vm_ok_def u_def)
  show "vm_pages (mem u) pd ps = vm_pages (mem s) pd ps"
    using set_pte_tables [OF wf assms(2)] by (simp add: vm_pages_def u_def)
  have "pgtab (mem s) pd (pdx va) \<in> vm_pages (mem s) pd ps"
    using assms(2) by (simp add: vm_pages_def pg_tables_def)
  then show "same_outside (vm_pages (mem s) pd ps) (mem s) (mem u)"
    using sp(4) by (auto simp: same_outside_def u_def)
  show "pte (mem u) pd vb = (if pn vb = pn va then v else pte (mem s) pd vb)"
    using sp(2) by (simp add: u_def pn_def)
qed

lemma pn_add:
  assumes "aligned_page a" and "unat a + 4096 < 2 ^ 32"
  shows "aligned_page (a + PGSIZE)" and "unat (a + PGSIZE) = unat a + 4096" and "pn (a + PGSIZE) = Suc (pn a)"
proof -
  show u: "unat (a + PGSIZE) = unat a + 4096" using assms(2) by (simp add: PGSIZE_def unat_word_ariths)
  then show "aligned_page (a + PGSIZE)" "pn (a + PGSIZE) = Suc (pn a)" using assms(1) by (simp_all add: aligned_page_def pn_def)
qed

text \<open>One round of the loop.\<close>

lemma mappages_round:
  assumes ok: "vm_ok s pd ps" and np: "\<not> present (pte (mem s) pd a)"
  obtains (dry) u where "ps = []" and "\<And>fin fuel. mappages_loop (Suc fuel) pd a fin pa perm s = Ok (- 1) u"
      and "vm_ok u pd []" and "mem u = mem s"
    | (wrote) u qs where "\<And>fin fuel. mappages_loop (Suc fuel) pd a fin pa perm s =
         (if a = fin then Ok 0 u else mappages_loop fuel pd (a + PGSIZE) fin (pa + PGSIZE) perm u)"
      and "vm_ok u pd qs" and "vm_pages (mem u) pd qs = vm_pages (mem s) pd ps"
      and "same_outside (vm_pages (mem s) pd ps) (mem s) (mem u)"
      and "\<And>vb. pte (mem u) pd vb = (if pn vb = pn a then pa OR perm OR PTE_P else pte (mem s) pd vb)"
      and "length ps \<le> Suc (length qs)"
  using ok
proof (cases rule: walkpgdir_cases [where va = a])
  case (none u)
  then show ?thesis by (intro dry [of u]) (simp_all add: kexec)
next
  case (found u qs)
  let ?e = "entry (pgtab (mem u) pd (pdx a)) (ptx a)"
  let ?w = "u\<lparr>mem := wr32 ?e (pa OR perm OR PTE_P) (mem u)\<rparr>"
  note w = vm_set_pte [OF found(2,3), where v = "pa OR perm OR PTE_P"]
  have e0: "?e \<noteq> 0"
  proof
    assume "?e = 0"
    moreover have "aligned_page (pgtab (mem u) pd (pdx a))" "pgtab (mem u) pd (pdx a) \<noteq> 0"
      using found(2,3) by (auto simp: vm_ok_def pgt_wf_def)
    ultimately show False using unat_entry [of "pgtab (mem u) pd (pdx a)" "ptx a"] by (auto simp: unat_eq_0)
  qed
  have "rd32 (mem u) ?e = pte (mem u) pd a" using found(3) by (simp add: pte_def ent_def)
  then have "\<not> present (rd32 (mem u) ?e)" using np found(4) by simp
  with e0 have l: "mappages_loop (Suc fuel) pd a fin pa perm s =
      (if a = fin then Ok 0 ?w else mappages_loop fuel pd (a + PGSIZE) fin (pa + PGSIZE) perm ?w)" for fin fuel
    using found(1) by (simp add: kexec)
  show ?thesis
  proof (rule wrote [OF l w(1)])
    show "vm_pages (mem ?w) pd qs = vm_pages (mem s) pd ps" using w(2) found(5) by simp
    show "same_outside (vm_pages (mem s) pd ps) (mem s) (mem ?w)"
      using same_outside_trans [OF found(6)] w(3) found(5) by simp
    show "pte (mem ?w) pd vb = (if pn vb = pn a then pa OR perm OR PTE_P else pte (mem s) pd vb)" for vb
      using w(4) found(4) by simp
    show "length ps \<le> Suc (length qs)" by (rule found(7))
  qed
qed

text \<open>
  Mapping \<open>n + 1\<close> pages: the loop ends, with every page mapped, or with a prefix mapped when the
  allocator has run dry.
\<close>

lemma mappages_loop_ok:
  "vm_ok s pd ps \<Longrightarrow> aligned_page a \<Longrightarrow> n < fuel \<Longrightarrow> unat a + 4096 * n < 2 ^ 32 \<Longrightarrow>
     (\<forall>vb. pn a \<le> pn vb \<and> pn vb \<le> pn a + n \<longrightarrow> \<not> present (pte (mem s) pd vb)) \<Longrightarrow>
     \<exists>r u qs k. mappages_loop fuel pd a (a + of_nat n * PGSIZE) pa perm s = Ok r u \<and> vm_ok u pd qs \<and>
       vm_pages (mem u) pd qs = vm_pages (mem s) pd ps \<and> same_outside (vm_pages (mem s) pd ps) (mem s) (mem u) \<and>
       mapped (mem s) (mem u) pd a k pa perm \<and> (r = 0 \<and> k = Suc n \<or> r = - 1 \<and> k \<le> n \<and> length ps \<le> k)"
proof (induction n arbitrary: s ps a fuel pa)
  case (0 s ps a fuel pa)
  then obtain f where f: "fuel = Suc f" by (cases fuel) auto
  have np: "\<not> present (pte (mem s) pd a)" using 0 by simp
  from \<open>vm_ok s pd ps\<close> np show ?case
  proof (cases rule: mappages_round [where pa = pa and perm = perm])
    case (dry u)
    then show ?thesis by (intro exI [of _ "- 1"] exI [of _ u] exI [of _ "[]"] exI [of _ 0]) (auto simp: f mapped_def simp del: mappages_loop.simps)
  next
    case (wrote u qs)
    then show ?thesis by (intro exI [of _ 0] exI [of _ u] exI [of _ qs] exI [of _ "Suc 0"])
        (auto simp: f mapped_def le_less_Suc_eq simp del: mappages_loop.simps)
  qed
next
  case (Suc n s ps a fuel pa)
  then obtain f where f: "fuel = Suc f" by (cases fuel) auto
  have np: "\<not> present (pte (mem s) pd a)" using Suc.prems by simp
  from \<open>vm_ok s pd ps\<close> np show ?case
  proof (cases rule: mappages_round [where pa = pa and perm = perm])
    case (dry u)
    then show ?thesis by (intro exI [of _ "- 1"] exI [of _ u] exI [of _ "[]"] exI [of _ 0]) (auto simp: f mapped_def simp del: mappages_loop.simps)
  next
    case (wrote u qs)
    have nw: "unat a + 4096 < 2 ^ 32" using Suc.prems(4) by simp
    note a = pn_add [OF Suc.prems(2) nw]
    have fin: "a + of_nat (Suc n) * PGSIZE = a + PGSIZE + of_nat n * PGSIZE" by (simp add: algebra_simps)
    have ne: "a \<noteq> a + PGSIZE + of_nat n * PGSIZE"
      using unat_region_page [of a "Suc n" "Suc n"] Suc.prems(4) unfolding fin [symmetric] by (metis add_cancel_right_right le_refl mult_eq_0_iff nat.distinct(1) zero_neq_numeral)
    have np': "\<forall>vb. pn (a + PGSIZE) \<le> pn vb \<and> pn vb \<le> pn (a + PGSIZE) + n \<longrightarrow> \<not> present (pte (mem u) pd vb)"
      using Suc.prems(5) wrote(5) a(3) by simp
    have "\<exists>r w rs k. mappages_loop f pd (a + PGSIZE) (a + PGSIZE + of_nat n * PGSIZE) (pa + PGSIZE) perm u = Ok r w \<and> vm_ok w pd rs \<and>
       vm_pages (mem w) pd rs = vm_pages (mem u) pd qs \<and> same_outside (vm_pages (mem u) pd qs) (mem u) (mem w) \<and>
       mapped (mem u) (mem w) pd (a + PGSIZE) k (pa + PGSIZE) perm \<and> (r = 0 \<and> k = Suc n \<or> r = - 1 \<and> k \<le> n \<and> length qs \<le> k)"
      by (rule Suc.IH [OF wrote(2) a(1) _ _ np']) (use Suc.prems f a in simp_all)
    then obtain r w rs k where w: "mappages_loop f pd (a + PGSIZE) (a + PGSIZE + of_nat n * PGSIZE) (pa + PGSIZE) perm u = Ok r w"
       "vm_ok w pd rs" "vm_pages (mem w) pd rs = vm_pages (mem u) pd qs" "same_outside (vm_pages (mem u) pd qs) (mem u) (mem w)"
       "mapped (mem u) (mem w) pd (a + PGSIZE) k (pa + PGSIZE) perm" "r = 0 \<and> k = Suc n \<or> r = - 1 \<and> k \<le> n \<and> length qs \<le> k" by blast
    have m: "mapped (mem s) (mem w) pd a (Suc k) pa perm"
      using w(5) wrote(5) a(3) by (auto simp: mapped_def algebra_simps Suc_diff_le not_le less_Suc_eq_le of_nat_diff)
    have "mappages_loop fuel pd a (a + of_nat (Suc n) * PGSIZE) pa perm s = Ok r w"
      unfolding f fin using wrote(1) ne w(1) by simp
    moreover have "same_outside (vm_pages (mem s) pd ps) (mem s) (mem w)"
      using same_outside_trans [OF wrote(4)] w(4) wrote(3) by simp
    ultimately show ?thesis
      using w(2,3,6) m wrote(3,6) by (intro exI [of _ r] exI [of _ w] exI [of _ rs] exI [of _ "Suc k"]) auto
  qed
qed

lemma mappages_loop_remap:
  assumes "vm_ok s pd ps" and "present (pte (mem s) pd a)"
  shows "mappages_loop (Suc fuel) pd a fin pa perm s = Panic ''remap''"
proof -
  have d: "present (ent (mem s) pd (pdx a))" using assms(2) by (simp add: pte_def split: if_splits)
  let ?e = "entry (pgtab (mem s) pd (pdx a)) (ptx a)"
  have "aligned_page (pgtab (mem s) pd (pdx a))" "pgtab (mem s) pd (pdx a) \<noteq> 0"
    using assms(1) d by (auto simp: vm_ok_def pgt_wf_def)
  then have "?e \<noteq> 0" using unat_entry [of "pgtab (mem s) pd (pdx a)" "ptx a"] by (auto simp: unat_eq_0)
  moreover have "present (rd32 (mem s) ?e)" using assms(2) d by (simp add: pte_def ent_def)
  ultimately show ?thesis by (simp add: kexec walkpgdir_present [OF d])
qed

lemma pn_PGROUNDDOWN: "pn (PGROUNDDOWN va) = pn va" "aligned_page (PGROUNDDOWN va)"
  by (simp_all add: pn_def aligned_page_def unat_PGROUNDDOWN)

subsection \<open>Properties\<close>

text \<open>C15. \<open>mappages\<close> on a range that does not wrap and has no page mapped ends: it maps every page of the
  range to consecutive physical pages with the given permissions and leaves every other translation
  alone, or it fails after a prefix because the allocator ran out of pages, which cannot happen when
  there are more free pages than pages to map. It writes only to the page directory, its tables and
  free pages, and it panics when the first page is mapped already.\<close>

theorem mappages_maps_exactly_the_range:
  assumes "vm_ok s pd ps" and "0 < len" and "unat va + unat len \<le> 2 ^ 32"
  shows "((\<forall>vb. pn va \<le> pn vb \<and> pn vb \<le> pn (va + len - 1) \<longrightarrow> \<not> present (pte (mem s) pd vb)) \<longrightarrow>
      (\<exists>r u qs k. mappages pd va len pa perm s = Ok r u \<and> vm_ok u pd qs \<and>
         same_outside (vm_pages (mem s) pd ps) (mem s) (mem u) \<and> mapped (mem s) (mem u) pd va k pa perm \<and>
         (r = 0 \<and> k = Suc (pn (va + len - 1) - pn va) \<or>
          r = - 1 \<and> k \<le> pn (va + len - 1) - pn va \<and> length ps \<le> k))) \<and>
     (present (pte (mem s) pd va) \<longrightarrow> mappages pd va len pa perm s = Panic ''remap'')"
proof (intro conjI impI)
  let ?a = "PGROUNDDOWN va" and ?n = "pn (va + len - 1) - pn va"
  have l: "unat (va + len - 1) = unat va + unat len - 1"
  proof -
    have e: "va + len - 1 = va + (len - 1)" by simp
    have "unat (len - 1) = unat len - 1" using assms(2) by (intro unat_pred) auto
    moreover have "0 < unat len" using assms(2) by (simp add: word_less_nat_alt)
    moreover from calculation have "unat va + unat (len - 1) < 2 ^ LENGTH(32)" using assms(3) by simp
    then have "unat (va + (len - 1)) = unat va + unat (len - 1)" by (rule unat_add_lem [THEN iffD1])
    ultimately show ?thesis unfolding e by simp
  qed
  have len: "0 < unat len" using assms(2) by (simp add: word_less_nat_alt)
  then have le: "pn va \<le> pn (va + len - 1)" unfolding pn_def l by (intro div_le_mono) simp
  have ua: "unat ?a = 4096 * pn va" by (simp add: unat_PGROUNDDOWN pn_def)
  have ub: "unat (PGROUNDDOWN (va + len - 1)) = 4096 * pn va + 4096 * ?n"
    using le by (simp add: unat_PGROUNDDOWN pn_def algebra_simps)
  then have nw: "unat ?a + 4096 * ?n < 2 ^ 32" using ua unat_lt32 [of "PGROUNDDOWN (va + len - 1)"] by simp
  have fin: "PGROUNDDOWN (va + len - 1) = ?a + of_nat ?n * PGSIZE"
  proof -
    have "unat (PGROUNDDOWN (va + len - 1)) = unat (?a + of_nat ?n * PGSIZE)"
      using unat_region_page [OF nw, of ?n] ua ub by simp
    then show ?thesis by (rule unsigned_word_eqI)
  qed
  have fuel: "?n < 2 ^ 20" using nw by simp
  note pa = pn_PGROUNDDOWN [of va]
  {
    assume "\<forall>vb. pn va \<le> pn vb \<and> pn vb \<le> pn (va + len - 1) \<longrightarrow> \<not> present (pte (mem s) pd vb)"
    then have np: "\<forall>vb. pn ?a \<le> pn vb \<and> pn vb \<le> pn ?a + ?n \<longrightarrow> \<not> present (pte (mem s) pd vb)" using le pa by simp
    have m: "mapped m m' pd ?a k x y = mapped m m' pd va k x y" for m m' k x y by (simp add: mapped_def pa)
    from mappages_loop_ok [OF assms(1) pa(2) fuel nw np, of pa perm]
    show "\<exists>r u qs k. mappages pd va len pa perm s = Ok r u \<and> vm_ok u pd qs \<and>
         same_outside (vm_pages (mem s) pd ps) (mem s) (mem u) \<and> mapped (mem s) (mem u) pd va k pa perm \<and>
         (r = 0 \<and> k = Suc ?n \<or> r = - 1 \<and> k \<le> ?n \<and> length ps \<le> k)"
      unfolding mappages_def fin m by blast
  next
    assume "present (pte (mem s) pd va)"
    then have "present (pte (mem s) pd ?a)"
      using same_page [of ?a va] pa(1) by (auto simp: pte_def pn_def split: if_splits)
    from mappages_loop_remap [OF assms(1) this] have e: "mappages_loop (Suc f) pd ?a fin pa perm s = Panic ''remap''" for f fin .
    have "Suc (2 ^ 20 - 1) = (2 :: nat) ^ 20" by simp
    with e [of "2 ^ 20 - 1"] show "mappages pd va len pa perm s = Panic ''remap''" unfolding mappages_def by metis
  }
qed

text \<open>An allocator with one free page and an empty page directory.\<close>

lemma parked_vm: "\<exists>u :: kmem. vm_ok u 0x80200000 [0x80112000] \<and> (\<forall>vb. pte (mem u) 0x80200000 vb = 0)"
proof -
  let ?s = "run_on 0 parked_k"
  have pg: "page_ok (kernel_end ?s) 0x80112000"
    by (simp add: page_ok_def parked_k_ok(2) V2P_def KERNBASE_def PHYSTOP_def)
  from kmem_pages.free_page [OF parked_k_ok(1) pg] obtain u where
    u: "kfree 0x80112000 ?s = Ok () u" "kmem_list u [0x80112000]" by auto
  have "mem u a = 0" if "a - 0x80200000 < PGSIZE" for a
  proof -
    have "\<not> a - 0x80112000 < PGSIZE"
      by (rule page_off_disjoint [OF _ _ _ that]) (simp_all add: aligned_page_def)
    moreover have "mem ?s a = 0" by (simp add: parked_k_def mtable.extend_def)
    ultimately show ?thesis
      using u(1) pg parked_k_ok(1) kfree_mem_outside [of "0x80112000" a] by (auto simp: kfree_ok kmem_list_def)
  qed
  then have "ent (mem u) 0x80200000 i = ent (\<lambda>_. 0) 0x80200000 i" if "i < 1024" for i
    using that by (intro ent_cong) (simp_all add: aligned_page_def)
  then have e: "ent (mem u) 0x80200000 i = 0" if "i < 1024" for i using that by (simp add: ent_def rd32_def)
  then have "pgt_wf (mem u) 0x80200000 [0x80112000]" by (simp add: pgt_wf_def aligned_page_def)
  with u(2) e show ?thesis by (auto simp: vm_ok_def pte_def)
qed

theorem mappages_maps_exactly_the_range_witness:
  "\<exists>(u :: kmem) v. vm_ok u 0x80200000 [0x80112000] \<and> mappages 0x80200000 0x1000 0x1000 0x300000 (PTE_W OR PTE_U) u = Ok 0 v \<and>
     pte (mem v) 0x80200000 0x1000 = 0x300000 OR (PTE_W OR PTE_U) OR PTE_P"
proof -
  from parked_vm obtain u :: kmem where u: "vm_ok u 0x80200000 [0x80112000]" "\<And>vb. pte (mem u) 0x80200000 vb = 0" by blast
  have "0 < (0x1000 :: uint)" "unat (0x1000 :: uint) + unat (0x1000 :: uint) \<le> 2 ^ 32" by simp_all
  from mappages_maps_exactly_the_range [OF u(1) this, THEN conjunct1] u(2)
  obtain r v qs k where v: "mappages 0x80200000 0x1000 0x1000 0x300000 (PTE_W OR PTE_U) u = Ok r v"
    "mapped (mem u) (mem v) 0x80200000 0x1000 k 0x300000 (PTE_W OR PTE_U)"
    "r = 0 \<and> k = Suc 0 \<or> r = - 1 \<and> k \<le> 0 \<and> 1 \<le> k"
    by (force simp: pn_def)
  then have "r = 0" "k = Suc 0" by auto
  moreover from this v(2) have "pte (mem v) 0x80200000 0x1000 = 0x300000 OR (PTE_W OR PTE_U) OR PTE_P"
    by (simp add: mapped_def pn_def)
  ultimately show ?thesis using v(1) u(1) by blast
qed

end
