(* ===== verification/Bio.thy ===== *)
theory Bio
  imports Vm
begin


unbundle bit_operations_syntax

text \<open>
  The buffer cache (\<open>bio.c\<close>) over the memory disk (\<open>memide.c\<close>): block buffers with a
  sleeping lock each, a least-recently-used order, and synchronous transfers.
\<close>

subsection \<open>State\<close>

definition BSIZE :: nat where "BSIZE = 512"
definition NBUF :: nat where "NBUF = 30"

text \<open>The two flag bits \<open>B_VALID\<close> and \<open>B_DIRTY\<close> are separate fields.\<close>

record buf =
  b_valid :: bool
  b_dirty :: bool
  dev :: uint
  blockno :: uint
  refcnt :: uint
  data :: "uchar list"

text \<open>
  \<open>lru\<close> is the circular list through \<open>bcache.head\<close>, most recently used buffer first.
  \<open>disk\<close> is the memory disk as a list of blocks; \<open>disk_hist\<close> records every image the disk had
  before a write, oldest first, for statements about crashes.
\<close>

record bcache = kmem +
  bufs :: "buf list"
  lru :: "nat list"
  disk :: "uchar list list"
  disk_hist :: "uchar list list list"

lemma bufs_frame [simp]:
  "bufs (push s) = bufs s"
  "bufs (pop s) = bufs s"
  "bufs (settle s) = bufs s"
  "bufs (acq lk s) = bufs s"
  "bufs (rel lk s) = bufs s"
  "bufs (upd_cpu c g s) = bufs s"
  "bufs (upd_cur g s) = bufs s"
  "bufs (upd_lock lk h s) = bufs s"
  "bufs (upd_thread t k s) = bufs s"
  "bufs (upd_proc p q s) = bufs s"
  "bufs (run_on c s) = bufs s"
  "settle (s\<lparr>bufs := x\<rparr>) = (settle s)\<lparr>bufs := x\<rparr>"
  "acq lk (s\<lparr>bufs := x\<rparr>) = (acq lk s)\<lparr>bufs := x\<rparr>"
  "rel lk (s\<lparr>bufs := x\<rparr>) = (rel lk s)\<lparr>bufs := x\<rparr>"
  "upd_cpu c g (s\<lparr>bufs := x\<rparr>) = (upd_cpu c g s)\<lparr>bufs := x\<rparr>"
  "upd_cur g (s\<lparr>bufs := x\<rparr>) = (upd_cur g s)\<lparr>bufs := x\<rparr>"
  "upd_lock lk h (s\<lparr>bufs := x\<rparr>) = (upd_lock lk h s)\<lparr>bufs := x\<rparr>"
  "upd_thread t k (s\<lparr>bufs := x\<rparr>) = (upd_thread t k s)\<lparr>bufs := x\<rparr>"
  "upd_proc p q (s\<lparr>bufs := x\<rparr>) = (upd_proc p q s)\<lparr>bufs := x\<rparr>"
  "run_on c (s\<lparr>bufs := x\<rparr>) = (run_on c s)\<lparr>bufs := x\<rparr>"
  "this_cpu (s\<lparr>bufs := x\<rparr>) = this_cpu s"
  "cur (s\<lparr>bufs := x\<rparr>) = cur s"
  "cpu_inv (s\<lparr>bufs := x\<rparr>) = cpu_inv s"
  "in_cs (s\<lparr>bufs := x\<rparr>) = in_cs s"
  "lock_free lk (s\<lparr>bufs := x\<rparr>) = lock_free lk s"
  "lock_held lk (s\<lparr>bufs := x\<rparr>) = lock_held lk s"
  "calm (s\<lparr>bufs := x\<rparr>) = calm s"
  "runs (s\<lparr>bufs := x\<rparr>) = runs s"
  by (simp_all add: frame_ext_defs)

lemma lru_frame [simp]:
  "lru (push s) = lru s"
  "lru (pop s) = lru s"
  "lru (settle s) = lru s"
  "lru (acq lk s) = lru s"
  "lru (rel lk s) = lru s"
  "lru (upd_cpu c g s) = lru s"
  "lru (upd_cur g s) = lru s"
  "lru (upd_lock lk h s) = lru s"
  "lru (upd_thread t k s) = lru s"
  "lru (upd_proc p q s) = lru s"
  "lru (run_on c s) = lru s"
  "settle (s\<lparr>lru := x\<rparr>) = (settle s)\<lparr>lru := x\<rparr>"
  "acq lk (s\<lparr>lru := x\<rparr>) = (acq lk s)\<lparr>lru := x\<rparr>"
  "rel lk (s\<lparr>lru := x\<rparr>) = (rel lk s)\<lparr>lru := x\<rparr>"
  "upd_cpu c g (s\<lparr>lru := x\<rparr>) = (upd_cpu c g s)\<lparr>lru := x\<rparr>"
  "upd_cur g (s\<lparr>lru := x\<rparr>) = (upd_cur g s)\<lparr>lru := x\<rparr>"
  "upd_lock lk h (s\<lparr>lru := x\<rparr>) = (upd_lock lk h s)\<lparr>lru := x\<rparr>"
  "upd_thread t k (s\<lparr>lru := x\<rparr>) = (upd_thread t k s)\<lparr>lru := x\<rparr>"
  "upd_proc p q (s\<lparr>lru := x\<rparr>) = (upd_proc p q s)\<lparr>lru := x\<rparr>"
  "run_on c (s\<lparr>lru := x\<rparr>) = (run_on c s)\<lparr>lru := x\<rparr>"
  "this_cpu (s\<lparr>lru := x\<rparr>) = this_cpu s"
  "cur (s\<lparr>lru := x\<rparr>) = cur s"
  "cpu_inv (s\<lparr>lru := x\<rparr>) = cpu_inv s"
  "in_cs (s\<lparr>lru := x\<rparr>) = in_cs s"
  "lock_free lk (s\<lparr>lru := x\<rparr>) = lock_free lk s"
  "lock_held lk (s\<lparr>lru := x\<rparr>) = lock_held lk s"
  "calm (s\<lparr>lru := x\<rparr>) = calm s"
  "runs (s\<lparr>lru := x\<rparr>) = runs s"
  by (simp_all add: frame_ext_defs)

lemma disk_frame [simp]:
  "disk (push s) = disk s"
  "disk (pop s) = disk s"
  "disk (settle s) = disk s"
  "disk (acq lk s) = disk s"
  "disk (rel lk s) = disk s"
  "disk (upd_cpu c g s) = disk s"
  "disk (upd_cur g s) = disk s"
  "disk (upd_lock lk h s) = disk s"
  "disk (upd_thread t k s) = disk s"
  "disk (upd_proc p q s) = disk s"
  "disk (run_on c s) = disk s"
  "settle (s\<lparr>disk := x\<rparr>) = (settle s)\<lparr>disk := x\<rparr>"
  "acq lk (s\<lparr>disk := x\<rparr>) = (acq lk s)\<lparr>disk := x\<rparr>"
  "rel lk (s\<lparr>disk := x\<rparr>) = (rel lk s)\<lparr>disk := x\<rparr>"
  "upd_cpu c g (s\<lparr>disk := x\<rparr>) = (upd_cpu c g s)\<lparr>disk := x\<rparr>"
  "upd_cur g (s\<lparr>disk := x\<rparr>) = (upd_cur g s)\<lparr>disk := x\<rparr>"
  "upd_lock lk h (s\<lparr>disk := x\<rparr>) = (upd_lock lk h s)\<lparr>disk := x\<rparr>"
  "upd_thread t k (s\<lparr>disk := x\<rparr>) = (upd_thread t k s)\<lparr>disk := x\<rparr>"
  "upd_proc p q (s\<lparr>disk := x\<rparr>) = (upd_proc p q s)\<lparr>disk := x\<rparr>"
  "run_on c (s\<lparr>disk := x\<rparr>) = (run_on c s)\<lparr>disk := x\<rparr>"
  "this_cpu (s\<lparr>disk := x\<rparr>) = this_cpu s"
  "cur (s\<lparr>disk := x\<rparr>) = cur s"
  "cpu_inv (s\<lparr>disk := x\<rparr>) = cpu_inv s"
  "in_cs (s\<lparr>disk := x\<rparr>) = in_cs s"
  "lock_free lk (s\<lparr>disk := x\<rparr>) = lock_free lk s"
  "lock_held lk (s\<lparr>disk := x\<rparr>) = lock_held lk s"
  "calm (s\<lparr>disk := x\<rparr>) = calm s"
  "runs (s\<lparr>disk := x\<rparr>) = runs s"
  by (simp_all add: frame_ext_defs)

lemma disk_hist_frame [simp]:
  "disk_hist (push s) = disk_hist s"
  "disk_hist (pop s) = disk_hist s"
  "disk_hist (settle s) = disk_hist s"
  "disk_hist (acq lk s) = disk_hist s"
  "disk_hist (rel lk s) = disk_hist s"
  "disk_hist (upd_cpu c g s) = disk_hist s"
  "disk_hist (upd_cur g s) = disk_hist s"
  "disk_hist (upd_lock lk h s) = disk_hist s"
  "disk_hist (upd_thread t k s) = disk_hist s"
  "disk_hist (upd_proc p q s) = disk_hist s"
  "disk_hist (run_on c s) = disk_hist s"
  "settle (s\<lparr>disk_hist := x\<rparr>) = (settle s)\<lparr>disk_hist := x\<rparr>"
  "acq lk (s\<lparr>disk_hist := x\<rparr>) = (acq lk s)\<lparr>disk_hist := x\<rparr>"
  "rel lk (s\<lparr>disk_hist := x\<rparr>) = (rel lk s)\<lparr>disk_hist := x\<rparr>"
  "upd_cpu c g (s\<lparr>disk_hist := x\<rparr>) = (upd_cpu c g s)\<lparr>disk_hist := x\<rparr>"
  "upd_cur g (s\<lparr>disk_hist := x\<rparr>) = (upd_cur g s)\<lparr>disk_hist := x\<rparr>"
  "upd_lock lk h (s\<lparr>disk_hist := x\<rparr>) = (upd_lock lk h s)\<lparr>disk_hist := x\<rparr>"
  "upd_thread t k (s\<lparr>disk_hist := x\<rparr>) = (upd_thread t k s)\<lparr>disk_hist := x\<rparr>"
  "upd_proc p q (s\<lparr>disk_hist := x\<rparr>) = (upd_proc p q s)\<lparr>disk_hist := x\<rparr>"
  "run_on c (s\<lparr>disk_hist := x\<rparr>) = (run_on c s)\<lparr>disk_hist := x\<rparr>"
  "this_cpu (s\<lparr>disk_hist := x\<rparr>) = this_cpu s"
  "cur (s\<lparr>disk_hist := x\<rparr>) = cur s"
  "cpu_inv (s\<lparr>disk_hist := x\<rparr>) = cpu_inv s"
  "in_cs (s\<lparr>disk_hist := x\<rparr>) = in_cs s"
  "lock_free lk (s\<lparr>disk_hist := x\<rparr>) = lock_free lk s"
  "lock_held lk (s\<lparr>disk_hist := x\<rparr>) = lock_held lk s"
  "calm (s\<lparr>disk_hist := x\<rparr>) = calm s"
  "runs (s\<lparr>disk_hist := x\<rparr>) = runs s"
  by (simp_all add: frame_ext_defs)

definition upd_buf :: "nat \<Rightarrow> (buf \<Rightarrow> buf) \<Rightarrow> 'm bcache_scheme \<Rightarrow> 'm bcache_scheme" where
  "upd_buf b f s = s\<lparr>bufs := (bufs s)[b := f (bufs s ! b)]\<rparr>"

subsection \<open>Operations\<close>

fun binit_loop :: "nat list \<Rightarrow> ('m bcache_scheme, unit) kop" where
  "binit_loop [] = kret ()"
| "binit_loop (b # bs) =
     kseq (initsleeplock (SlBuf b))
     (kseq (kmod (\<lambda>s. s\<lparr>lru := b # lru s\<rparr>))
     (binit_loop bs))"

definition binit :: "('m bcache_scheme, unit) kop" where
  "binit =
     kseq (initlock LkBcache ''bcache'')
     (kseq (kmod (\<lambda>s. s\<lparr>lru := []\<rparr>))
     (binit_loop [0 ..< NBUF]))"

definition iderw :: "nat \<Rightarrow> ('m bcache_scheme, unit) kop" where
  "iderw b =
     kbind (holdingsleep (SlBuf b)) (\<lambda>h.
     if \<not> h then kpanic ''iderw: buf not locked'' else
     kbind (kget (\<lambda>s. bufs s ! b)) (\<lambda>x.
     if b_valid x \<and> \<not> b_dirty x then kpanic ''iderw: nothing to do''
     else if dev x \<noteq> 1 then kpanic ''iderw: request not for disk 1'' else
     kbind (kget (\<lambda>s. length (disk s))) (\<lambda>n.
     if n \<le> unat (blockno x) then kpanic ''iderw: block out of range'' else
     kseq (if b_dirty x
           then kseq (kmod (upd_buf b (\<lambda>y. y\<lparr>b_dirty := False\<rparr>)))
             (kmod (\<lambda>s. s\<lparr>disk_hist := disk_hist s @ [disk s], disk := (disk s)[unat (blockno x) := data x]\<rparr>))
           else kmod (\<lambda>s. upd_buf b (\<lambda>y. y\<lparr>data := disk s ! unat (blockno x)\<rparr>) s))
     (kmod (upd_buf b (\<lambda>y. y\<lparr>b_valid := True\<rparr>))))))"

definition bget :: "uint \<Rightarrow> uint \<Rightarrow> ('m bcache_scheme, nat) kop" where
  "bget d n =
     kseq (acquire LkBcache)
     (kbind (kget (\<lambda>s. find (\<lambda>b. dev (bufs s ! b) = d \<and> blockno (bufs s ! b) = n) (lru s))) (\<lambda>r.
     case r of
       Some b \<Rightarrow>
         kseq (kmod (upd_buf b (\<lambda>x. x\<lparr>refcnt := refcnt x + 1\<rparr>)))
         (kseq (release LkBcache)
         (kseq (acquiresleep (SlBuf b))
         (kret b)))
     | None \<Rightarrow>
         kbind (kget (\<lambda>s. find (\<lambda>b. refcnt (bufs s ! b) = 0 \<and> \<not> b_dirty (bufs s ! b)) (rev (lru s)))) (\<lambda>r.
         case r of
           Some b \<Rightarrow>
             kseq (kmod (upd_buf b (\<lambda>x. x\<lparr>dev := d, blockno := n, b_valid := False, b_dirty := False, refcnt := 1\<rparr>)))
             (kseq (release LkBcache)
             (kseq (acquiresleep (SlBuf b))
             (kret b)))
         | None \<Rightarrow> kpanic ''bget: no buffers'')))"

definition bread :: "uint \<Rightarrow> uint \<Rightarrow> ('m bcache_scheme, nat) kop" where
  "bread d n =
     kbind (bget d n) (\<lambda>b.
     kbind (kget (\<lambda>s. b_valid (bufs s ! b))) (\<lambda>v.
     kseq (if \<not> v then iderw b else kret ()) (kret b)))"

definition bwrite :: "nat \<Rightarrow> ('m bcache_scheme, unit) kop" where
  "bwrite b =
     kbind (holdingsleep (SlBuf b)) (\<lambda>h.
     if \<not> h then kpanic ''bwrite'' else
     kseq (kmod (upd_buf b (\<lambda>x. x\<lparr>b_dirty := True\<rparr>)))
     (iderw b))"

definition brelse :: "nat \<Rightarrow> ('m bcache_scheme, unit) kop" where
  "brelse b =
     kbind (holdingsleep (SlBuf b)) (\<lambda>h.
     if \<not> h then kpanic ''brelse'' else
     kseq (releasesleep (SlBuf b))
     (kseq (acquire LkBcache)
     (kseq (kmod (upd_buf b (\<lambda>x. x\<lparr>refcnt := refcnt x - 1\<rparr>)))
     (kbind (kget (\<lambda>s. refcnt (bufs s ! b))) (\<lambda>n.
     kseq (if n = 0 then kmod (\<lambda>s. s\<lparr>lru := b # remove1 b (lru s)\<rparr>) else kret ())
     (release LkBcache))))))"


subsection \<open>Symbolic execution\<close>

lemma upd_buf_simps [simp]:
  "bufs (upd_buf b f s) = (bufs s)[b := f (bufs s ! b)]" "lru (upd_buf b f s) = lru s" "disk (upd_buf b f s) = disk s"
  "disk_hist (upd_buf b f s) = disk_hist s" "procs (upd_buf b f s) = procs s" "ttable (upd_buf b f s) = ttable s"
  "sleeplocks (upd_buf b f s) = sleeplocks s" "mem (upd_buf b f s) = mem s"
  "acq lk (upd_buf b f s) = upd_buf b f (acq lk s)" "rel lk (upd_buf b f s) = upd_buf b f (rel lk s)"
  "settle (upd_buf b f s) = upd_buf b f (settle s)" "cpu_inv (upd_buf b f s) = cpu_inv s" "in_cs (upd_buf b f s) = in_cs s"
  "cur (upd_buf b f s) = cur s" "lock_free lk (upd_buf b f s) = lock_free lk s" "lock_held lk (upd_buf b f s) = lock_held lk s"
  "this_cpu (upd_buf b f s) = this_cpu s" "bcache.more (upd_buf b f s) = bcache.more s"
  by (simp_all add: upd_buf_def)

lemma upd_sl_bufs [simp]:
  "bufs (upd_sl l v s) = bufs s" "lru (upd_sl l v s) = lru s" "disk (upd_sl l v s) = disk s"
  "disk_hist (upd_sl l v s) = disk_hist s" "mem (upd_sl l v s) = mem s"
  "bcache.more (upd_sl l v s) = bcache.more s" "upd_buf b f (upd_sl l v s) = upd_sl l v (upd_buf b f s)"
  by (simp_all add: upd_sl_def upd_buf_def)

lemma more_ops [simp]:
  "bcache.more (acq lk s) = bcache.more s" "bcache.more (rel lk s) = bcache.more s" "bcache.more (settle s) = bcache.more s"
  by (simp_all add: frame_defs)

definition all_free :: "'m machine_scheme \<Rightarrow> bool" where
  "all_free s \<longleftrightarrow> (\<forall>lk. lock_free lk s)"

text \<open>
  What a file-system operation needs of the processor and leaves as it was: no spinlock is held, and
  the process, the memory and the components built on the cache are untouched.
\<close>

definition env :: "'m bcache_scheme \<Rightarrow> 'm bcache_scheme \<Rightarrow> bool" where
  "env s u \<longleftrightarrow> cpu_inv u \<and> all_free u \<and> cpu_proc (cur u) = cpu_proc (cur s) \<and> cpu_thread (cur u) = cpu_thread (cur s) \<and>
     ncli (cur u) = ncli (cur s) \<and> procs u = procs s \<and> mem u = mem s \<and> bcache.more u = bcache.more s"

definition ready_in :: "nat \<Rightarrow> 'm bcache_scheme \<Rightarrow> bool" where
  "ready_in p s \<longleftrightarrow> cpu_inv s \<and> all_free s \<and> cpu_proc (cur s) = Some p"

lemma env_trans: "env s u \<Longrightarrow> env u w \<Longrightarrow> env s w"
  by (simp add: env_def)

lemma env_ready: "ready_in p s \<Longrightarrow> env s u \<Longrightarrow> ready_in p u"
  by (simp add: ready_in_def env_def)

lemma ready_inD: "ready_in p s \<Longrightarrow> cpu_inv s" "ready_in p s \<Longrightarrow> lock_free lk s" "ready_in p s \<Longrightarrow> cpu_proc (cur s) = Some p"
  by (simp_all add: ready_in_def all_free_def)

lemma bget_hit:
  assumes "ready_in p s" and "find (\<lambda>b. dev (bufs s ! b) = d \<and> blockno (bufs s ! b) = n) (lru s) = Some b"
    and "\<not> slocked (sleeplocks s (SlBuf b))"
  shows "bget d n s = Ok b (upd_sl (SlBuf b) ((sleeplocks s (SlBuf b))\<lparr>slocked := True, sl_pid := pid (procs s ! p)\<rparr>)
     (upd_buf b (\<lambda>x. x\<lparr>refcnt := refcnt x + 1\<rparr>) (settle s)))"
  using assms ready_inD [OF assms(1)] by (simp add: bget_def kexec)

lemma bget_miss:
  assumes "ready_in p s" and "find (\<lambda>b. dev (bufs s ! b) = d \<and> blockno (bufs s ! b) = n) (lru s) = None"
    and "find (\<lambda>b. refcnt (bufs s ! b) = 0 \<and> \<not> b_dirty (bufs s ! b)) (rev (lru s)) = Some b"
    and "\<not> slocked (sleeplocks s (SlBuf b))"
  shows "bget d n s = Ok b (upd_sl (SlBuf b) ((sleeplocks s (SlBuf b))\<lparr>slocked := True, sl_pid := pid (procs s ! p)\<rparr>)
     (upd_buf b (\<lambda>x. x\<lparr>dev := d, blockno := n, b_valid := False, b_dirty := False, refcnt := 1\<rparr>) (settle s)))"
  using assms ready_inD [OF assms(1)] by (simp add: bget_def kexec)

lemma iderw_ok:
  assumes "ready_in p s" and "slocked (sleeplocks s (SlBuf b))" and "sl_pid (sleeplocks s (SlBuf b)) = pid (procs s ! p)"
    and "b_dirty (bufs s ! b) \<or> \<not> b_valid (bufs s ! b)" and "dev (bufs s ! b) = 1" and "unat (blockno (bufs s ! b)) < length (disk s)"
    and "b < length (bufs s)"
  shows "iderw b s = Ok () (if b_dirty (bufs s ! b)
     then (upd_buf b (\<lambda>x. x\<lparr>b_dirty := False, b_valid := True\<rparr>) (settle s))
       \<lparr>disk_hist := disk_hist s @ [disk s], disk := (disk s)[unat (blockno (bufs s ! b)) := data (bufs s ! b)]\<rparr>
     else upd_buf b (\<lambda>x. x\<lparr>data := disk s ! unat (blockno (bufs s ! b)), b_valid := True\<rparr>) (settle s))"
  using assms ready_inD [OF assms(1)]
  by (auto simp: iderw_def kexec not_le) (simp_all add: upd_buf_def)

lemma holdingsleep_yes:
  assumes "ready_in p s" and "slocked (sleeplocks s l)" and "sl_pid (sleeplocks s l) = pid (procs s ! p)"
  shows "holdingsleep l s = Ok True (settle s)"
  using assms ready_inD [OF assms(1)] by (simp add: kexec)

lemma brelse_ok:
  assumes "ready_in p s" and "slocked (sleeplocks s (SlBuf b))" and "sl_pid (sleeplocks s (SlBuf b)) = pid (procs s ! p)"
    and "b < length (bufs s)"
  shows "brelse b s = Ok () ((upd_buf b (\<lambda>x. x\<lparr>refcnt := refcnt x - 1\<rparr>)
     (upd_sl (SlBuf b) \<lparr>slocked = False, sl_pid = 0\<rparr> (settle s)))
       \<lparr>ttable := wake_procs (Some (ChBufLock b)) (procs s) (ttable s),
         lru := (if refcnt (bufs s ! b) = 1 then b # remove1 b (lru s) else lru s)\<rparr>)"
  using assms ready_inD [OF assms(1)]
  by (auto simp: brelse_def kexec holdingsleep_yes) (simp_all add: upd_buf_def upd_sl_def)

lemma bwrite_ok:
  assumes "ready_in p s" and "slocked (sleeplocks s (SlBuf b))" and "sl_pid (sleeplocks s (SlBuf b)) = pid (procs s ! p)"
    and "dev (bufs s ! b) = 1" and "unat (blockno (bufs s ! b)) < length (disk s)" and "b < length (bufs s)"
  shows "bwrite b s = Ok () ((upd_buf b (\<lambda>x. x\<lparr>b_dirty := False, b_valid := True\<rparr>) (settle s))
       \<lparr>disk_hist := disk_hist s @ [disk s], disk := (disk s)[unat (blockno (bufs s ! b)) := data (bufs s ! b)]\<rparr>)"
proof -
  let ?u = "upd_buf b (\<lambda>x. x\<lparr>b_dirty := True\<rparr>) (settle s)"
  have u: "ready_in p ?u" using assms(1) by (simp add: ready_in_def all_free_def)
  have "iderw b ?u = Ok () ((upd_buf b (\<lambda>x. x\<lparr>b_dirty := False, b_valid := True\<rparr>) (settle ?u))
       \<lparr>disk_hist := disk_hist s @ [disk s], disk := (disk s)[unat (blockno (bufs s ! b)) := data (bufs s ! b)]\<rparr>)"
    using iderw_ok [OF u] assms by simp
  then show ?thesis
    using assms by (simp add: bwrite_def kexec holdingsleep_yes) (simp add: upd_buf_def)
qed

subsection \<open>The cache invariant\<close>

text \<open>
  \<open>H\<close> is the set of buffers the running process holds. The cache is well-formed, a buffer is
  locked and referenced exactly when it is held, no block is cached twice, and a buffer that is
  neither held nor dirty agrees with the disk.
\<close>

definition bc_wf :: "'m bcache_scheme \<Rightarrow> bool" where
  "bc_wf s \<longleftrightarrow> length (bufs s) = NBUF \<and> distinct (lru s) \<and> set (lru s) = {..<NBUF} \<and>
     (\<forall>b < NBUF. length (data (bufs s ! b)) = BSIZE) \<and> (\<forall>d\<in>set (disk s). length d = BSIZE)"

definition bc_locks :: "nat \<Rightarrow> nat set \<Rightarrow> 'm bcache_scheme \<Rightarrow> bool" where
  "bc_locks p H s \<longleftrightarrow> H \<subseteq> {..<NBUF} \<and>
     (\<forall>b < NBUF. (slocked (sleeplocks s (SlBuf b)) \<longleftrightarrow> b \<in> H) \<and> refcnt (bufs s ! b) = (if b \<in> H then 1 else 0)) \<and>
     (\<forall>b\<in>H. sl_pid (sleeplocks s (SlBuf b)) = pid (procs s ! p))"

definition bc_data :: "nat set \<Rightarrow> 'm bcache_scheme \<Rightarrow> bool" where
  "bc_data H s \<longleftrightarrow>
     (\<forall>b < NBUF. \<forall>c < NBUF. dev (bufs s ! b) = 1 \<longrightarrow> dev (bufs s ! c) = 1 \<longrightarrow>
        blockno (bufs s ! b) = blockno (bufs s ! c) \<longrightarrow> b = c) \<and>
     (\<forall>b < NBUF. b \<in> H \<or> b_dirty (bufs s ! b) \<longrightarrow>
        dev (bufs s ! b) = 1 \<and> b_valid (bufs s ! b) \<and> unat (blockno (bufs s ! b)) < length (disk s)) \<and>
     (\<forall>b < NBUF. dev (bufs s ! b) = 1 \<and> b_valid (bufs s ! b) \<and> \<not> b_dirty (bufs s ! b) \<and> b \<notin> H \<longrightarrow>
        data (bufs s ! b) = disk s ! unat (blockno (bufs s ! b)))"

definition bc_inv :: "nat \<Rightarrow> nat set \<Rightarrow> 'm bcache_scheme \<Rightarrow> bool" where
  "bc_inv p H s \<longleftrightarrow> bc_wf s \<and> bc_locks p H s \<and> bc_data H s"

text \<open>The contents of a block as its readers see it: the cached copy, or the disk.\<close>

definition caches :: "'m bcache_scheme \<Rightarrow> nat \<Rightarrow> nat \<Rightarrow> bool" where
  "caches s n b \<longleftrightarrow> dev (bufs s ! b) = 1 \<and> unat (blockno (bufs s ! b)) = n \<and> b_valid (bufs s ! b)"

definition bview :: "'m bcache_scheme \<Rightarrow> nat \<Rightarrow> uchar list" where
  "bview s n = (case find (caches s n) [0 ..< NBUF] of Some b \<Rightarrow> data (bufs s ! b) | None \<Rightarrow> disk s ! n)"

lemma bview_cached:
  assumes "bc_data H s" and "b < NBUF" and "caches s n b"
  shows "bview s n = data (bufs s ! b)"
proof -
  have "find (caches s n) [0 ..< NBUF] \<noteq> None" using assms(2,3) by (auto simp: find_None_iff)
  then obtain c where c: "find (caches s n) [0 ..< NBUF] = Some c" by auto
  then have "c < NBUF" "caches s n c" by (auto simp: find_Some_iff)
  moreover have "blockno (bufs s ! b) = blockno (bufs s ! c)"
    using assms(3) \<open>caches s n c\<close> by (auto simp: caches_def dest: unsigned_word_eqI)
  ultimately have "b = c" using assms by (auto simp: bc_data_def caches_def)
  with c show ?thesis by (simp add: bview_def)
qed

lemma bview_uncached:
  assumes "\<And>b. b < NBUF \<Longrightarrow> \<not> caches s n b"
  shows "bview s n = disk s ! n"
proof -
  have "find (caches s n) [0 ..< NBUF] = None" using assms by (auto simp: find_None_iff)
  then show ?thesis by (simp add: bview_def)
qed

text \<open>The invariant and the bview depend only on a few fields.\<close>

lemma bc_inv_cong:
  assumes "bufs u = bufs s" and "lru u = lru s" and "disk u = disk s" and "procs u = procs s"
    and "\<And>b. sleeplocks u (SlBuf b) = sleeplocks s (SlBuf b)"
  shows "bc_inv p H u = bc_inv p H s" and "bview u = bview s"
proof -
  show "bc_inv p H u = bc_inv p H s"
    using assms by (simp add: bc_inv_def bc_wf_def bc_locks_def bc_data_def)
  have "caches u n = caches s n" for n using assms(1) by (simp add: caches_def fun_eq_iff)
  then show "bview u = bview s" using assms(1,3) by (intro ext) (simp add: bview_def split: option.split)
qed

lemma find_upt_lru:
  assumes "bc_wf s"
  shows "find P (lru s) = None \<longleftrightarrow> (\<forall>b < NBUF. \<not> P b)" and "find P (rev (lru s)) = None \<longleftrightarrow> (\<forall>b < NBUF. \<not> P b)"
    and "find P (lru s) = Some b \<Longrightarrow> b < NBUF \<and> P b" and "find P (rev (lru s)) = Some b \<Longrightarrow> b < NBUF \<and> P b"
proof -
  have l: "set (lru s) = {..<NBUF}" using assms by (simp add: bc_wf_def)
  show "find P (lru s) = None \<longleftrightarrow> (\<forall>b < NBUF. \<not> P b)" "find P (rev (lru s)) = None \<longleftrightarrow> (\<forall>b < NBUF. \<not> P b)"
    using l by (auto simp: find_None_iff)
  show "find P (lru s) = Some b \<Longrightarrow> b < NBUF \<and> P b"
    using l by (metis find_Some_iff lessThan_iff nth_mem)
  show "find P (rev (lru s)) = Some b \<Longrightarrow> b < NBUF \<and> P b"
    using l by (metis find_Some_iff lessThan_iff nth_mem set_rev)
qed

lemma bc_locksD:
  assumes "bc_locks p H s"
  shows "b < NBUF \<Longrightarrow> slocked (sleeplocks s (SlBuf b)) \<longleftrightarrow> b \<in> H"
    and "b < NBUF \<Longrightarrow> refcnt (bufs s ! b) = (if b \<in> H then 1 else 0)"
    and "b \<in> H \<Longrightarrow> sl_pid (sleeplocks s (SlBuf b)) = pid (procs s ! p)" and "b \<in> H \<Longrightarrow> b < NBUF"
  using assms unfolding bc_locks_def by blast+

lemma bc_dataD:
  assumes "bc_data H s"
  shows "b < NBUF \<Longrightarrow> c < NBUF \<Longrightarrow> dev (bufs s ! b) = 1 \<Longrightarrow> dev (bufs s ! c) = 1 \<Longrightarrow>
      blockno (bufs s ! b) = blockno (bufs s ! c) \<Longrightarrow> b = c"
    and "b < NBUF \<Longrightarrow> b \<in> H \<or> b_dirty (bufs s ! b) \<Longrightarrow>
      dev (bufs s ! b) = 1 \<and> b_valid (bufs s ! b) \<and> unat (blockno (bufs s ! b)) < length (disk s)"
    and "b < NBUF \<Longrightarrow> dev (bufs s ! b) = 1 \<Longrightarrow> b_valid (bufs s ! b) \<Longrightarrow> \<not> b_dirty (bufs s ! b) \<Longrightarrow> b \<notin> H \<Longrightarrow>
      data (bufs s ! b) = disk s ! unat (blockno (bufs s ! b))"
  using assms unfolding bc_data_def by blast+

subsection \<open>Reading a block\<close>

text \<open>What \<open>bread\<close> does to the buffer it returns; all other buffers keep their contents.\<close>

lemma env_mk:
  assumes "ready_in p s" and "cpu_inv u" and "all_free u" and "cur u = cur (settle s)" and "procs u = procs s"
    and "mem u = mem s" and "bcache.more u = bcache.more s"
  shows "env s u"
  using assms by (simp add: env_def ready_in_def)

lemma all_free_simps [simp]:
  "all_free (upd_sl l v s) = all_free s" "all_free (upd_buf b f s) = all_free s" "all_free (settle s) = all_free s"
  "all_free (s\<lparr>disk := x1\<rparr>) = all_free s" "all_free (s\<lparr>disk_hist := x2\<rparr>) = all_free s"
  "all_free (s\<lparr>lru := x3\<rparr>) = all_free s" "all_free (s\<lparr>ttable := x4\<rparr>) = all_free s" "all_free (s\<lparr>bufs := x5\<rparr>) = all_free s"
  by (simp_all add: all_free_def)

lemma ready_in_simps [simp]:
  "ready_in p (upd_sl l v s) = ready_in p s" "ready_in p (upd_buf b f s) = ready_in p s"
  by (simp_all add: ready_in_def)

lemma ready_in_settle [simp]: "ready_in p (settle s) = ready_in p s"
  by (cases "cpu_inv s") (auto simp: ready_in_def)

definition loaded :: "uint \<Rightarrow> uchar list \<Rightarrow> buf \<Rightarrow> buf" where
  "loaded n d x = x\<lparr>dev := 1, blockno := n, b_valid := True, refcnt := 1, data := d\<rparr>"

lemma bget_cases:
  assumes "ready_in p s" and inv: "bc_inv p H s" and nh: "\<And>b. b \<in> H \<Longrightarrow> blockno (bufs s ! b) \<noteq> n"
    and av: "\<exists>b < NBUF. b \<notin> H \<and> (b_dirty (bufs s ! b) \<longrightarrow> dev (bufs s ! b) = 1 \<and> blockno (bufs s ! b) = n)"
  obtains b u x where "bget 1 n s = Ok b u" and "u = upd_sl (SlBuf b) ((sleeplocks s (SlBuf b))\<lparr>slocked := True, sl_pid := pid (procs s ! p)\<rparr>)
        (upd_buf b (\<lambda>_. x) (settle s))"
    and "b < NBUF" and "b \<notin> H" and "dev x = 1" and "blockno x = n" and "refcnt x = 1" and "b_dirty x = b_dirty (bufs s ! b)"
    and "b_valid x \<Longrightarrow> caches s (unat n) b \<and> data x = data (bufs s ! b)"
    and "\<not> b_valid x \<Longrightarrow> \<not> b_dirty x \<and> (\<forall>c < NBUF. \<not> caches s (unat n) c)"
    and "\<And>c. c < NBUF \<Longrightarrow> dev (bufs s ! c) = 1 \<Longrightarrow> blockno (bufs s ! c) = n \<Longrightarrow> c = b"
proof -
  from inv have wf: "bc_wf s" and lk: "bc_locks p H s" and da: "bc_data H s" by (simp_all add: bc_inv_def)
  note fl = find_upt_lru [OF wf]
  let ?P = "\<lambda>b. dev (bufs s ! b) = 1 \<and> blockno (bufs s ! b) = n"
  show thesis
  proof (cases "find ?P (lru s)")
    case (Some b)
    from fl(3) [OF Some] have b: "b < NBUF" "dev (bufs s ! b) = 1" "blockno (bufs s ! b) = n" by simp_all
    with nh have bh: "b \<notin> H" by auto
    with b have fr: "\<not> slocked (sleeplocks s (SlBuf b))" "refcnt (bufs s ! b) = 0" using bc_locksD [OF lk] by simp_all
    have un: "c = b" if "c < NBUF" "dev (bufs s ! c) = 1" "blockno (bufs s ! c) = n" for c
      using bc_dataD(1) [OF da that(1) b(1)] that b by simp
    show thesis
    proof (rule that [of b _ "(bufs s ! b)\<lparr>refcnt := refcnt (bufs s ! b) + 1\<rparr>"])
      show "bget 1 n s = Ok b (upd_sl (SlBuf b) ((sleeplocks s (SlBuf b))\<lparr>slocked := True, sl_pid := pid (procs s ! p)\<rparr>)
        (upd_buf b (\<lambda>_. (bufs s ! b)\<lparr>refcnt := refcnt (bufs s ! b) + 1\<rparr>) (settle s)))"
        using bget_hit [OF assms(1) Some fr(1)] by (simp add: upd_buf_def)
      show "b_valid ((bufs s ! b)\<lparr>refcnt := refcnt (bufs s ! b) + 1\<rparr>) \<Longrightarrow>
          caches s (unat n) b \<and> data ((bufs s ! b)\<lparr>refcnt := refcnt (bufs s ! b) + 1\<rparr>) = data (bufs s ! b)"
        using b by (simp add: caches_def)
      show "\<And>c. c < NBUF \<Longrightarrow> dev (bufs s ! c) = 1 \<Longrightarrow> blockno (bufs s ! c) = n \<Longrightarrow> c = b" by (rule un)
      assume nv: "\<not> b_valid ((bufs s ! b)\<lparr>refcnt := refcnt (bufs s ! b) + 1\<rparr>)"
      then have "\<not> caches s (unat n) c" if "c < NBUF" for c
        using un [OF that] by (auto simp: caches_def dest: unsigned_word_eqI)
      then show "\<not> b_dirty ((bufs s ! b)\<lparr>refcnt := refcnt (bufs s ! b) + 1\<rparr>) \<and> (\<forall>c < NBUF. \<not> caches s (unat n) c)"
        using nv bc_dataD(2) [OF da b(1)] by auto
    qed (use b bh fr in simp_all)
  next
    case None
    then have no: "\<And>c. c < NBUF \<Longrightarrow> \<not> ?P c" using fl(1) [of ?P] by simp
    let ?Q = "\<lambda>b. refcnt (bufs s ! b) = 0 \<and> \<not> b_dirty (bufs s ! b)"
    have "find ?Q (rev (lru s)) \<noteq> None"
    proof
      assume "find ?Q (rev (lru s)) = None"
      then have nq: "\<forall>b < NBUF. \<not> ?Q b" by (rule fl(2) [THEN iffD1])
      from av obtain b where b: "b < NBUF" "b \<notin> H" "b_dirty (bufs s ! b) \<longrightarrow> ?P b" by blast
      have r: "refcnt (bufs s ! b) = 0" using bc_locksD(2) [OF lk b(1)] b(2) by simp
      have d: "\<not> b_dirty (bufs s ! b)" using b(3) no [OF b(1)] by blast
      from nq [rule_format, OF b(1)] r d show False by simp
    qed
    then obtain b where Some: "find ?Q (rev (lru s)) = Some b" by auto
    from fl(4) [OF this] have b: "b < NBUF" "refcnt (bufs s ! b) = 0" "\<not> b_dirty (bufs s ! b)" by simp_all
    then have bh: "b \<notin> H" using bc_locksD(2) [OF lk b(1)] by (simp split: if_splits)
    with b have fr: "\<not> slocked (sleeplocks s (SlBuf b))" using bc_locksD(1) [OF lk] by simp
    let ?x = "(bufs s ! b)\<lparr>dev := 1, blockno := n, b_valid := False, b_dirty := False, refcnt := 1\<rparr>"
    show thesis
    proof (rule that [of b _ ?x])
      show "bget 1 n s = Ok b (upd_sl (SlBuf b) ((sleeplocks s (SlBuf b))\<lparr>slocked := True, sl_pid := pid (procs s ! p)\<rparr>)
        (upd_buf b (\<lambda>_. ?x) (settle s)))"
        using bget_miss [OF assms(1) None Some fr] by (simp add: upd_buf_def)
      show "\<not> b_valid ?x \<Longrightarrow> \<not> b_dirty ?x \<and> (\<forall>c < NBUF. \<not> caches s (unat n) c)"
        using no by (auto simp: caches_def dest: unsigned_word_eqI)
      show "\<And>c. c < NBUF \<Longrightarrow> dev (bufs s ! c) = 1 \<Longrightarrow> blockno (bufs s ! c) = n \<Longrightarrow> c = b" using no by blast
    qed (use b bh in simp_all)
  qed
qed

lemma upd_buf_twice:
  "b < length (bufs s) \<Longrightarrow> upd_buf b f (upd_buf b g s) = upd_buf b (\<lambda>x. f (g x)) s"
  by (simp add: upd_buf_def)

text \<open>The numbers of the blocks with a dirty buffer: these buffers are pinned in the cache.\<close>

definition dirty :: "'m bcache_scheme \<Rightarrow> nat set" where
  "dirty s = {unat (blockno (bufs s ! b)) | b. b < NBUF \<and> b_dirty (bufs s ! b)}"

definition held_blocks :: "nat set \<Rightarrow> 'm bcache_scheme \<Rightarrow> nat set" where
  "held_blocks H s = (\<lambda>b. unat (blockno (bufs s ! b))) ` H"

lemma bview_eqI:
  assumes "bc_data H u" and "\<And>b. b < NBUF \<Longrightarrow> caches u n b \<Longrightarrow> data (bufs u ! b) = v"
    and "(\<And>b. b < NBUF \<Longrightarrow> \<not> caches u n b) \<Longrightarrow> disk u ! n = v"
  shows "bview u n = v"
proof (cases "\<exists>b < NBUF. caches u n b")
  case True
  then obtain b where "b < NBUF" "caches u n b" by blast
  then show ?thesis using bview_cached [OF assms(1)] assms(2) by simp
next
  case False
  then show ?thesis using bview_uncached [of u n] assms(3) by simp
qed

text \<open>
  The cache after a change of the buffer \<open>b\<close> alone, which the process holds afterwards; the lock of
  the buffer is the process's.
\<close>

definition takes :: "nat \<Rightarrow> nat \<Rightarrow> buf \<Rightarrow> 'm bcache_scheme \<Rightarrow> 'm bcache_scheme \<Rightarrow> bool" where
  "takes p b x s u \<longleftrightarrow> bufs u = (bufs s)[b := x] \<and> lru u = lru s \<and> disk u = disk s \<and> disk_hist u = disk_hist s \<and>
     procs u = procs s \<and> (\<forall>c < NBUF. c \<noteq> b \<longrightarrow> sleeplocks u (SlBuf c) = sleeplocks s (SlBuf c)) \<and>
     slocked (sleeplocks u (SlBuf b)) \<and> sl_pid (sleeplocks u (SlBuf b)) = pid (procs s ! p)"

lemma takes_view:
  assumes da: "bc_data H s" and dau: "bc_data (insert b H) u" and b: "b < NBUF" and x: "dev x = 1" "b_valid x" and d: "disk u = disk s"
    and n: "\<And>c. c < NBUF \<Longrightarrow> bufs u ! c = (if c = b then x else bufs s ! c)"
    and ev: "blockno (bufs s ! b) \<noteq> blockno x \<Longrightarrow> b \<notin> H \<and> \<not> b_dirty (bufs s ! b)"
  shows "bview u = (bview s)(unat (blockno x) := data x)"
proof
  fix m
  show "bview u m = ((bview s)(unat (blockno x) := data x)) m"
  proof (cases "m = unat (blockno x)")
    case True
    then have "caches u m b" using n [OF b] x by (simp add: caches_def)
    then show ?thesis using bview_cached [OF dau b] n [OF b] True by simp
  next
    case False
    have cb: "\<not> caches u m b" using n [OF b] False by (simp add: caches_def)
    show ?thesis
    proof (cases "caches s m b")
      case True
      have nd: "\<not> caches s m c" if "c < NBUF" "c \<noteq> b" for c
        using that True bc_dataD(1) [OF da that(1) b] by (auto simp: caches_def dest: unsigned_word_eqI)
      have v: "bview s m = data (bufs s ! b)" using bview_cached [OF da b True] .
      have nc: "\<not> caches u m c" if "c < NBUF" for c
        using nd [OF that] cb n [OF that] by (cases "c = b") (simp_all add: caches_def)
      have "blockno (bufs s ! b) \<noteq> blockno x" using False True by (auto simp: caches_def)
      then have "b \<notin> H \<and> \<not> b_dirty (bufs s ! b)" by (rule ev)
      then have "data (bufs s ! b) = disk s ! m" using bc_dataD(3) [OF da b] True by (auto simp: caches_def)
      then show ?thesis using bview_uncached [of u m] nc v d False by simp
    next
      case cs: False
      have eq: "caches u m c = caches s m c" if "c < NBUF" for c
        using cb cs n [OF that] unfolding caches_def by (cases "c = b") (simp_all, blast)
      have "bview u m = bview s m"
      proof (rule bview_eqI [OF dau])
        fix c assume c: "c < NBUF" "caches u m c"
        then have "c \<noteq> b" using cb by blast
        then show "data (bufs u ! c) = bview s m"
          using bview_cached [OF da c(1)] eq [OF c(1)] c n [OF c(1)] by simp
      next
        assume "\<And>c. c < NBUF \<Longrightarrow> \<not> caches u m c"
        then have "\<And>c. c < NBUF \<Longrightarrow> \<not> caches s m c" using eq by simp
        then show "disk u ! m = bview s m" using bview_uncached [of s m] d by simp
      qed
      then show ?thesis using False by simp
    qed
  qed
qed

lemma takes_inv:
  assumes t: "takes p b x s u" and inv: "bc_inv p H s" and b: "b < NBUF" and x: "dev x = 1" "b_valid x" "refcnt x = 1"
      "length (data x) = BSIZE" "unat (blockno x) < length (disk s)"
    and un: "\<And>c. c < NBUF \<Longrightarrow> dev (bufs s ! c) = 1 \<Longrightarrow> blockno (bufs s ! c) = blockno x \<Longrightarrow> c = b"
    and ev: "blockno (bufs s ! b) \<noteq> blockno x \<Longrightarrow> b \<notin> H \<and> \<not> b_dirty (bufs s ! b)"
  shows "bc_inv p (insert b H) u" and "bview u = (bview s)(unat (blockno x) := data x)"
proof -
  from inv have wf: "bc_wf s" and lk: "bc_locks p H s" and da: "bc_data H s" by (simp_all add: bc_inv_def)
  from t have bu: "bufs u = (bufs s)[b := x]" and d: "disk u = disk s" by (simp_all add: takes_def)
  have n: "bufs u ! c = (if c = b then x else bufs s ! c)" if "c < NBUF" for c
    using that b wf bu by (simp add: bc_wf_def nth_list_update)
  have "bc_wf u" using wf t b x unfolding bc_wf_def takes_def by (auto simp: nth_list_update)
  moreover have "bc_locks p (insert b H) u"
    using lk t b x n unfolding bc_locks_def takes_def by auto
  moreover have dau: "bc_data (insert b H) u"
    unfolding bc_data_def
  proof (intro conjI allI impI)
    fix c e assume "c < NBUF" "e < NBUF" "dev (bufs u ! c) = 1" "dev (bufs u ! e) = 1" "blockno (bufs u ! c) = blockno (bufs u ! e)"
    then show "c = e" using un bc_dataD(1) [OF da] n by (metis (full_types))
  next
    fix c assume c: "c < NBUF" "c \<in> insert b H \<or> b_dirty (bufs u ! c)"
    show "dev (bufs u ! c) = 1" "b_valid (bufs u ! c)" "unat (blockno (bufs u ! c)) < length (disk u)"
      using c bc_dataD(2) [OF da c(1)] n [OF c(1)] x d by (auto split: if_splits)
  next
    fix c assume c: "c < NBUF" "dev (bufs u ! c) = 1 \<and> b_valid (bufs u ! c) \<and> \<not> b_dirty (bufs u ! c) \<and> c \<notin> insert b H"
    then show "data (bufs u ! c) = disk u ! unat (blockno (bufs u ! c))"
      using bc_dataD(3) [OF da c(1)] n [OF c(1)] d by auto
  qed
  ultimately show "bc_inv p (insert b H) u" by (simp add: bc_inv_def)
  show "bview u = (bview s)(unat (blockno x) := data x)" by (rule takes_view [OF da dau b x(1,2) d n ev])
qed

lemma dirty_upd:
  assumes "bufs u = (bufs s)[b := x]" and "b < NBUF" and "length (bufs s) = NBUF" and "b_dirty (bufs s ! b) \<Longrightarrow> blockno (bufs s ! b) = blockno x"
    and "b_dirty x = b_dirty (bufs s ! b)"
  shows "dirty u = dirty s"
proof -
  have n: "bufs u ! c = (if c = b then x else bufs s ! c)" if "c < NBUF" for c
    using that assms(1-3) by (simp add: nth_list_update)
  have "(c < NBUF \<and> b_dirty (bufs u ! c) \<and> m = unat (blockno (bufs u ! c))) \<longleftrightarrow>
      (c < NBUF \<and> b_dirty (bufs s ! c) \<and> m = unat (blockno (bufs s ! c)))" for c m
    using n [of c] assms(4,5) by (cases "c = b") auto
  then show ?thesis unfolding dirty_def by (intro Collect_cong) metis
qed

text \<open>
  \<open>bread\<close>: a block that the process does not hold already is returned in a locked buffer with
  its contents; what readers see of the disk does not change.
\<close>

definition took :: "nat \<Rightarrow> nat set \<Rightarrow> uint \<Rightarrow> nat \<Rightarrow> 'm bcache_scheme \<Rightarrow> 'm bcache_scheme \<Rightarrow> bool" where
  "took p H n b s u \<longleftrightarrow> env s u \<and> b < NBUF \<and> b \<notin> H \<and> bc_inv p (insert b H) u \<and> bview u = bview s \<and> dirty u = dirty s \<and>
     dev (bufs u ! b) = 1 \<and> blockno (bufs u ! b) = n \<and> data (bufs u ! b) = bview s (unat n) \<and>
     (\<forall>c < NBUF. c \<noteq> b \<longrightarrow> bufs u ! c = bufs s ! c) \<and> disk u = disk s \<and> disk_hist u = disk_hist s \<and>
     (\<not> b_dirty (bufs u ! b) \<longrightarrow> data (bufs u ! b) = disk s ! unat n) \<and> (\<forall>l. (\<forall>c. l \<noteq> SlBuf c) \<longrightarrow> sleeplocks u l = sleeplocks s l)"

text \<open>A buffer can be found as long as the dirty and the held ones do not fill the cache.\<close>

definition room :: "nat set \<Rightarrow> uint \<Rightarrow> 'm bcache_scheme \<Rightarrow> bool" where
  "room H n s \<longleftrightarrow> (\<exists>b < NBUF. b \<notin> H \<and> (b_dirty (bufs s ! b) \<longrightarrow> dev (bufs s ! b) = 1 \<and> blockno (bufs s ! b) = n))"

lemma bread_ok:
  assumes rd: "ready_in p s" and inv: "bc_inv p H s" and nh: "\<And>b. b \<in> H \<Longrightarrow> blockno (bufs s ! b) \<noteq> n"
    and av: "room H n s" and nd: "unat n < length (disk s)"
  shows "\<exists>b u. bread 1 n s = Ok b u \<and> took p H n b s u"
proof -
  from inv have wf: "bc_wf s" and lk: "bc_locks p H s" and da: "bc_data H s" by (simp_all add: bc_inv_def)
  show ?thesis
  proof (rule bget_cases [OF rd inv nh av [unfolded room_def]])
  fix b u x assume g: "bget 1 n s = Ok b u"
    and u: "u = upd_sl (SlBuf b) ((sleeplocks s (SlBuf b))\<lparr>slocked := True, sl_pid := pid (procs s ! p)\<rparr>) (upd_buf b (\<lambda>_. x) (settle s))"
    and b: "b < NBUF" "b \<notin> H" and x: "dev x = 1" "blockno x = n" "refcnt x = 1" "b_dirty x = b_dirty (bufs s ! b)"
    and v: "b_valid x \<Longrightarrow> caches s (unat n) b \<and> data x = data (bufs s ! b)"
    and nv: "\<not> b_valid x \<Longrightarrow> \<not> b_dirty x \<and> (\<forall>c < NBUF. \<not> caches s (unat n) c)"
    and un: "\<And>c. c < NBUF \<Longrightarrow> dev (bufs s ! c) = 1 \<Longrightarrow> blockno (bufs s ! c) = n \<Longrightarrow> c = b"
  have ru: "ready_in p u" using rd u by simp
  have len: "b < length (bufs s)" using b wf by (simp add: bc_wf_def)
  define y where "y = x\<lparr>data := bview s (unat n), b_valid := True\<rparr>"
  define w where "w = upd_buf b (\<lambda>_. y) (settle u)"
  have bv: "bview s (unat n) = (if b_valid x then data x else disk s ! unat n)"
    using bview_cached [OF da b(1), of "unat n"] v bview_uncached [of s "unat n"] nv by auto
  have r: "bread 1 n s = Ok b (if b_valid x then u else w)"
  proof (cases "b_valid x")
    case False
    have "iderw b u = Ok () w"
      using iderw_ok [OF ru, of b] False nv [OF False] u x nd len bv unfolding w_def y_def by (simp add: upd_buf_twice)
    then show ?thesis using g False u len by (simp add: bread_def kexec)
  qed (use g u len in \<open>simp add: bread_def kexec\<close>)
  define e where "e = (if b_valid x then u else w)"
  have xv: "b_valid x \<Longrightarrow> y = x" using bv by (cases x) (simp add: y_def)
  have ey: "bufs e = (bufs s)[b := y]" using u len xv by (cases "b_valid x") (simp_all add: e_def w_def)
  have t: "takes p b y s e" using u ey unfolding takes_def e_def w_def by simp
  have yx: "dev y = 1" "b_valid y" "refcnt y = 1" "blockno y = n" "b_dirty y = b_dirty (bufs s ! b)" "data y = bview s (unat n)"
    using x by (simp_all add: y_def)
  have ly: "length (data y) = BSIZE"
    using wf b(1) nd v unfolding yx bv by (auto simp: bc_wf_def)
  have ev: "blockno (bufs s ! b) \<noteq> blockno y \<Longrightarrow> b \<notin> H \<and> \<not> b_dirty (bufs s ! b)"
    using b v nv x yx by (cases "b_valid x") (auto simp: caches_def dest: unsigned_word_eqI)
  have ti: "bc_inv p (insert b H) e" "bview e = (bview s)(unat (blockno y) := data y)"
    by (rule takes_inv [OF t inv b(1) yx(1-3) ly]; use yx un ev nd in simp)+
  have di: "dirty e = dirty s"
    by (rule dirty_upd [OF ey b(1)]) (use wf ev yx in \<open>auto simp: bc_wf_def\<close>)
  have "env s e"
    by (rule env_mk [OF rd]) (use u rd in \<open>simp_all add: e_def w_def ready_in_def\<close>)
  moreover have "\<not> b_dirty y \<Longrightarrow> data y = disk s ! unat n"
    using bc_dataD(3) [OF da b(1)] b(2) v yx bv by (cases "b_valid x") (auto simp: caches_def)
  moreover have "sleeplocks e l = sleeplocks s l" if "\<forall>c. l \<noteq> SlBuf c" for l
    using that u by (simp add: e_def w_def upd_sl_def)
  ultimately have "took p H n b s e"
    unfolding took_def using ti di ey yx b len u by (simp add: e_def w_def)
  then show ?thesis using r by (auto simp: e_def)
  qed
qed

subsection \<open>Changing, writing and releasing a held buffer\<close>

lemma held_inv:
  assumes "bc_inv p H s" and "b \<in> H"
  shows "b < NBUF" and "b < length (bufs s)" and "dev (bufs s ! b) = 1" and "b_valid (bufs s ! b)" and "refcnt (bufs s ! b) = 1"
    and "unat (blockno (bufs s ! b)) < length (disk s)" and "length (data (bufs s ! b)) = BSIZE"
    and "slocked (sleeplocks s (SlBuf b))" and "sl_pid (sleeplocks s (SlBuf b)) = pid (procs s ! p)"
    and "bview s (unat (blockno (bufs s ! b))) = data (bufs s ! b)"
proof -
  from assms have wf: "bc_wf s" and lk: "bc_locks p H s" and da: "bc_data H s" by (simp_all add: bc_inv_def)
  show b: "b < NBUF" using bc_locksD(4) [OF lk assms(2)] .
  show "b < length (bufs s)" "length (data (bufs s ! b)) = BSIZE" using b wf by (simp_all add: bc_wf_def)
  show d: "dev (bufs s ! b) = 1" "b_valid (bufs s ! b)" "unat (blockno (bufs s ! b)) < length (disk s)"
    using bc_dataD(2) [OF da b] assms(2) by simp_all
  show "refcnt (bufs s ! b) = 1" "slocked (sleeplocks s (SlBuf b))" "sl_pid (sleeplocks s (SlBuf b)) = pid (procs s ! p)"
    using bc_locksD [OF lk] b assms(2) by simp_all
  show "bview s (unat (blockno (bufs s ! b))) = data (bufs s ! b)"
    using bview_cached [OF da b] d by (simp add: caches_def)
qed

lemma held_unique:
  assumes "bc_inv p H s" and "b \<in> H" and "c < NBUF" and "dev (bufs s ! c) = 1" and "blockno (bufs s ! c) = blockno (bufs s ! b)"
  shows "c = b"
  using assms held_inv [OF assms(1,2)] bc_dataD(1) [of H s c b] by (simp add: bc_inv_def)

text \<open>Writing into the data of a held buffer and marking it dirty.\<close>

lemma modify_held:
  assumes inv: "bc_inv p H s" and b: "b \<in> H" and d: "length d = BSIZE"
    and u: "u = upd_buf b (\<lambda>x. x\<lparr>data := d\<rparr>) s"
  shows "bc_inv p H u" and "bview u = (bview s)(unat (blockno (bufs s ! b)) := d)" and "dirty u = dirty s"
proof -
  note h = held_inv [OF inv b]
  let ?x = "(bufs s ! b)\<lparr>data := d\<rparr>"
  have t: "takes p b ?x s u" using h u by (simp add: takes_def)
  have "bc_inv p (insert b H) u" "bview u = (bview s)(unat (blockno ?x) := data ?x)"
    by (rule takes_inv [OF t inv h(1)]; use h d held_unique [OF inv b] in simp)+
  then show "bc_inv p H u" "bview u = (bview s)(unat (blockno (bufs s ! b)) := d)" using b by (simp_all add: insert_absorb)
  show "dirty u = dirty s" by (rule dirty_upd [of _ _ b ?x]) (use u h inv in \<open>simp_all add: bc_inv_def bc_wf_def\<close>)
qed

lemma pin_held:
  assumes inv: "bc_inv p H s" and b: "b \<in> H" and u: "u = upd_buf b (\<lambda>x. x\<lparr>b_dirty := True\<rparr>) s"
  shows "bc_inv p H u" and "bview u = bview s" and "dirty u = insert (unat (blockno (bufs s ! b))) (dirty s)"
proof -
  note h = held_inv [OF inv b]
  let ?x = "(bufs s ! b)\<lparr>b_dirty := True\<rparr>"
  have t: "takes p b ?x s u" using h u by (simp add: takes_def)
  have "bc_inv p (insert b H) u" "bview u = (bview s)(unat (blockno ?x) := data ?x)"
    by (rule takes_inv [OF t inv h(1)]; use h held_unique [OF inv b] in simp)+
  then show "bc_inv p H u" "bview u = bview s" using b h(10) by (simp_all add: insert_absorb fun_upd_idem)
  have n: "bufs u ! c = (if c = b then ?x else bufs s ! c)" for c using u h by (simp add: nth_list_update)
  show "dirty u = insert (unat (blockno (bufs s ! b))) (dirty s)"
    unfolding dirty_def using h(1) n by (auto split: if_splits) metis
qed

text \<open>\<open>bwrite\<close> makes the disk agree with the held buffer.\<close>

lemma dirty_cleaned:
  assumes nu: "\<And>c. bufs u ! c = (if c = b then (bufs s ! b)\<lparr>b_dirty := False\<rparr> else bufs s ! c)"
    and n: "n = unat (blockno (bufs s ! b))"
    and other: "\<And>c. c < NBUF \<Longrightarrow> c \<noteq> b \<Longrightarrow> b_dirty (bufs s ! c) \<Longrightarrow> n \<noteq> unat (blockno (bufs s ! c))"
  shows "dirty u = dirty s - {n}"
proof (intro set_eqI iffI)
  fix m assume "m \<in> dirty u"
  then obtain c where c: "c < NBUF" "b_dirty (bufs u ! c)" "m = unat (blockno (bufs u ! c))" by (auto simp: dirty_def)
  then have "c \<noteq> b" using nu by auto
  then show "m \<in> dirty s - {n}" using c nu [of c] other [OF c(1)] by (auto simp: dirty_def)
next
  fix m assume m: "m \<in> dirty s - {n}"
  then obtain c where c: "c < NBUF" "b_dirty (bufs s ! c)" "m = unat (blockno (bufs s ! c))" by (auto simp: dirty_def)
  then have "c \<noteq> b" using m by (auto simp: n)
  then show "m \<in> dirty u" unfolding dirty_def using c nu [of c] by (intro CollectI exI [of _ c]) simp
qed

lemma bwrite_contract:
  assumes rd: "ready_in p s" and inv: "bc_inv p H s" and b: "b \<in> H"
  shows "\<exists>u. bwrite b s = Ok () u \<and> env s u \<and> bc_inv p H u \<and> bview u = bview s \<and>
     dirty u = dirty s - {unat (blockno (bufs s ! b))} \<and>
     bufs u = (bufs s)[b := (bufs s ! b)\<lparr>b_dirty := False\<rparr>] \<and>
     disk u = (disk s)[unat (blockno (bufs s ! b)) := data (bufs s ! b)] \<and> disk_hist u = disk_hist s @ [disk s] \<and>
     sleeplocks u = sleeplocks s"
proof -
  note h = held_inv [OF inv b]
  from inv have wf: "bc_wf s" and lk: "bc_locks p H s" and da: "bc_data H s" by (simp_all add: bc_inv_def)
  define n where "n = unat (blockno (bufs s ! b))"
  define u where "u = (upd_buf b (\<lambda>x. x\<lparr>b_dirty := False, b_valid := True\<rparr>) (settle s))
       \<lparr>disk_hist := disk_hist s @ [disk s], disk := (disk s)[n := data (bufs s ! b)]\<rparr>"
  let ?x = "(bufs s ! b)\<lparr>b_dirty := False\<rparr>"
  have x: "(bufs s ! b)\<lparr>b_dirty := False, b_valid := True\<rparr> = ?x" using h(4) by (cases "bufs s ! b") simp
  have r: "bwrite b s = Ok () u" unfolding u_def n_def by (rule bwrite_ok [OF rd h(8,9,3,6,2)])
  have bu: "bufs u = (bufs s)[b := ?x]" unfolding u_def using x by simp
  have nu: "bufs u ! c = (if c = b then ?x else bufs s ! c)" for c using bu h by (simp add: nth_list_update)
  have other: "n \<noteq> unat (blockno (bufs s ! c))" if "c < NBUF" "c \<noteq> b" "dev (bufs s ! c) = 1" for c
    using held_unique [OF inv b that(1,3)] that(2) by (auto simp: n_def dest: unsigned_word_eqI)
  have e: "env s u" by (rule env_mk [OF rd]) (use rd in \<open>simp_all add: u_def ready_in_def\<close>)
  have wfu: "bc_wf u"
    using wf h unfolding bc_wf_def bu by (auto simp: u_def nth_list_update dest!: set_update_subset_insert [THEN subsetD])
  have su: "sleeplocks u = sleeplocks s" "procs u = procs s" and du: "disk u = (disk s)[n := data (bufs s ! b)]" by (simp_all add: u_def)
  have lku: "bc_locks p H u" using lk h unfolding bc_locks_def by (simp add: nu su)
  have dau: "bc_data H u"
    unfolding bc_data_def
  proof (intro conjI allI impI)
    fix c f assume "c < NBUF" "f < NBUF" "dev (bufs u ! c) = 1" "dev (bufs u ! f) = 1" "blockno (bufs u ! c) = blockno (bufs u ! f)"
    then show "c = f" using bc_dataD(1) [OF da, of c f] nu by (simp split: if_splits)
  next
    fix c assume c: "c < NBUF" "c \<in> H \<or> b_dirty (bufs u ! c)"
    show "dev (bufs u ! c) = 1" "b_valid (bufs u ! c)" "unat (blockno (bufs u ! c)) < length (disk u)"
      using c bc_dataD(2) [OF da c(1)] nu [of c] b du by (auto split: if_splits)
  next
    fix c assume c: "c < NBUF" "dev (bufs u ! c) = 1 \<and> b_valid (bufs u ! c) \<and> \<not> b_dirty (bufs u ! c) \<and> c \<notin> H"
    then have "c \<noteq> b" using b by blast
    then show "data (bufs u ! c) = disk u ! unat (blockno (bufs u ! c))"
      using bc_dataD(3) [OF da c(1)] c nu [of c] other [OF c(1)] du by auto
  qed
  have bv: "bview u m = bview s m" for m
  proof (rule bview_eqI [OF dau])
    have ca: "caches u m c = caches s m c" for c using nu by (simp add: caches_def)
    show "data (bufs u ! c) = bview s m" if "c < NBUF" "caches u m c" for c
      using that bview_cached [OF da that(1)] nu ca by simp
    assume "\<And>c. c < NBUF \<Longrightarrow> \<not> caches u m c"
    then have nc: "\<And>c. c < NBUF \<Longrightarrow> \<not> caches s m c" by (simp add: ca)
    then have "m \<noteq> n" using h(1,3,4) by (auto simp: caches_def n_def)
    then show "disk u ! m = bview s m" using bview_uncached [OF nc] by (simp add: u_def)
  qed
  have bd: "dev (bufs s ! c) = 1" if "c < NBUF" "b_dirty (bufs s ! c)" for c
    using bc_dataD(2) [OF da that(1)] that(2) by simp
  have di: "dirty u = dirty s - {n}" by (rule dirty_cleaned [OF nu n_def]) (use other bd in blast)
  show ?thesis
    using r e wfu lku dau bv bu di by (intro exI [of _ u]) (auto simp: bc_inv_def n_def u_def)
qed

lemma brelse_contract:
  assumes rd: "ready_in p s" and inv: "bc_inv p H s" and b: "b \<in> H"
    and ok: "b_dirty (bufs s ! b) \<or> data (bufs s ! b) = disk s ! unat (blockno (bufs s ! b))"
  shows "\<exists>u. brelse b s = Ok () u \<and> env s u \<and> bc_inv p (H - {b}) u \<and> bview u = bview s \<and> dirty u = dirty s \<and>
     bufs u = (bufs s)[b := (bufs s ! b)\<lparr>refcnt := 0\<rparr>] \<and> disk u = disk s \<and> disk_hist u = disk_hist s \<and>
     (\<forall>l. l \<noteq> SlBuf b \<longrightarrow> sleeplocks u l = sleeplocks s l)"
proof -
  note h = held_inv [OF inv b]
  from inv have wf: "bc_wf s" and lk: "bc_locks p H s" and da: "bc_data H s" by (simp_all add: bc_inv_def)
  obtain u where r: "brelse b s = Ok () u" and u: "u = (upd_buf b (\<lambda>x. x\<lparr>refcnt := refcnt x - 1\<rparr>)
     (upd_sl (SlBuf b) \<lparr>slocked = False, sl_pid = 0\<rparr> (settle s)))
       \<lparr>ttable := wake_procs (Some (ChBufLock b)) (procs s) (ttable s), lru := b # remove1 b (lru s)\<rparr>"
    using brelse_ok [OF rd h(8,9,2)] h(5) by simp
  let ?x = "(bufs s ! b)\<lparr>refcnt := 0\<rparr>"
  have bu: "bufs u = (bufs s)[b := ?x]" using h(5) u by simp
  have nu: "bufs u ! c = (if c = b then ?x else bufs s ! c)" for c using bu h by (simp add: nth_list_update)
  have e: "env s u" by (rule env_mk [OF rd]) (use rd u in \<open>simp_all add: ready_in_def\<close>)
  have sl: "sleeplocks u l = (if l = SlBuf b then \<lparr>slocked = False, sl_pid = 0\<rparr> else sleeplocks s l)" for l
    using u by (simp add: upd_sl_def)
  have "set (b # remove1 b (lru s)) = {..<NBUF}" "distinct (b # remove1 b (lru s))"
    using wf h(1) by (auto simp: bc_wf_def)
  then have wfu: "bc_wf u"
    using wf h unfolding bc_wf_def bu by (auto simp: u nth_list_update)
  have du: "disk u = disk s" "procs u = procs s" by (simp_all add: u)
  have lku: "bc_locks p (H - {b}) u" using lk unfolding bc_locks_def by (auto simp: nu sl du)
  have dau: "bc_data (H - {b}) u"
    unfolding bc_data_def
  proof (intro conjI allI impI)
    fix c f assume "c < NBUF" "f < NBUF" "dev (bufs u ! c) = 1" "dev (bufs u ! f) = 1" "blockno (bufs u ! c) = blockno (bufs u ! f)"
    then show "c = f" using bc_dataD(1) [OF da, of c f] nu by (simp split: if_splits)
  next
    fix c assume c: "c < NBUF" "c \<in> H - {b} \<or> b_dirty (bufs u ! c)"
    show "dev (bufs u ! c) = 1" "b_valid (bufs u ! c)" "unat (blockno (bufs u ! c)) < length (disk u)"
      using c bc_dataD(2) [OF da c(1)] nu [of c] du by (auto split: if_splits)
  next
    fix c assume c: "c < NBUF" "dev (bufs u ! c) = 1 \<and> b_valid (bufs u ! c) \<and> \<not> b_dirty (bufs u ! c) \<and> c \<notin> H - {b}"
    then show "data (bufs u ! c) = disk u ! unat (blockno (bufs u ! c))"
      using bc_dataD(3) [OF da c(1)] nu [of c] ok du by (cases "c = b") auto
  qed
  have ca: "caches u m = caches s m" for m using nu by (auto simp: caches_def fun_eq_iff)
  have bv: "bview u = bview s"
    by (intro ext) (simp add: bview_def ca nu du split: option.split)
  have "dirty u = dirty s"
    by (rule dirty_upd [of _ _ b ?x]) (use bu h wf in \<open>simp_all add: bc_wf_def\<close>)
  then show ?thesis
    using r e wfu lku dau bv bu sl u by (intro exI [of _ u]) (auto simp: bc_inv_def)
qed

subsection \<open>The cache as an array of blocks\<close>

text \<open>
  What a process does with the cache, as events: it reads a block, overwrites the contents of a
  buffer it holds, writes the buffer to the disk, pins it for a later commit, and releases it. The
  side conditions are the discipline the file system follows: a block is not read while it is held,
  and a changed buffer is written or pinned before it is released.
\<close>

datatype bc_event = EvRead nat "uchar list" | EvChange nat "uchar list" | EvWrite nat | EvPin nat | EvRelease nat

inductive bc_run :: "nat \<Rightarrow> nat set \<Rightarrow> 'm bcache_scheme \<Rightarrow> bc_event list \<Rightarrow> nat set \<Rightarrow> 'm bcache_scheme \<Rightarrow> bool"
  for p :: nat where
  stop: "bc_run p H s [] H s"
| read: "\<lbrakk>bc_run p H s evs H1 t; \<And>c. c \<in> H1 \<Longrightarrow> blockno (bufs t ! c) \<noteq> n; room H1 n t; unat n < length (disk t);
    bread 1 n t = Ok b u\<rbrakk> \<Longrightarrow> bc_run p H s (evs @ [EvRead (unat n) (data (bufs u ! b))]) (insert b H1) u"
| change: "\<lbrakk>bc_run p H s evs H1 t; b \<in> H1; length d = BSIZE; u = upd_buf b (\<lambda>x. x\<lparr>data := d\<rparr>) t\<rbrakk> \<Longrightarrow>
    bc_run p H s (evs @ [EvChange (unat (blockno (bufs t ! b))) d]) H1 u"
| sync: "\<lbrakk>bc_run p H s evs H1 t; b \<in> H1; bwrite b t = Ok () u\<rbrakk> \<Longrightarrow>
    bc_run p H s (evs @ [EvWrite (unat (blockno (bufs t ! b)))]) H1 u"
| pin: "\<lbrakk>bc_run p H s evs H1 t; b \<in> H1; u = upd_buf b (\<lambda>x. x\<lparr>b_dirty := True\<rparr>) t\<rbrakk> \<Longrightarrow>
    bc_run p H s (evs @ [EvPin (unat (blockno (bufs t ! b)))]) H1 u"
| release: "\<lbrakk>bc_run p H s evs H1 t; b \<in> H1; b_dirty (bufs t ! b) \<or> data (bufs t ! b) = disk t ! unat (blockno (bufs t ! b));
    brelse b t = Ok () u\<rbrakk> \<Longrightarrow> bc_run p H s (evs @ [EvRelease (unat (blockno (bufs t ! b)))]) (H1 - {b}) u"

text \<open>The abstract store: an array of blocks, where a read returns the last contents.\<close>

fun store_after :: "(nat \<Rightarrow> uchar list) \<Rightarrow> bc_event list \<Rightarrow> nat \<Rightarrow> uchar list" where
  "store_after v [] = v"
| "store_after v (EvChange n d # evs) = store_after (v(n := d)) evs"
| "store_after v (e # evs) = store_after v evs"

fun reads_correct :: "(nat \<Rightarrow> uchar list) \<Rightarrow> bc_event list \<Rightarrow> bool" where
  "reads_correct v [] \<longleftrightarrow> True"
| "reads_correct v (EvRead n d # evs) \<longleftrightarrow> d = v n \<and> reads_correct v evs"
| "reads_correct v (EvChange n d # evs) \<longleftrightarrow> reads_correct (v(n := d)) evs"
| "reads_correct v (e # evs) \<longleftrightarrow> reads_correct v evs"

lemma store_after_append [simp]: "store_after v (xs @ ys) = store_after (store_after v xs) ys"
proof (induction xs arbitrary: v)
  case (Cons x xs)
  then show ?case by (cases x) (simp_all add: fun_upd_def)
qed simp

lemma reads_correct_append [simp]: "reads_correct v (xs @ ys) \<longleftrightarrow> reads_correct v xs \<and> reads_correct (store_after v xs) ys"
proof (induction xs arbitrary: v)
  case (Cons x xs)
  then show ?case by (cases x) (simp_all add: fun_upd_def)
qed simp

lemma bc_run_store:
  assumes "bc_run p H s evs H1 u" and "ready_in p s" and "bc_inv p H s"
  shows "ready_in p u \<and> bc_inv p H1 u \<and> bview u = store_after (bview s) evs \<and> reads_correct (bview s) evs"
  using assms
proof (induction rule: bc_run.induct)
  case (read H s evs H1 t n b u)
  then have r: "ready_in p t" and i: "bc_inv p H1 t" by simp_all
  from bread_ok [OF r i read.hyps(2-4)] read.hyps(5) have "took p H1 n b t u" by auto
  then show ?case using read.IH [OF read.prems] env_ready [OF r] by (simp add: took_def)
next
  case (change H s evs H1 t b d u)
  then have i: "bc_inv p H1 t" by simp
  show ?case using change modify_held [OF i change.hyps(2-4)] by simp
next
  case (sync H s evs H1 t b u)
  then have r: "ready_in p t" and i: "bc_inv p H1 t" by simp_all
  show ?case using sync bwrite_contract [OF r i sync.hyps(2)] env_ready [OF r] by auto
next
  case (pin H s evs H1 t b u)
  then have i: "bc_inv p H1 t" by simp
  show ?case using pin pin_held [OF i pin.hyps(2-3)] by simp
next
  case (release H s evs H1 t b u)
  then have r: "ready_in p t" and i: "bc_inv p H1 t" by simp_all
  show ?case using release brelse_contract [OF r i release.hyps(2,3)] env_ready [OF r] by auto
qed simp

text \<open>C12. The buffer cache behaves as an array of blocks: in every sequence of reads, changes,
  writes, pins and releases by a process, each read returns the contents the last change gave the
  block, however buffers were recycled in between, and the cache stays well-formed (no block in two
  buffers, a buffer locked and referenced exactly while it is held). A read whose block is in range
  succeeds as long as a buffer is neither held nor dirty.\<close>

theorem cache_is_an_array_of_blocks:
  assumes "ready_in p s" and "bc_inv p H s" and "bc_run p H s evs H1 u"
  shows "bview u = store_after (bview s) evs \<and> reads_correct (bview s) evs \<and> bc_inv p H1 u \<and>
    (\<forall>n. unat n < length (disk u) \<and> (\<forall>c\<in>H1. blockno (bufs u ! c) \<noteq> n) \<and>
        (\<exists>b < NBUF. b \<notin> H1 \<and> \<not> b_dirty (bufs u ! b)) \<longrightarrow>
      (\<exists>b w. bread 1 n u = Ok b w \<and> data (bufs w ! b) = store_after (bview s) evs (unat n)))"
proof -
  note r = bc_run_store [OF assms(3,1,2)]
  have "\<exists>b w. bread 1 n u = Ok b w \<and> data (bufs w ! b) = store_after (bview s) evs (unat n)"
    if "unat n < length (disk u)" "\<forall>c\<in>H1. blockno (bufs u ! c) \<noteq> n" "\<exists>b < NBUF. b \<notin> H1 \<and> \<not> b_dirty (bufs u ! b)" for n
  proof -
    have "\<exists>b w. bread 1 n u = Ok b w \<and> took p H1 n b u w"
      by (rule bread_ok) (use r that in \<open>auto simp: room_def\<close>)
    then show ?thesis using r by (auto simp: took_def)
  qed
  with r show ?thesis by blast
qed

text \<open>A freshly booted machine with a disk of four empty blocks.\<close>

definition buf0 :: buf where
  "buf0 = \<lparr>b_valid = False, b_dirty = False, dev = 0, blockno = 0, refcnt = 0, data = replicate BSIZE 0\<rparr>"

definition parked_b :: "uchar list list \<Rightarrow> bcache" where
  "parked_b d = kmem.extend parked_k \<lparr>bufs = replicate NBUF buf0, lru = rev [0 ..< NBUF], disk = d, disk_hist = []\<rparr>"

lemma parked_b_ready: "ready_in 0 (run_on 0 (parked_b d))"
proof -
  have "calm (parked_b d)" "on_thread 0 0 (parked_b d)" "all_free (parked_b d)" "cpu_proc (cpus (parked_b d) ! 0) = Some 0"
    using ready_calm ready_threads
    by (simp_all add: parked_b_def parked_k_def parked_m_def parked_sl_def calm_def on_thread_def runs_def lock_free_def all_free_def
        ptable.extend_def sltable.extend_def mtable.extend_def kmem.extend_def parked_def)
  then show ?thesis
    using on_threadD [of 0 0 "parked_b d"] by (simp add: ready_in_def all_free_def)
qed

lemma parked_b_inv: "(\<And>x. x \<in> set d \<Longrightarrow> length x = BSIZE) \<Longrightarrow> bc_inv 0 {} (run_on 0 (parked_b d))"
  by (auto simp: bc_inv_def bc_wf_def bc_locks_def bc_data_def parked_b_def parked_k_def parked_m_def parked_sl_def buf0_def
      kmem.extend_def mtable.extend_def sltable.extend_def ptable.extend_def)

lemma parked_b_fields: "disk (parked_b d) = d" "bufs (parked_b d) = replicate NBUF buf0" "disk_hist (parked_b d) = []"
  by (simp_all add: parked_b_def kmem.extend_def)

theorem cache_is_an_array_of_blocks_witness:
  "\<exists>b u. bread 1 2 (run_on 0 (parked_b (replicate 4 (replicate 512 7)))) = Ok b u \<and>
     data (bufs u ! b) = replicate 512 7"
proof -
  let ?d = "replicate 4 (replicate 512 7) :: uchar list list"
  let ?s = "run_on 0 (parked_b ?d)"
  have b: "bufs ?s = replicate NBUF buf0" "disk ?s = ?d" by (simp_all add: parked_b_fields)
  have v: "bview ?s 2 = replicate 512 7"
    by (subst bview_uncached) (auto simp: caches_def parked_b_fields buf0_def)
  have inv: "bc_inv 0 {} ?s" by (rule parked_b_inv) (auto simp: BSIZE_def)
  have "(0 :: nat) < NBUF \<and> 0 \<notin> ({} :: nat set) \<and> \<not> b_dirty (bufs ?s ! 0)" by (simp add: parked_b_fields buf0_def NBUF_def)
  then have "unat (2 :: uint) < length (disk ?s) \<and> (\<forall>c\<in>{}. blockno (bufs ?s ! c) \<noteq> 2) \<and> (\<exists>b < NBUF. b \<notin> {} \<and> \<not> b_dirty (bufs ?s ! b))"
    by (auto simp: parked_b_fields)
  then have "\<exists>b w. bread 1 2 ?s = Ok b w \<and> data (bufs w ! b) = store_after (bview ?s) [] (unat (2 :: uint))"
    using cache_is_an_array_of_blocks [OF parked_b_ready inv bc_run.stop] by blast
  then show ?thesis using v by simp
qed

end
