(* ===== verification/Block.thy ===== *)
theory Block
  imports Bio
begin

unbundle bit_operations_syntax

text \<open>
  The contents of a disk block as the file system reads it: an array of bytes, of little-endian
  16-bit or of 32-bit words, by word number.
\<close>

definition get32 :: "uchar list \<Rightarrow> nat \<Rightarrow> uint" where
  "get32 d i = ucast (d ! (4 * i)) OR push_bit 8 (ucast (d ! (4 * i + 1))) OR
     push_bit 16 (ucast (d ! (4 * i + 2))) OR push_bit 24 (ucast (d ! (4 * i + 3)))"

definition put32 :: "nat \<Rightarrow> uint \<Rightarrow> uchar list \<Rightarrow> uchar list" where
  "put32 i v d = d[4 * i := ucast v, 4 * i + 1 := ucast (drop_bit 8 v), 4 * i + 2 := ucast (drop_bit 16 v),
     4 * i + 3 := ucast (drop_bit 24 v)]"

definition get16 :: "uchar list \<Rightarrow> nat \<Rightarrow> 16 word" where
  "get16 d i = ucast (d ! (2 * i)) OR push_bit 8 (ucast (d ! (2 * i + 1)))"

definition put16 :: "nat \<Rightarrow> 16 word \<Rightarrow> uchar list \<Rightarrow> uchar list" where
  "put16 i v d = d[2 * i := ucast v, 2 * i + 1 := ucast (drop_bit 8 v)]"

lemma length_put [simp]: "length (put32 i v d) = length d" "length (put16 i h d) = length d"
  by (simp_all add: put32_def put16_def)

lemma get32_put32 [simp]: "4 * i + 3 < length d \<Longrightarrow> get32 (put32 i v d) i = v"
  using word_of_bytes [of v] by (simp add: get32_def put32_def nth_list_update)

lemma get32_put32_other [simp]:
  assumes "i \<noteq> j"
  shows "get32 (put32 i v d) j = get32 d j"
proof -
  have "put32 i v d ! (4 * j + k) = d ! (4 * j + k)" if "k < 4" for k
    using that assms unfolding put32_def by (simp add: nth_list_update_neq)
  from this [of 0] this [of 1] this [of 2] this [of 3] show ?thesis by (simp add: get32_def)
qed

lemma half_of_bytes:
  fixes v :: "16 word"
  shows "ucast (ucast v :: uchar) OR push_bit 8 (ucast (ucast (drop_bit 8 v) :: uchar)) = v" (is "?l = v")
proof (rule bit_word_eqI)
  fix n assume n: "n < LENGTH(16)"
  then show "bit ?l n = bit v n" by (simp add: bit_simps) (cases "n < 8"; auto)
qed

lemma get16_put16 [simp]: "2 * i + 1 < length d \<Longrightarrow> get16 (put16 i v d) i = v"
  using half_of_bytes [of v] by (simp add: get16_def put16_def nth_list_update)

lemma get16_put16_other [simp]:
  assumes "i \<noteq> j"
  shows "get16 (put16 i v d) j = get16 d j"
proof -
  have "put16 i v d ! (2 * j + k) = d ! (2 * j + k)" if "k < 2" for k
    using that assms unfolding put16_def by (simp add: nth_list_update_neq)
  from this [of 0] this [of 1] show ?thesis by (simp add: get16_def)
qed

text \<open>Half words and words of the same block.\<close>

lemma get16_put32_other [simp]:
  assumes "j div 2 \<noteq> i"
  shows "get16 (put32 i v d) j = get16 d j"
proof -
  have "put32 i v d ! (2 * j + k) = d ! (2 * j + k)" if "k < 2" for k
    using that assms unfolding put32_def by (simp add: nth_list_update_neq)
  from this [of 0] this [of 1] show ?thesis by (simp add: get16_def)
qed

lemma get32_put16_other [simp]:
  assumes "i div 2 \<noteq> j"
  shows "get32 (put16 i v d) j = get32 d j"
proof -
  have "put16 i v d ! (4 * j + k) = d ! (4 * j + k)" if "k < 4" for k
    using that assms unfolding put16_def by (simp add: nth_list_update_neq)
  from this [of 0] this [of 1] this [of 2] this [of 3] show ?thesis by (simp add: get32_def)
qed

text \<open>Consecutive words.\<close>

fun put_words :: "nat \<Rightarrow> uint list \<Rightarrow> uchar list \<Rightarrow> uchar list" where
  "put_words i [] d = d"
| "put_words i (v # vs) d = put_words (Suc i) vs (put32 i v d)"

lemma length_put_words [simp]: "length (put_words i vs d) = length d"
  by (induction i vs d rule: put_words.induct) simp_all

lemma get32_put_words:
  "4 * (i + length vs) \<le> length d \<Longrightarrow>
   get32 (put_words i vs d) j = (if i \<le> j \<and> j < i + length vs then vs ! (j - i) else get32 d j)"
proof (induction i vs d rule: put_words.induct)
  case (2 i v vs d)
  then have IH: "get32 (put_words (Suc i) vs (put32 i v d)) j =
      (if Suc i \<le> j \<and> j < Suc i + length vs then vs ! (j - Suc i) else get32 (put32 i v d) j)" by simp
  show ?case
  proof (cases "j = i")
    case True
    with IH 2(2) show ?thesis by simp
  next
    case False
    with IH show ?thesis by (auto simp: nth_Cons' not_less_eq_eq)
  qed
qed auto

lemma get16_put_words:
  "j div 2 < i \<or> i + length vs \<le> j div 2 \<Longrightarrow> get16 (put_words i vs d) j = get16 d j"
  by (induction i vs d rule: put_words.induct) auto

text \<open>Byte ranges.\<close>

definition get_at :: "nat \<Rightarrow> nat \<Rightarrow> uchar list \<Rightarrow> uchar list" where
  "get_at off n d = take n (drop off d)"

definition put_at :: "nat \<Rightarrow> uchar list \<Rightarrow> uchar list \<Rightarrow> uchar list" where
  "put_at off bs d = take off d @ bs @ drop (off + length bs) d"

lemma length_put_at [simp]: "off + length bs \<le> length d \<Longrightarrow> length (put_at off bs d) = length d"
  by (simp add: put_at_def)

lemma length_get_at [simp]: "off + n \<le> length d \<Longrightarrow> length (get_at off n d) = n"
  by (simp add: get_at_def)

lemma nth_put_at:
  "off + length bs \<le> length d \<Longrightarrow> k < length d \<Longrightarrow>
   put_at off bs d ! k = (if off \<le> k \<and> k < off + length bs then bs ! (k - off) else d ! k)"
  by (auto simp: put_at_def nth_append min_def)

lemma nth_get_at: "k < n \<Longrightarrow> off + n \<le> length d \<Longrightarrow> get_at off n d ! k = d ! (off + k)"
  by (simp add: get_at_def)

lemma get_at_put_at [simp]: "off + length bs \<le> length d \<Longrightarrow> get_at off (length bs) (put_at off bs d) = bs"
  by (simp add: get_at_def put_at_def)

lemma get_put_at_disjoint:
  assumes "off + length bs \<le> length d" and "o2 + n \<le> length d" and "o2 + n \<le> off \<or> off + length bs \<le> o2"
  shows "get_at o2 n (put_at off bs d) = get_at o2 n d"
  by (rule nth_equalityI) (use assms in \<open>auto simp: nth_get_at nth_put_at\<close>)

end
