(* ===== verification/Log.thy ===== *)
theory Log
  imports Block
begin

unbundle bit_operations_syntax

text \<open>
  The write-ahead log (\<open>log.c\<close>): the blocks a transaction changes are pinned in the cache, copied to
  the log area of the disk, committed by one write of the header block, installed at their home
  locations and erased from the log. Recovery replays a committed log.
\<close>

subsection \<open>State\<close>

definition MAXOPBLOCKS :: int where "MAXOPBLOCKS = 10"
definition LOGSIZE :: nat where "LOGSIZE = 30"

text \<open>
  The C \<open>int\<close> fields of the log are integers: \<open>lh_n\<close> is read from the disk as a signed word and
  counts up to \<open>LOGSIZE\<close>, \<open>outstanding\<close> counts system calls. The block numbers are words, as
  they are passed to \<open>bread\<close>.
\<close>

record log =
  log_start :: uint
  log_size :: int
  outstanding :: int
  committing :: bool
  log_dev :: uint
  lh_n :: int
  lh_block :: "uint list"

record superblock =
  sb_size :: uint
  sb_nblocks :: uint
  sb_ninodes :: uint
  sb_nlog :: uint
  sb_logstart :: uint
  sb_inodestart :: uint
  sb_bmapstart :: uint

record logged = bcache +
  klog :: log

lemma klog_frame [simp]:
  "klog (push s) = klog s"
  "klog (pop s) = klog s"
  "klog (settle s) = klog s"
  "klog (acq lk s) = klog s"
  "klog (rel lk s) = klog s"
  "klog (upd_cpu c g s) = klog s"
  "klog (upd_cur g s) = klog s"
  "klog (upd_lock lk h s) = klog s"
  "klog (upd_thread t k s) = klog s"
  "klog (upd_proc p q s) = klog s"
  "klog (run_on c s) = klog s"
  "settle (s\<lparr>klog := x\<rparr>) = (settle s)\<lparr>klog := x\<rparr>"
  "acq lk (s\<lparr>klog := x\<rparr>) = (acq lk s)\<lparr>klog := x\<rparr>"
  "rel lk (s\<lparr>klog := x\<rparr>) = (rel lk s)\<lparr>klog := x\<rparr>"
  "upd_cpu c g (s\<lparr>klog := x\<rparr>) = (upd_cpu c g s)\<lparr>klog := x\<rparr>"
  "upd_cur g (s\<lparr>klog := x\<rparr>) = (upd_cur g s)\<lparr>klog := x\<rparr>"
  "upd_lock lk h (s\<lparr>klog := x\<rparr>) = (upd_lock lk h s)\<lparr>klog := x\<rparr>"
  "upd_thread t k (s\<lparr>klog := x\<rparr>) = (upd_thread t k s)\<lparr>klog := x\<rparr>"
  "upd_proc p q (s\<lparr>klog := x\<rparr>) = (upd_proc p q s)\<lparr>klog := x\<rparr>"
  "run_on c (s\<lparr>klog := x\<rparr>) = (run_on c s)\<lparr>klog := x\<rparr>"
  "this_cpu (s\<lparr>klog := x\<rparr>) = this_cpu s"
  "cur (s\<lparr>klog := x\<rparr>) = cur s"
  "cpu_inv (s\<lparr>klog := x\<rparr>) = cpu_inv s"
  "in_cs (s\<lparr>klog := x\<rparr>) = in_cs s"
  "lock_free lk (s\<lparr>klog := x\<rparr>) = lock_free lk s"
  "lock_held lk (s\<lparr>klog := x\<rparr>) = lock_held lk s"
  "calm (s\<lparr>klog := x\<rparr>) = calm s"
  "runs (s\<lparr>klog := x\<rparr>) = runs s"
  by (simp_all add: frame_ext_defs)

definition upd_log :: "(log \<Rightarrow> log) \<Rightarrow> ('m logged_scheme, unit) kop" where
  "upd_log f = kmod (\<lambda>s. s\<lparr>klog := f (klog s)\<rparr>)"

subsection \<open>Operations\<close>

definition readsb :: "uint \<Rightarrow> ('m bcache_scheme, superblock) kop" where
  "readsb d =
     kbind (bread d 1) (\<lambda>b.
     kbind (kget (\<lambda>s. data (bufs s ! b))) (\<lambda>x.
     kseq (brelse b)
     (kret \<lparr>sb_size = get32 x 0, sb_nblocks = get32 x 1, sb_ninodes = get32 x 2, sb_nlog = get32 x 3,
       sb_logstart = get32 x 4, sb_inodestart = get32 x 5, sb_bmapstart = get32 x 6\<rparr>)))"

definition install_one :: "nat \<Rightarrow> ('m logged_scheme, unit) kop" where
  "install_one tail =
     kbind (kget klog) (\<lambda>l.
     kbind (bread (log_dev l) (log_start l + of_nat tail + 1)) (\<lambda>lbuf.
     kbind (bread (log_dev l) (lh_block l ! tail)) (\<lambda>dbuf.
     kseq (kmod (\<lambda>s. upd_buf dbuf (\<lambda>x. x\<lparr>data := data (bufs s ! lbuf)\<rparr>) s))
     (kseq (bwrite dbuf)
     (kseq (brelse lbuf)
     (brelse dbuf))))))"

definition install_trans :: "('m logged_scheme, unit) kop" where
  "install_trans =
     kbind (kget (\<lambda>s. lh_n (klog s))) (\<lambda>n.
     each install_one [0 ..< nat n])"

text \<open>The header block is the count followed by the block numbers; a count beyond the array runs off it.\<close>

definition read_head_entry :: "nat \<Rightarrow> nat \<Rightarrow> ('m logged_scheme, unit) kop" where
  "read_head_entry b i =
     kbind (kget (\<lambda>s. get32 (data (bufs s ! b)) (i + 1))) (\<lambda>v.
     if LOGSIZE \<le> i then kfault ''log header'' else
     upd_log (\<lambda>l. l\<lparr>lh_block := (lh_block l)[i := v]\<rparr>))"

definition read_head :: "('m logged_scheme, unit) kop" where
  "read_head =
     kbind (kget klog) (\<lambda>l.
     kbind (bread (log_dev l) (log_start l)) (\<lambda>b.
     kbind (kget (\<lambda>s. sint (get32 (data (bufs s ! b)) 0))) (\<lambda>n.
     kseq (upd_log (\<lambda>l. l\<lparr>lh_n := n\<rparr>))
     (kseq (each (read_head_entry b) [0 ..< nat n])
     (brelse b)))))"

definition write_head :: "('m logged_scheme, unit) kop" where
  "write_head =
     kbind (kget klog) (\<lambda>l.
     kbind (bread (log_dev l) (log_start l)) (\<lambda>b.
     kseq (kmod (upd_buf b (\<lambda>x. x\<lparr>data := put_words 0 (of_int (lh_n l) # take (nat (lh_n l)) (lh_block l)) (data x)\<rparr>)))
     (kseq (bwrite b)
     (brelse b))))"

definition recover_from_log :: "('m logged_scheme, unit) kop" where
  "recover_from_log =
     kseq read_head
     (kseq install_trans
     (kseq (upd_log (\<lambda>l. l\<lparr>lh_n := 0\<rparr>))
     write_head))"

definition initlog :: "uint \<Rightarrow> ('m logged_scheme, unit) kop" where
  "initlog d =
     (if BSIZE \<le> 4 * (LOGSIZE + 1) then kpanic ''initlog: too big logheader'' else
     kseq (initlock LkLog ''log'')
     (kbind (readsb d) (\<lambda>b.
     kseq (upd_log (\<lambda>l. l\<lparr>log_start := sb_logstart b, log_size := sint (sb_nlog b), log_dev := d\<rparr>))
     recover_from_log)))"

definition begin_op_loop :: "('m logged_scheme, unit) kop" where
  "begin_op_loop =
     kbind (kget klog) (\<lambda>l.
     if committing l then sleep ChLog (Some LkLog)
     else if lh_n l + (outstanding l + 1) * MAXOPBLOCKS > int LOGSIZE then sleep ChLog (Some LkLog)
     else kseq (upd_log (\<lambda>l. l\<lparr>outstanding := outstanding l + 1\<rparr>)) (release LkLog))"

definition begin_op :: "('m logged_scheme, unit) kop" where
  "begin_op = kseq (acquire LkLog) begin_op_loop"

definition begin_op_resume :: "('m logged_scheme, unit) kop" where
  "begin_op_resume = kseq (sleep_resume LkLog) begin_op_loop"

definition write_log_one :: "nat \<Rightarrow> ('m logged_scheme, unit) kop" where
  "write_log_one tail =
     kbind (kget klog) (\<lambda>l.
     kbind (bread (log_dev l) (log_start l + of_nat tail + 1)) (\<lambda>to.
     kbind (bread (log_dev l) (lh_block l ! tail)) (\<lambda>src.
     kseq (kmod (\<lambda>s. upd_buf to (\<lambda>x. x\<lparr>data := data (bufs s ! src)\<rparr>) s))
     (kseq (bwrite to)
     (kseq (brelse src)
     (brelse to))))))"

definition write_log :: "('m logged_scheme, unit) kop" where
  "write_log =
     kbind (kget (\<lambda>s. lh_n (klog s))) (\<lambda>n.
     each write_log_one [0 ..< nat n])"

definition commit :: "('m logged_scheme, unit) kop" where
  "commit =
     kbind (kget (\<lambda>s. lh_n (klog s))) (\<lambda>n.
     if n > 0 then
       kseq write_log
       (kseq write_head
       (kseq install_trans
       (kseq (upd_log (\<lambda>l. l\<lparr>lh_n := 0\<rparr>))
       write_head)))
     else kret ())"

definition end_op :: "('m logged_scheme, unit) kop" where
  "end_op =
     kseq (acquire LkLog)
     (kseq (upd_log (\<lambda>l. l\<lparr>outstanding := outstanding l - 1\<rparr>))
     (kbind (kget klog) (\<lambda>l.
     if committing l then kpanic ''log.committing''
     else if outstanding l = 0 then
       kseq (upd_log (\<lambda>l. l\<lparr>committing := True\<rparr>))
       (kseq (release LkLog)
       (kseq commit
       (kseq (acquire LkLog)
       (kseq (upd_log (\<lambda>l. l\<lparr>committing := False\<rparr>))
       (kseq (wakeup (Some ChLog))
       (release LkLog))))))
     else
       kseq (wakeup (Some ChLog))
       (release LkLog))))"

definition log_write :: "nat \<Rightarrow> ('m logged_scheme, unit) kop" where
  "log_write b =
     kbind (kget klog) (\<lambda>l.
     if int LOGSIZE \<le> lh_n l \<or> log_size l - 1 \<le> lh_n l then kpanic ''too big a transaction''
     else if outstanding l < 1 then kpanic ''log_write outside of trans'' else
     kseq (acquire LkLog)
     (kbind (kget (\<lambda>s. blockno (bufs s ! b))) (\<lambda>n.
     kbind (kget (\<lambda>s. scan (\<lambda>m. m = n) (take (nat (lh_n (klog s))) (lh_block (klog s))))) (\<lambda>r.
     kseq (upd_log (\<lambda>l. case r of
         Some i \<Rightarrow> l\<lparr>lh_block := (lh_block l)[i := n]\<rparr>
       | None \<Rightarrow> l\<lparr>lh_block := (lh_block l)[nat (lh_n l) := n], lh_n := lh_n l + 1\<rparr>))
     (kseq (kmod (upd_buf b (\<lambda>x. x\<lparr>b_dirty := True\<rparr>)))
     (release LkLog))))))"

subsection \<open>Moving blocks through the cache\<close>

lemma more_klog: "bcache.more u = bcache.more s \<Longrightarrow> klog u = klog s" for s :: "'m logged_scheme"
  by (cases s, cases u) simp

lemma env_klog: "env s u \<Longrightarrow> klog u = klog s"
  by (rule more_klog) (simp add: env_def)

lemma env_refl: "ready_in p s \<Longrightarrow> env s s"
  by (simp add: env_def ready_in_def)

lemma env_upd_buf [simp]: "env s (upd_buf b f u) = env s u"
  by (simp add: env_def)

text \<open>Buffers that are neither dirty nor held can be recycled.\<close>

lemma dirty_card:
  assumes "bc_inv p H s"
  shows "card (dirty s) = card {b. b < NBUF \<and> b_dirty (bufs s ! b)}" and "finite (dirty s)"
proof -
  have e: "dirty s = (\<lambda>b. unat (blockno (bufs s ! b))) ` {b. b < NBUF \<and> b_dirty (bufs s ! b)}"
    by (auto simp: dirty_def)
  have da: "bc_data H s" using assms by (simp add: bc_inv_def)
  have "inj_on (\<lambda>b. unat (blockno (bufs s ! b))) {b. b < NBUF \<and> b_dirty (bufs s ! b)}"
    using bc_dataD(1) [OF da] bc_dataD(2) [OF da] by (auto intro!: inj_onI dest: unsigned_word_eqI)
  then show "card (dirty s) = card {b. b < NBUF \<and> b_dirty (bufs s ! b)}" unfolding e by (rule card_image)
  show "finite (dirty s)" unfolding e by simp
qed

lemma room_card:
  assumes inv: "bc_inv p H s" and c: "card (dirty s) + card H < NBUF"
  shows "room H n s"
proof -
  let ?D = "{b. b < NBUF \<and> b_dirty (bufs s ! b)}"
  have "H \<subseteq> {..<NBUF}" using inv by (simp add: bc_inv_def bc_locks_def)
  then have f: "finite H" by (rule finite_subset) simp
  have "card (?D \<union> H) \<le> card ?D + card H" by (rule card_Un_le)
  also have "\<dots> < card {..<NBUF}" using c dirty_card(1) [OF inv] by simp
  finally have "\<not> {..<NBUF} \<subseteq> ?D \<union> H" using card_mono [of "?D \<union> H" "{..<NBUF}"] f by auto
  then show ?thesis by (auto simp: room_def)
qed

lemma room_dirty:
  assumes inv: "bc_inv p H s" and "unat n \<in> dirty s" and "\<And>b. b \<in> H \<Longrightarrow> blockno (bufs s ! b) \<noteq> n"
  shows "room H n s"
proof -
  from assms(2) obtain b where b: "b < NBUF" "b_dirty (bufs s ! b)" "unat n = unat (blockno (bufs s ! b))" by (auto simp: dirty_def)
  then have "blockno (bufs s ! b) = n" by (auto dest: unsigned_word_eqI)
  then show ?thesis using b bc_dataD(2) [of H s b] inv assms(3) by (auto simp: room_def bc_inv_def)
qed

text \<open>Reading two different blocks, copying the first buffer to the second and writing that.\<close>

lemma copy_two:
  assumes rd: "ready_in p t" and inv: "bc_inv p {b, c} t" and ne: "b \<noteq> c"
    and cl: "b_dirty (bufs t ! b) \<or> data (bufs t ! b) = disk t ! unat (blockno (bufs t ! b))"
    and ef: "{e, f} = {b, c}"
  defines "m \<equiv> unat (blockno (bufs t ! c))" and "v \<equiv> data (bufs t ! b)"
  shows "\<exists>u. kseq (kmod (\<lambda>s. upd_buf c (\<lambda>x. x\<lparr>data := data (bufs s ! b)\<rparr>) s)) (kseq (bwrite c) (kseq (brelse e) (brelse f))) t = Ok () u \<and>
     env t u \<and> bc_inv p {} u \<and> bview u = (bview t)(m := v) \<and> dirty u = dirty t - {m} \<and>
     disk u = (disk t)[m := v] \<and> disk_hist u = disk_hist t @ [disk t] \<and>
     (\<forall>l. (\<forall>c. l \<noteq> SlBuf c) \<longrightarrow> sleeplocks u l = sleeplocks t l)"
proof -
  note hb = held_inv [OF inv, of b] and hc = held_inv [OF inv, of c]
  let ?t1 = "upd_buf c (\<lambda>x. x\<lparr>data := v\<rparr>) t"
  have l: "length v = BSIZE" unfolding v_def by (rule hb) simp
  note m1 = modify_held [OF inv _ l refl, of c, simplified]
  have b1: "bufs ?t1 ! b = bufs t ! b" "bufs ?t1 ! c = (bufs t ! c)\<lparr>data := v\<rparr>" "c < length (bufs t)"
    using ne hc(2) by simp_all
  have r1: "ready_in p ?t1" using rd by simp
  from bwrite_contract [OF r1 m1(1), of c] obtain t2 where t2: "bwrite c ?t1 = Ok () t2" "env ?t1 t2" "bc_inv p {b, c} t2"
      "bview t2 = bview ?t1" "dirty t2 = dirty ?t1 - {m}"
      "bufs t2 = (bufs ?t1)[c := (bufs ?t1 ! c)\<lparr>b_dirty := False\<rparr>]" "disk t2 = (disk t)[m := v]"
      "disk_hist t2 = disk_hist t @ [disk t]" "sleeplocks t2 = sleeplocks t"
    using b1 by (auto simp: m_def)
  have bt: "bufs t2 ! b = bufs t ! b" "bufs t2 ! c = (bufs t ! c)\<lparr>data := v, b_dirty := False\<rparr>" using t2(6) ne b1 by simp_all
  have mb: "m \<noteq> unat (blockno (bufs t ! b))"
    unfolding m_def using held_unique [OF inv, of b c] hb(1,3) hc(1,3) ne by (auto dest: unsigned_word_eqI)
  have ml: "m < length (disk t)" unfolding m_def by (rule hc(6)) simp
  have ok: "b_dirty (bufs t2 ! d) \<or> data (bufs t2 ! d) = disk t2 ! unat (blockno (bufs t2 ! d))" if "d = b \<or> d = c" for d
    using that cl bt t2(7) mb ml by (auto simp: m_def)
  have r2: "ready_in p t2" using env_ready [OF r1 t2(2)] .
  have e: "e \<in> {b, c}" "f \<in> {b, c}" "e \<noteq> f" "{b, c} - {e} = {f}" using ef ne by (auto simp: doubleton_eq_iff)
  from brelse_contract [OF r2 t2(3) e(1) ok] e obtain t3 where t3: "brelse e t2 = Ok () t3" "env t2 t3" "bc_inv p {f} t3"
      "bview t3 = bview t2" "dirty t3 = dirty t2" "bufs t3 = (bufs t2)[e := (bufs t2 ! e)\<lparr>refcnt := 0\<rparr>]" "disk t3 = disk t2"
      "disk_hist t3 = disk_hist t2" "\<forall>l. l \<noteq> SlBuf e \<longrightarrow> sleeplocks t3 l = sleeplocks t2 l"
    by auto
  have r3: "ready_in p t3" using env_ready [OF r2 t3(2)] .
  have "bufs t3 ! f = bufs t2 ! f" using t3(6) e(3) by simp
  then have ok3: "b_dirty (bufs t3 ! f) \<or> data (bufs t3 ! f) = disk t3 ! unat (blockno (bufs t3 ! f))"
    using ok [of f] e(2) t3(7) by auto
  from brelse_contract [OF r3 t3(3) _ ok3] obtain u where u: "brelse f t3 = Ok () u" "env t3 u" "bc_inv p {} u"
      "bview u = bview t3" "dirty u = dirty t3" "disk u = disk t3" "disk_hist u = disk_hist t3"
      "\<forall>l. l \<noteq> SlBuf f \<longrightarrow> sleeplocks u l = sleeplocks t3 l"
    by auto
  have "env t u" using t2(2) t3(2) u(2) by (auto intro: env_trans simp: env_def)
  moreover have "bview u = (bview t)(m := v)" using u(4) t3(4) t2(4) m1(2) by (simp add: m_def)
  moreover have "kseq (kmod (\<lambda>s. upd_buf c (\<lambda>x. x\<lparr>data := data (bufs s ! b)\<rparr>) s)) (kseq (bwrite c) (kseq (brelse e) (brelse f))) t = Ok () u"
    using t2(1) t3(1) u(1) by (simp add: kseq_apply v_def)
  moreover have "dirty u = dirty t - {m}" using u(5) t3(5) t2(5) m1(3) by simp
  moreover have "disk u = (disk t)[m := v]" "disk_hist u = disk_hist t @ [disk t]" using u(6,7) t3(7,8) t2(7,8) by simp_all
  moreover have "\<forall>l. (\<forall>c. l \<noteq> SlBuf c) \<longrightarrow> sleeplocks u l = sleeplocks t l" using u(8) t3(9) t2(9) by simp
  ultimately show ?thesis using u(3) by blast
qed

definition wrote :: "nat \<Rightarrow> nat \<Rightarrow> uchar list \<Rightarrow> 'm bcache_scheme \<Rightarrow> 'm bcache_scheme \<Rightarrow> bool" where
  "wrote p k v s u \<longleftrightarrow> env s u \<and> bc_inv p {} u \<and> bview u = (bview s)(k := v) \<and> dirty u = dirty s - {k} \<and>
     disk u = (disk s)[k := v] \<and> disk_hist u = disk_hist s @ [disk s] \<and>
     (\<forall>l. (\<forall>c. l \<noteq> SlBuf c) \<longrightarrow> sleeplocks u l = sleeplocks s l)"

lemma read_two:
  assumes rd: "ready_in p s" and inv: "bc_inv p {} s" and ne: "a \<noteq> n"
    and rng: "unat a < length (disk s)" "unat n < length (disk s)"
    and rm: "card (dirty s) < NBUF" "unat n \<in> dirty s \<or> card (dirty s) + 1 < NBUF"
  obtains b t1 c t where "bread 1 a s = Ok b t1" and "bread 1 n t1 = Ok c t" and "env s t1" and "env s t" and "b \<noteq> c"
    and "bc_inv p {b, c} t" and "bview t = bview s" and "dirty t = dirty s" and "disk t = disk s" and "disk_hist t = disk_hist s"
    and "blockno (bufs t ! b) = a" and "blockno (bufs t ! c) = n"
    and "data (bufs t ! b) = bview s (unat a)" and "data (bufs t ! c) = bview s (unat n)"
    and "b_dirty (bufs t ! b) \<or> data (bufs t ! b) = disk t ! unat (blockno (bufs t ! b))"
    and "b_dirty (bufs t ! c) \<or> data (bufs t ! c) = disk t ! unat (blockno (bufs t ! c))"
    and "\<forall>l. (\<forall>c. l \<noteq> SlBuf c) \<longrightarrow> sleeplocks t l = sleeplocks s l"
proof -
  have "\<exists>b t1. bread 1 a s = Ok b t1 \<and> took p {} a b s t1"
    by (rule bread_ok [OF rd inv _ room_card [OF inv] rng(1)]) (use rm in simp_all)
  then obtain b t1 where r1: "bread 1 a s = Ok b t1" and t1: "took p {} a b s t1" by blast
  from t1 have e1: "env s t1" and i1: "bc_inv p {b} t1" and d1: "disk t1 = disk s" "dirty t1 = dirty s"
    and n1: "blockno (bufs t1 ! b) = a" by (simp_all add: took_def)
  have rd1: "ready_in p t1" using env_ready [OF rd e1] .
  have nh: "\<And>c. c \<in> {b} \<Longrightarrow> blockno (bufs t1 ! c) \<noteq> n" using n1 ne by simp
  have "room {b} n t1"
    using rm(2) room_dirty [OF i1 _ nh] room_card [OF i1] d1 by auto
  then have "\<exists>c t. bread 1 n t1 = Ok c t \<and> took p {b} n c t1 t"
    by (intro bread_ok [OF rd1 i1 nh]) (use rng d1 in simp_all)
  then obtain c t where r2: "bread 1 n t1 = Ok c t" and t2: "took p {b} n c t1 t" by blast
  have bl: "b < NBUF" using t1 by (simp add: took_def)
  have cb: "c \<noteq> b" using t2 by (simp add: took_def)
  then have bb: "bufs t ! b = bufs t1 ! b" using t2 bl by (simp add: took_def)
  show thesis
  proof (rule that [OF r1 r2 e1 env_trans [OF e1]])
    show "env t1 t" "bc_inv p {b, c} t" "b \<noteq> c" using t2 cb by (simp_all add: took_def insert_commute)
    show "bview t = bview s" "dirty t = dirty s" "disk t = disk s" "disk_hist t = disk_hist s"
      using t1 t2 by (simp_all add: took_def)
    show "blockno (bufs t ! b) = a" "blockno (bufs t ! c) = n" "data (bufs t ! b) = bview s (unat a)"
      "data (bufs t ! c) = bview s (unat n)"
      using t1 t2 bb by (simp_all add: took_def)
    show "b_dirty (bufs t ! b) \<or> data (bufs t ! b) = disk t ! unat (blockno (bufs t ! b))"
      "b_dirty (bufs t ! c) \<or> data (bufs t ! c) = disk t ! unat (blockno (bufs t ! c))"
      using t1 t2 unfolding bb took_def by auto
    show "\<forall>l. (\<forall>c. l \<noteq> SlBuf c) \<longrightarrow> sleeplocks t l = sleeplocks s l" using t1 t2 by (simp add: took_def)
  qed
qed

lemma move_blocks:
  fixes s :: "'m logged_scheme"
  assumes rd: "ready_in p s" and inv: "bc_inv p {} s" and ld: "log_dev (klog s) = 1"
    and a: "a = log_start (klog s) + of_nat i + 1" and n: "n = lh_block (klog s) ! i"
    and ne: "a \<noteq> n" and rng: "unat a < length (disk s)" "unat n < length (disk s)"
    and rm: "card (dirty s) < NBUF" "unat n \<in> dirty s \<or> card (dirty s) + 1 < NBUF"
  shows "\<exists>u. install_one i s = Ok () u \<and> wrote p (unat n) (bview s (unat a)) s u"
    and "\<exists>u. write_log_one i s = Ok () u \<and> wrote p (unat a) (bview s (unat n)) s u"
proof -
  show "\<exists>u. install_one i s = Ok () u \<and> wrote p (unat n) (bview s (unat a)) s u"
  proof (rule read_two [OF rd inv ne rng rm])
    fix b t1 c t
    assume r: "bread 1 a s = Ok b t1" "bread 1 n t1 = Ok c t" and e: "env s t1" "env s t" and bc: "b \<noteq> c" and i: "bc_inv p {b, c} t"
      and v: "bview t = bview s" "dirty t = dirty s" "disk t = disk s" "disk_hist t = disk_hist s"
      and bn: "blockno (bufs t ! b) = a" "blockno (bufs t ! c) = n" and d: "data (bufs t ! b) = bview s (unat a)"
      and cl: "b_dirty (bufs t ! b) \<or> data (bufs t ! b) = disk t ! unat (blockno (bufs t ! b))"
      and sl: "\<forall>l. (\<forall>c. l \<noteq> SlBuf c) \<longrightarrow> sleeplocks t l = sleeplocks s l"
    from copy_two [OF env_ready [OF rd e(2)] i bc cl, of b c] obtain u where
      u: "kseq (kmod (\<lambda>s. upd_buf c (\<lambda>x. x\<lparr>data := data (bufs s ! b)\<rparr>) s)) (kseq (bwrite c) (kseq (brelse b) (brelse c))) t = Ok () u"
      "env t u" "bc_inv p {} u" "bview u = (bview t)(unat n := bview s (unat a))" "dirty u = dirty t - {unat n}"
      "disk u = (disk t)[unat n := bview s (unat a)]" "disk_hist u = disk_hist t @ [disk t]"
      "\<forall>l. (\<forall>c. l \<noteq> SlBuf c) \<longrightarrow> sleeplocks u l = sleeplocks t l"
      unfolding bn d by auto
    have "install_one i s = Ok () u"
      using r u(1) ld a n unfolding install_one_def by (simp add: kbind_apply env_klog [OF e(1)])
    moreover have "wrote p (unat n) (bview s (unat a)) s u"
      using u e(2) v sl env_trans [OF e(2) u(2)] by (simp add: wrote_def)
    ultimately show ?thesis by blast
  qed
next
  show "\<exists>u. write_log_one i s = Ok () u \<and> wrote p (unat a) (bview s (unat n)) s u"
  proof (rule read_two [OF rd inv ne rng rm])
    fix b t1 c t
    assume r: "bread 1 a s = Ok b t1" "bread 1 n t1 = Ok c t" and e: "env s t1" "env s t" and bc: "b \<noteq> c" and i: "bc_inv p {b, c} t"
      and v: "bview t = bview s" "dirty t = dirty s" "disk t = disk s" "disk_hist t = disk_hist s"
      and bn: "blockno (bufs t ! b) = a" "blockno (bufs t ! c) = n" and d: "data (bufs t ! c) = bview s (unat n)"
      and cl: "b_dirty (bufs t ! c) \<or> data (bufs t ! c) = disk t ! unat (blockno (bufs t ! c))"
      and sl: "\<forall>l. (\<forall>c. l \<noteq> SlBuf c) \<longrightarrow> sleeplocks t l = sleeplocks s l"
    have i': "bc_inv p {c, b} t" using i by (simp add: insert_commute)
    from copy_two [OF env_ready [OF rd e(2)] i' bc [symmetric] cl, of c b] obtain u where
      u: "kseq (kmod (\<lambda>s. upd_buf b (\<lambda>x. x\<lparr>data := data (bufs s ! c)\<rparr>) s)) (kseq (bwrite b) (kseq (brelse c) (brelse b))) t = Ok () u"
      "env t u" "bc_inv p {} u" "bview u = (bview t)(unat a := bview s (unat n))" "dirty u = dirty t - {unat a}"
      "disk u = (disk t)[unat a := bview s (unat n)]" "disk_hist u = disk_hist t @ [disk t]"
      "\<forall>l. (\<forall>c. l \<noteq> SlBuf c) \<longrightarrow> sleeplocks u l = sleeplocks t l"
      unfolding bn d by auto
    have "write_log_one i s = Ok () u"
      using r u(1) ld a n unfolding write_log_one_def by (simp add: kbind_apply env_klog [OF e(1)])
    moreover have "wrote p (unat a) (bview s (unat n)) s u"
      using u e(2) v sl env_trans [OF e(2) u(2)] by (simp add: wrote_def)
    ultimately show ?thesis by blast
  qed
qed

text \<open>Rewriting one block: read, change the buffer, write it through, release.\<close>

lemma rewrite_block:
  fixes s :: "'m logged_scheme"
  assumes rd: "ready_in p s" and inv: "bc_inv p {} s" and rng: "unat n < length (disk s)" and rm: "card (dirty s) < NBUF"
    and g: "\<And>d. length (g d) = length d"
  obtains b t u where "bread 1 n s = Ok b t" and "env s t" and "klog t = klog s"
    and "kseq (kmod (upd_buf b (\<lambda>x. x\<lparr>data := g (data x)\<rparr>))) (kseq (bwrite b) (brelse b)) t = Ok () u"
    and "wrote p (unat n) (g (bview s (unat n))) s u"
proof -
  have "\<exists>b t1. bread 1 n s = Ok b t1 \<and> took p {} n b s t1"
    by (rule bread_ok [OF rd inv _ room_card [OF inv] rng]) (use rm in simp_all)
  then obtain b t where r: "bread 1 n s = Ok b t" and t: "took p {} n b s t" by blast
  from t have e: "env s t" and i: "bc_inv p {b} t" and d: "data (bufs t ! b) = bview s (unat n)" "blockno (bufs t ! b) = n"
    by (simp_all add: took_def)
  have rt: "ready_in p t" using env_ready [OF rd e] .
  note h = held_inv [OF i, of b, simplified]
  let ?v = "g (bview s (unat n))"
  let ?t1 = "upd_buf b (\<lambda>x. x\<lparr>data := ?v\<rparr>) t"
  have l: "length ?v = BSIZE" using h(7) d g by simp
  note m1 = modify_held [OF i _ l refl, of b, simplified]
  have r1: "ready_in p ?t1" using rt by simp
  from bwrite_contract [OF r1 m1(1), of b] obtain t2 where t2: "bwrite b ?t1 = Ok () t2" "env ?t1 t2" "bc_inv p {b} t2"
      "bview t2 = bview ?t1" "dirty t2 = dirty ?t1 - {unat n}" "bufs t2 = (bufs ?t1)[b := (bufs ?t1 ! b)\<lparr>b_dirty := False\<rparr>]"
      "disk t2 = (disk t)[unat n := ?v]" "disk_hist t2 = disk_hist t @ [disk t]" "sleeplocks t2 = sleeplocks t"
    using h(2) d by auto
  have r2: "ready_in p t2" using env_ready [OF r1 t2(2)] .
  have "bufs t2 ! b = (bufs t ! b)\<lparr>data := ?v, b_dirty := False\<rparr>" using t2(6) h(2) by simp
  then have ok: "b_dirty (bufs t2 ! b) \<or> data (bufs t2 ! b) = disk t2 ! unat (blockno (bufs t2 ! b))"
    using t2(7) d(2) t rng by (simp add: took_def)
  from brelse_contract [OF r2 t2(3) _ ok] obtain u where u: "brelse b t2 = Ok () u" "env t2 u" "bc_inv p {} u"
      "bview u = bview t2" "dirty u = dirty t2" "disk u = disk t2" "disk_hist u = disk_hist t2"
      "\<forall>l. l \<noteq> SlBuf b \<longrightarrow> sleeplocks u l = sleeplocks t2 l" by auto
  have "?t1 = upd_buf b (\<lambda>x. x\<lparr>data := g (data x)\<rparr>) t" unfolding d(1) [symmetric] by (simp add: upd_buf_def)
  then have run: "kseq (kmod (upd_buf b (\<lambda>x. x\<lparr>data := g (data x)\<rparr>))) (kseq (bwrite b) (brelse b)) t = Ok () u"
    using t2(1) u(1) by (simp add: kseq_apply)
  have "env s u" using e t2(2) u(2) by (auto simp: env_def)
  moreover have "bview u = (bview s)(unat n := ?v)" using u(4) t2(4) m1(2) d t by (simp add: took_def)
  moreover have "dirty u = dirty s - {unat n}" using u(5) t2(5) m1(3) t by (simp add: took_def)
  moreover have "disk u = (disk s)[unat n := ?v]" "disk_hist u = disk_hist s @ [disk s]" using u(6,7) t2(7,8) t by (simp_all add: took_def)
  moreover have "\<forall>l. (\<forall>c. l \<noteq> SlBuf c) \<longrightarrow> sleeplocks u l = sleeplocks s l" using u(8) t2(9) t by (simp add: took_def)
  ultimately have "wrote p (unat n) ?v s u" using u(3) by (simp add: wrote_def)
  then show thesis by (rule that [OF r e env_klog [OF e] run])
qed

subsection \<open>Sequences of block writes\<close>

text \<open>The disk and the cached view after the first \<open>m\<close> of a sequence of block writes.\<close>

fun writes :: "(nat \<Rightarrow> nat) \<Rightarrow> (nat \<Rightarrow> 'b) \<Rightarrow> nat \<Rightarrow> 'b list \<Rightarrow> 'b list" where
  "writes a v 0 d = d"
| "writes a v (Suc m) d = (writes a v m d)[a m := v m]"

fun stores :: "(nat \<Rightarrow> nat) \<Rightarrow> (nat \<Rightarrow> 'b) \<Rightarrow> nat \<Rightarrow> (nat \<Rightarrow> 'b) \<Rightarrow> nat \<Rightarrow> 'b" where
  "stores a v 0 f = f"
| "stores a v (Suc m) f = (stores a v m f)(a m := v m)"

lemma length_writes [simp]: "length (writes a v m d) = length d"
  by (induction m) simp_all

lemma writes_other: "k \<notin> a ` {..<m} \<Longrightarrow> writes a v m d ! k = d ! k"
  by (induction m) (auto simp: lessThan_Suc)

lemma writes_at:
  "inj_on a {..<m} \<Longrightarrow> i < m \<Longrightarrow> a i < length d \<Longrightarrow> writes a v m d ! a i = v i"
proof (induction m)
  case (Suc m)
  show ?case
  proof (cases "i = m")
    case False
    with Suc.prems have "a m \<noteq> a i" by (auto simp: inj_on_def)
    with Suc False show ?thesis by (auto simp: lessThan_Suc inj_on_insert)
  qed (use Suc.prems in simp)
qed simp

lemma stores_other: "k \<notin> a ` {..<m} \<Longrightarrow> stores a v m f k = f k"
  by (induction m) (auto simp: lessThan_Suc)

lemma stores_at: "inj_on a {..<m} \<Longrightarrow> i < m \<Longrightarrow> stores a v m f (a i) = v i"
proof (induction m)
  case (Suc m)
  show ?case
  proof (cases "i = m")
    case False
    with Suc.prems have "a m \<noteq> a i" by (auto simp: inj_on_def)
    with Suc False show ?thesis by (auto simp: lessThan_Suc inj_on_insert)
  qed simp
qed simp

definition wrote_all :: "nat \<Rightarrow> (nat \<Rightarrow> nat) \<Rightarrow> (nat \<Rightarrow> uchar list) \<Rightarrow> nat \<Rightarrow> 'm bcache_scheme \<Rightarrow> 'm bcache_scheme \<Rightarrow> bool" where
  "wrote_all p a v m s u \<longleftrightarrow> env s u \<and> bc_inv p {} u \<and> bview u = stores a v m (bview s) \<and> dirty u = dirty s - a ` {..<m} \<and>
     disk u = writes a v m (disk s) \<and> disk_hist u = disk_hist s @ map (\<lambda>j. writes a v j (disk s)) [0 ..< m] \<and>
     (\<forall>l. (\<forall>c. l \<noteq> SlBuf c) \<longrightarrow> sleeplocks u l = sleeplocks s l)"

lemma each_wrote:
  fixes s :: "'m logged_scheme"
  assumes "ready_in p s" and "bc_inv p {} s"
    and step: "\<And>i u. i < m \<Longrightarrow> ready_in p u \<Longrightarrow> wrote_all p a v i s u \<Longrightarrow> klog u = klog s \<Longrightarrow> \<exists>w. f i u = Ok () w \<and> wrote p (a i) (v i) u w"
  shows "\<exists>u. each f [0 ..< m] s = Ok () u \<and> wrote_all p a v m s u"
  using step
proof (induction m)
  case 0
  then show ?case using assms(1,2) env_refl by (auto simp: wrote_all_def)
next
  case (Suc m)
  then obtain u where u: "each f [0 ..< m] s = Ok () u" "wrote_all p a v m s u" by fastforce
  then have e: "env s u" by (simp add: wrote_all_def)
  obtain w where w: "f m u = Ok () w" "wrote p (a m) (v m) u w"
    using Suc.prems [of m u] u(2) env_ready [OF assms(1) e] env_klog [OF e] by auto
  have "each f [0 ..< Suc m] s = Ok () w" using u(1) w(1) by (simp add: each_append kseq_apply)
  moreover have "wrote_all p a v (Suc m) s w"
    using u(2) w(2) env_trans [OF e] by (auto simp: wrote_all_def wrote_def lessThan_Suc)
  ultimately show ?case by blast
qed

subsection \<open>The log on the disk\<close>

definition hdr_n :: "uchar list \<Rightarrow> nat" where
  "hdr_n h = nat (sint (get32 h 0))"

definition hdr_block :: "uchar list \<Rightarrow> nat \<Rightarrow> nat" where
  "hdr_block h i = unat (get32 h (i + 1))"

definition in_log :: "log \<Rightarrow> nat \<Rightarrow> bool" where
  "in_log l k \<longleftrightarrow> unat (log_start l) \<le> k \<and> int k < int (unat (log_start l)) + log_size l"

text \<open>What recovery makes of a disk image: the logged blocks are copied home.\<close>

definition replay :: "log \<Rightarrow> uchar list list \<Rightarrow> uchar list list" where
  "replay l d = (let st = unat (log_start l) in
     writes (hdr_block (d ! st)) (\<lambda>i. d ! (st + 1 + i)) (hdr_n (d ! st)) d)"

definition hdr_ok :: "log \<Rightarrow> nat \<Rightarrow> uchar list \<Rightarrow> bool" where
  "hdr_ok l len h \<longleftrightarrow> hdr_n h \<le> LOGSIZE \<and> int (hdr_n h) < log_size l \<and> inj_on (hdr_block h) {..<hdr_n h} \<and>
     (\<forall>i < hdr_n h. hdr_block h i < len \<and> \<not> in_log l (hdr_block h i))"

text \<open>The geometry of the log: its area lies inside the disk.\<close>

definition log_geom :: "'m logged_scheme \<Rightarrow> bool" where
  "log_geom s \<longleftrightarrow> log_dev (klog s) = 1 \<and> length (lh_block (klog s)) = LOGSIZE \<and> 0 < log_size (klog s) \<and> log_size (klog s) \<le> int NBUF \<and>
     int (unat (log_start (klog s))) + log_size (klog s) \<le> int (length (disk s)) \<and> length (disk s) \<le> 2 ^ 31"

definition same_home :: "log \<Rightarrow> uchar list list \<Rightarrow> uchar list list \<Rightarrow> bool" where
  "same_home l d e \<longleftrightarrow> length d = length e \<and> (\<forall>k < length d. \<not> in_log l k \<longrightarrow> d ! k = e ! k)"

lemma log_addr:
  assumes "log_geom s" and "int i < log_size (klog s) - 1"
  shows "unat (log_start (klog s) + of_nat i + 1) = unat (log_start (klog s)) + 1 + i"
    and "unat (log_start (klog s)) + 1 + i < length (disk s)" and "in_log (klog s) (unat (log_start (klog s)) + 1 + i)"
proof -
  have b: "unat (log_start (klog s)) + 1 + i < length (disk s)" using assms unfolding log_geom_def by linarith
  have "length (disk s) \<le> 2147483648" using assms(1) by (simp add: log_geom_def)
  with b have c: "unat (log_start (klog s)) + 1 + i < 4294967296" by simp
  then have "unat (of_nat i :: uint) = i" by (simp add: unat_of_nat)
  then show "unat (log_start (klog s) + of_nat i + 1) = unat (log_start (klog s)) + 1 + i"
    using c by (simp add: unat_word_ariths)
  show "unat (log_start (klog s)) + 1 + i < length (disk s)" by (rule b)
  show "in_log (klog s) (unat (log_start (klog s)) + 1 + i)"
    using assms unfolding log_geom_def in_log_def by linarith
qed

lemma bview_clean:
  assumes "bc_inv p {} s" and "k \<notin> dirty s"
  shows "bview s k = disk s ! k"
proof (rule bview_eqI)
  show da: "bc_data {} s" using assms(1) by (simp add: bc_inv_def)
  fix b assume b: "b < NBUF" "caches s k b"
  then have "\<not> b_dirty (bufs s ! b)" using assms(2) by (auto simp: caches_def dirty_def)
  then show "data (bufs s ! b) = disk s ! k" using b bc_dataD(3) [OF da b(1)] by (auto simp: caches_def)
qed simp

subsection \<open>The phases of a commit\<close>

lemma klog_irrelevant [simp]:
  "bc_inv p H (s\<lparr>klog := l\<rparr>) = bc_inv p H s" "bview (s\<lparr>klog := l\<rparr>) = bview s" "dirty (s\<lparr>klog := l\<rparr>) = dirty s"
  "ready_in p (s\<lparr>klog := l\<rparr>) = ready_in p s" "upd_buf b f (s\<lparr>klog := l\<rparr>) = (upd_buf b f s)\<lparr>klog := l\<rparr>"
proof -
  show "bc_inv p H (s\<lparr>klog := l\<rparr>) = bc_inv p H s" "bview (s\<lparr>klog := l\<rparr>) = bview s" by (rule bc_inv_cong; simp)+
  show "dirty (s\<lparr>klog := l\<rparr>) = dirty s" by (simp add: dirty_def)
  show "ready_in p (s\<lparr>klog := l\<rparr>) = ready_in p s" by (simp add: ready_in_def all_free_def)
  show "upd_buf b f (s\<lparr>klog := l\<rparr>) = (upd_buf b f s)\<lparr>klog := l\<rparr>" by (simp add: upd_buf_def)
qed

text \<open>The blocks the log in memory names: distinct, in range, and outside the log area.\<close>

definition home :: "'m logged_scheme \<Rightarrow> nat \<Rightarrow> nat" where
  "home s i = unat (lh_block (klog s) ! i)"

definition logn :: "'m logged_scheme \<Rightarrow> nat" where
  "logn s = nat (lh_n (klog s))"

definition log_blocks_ok :: "'m logged_scheme \<Rightarrow> bool" where
  "log_blocks_ok s \<longleftrightarrow> logn s \<le> LOGSIZE \<and> int (logn s) < log_size (klog s) \<and> inj_on (home s) {..<logn s} \<and>
     (\<forall>i < logn s. home s i < length (disk s) \<and> \<not> in_log (klog s) (home s i))"

definition logaddr :: "'m logged_scheme \<Rightarrow> nat \<Rightarrow> nat" where
  "logaddr s i = unat (log_start (klog s)) + 1 + i"

lemma logaddr_props:
  assumes "log_geom s" and "log_blocks_ok s" and "i < logn s"
  shows "unat (log_start (klog s) + of_nat i + 1) = logaddr s i" and "logaddr s i < length (disk s)" and "in_log (klog s) (logaddr s i)"
    and "logaddr s i \<noteq> unat (log_start (klog s))"
proof -
  have i: "int i < log_size (klog s) - 1" using assms(2,3) by (simp add: log_blocks_ok_def)
  from log_addr [OF assms(1) this] show "unat (log_start (klog s) + of_nat i + 1) = logaddr s i" "logaddr s i < length (disk s)"
    "in_log (klog s) (logaddr s i)" "logaddr s i \<noteq> unat (log_start (klog s))"
    by (simp_all add: logaddr_def)
qed

lemma log_start_props:
  assumes "log_geom s"
  shows "unat (log_start (klog s)) < length (disk s)" and "in_log (klog s) (unat (log_start (klog s)))"
  using assms unfolding log_geom_def in_log_def by linarith+

lemma inj_logaddr: "inj_on (logaddr s) A"
  by (simp add: inj_on_def logaddr_def)

lemma dirty_after:
  assumes "dirty u = dirty s - a ` {..<i}" and "card (dirty s) < NBUF" and "bc_inv p {} s"
  shows "card (dirty u) < NBUF"
  using assms card_mono [of "dirty s" "dirty u"] dirty_card(2) [OF assms(3)] by (auto simp: Diff_subset)

lemma write_log_ok:
  assumes rd: "ready_in p s" and inv: "bc_inv p {} s" and g: "log_geom s" and l: "log_blocks_ok s"
    and dt: "home s ` {..<logn s} \<subseteq> dirty s" "card (dirty s) < NBUF"
  shows "\<exists>u. write_log s = Ok () u \<and> wrote_all p (logaddr s) (\<lambda>i. bview s (home s i)) (logn s) s u"
proof -
  have "\<exists>u. each write_log_one [0 ..< logn s] s = Ok () u \<and> wrote_all p (logaddr s) (\<lambda>i. bview s (home s i)) (logn s) s u"
  proof (rule each_wrote [OF rd inv])
    fix i u assume i: "i < logn s" and ru: "ready_in p u" and w: "wrote_all p (logaddr s) (\<lambda>i. bview s (home s i)) i s u"
      and k: "klog u = klog s"
    note a = logaddr_props [OF g l i]
    have h: "home s i < length (disk s)" "\<not> in_log (klog s) (home s i)" using l i by (simp_all add: log_blocks_ok_def)
    have nin: "home s i \<notin> logaddr s ` {..<i}"
      using h(2) logaddr_props(3) [OF g l] i by auto
    have v: "bview u (home s i) = bview s (home s i)" using w stores_other [OF nin] by (simp add: wrote_all_def)
    have "\<exists>w. write_log_one i u = Ok () w \<and> wrote p (unat (log_start (klog s) + of_nat i + 1)) (bview u (unat (lh_block (klog s) ! i))) u w"
    proof (rule move_blocks(2) [OF ru])
      show "bc_inv p {} u" using w by (simp add: wrote_all_def)
      show "log_dev (klog u) = 1" using g k by (simp add: log_geom_def)
      show "log_start (klog s) + of_nat i + 1 \<noteq> lh_block (klog s) ! i" using h(2) a(1,3) by (auto simp: home_def)
      show "unat (log_start (klog s) + of_nat i + 1) < length (disk u)" "unat (lh_block (klog s) ! i) < length (disk u)"
        using a w h by (simp_all add: wrote_all_def home_def)
      show "card (dirty u) < NBUF" by (rule dirty_after [OF _ dt(2) inv]) (use w in \<open>simp add: wrote_all_def\<close>)
      have "home s i \<in> dirty u" using w dt(1) i nin by (auto simp: wrote_all_def)
      then show "unat (lh_block (klog s) ! i) \<in> dirty u \<or> card (dirty u) + 1 < NBUF" by (simp add: home_def)
    qed (simp_all add: k)
    then show "\<exists>w. write_log_one i u = Ok () w \<and> wrote p (logaddr s i) (bview s (home s i)) u w"
      using a(1) v by (simp add: home_def)
  qed
  then show ?thesis by (simp add: write_log_def kbind_apply logn_def)
qed

lemma install_ok:
  assumes rd: "ready_in p s" and inv: "bc_inv p {} s" and g: "log_geom s" and l: "log_blocks_ok s"
    and dt: "dirty s = {} \<or> home s ` {..<logn s} \<subseteq> dirty s \<and> card (dirty s) < NBUF"
  shows "\<exists>u. install_trans s = Ok () u \<and> wrote_all p (home s) (\<lambda>i. bview s (logaddr s i)) (logn s) s u"
proof -
  have "\<exists>u. each install_one [0 ..< logn s] s = Ok () u \<and> wrote_all p (home s) (\<lambda>i. bview s (logaddr s i)) (logn s) s u"
  proof (rule each_wrote [OF rd inv])
    fix i u assume i: "i < logn s" and ru: "ready_in p u" and w: "wrote_all p (home s) (\<lambda>i. bview s (logaddr s i)) i s u"
      and k: "klog u = klog s"
    note a = logaddr_props [OF g l i]
    have h: "home s i < length (disk s)" "\<not> in_log (klog s) (home s i)" using l i by (simp_all add: log_blocks_ok_def)
    have nin: "logaddr s i \<notin> home s ` {..<i}"
      using a(3) l i by (auto simp: log_blocks_ok_def)
    have v: "bview u (logaddr s i) = bview s (logaddr s i)" using w stores_other [OF nin] by (simp add: wrote_all_def)
    have inj: "inj_on (home s) {..<logn s}" using l by (simp add: log_blocks_ok_def)
    have hi: "home s i \<notin> home s ` {..<i}" using inj_onD [OF inj] i by fastforce
    have "\<exists>w. install_one i u = Ok () w \<and> wrote p (unat (lh_block (klog s) ! i)) (bview u (unat (log_start (klog s) + of_nat i + 1))) u w"
    proof (rule move_blocks(1) [OF ru])
      show "bc_inv p {} u" using w by (simp add: wrote_all_def)
      show "log_dev (klog u) = 1" using g k by (simp add: log_geom_def)
      show "log_start (klog s) + of_nat i + 1 \<noteq> lh_block (klog s) ! i" using h(2) a(1,3) by (auto simp: home_def)
      show "unat (log_start (klog s) + of_nat i + 1) < length (disk u)" "unat (lh_block (klog s) ! i) < length (disk u)"
        using a w h by (simp_all add: wrote_all_def home_def)
      have du: "dirty u = dirty s - home s ` {..<i}" using w by (simp add: wrote_all_def)
      have "card (dirty s) < NBUF" using dt by (auto simp: NBUF_def)
      then show "card (dirty u) < NBUF" using dirty_after [OF du] inv by blast
      show "unat (lh_block (klog s) ! i) \<in> dirty u \<or> card (dirty u) + 1 < NBUF"
        using dt i hi du by (auto simp: home_def NBUF_def)
    qed (simp_all add: k)
    then show "\<exists>w. install_one i u = Ok () w \<and> wrote p (home s i) (bview s (logaddr s i)) u w"
      using a(1) v by (simp add: home_def)
  qed
  then show ?thesis by (simp add: install_trans_def kbind_apply logn_def)
qed

definition head_of :: "log \<Rightarrow> uchar list \<Rightarrow> uchar list" where
  "head_of l h = put_words 0 (of_int (lh_n l) # take (nat (lh_n l)) (lh_block l)) h"

lemma write_head_ok:
  assumes rd: "ready_in p s" and inv: "bc_inv p {} s" and g: "log_geom s" and "card (dirty s) < NBUF"
  shows "\<exists>u. write_head s = Ok () u \<and>
    wrote p (unat (log_start (klog s))) (head_of (klog s) (bview s (unat (log_start (klog s))))) s u"
proof (rule rewrite_block [OF rd inv log_start_props(1) [OF g] assms(4), of "head_of (klog s)"])
  show "length (head_of (klog s) d) = length d" for d by (simp add: head_of_def)
  fix b t u
  assume "bread 1 (log_start (klog s)) s = Ok b t" and "klog t = klog s"
    and "kseq (kmod (upd_buf b (\<lambda>x. x\<lparr>data := head_of (klog s) (data x)\<rparr>))) (kseq (bwrite b) (brelse b)) t = Ok () u"
    and w: "wrote p (unat (log_start (klog s))) (head_of (klog s) (bview s (unat (log_start (klog s))))) s u"
  then have "write_head s = Ok () u"
    using g by (simp add: write_head_def kbind_apply log_geom_def head_of_def)
  with w show ?thesis by blast
qed

lemma head_of_props:
  assumes "length h = BSIZE" and "0 \<le> lh_n l" and "nat (lh_n l) \<le> LOGSIZE" and "length (lh_block l) = LOGSIZE"
  shows "hdr_n (head_of l h) = nat (lh_n l)" and "i < nat (lh_n l) \<Longrightarrow> hdr_block (head_of l h) i = unat (lh_block l ! i)"
proof -
  have len: "4 * (0 + length (of_int (lh_n l) # take (nat (lh_n l)) (lh_block l))) \<le> length h"
    using assms by (simp add: BSIZE_def LOGSIZE_def)
  have "sint (of_int (lh_n l) :: uint) = lh_n l"
    using assms(2,3) by (simp add: signed_of_int signed_take_bit_int_eq_self LOGSIZE_def)
  then show "hdr_n (head_of l h) = nat (lh_n l)"
    by (simp add: hdr_n_def head_of_def get32_put_words [OF len] del: put_words.simps)
  show "hdr_block (head_of l h) i = unat (lh_block l ! i)" if "i < nat (lh_n l)"
    using that assms by (simp add: hdr_block_def head_of_def get32_put_words [OF len] del: put_words.simps)
qed

subsection \<open>Recovery\<close>

lemma read_head_entries:
  assumes "m \<le> LOGSIZE" and "length (lh_block (klog t)) = LOGSIZE"
  shows "each (read_head_entry b) [0 ..< m] t = Ok () (t\<lparr>klog := (klog t)\<lparr>lh_block :=
    map (\<lambda>i. get32 (data (bufs t ! b)) (i + 1)) [0 ..< m] @ drop m (lh_block (klog t))\<rparr>\<rparr>)"
  using assms(1)
proof (induction m)
  case (Suc m)
  let ?xs = "map (\<lambda>i. get32 (data (bufs t ! b)) (i + 1)) [0 ..< m]"
  have "(?xs @ drop m (lh_block (klog t)))[m := v] = (?xs @ [v]) @ drop (Suc m) (lh_block (klog t))" for v
    using Suc.prems assms(2) by (simp add: list_update_append Cons_nth_drop_Suc [symmetric])
  then show ?case
    using Suc by (simp add: each_append kseq_apply read_head_entry_def kbind_apply upd_log_def)
qed simp

definition head_read :: "uchar list \<Rightarrow> log \<Rightarrow> log" where
  "head_read h l = l\<lparr>lh_n := sint (get32 h 0),
     lh_block := map (\<lambda>i. get32 h (i + 1)) [0 ..< hdr_n h] @ drop (hdr_n h) (lh_block l)\<rparr>"

lemma read_head_ok:
  assumes rd: "ready_in p s" and inv: "bc_inv p {} s" and g: "log_geom s" and "card (dirty s) < NBUF"
    and h: "h = bview s (unat (log_start (klog s)))" "hdr_n h \<le> LOGSIZE"
  shows "\<exists>u. read_head s = Ok () u \<and> env (s\<lparr>klog := head_read h (klog s)\<rparr>) u \<and> bc_inv p {} u \<and> bview u = bview s \<and> dirty u = dirty s \<and>
     disk u = disk s \<and> disk_hist u = disk_hist s \<and> (\<forall>l. (\<forall>c. l \<noteq> SlBuf c) \<longrightarrow> sleeplocks u l = sleeplocks s l)"
proof -
  have "\<exists>b t. bread 1 (log_start (klog s)) s = Ok b t \<and> took p {} (log_start (klog s)) b s t"
    by (rule bread_ok [OF rd inv _ room_card [OF inv] log_start_props(1) [OF g]]) (use assms(4) in simp_all)
  then obtain b t where r: "bread 1 (log_start (klog s)) s = Ok b t" and t: "took p {} (log_start (klog s)) b s t" by blast
  from t have e: "env s t" and i: "bc_inv p {b} t" and d: "data (bufs t ! b) = h" "blockno (bufs t ! b) = log_start (klog s)"
    by (simp_all add: took_def h)
  let ?l = "head_read h (klog s)"
  let ?t = "t\<lparr>klog := ?l\<rparr>"
  have kt: "klog t = klog s" by (rule env_klog [OF e])
  have rt: "ready_in p ?t" using env_ready [OF rd e] by simp
  have it: "bc_inv p {b} ?t" using i by simp
  have ok: "b_dirty (bufs ?t ! b) \<or> data (bufs ?t ! b) = disk ?t ! unat (blockno (bufs ?t ! b))"
    using t by (auto simp: took_def)
  from brelse_contract [OF rt it _ ok] obtain u where u: "brelse b ?t = Ok () u" "env ?t u" "bc_inv p {} u"
      "bview u = bview ?t" "dirty u = dirty ?t" "disk u = disk ?t" "disk_hist u = disk_hist ?t"
      "\<forall>l. l \<noteq> SlBuf b \<longrightarrow> sleeplocks u l = sleeplocks ?t l" by auto
  have len: "length (lh_block (klog s)) = LOGSIZE" using g by (simp add: log_geom_def)
  have "read_head s = Ok () u"
    using r g u(1) read_head_entries [OF h(2), of "t\<lparr>klog := (klog s)\<lparr>lh_n := sint (get32 h 0)\<rparr>\<rparr>"] kt len d(1)
    by (simp add: read_head_def kbind_apply kseq_apply upd_log_def log_geom_def hdr_n_def head_read_def)
  moreover have "env (s\<lparr>klog := ?l\<rparr>) u"
  proof -
    have "bcache.more ?t = bcache.more (s\<lparr>klog := ?l\<rparr>)" using e unfolding env_def by (cases s, cases t) simp
    then show ?thesis using e u(2) by (auto simp: env_def)
  qed
  moreover have "bview u = bview s" "dirty u = dirty s" "disk u = disk s" "disk_hist u = disk_hist s"
    using u(4-7) t by (simp_all add: took_def)
  moreover have "\<forall>l. (\<forall>c. l \<noteq> SlBuf c) \<longrightarrow> sleeplocks u l = sleeplocks s l" using u(8) t by (simp add: took_def)
  ultimately show ?thesis using u(3) by blast
qed

text \<open>A machine that has just been booted on a disk image.\<close>

definition booted :: "nat \<Rightarrow> log \<Rightarrow> uchar list list \<Rightarrow> 'm logged_scheme \<Rightarrow> bool" where
  "booted p l d r \<longleftrightarrow> ready_in p r \<and> bc_inv p {} r \<and> dirty r = {} \<and> disk r = d \<and> log_geom r \<and>
     log_start (klog r) = log_start l \<and> log_size (klog r) = log_size l"

lemma in_log_cong: "log_start l = log_start m \<Longrightarrow> log_size l = log_size m \<Longrightarrow> in_log l = in_log m"
  by (simp add: in_log_def fun_eq_iff)

lemma replay_simps:
  assumes "hdr_ok l (length d) (d ! unat (log_start l))"
  defines "h \<equiv> d ! unat (log_start l)"
  shows "length (replay l d) = length d"
    and "i < hdr_n h \<Longrightarrow> replay l d ! hdr_block h i = d ! (unat (log_start l) + 1 + i)"
    and "k \<notin> hdr_block h ` {..<hdr_n h} \<Longrightarrow> replay l d ! k = d ! k"
  using assms writes_at [of "hdr_block h" "hdr_n h" i d "\<lambda>i. d ! (unat (log_start l) + 1 + i)"] writes_other [of k "hdr_block h" "hdr_n h"]
  by (auto simp: replay_def Let_def hdr_ok_def)

lemma installed_home:
  assumes ok: "hdr_ok l (length d) (d ! unat (log_start l))" and h: "h = d ! unat (log_start l)"
    and f: "\<And>i. i < hdr_n h \<Longrightarrow> f i = hdr_block h i" and v: "\<And>i. i < hdr_n h \<Longrightarrow> v i = d ! (unat (log_start l) + 1 + i)"
    and k: "k < length d"
  shows "writes f v (hdr_n h) d ! k = replay l d ! k"
proof (cases "k \<in> hdr_block h ` {..<hdr_n h}")
  case True
  then obtain i where i: "i < hdr_n h" "k = hdr_block h i" by auto
  have "inj_on f {..<hdr_n h}" using ok f by (subst inj_on_cong [where g = "hdr_block h"]) (simp_all add: hdr_ok_def h)
  then have "writes f v (hdr_n h) d ! f i = v i" by (rule writes_at [OF _ i(1)]) (use i k f in simp)
  then show ?thesis using replay_simps(2) [OF ok] i f v by (simp add: h)
next
  case False
  then have "k \<notin> f ` {..<hdr_n h}" using f by auto
  then have "writes f v (hdr_n h) d ! k = d ! k" by (rule writes_other)
  then show ?thesis using replay_simps(3) [OF ok] False by (simp add: h)
qed

lemma recover_ok:
  assumes b: "booted p l d r" and ok: "hdr_ok l (length d) (d ! unat (log_start l))"
  shows "\<exists>w. recover_from_log r = Ok () w \<and> same_home l (disk w) (replay l d) \<and> hdr_n (disk w ! unat (log_start l)) = 0 \<and>
     dirty w = {} \<and> bc_inv p {} w \<and> ready_in p w \<and> (\<forall>k. bview w k = disk w ! k)"
proof -
  define h where "h = d ! unat (log_start l)"
  let ?st = "unat (log_start l)"
  from b have rd: "ready_in p r" and inv: "bc_inv p {} r" and dr: "dirty r = {}" and dk: "disk r = d" and g: "log_geom r"
    and kl: "log_start (klog r) = log_start l" "log_size (klog r) = log_size l" by (simp_all add: booted_def)
  have vw: "bview r k = d ! k" for k using bview_clean [OF inv] dr dk by simp
  have il: "in_log (klog r) = in_log l" by (rule in_log_cong) (use kl in simp_all)
  have hn: "hdr_n h \<le> LOGSIZE" "int (hdr_n h) < log_size l" "inj_on (hdr_block h) {..<hdr_n h}"
    "\<And>i. i < hdr_n h \<Longrightarrow> hdr_block h i < length d \<and> \<not> in_log l (hdr_block h i)" using ok by (simp_all add: hdr_ok_def h_def)
  have "\<exists>u. read_head r = Ok () u \<and> env (r\<lparr>klog := head_read h (klog r)\<rparr>) u \<and> bc_inv p {} u \<and> bview u = bview r \<and> dirty u = dirty r \<and>
     disk u = disk r \<and> disk_hist u = disk_hist r \<and> (\<forall>l. (\<forall>c. l \<noteq> SlBuf c) \<longrightarrow> sleeplocks u l = sleeplocks r l)"
    by (rule read_head_ok [OF rd inv g]) (use dr vw kl hn in \<open>simp_all add: NBUF_def h_def\<close>)
  then obtain r1 where r1: "read_head r = Ok () r1" "env (r\<lparr>klog := head_read h (klog r)\<rparr>) r1" "bc_inv p {} r1" "bview r1 = bview r"
      "dirty r1 = {}" "disk r1 = d" using dr dk by auto
  have k1: "klog r1 = head_read h (klog r)" using env_klog [OF r1(2)] by simp
  have rd1: "ready_in p r1" using env_ready [OF _ r1(2)] rd by simp
  have ll: "length (lh_block (klog r)) = LOGSIZE" using g by (simp add: log_geom_def)
  have n1: "logn r1 = hdr_n h" by (simp add: logn_def k1 head_read_def hdr_n_def)
  have h1: "home r1 i = hdr_block h i" if "i < hdr_n h" for i
    using that by (simp add: home_def k1 head_read_def hdr_block_def nth_append)
  have g1: "log_geom r1" using g hn(1) ll r1(6) dk by (simp add: log_geom_def k1 head_read_def)
  have k1s: "log_start (klog r1) = log_start l" "log_size (klog r1) = log_size l" "in_log (klog r1) = in_log l"
    using kl il by (simp_all add: k1 head_read_def in_log_def fun_eq_iff)
  have inj1: "inj_on (home r1) {..<hdr_n h}" using hn(3) by (subst inj_on_cong [where g = "hdr_block h"]) (simp_all add: h1)
  have l1: "log_blocks_ok r1" unfolding log_blocks_ok_def n1 k1s using hn inj1 r1(6) by (simp add: h1)
  from install_ok [OF rd1 r1(3) g1 l1] obtain r2 where r2: "install_trans r1 = Ok () r2"
      "wrote_all p (home r1) (\<lambda>i. bview r1 (logaddr r1 i)) (hdr_n h) r1 r2" using r1(5) n1 by auto
  have e2: "env r1 r2" and i2: "bc_inv p {} r2" and d2: "dirty r2 = {}" "disk r2 = writes (home r1) (\<lambda>i. bview r1 (logaddr r1 i)) (hdr_n h) d"
    using r2(2) r1(5,6) by (simp_all add: wrote_all_def)
  have k2: "klog r2 = klog r1" by (rule env_klog [OF e2])
  let ?r3 = "r2\<lparr>klog := (klog r2)\<lparr>lh_n := 0\<rparr>\<rparr>"
  have rd3: "ready_in p ?r3" using env_ready [OF rd1 e2] by simp
  have g3: "log_geom ?r3" using g1 k2 d2 r1(6) by (simp add: log_geom_def)
  from write_head_ok [OF rd3 _ g3] i2 d2 obtain w where w: "write_head ?r3 = Ok () w"
      "wrote p (unat (log_start (klog ?r3))) (head_of (klog ?r3) (bview ?r3 (unat (log_start (klog ?r3))))) ?r3 w"
    by (auto simp: NBUF_def)
  have st3: "log_start (klog ?r3) = log_start l" using k1s k2 by simp
  have run: "recover_from_log r = Ok () w"
    using r1(1) r2(1) w(1) by (simp add: recover_from_log_def kseq_apply upd_log_def)
  have wd: "disk w = (disk r2)[?st := head_of (klog ?r3) (bview r2 ?st)]" "dirty w = {}" "bc_inv p {} w" "env ?r3 w"
    using w(2) d2(1) st3 by (simp_all add: wrote_def)
  have stl: "?st < length d" "in_log l ?st" using log_start_props [OF g] kl dk il by simp_all
  have len3: "length (bview r2 ?st) = BSIZE"
  proof -
    have "bview r2 ?st = disk r2 ! ?st" by (rule bview_clean [OF i2]) (simp add: d2)
    moreover have "disk r2 ! ?st \<in> set (disk r2)" using stl d2 by simp
    ultimately show ?thesis using i2 by (simp add: bc_inv_def bc_wf_def)
  qed
  have hz: "hdr_n (disk w ! ?st) = 0"
    using head_of_props(1) [OF len3, of "klog ?r3"] g3 wd(1) stl d2 by (simp add: log_geom_def)
  have home: "disk w ! k = replay l d ! k" if "k < length d" "\<not> in_log l k" for k
  proof -
    have "k \<noteq> ?st" using that stl by auto
    then have "disk w ! k = disk r2 ! k" using wd(1) by simp
    also have "\<dots> = replay l d ! k"
      unfolding d2 by (rule installed_home [OF ok h_def]) (use that h1 r1(4) vw k1s in \<open>simp_all add: logaddr_def\<close>)
    finally show ?thesis .
  qed
  have "same_home l (disk w) (replay l d)"
    using home replay_simps(1) [OF ok] wd(1) d2 by (simp add: same_home_def)
  moreover have "bview w k = disk w ! k" for k by (rule bview_clean [OF wd(3)]) (simp add: wd)
  moreover have "ready_in p w" using env_ready [OF rd3 wd(4)] .
  ultimately show ?thesis using run hz wd by blast
qed

subsection \<open>Crash atomicity\<close>

text \<open>
  The state in which \<open>commit\<close> is called: the transaction's blocks are named in the log in memory and
  exactly they are dirty in the cache; the log on the disk is empty.
\<close>

definition txn_ready :: "nat \<Rightarrow> 'm logged_scheme \<Rightarrow> bool" where
  "txn_ready p s \<longleftrightarrow> ready_in p s \<and> bc_inv p {} s \<and> log_geom s \<and> log_blocks_ok s \<and> 0 \<le> lh_n (klog s) \<and>
     dirty s = home s ` {..<logn s} \<and> hdr_n (disk s ! unat (log_start (klog s))) = 0"

text \<open>The three kinds of disk images of a commit: the log is not yet valid, valid, or erased again.\<close>

definition before_commit :: "'m logged_scheme \<Rightarrow> uchar list list \<Rightarrow> bool" where
  "before_commit s d \<longleftrightarrow> same_home (klog s) d (disk s) \<and> hdr_n (d ! unat (log_start (klog s))) = 0"

definition committed :: "'m logged_scheme \<Rightarrow> uchar list list \<Rightarrow> bool" where
  "committed s d \<longleftrightarrow> length d = length (disk s) \<and> hdr_n (d ! unat (log_start (klog s))) = logn s \<and>
     (\<forall>i < logn s. hdr_block (d ! unat (log_start (klog s))) i = home s i \<and> d ! logaddr s i = bview s (home s i)) \<and>
     (\<forall>k < length d. \<not> in_log (klog s) k \<longrightarrow> k \<notin> home s ` {..<logn s} \<longrightarrow> d ! k = disk s ! k)"

definition erased :: "'m logged_scheme \<Rightarrow> uchar list list \<Rightarrow> bool" where
  "erased s d \<longleftrightarrow> length d = length (disk s) \<and> hdr_n (d ! unat (log_start (klog s))) = 0 \<and>
     (\<forall>k < length d. \<not> in_log (klog s) k \<longrightarrow> d ! k = bview s k)"

lemma hdr_ok_empty: "hdr_n h = 0 \<Longrightarrow> log_geom s \<Longrightarrow> hdr_ok (klog s) len h"
  by (simp add: hdr_ok_def log_geom_def)

lemma committed_hdr_ok:
  assumes "log_blocks_ok s" and "committed s d"
  shows "hdr_ok (klog s) (length d) (d ! unat (log_start (klog s)))"
proof -
  let ?h = "d ! unat (log_start (klog s))"
  have n: "hdr_n ?h = logn s" "\<And>i. i < logn s \<Longrightarrow> hdr_block ?h i = home s i" "length d = length (disk s)" using assms(2) by (simp_all add: committed_def)
  have "inj_on (hdr_block ?h) {..<logn s}"
    using assms(1) n(2) by (subst inj_on_cong [where g = "home s"]) (simp_all add: log_blocks_ok_def)
  then show ?thesis using assms(1) n by (simp add: hdr_ok_def log_blocks_ok_def)
qed

lemma image_replay:
  assumes t: "txn_ready p s"
  shows "before_commit s d \<Longrightarrow> same_home (klog s) (replay (klog s) d) (disk s)"
    and "committed s d \<or> erased s d \<Longrightarrow> length (replay (klog s) d) = length (disk s) \<and>
      (\<forall>k < length (disk s). \<not> in_log (klog s) k \<longrightarrow> replay (klog s) d ! k = bview s k)"
proof -
  let ?st = "unat (log_start (klog s))"
  from t have inv: "bc_inv p {} s" and g: "log_geom s" and l: "log_blocks_ok s" and dt: "dirty s = home s ` {..<logn s}"
    by (simp_all add: txn_ready_def)
  have z: "replay (klog s) d = d" if "hdr_n (d ! ?st) = 0" for d using that by (simp add: replay_def)
  show "same_home (klog s) (replay (klog s) d) (disk s)" if "before_commit s d"
    using that z by (simp add: before_commit_def)
  show "length (replay (klog s) d) = length (disk s) \<and>
      (\<forall>k < length (disk s). \<not> in_log (klog s) k \<longrightarrow> replay (klog s) d ! k = bview s k)" if "committed s d \<or> erased s d"
    using that
  proof
    assume "erased s d"
    then show ?thesis using z by (simp add: erased_def)
  next
    assume c: "committed s d"
    note ok = committed_hdr_ok [OF l c]
    have n: "hdr_n (d ! ?st) = logn s" "\<And>i. i < logn s \<Longrightarrow> hdr_block (d ! ?st) i = home s i"
      "\<And>i. i < logn s \<Longrightarrow> d ! logaddr s i = bview s (home s i)" "length d = length (disk s)"
      "\<And>k. k < length d \<Longrightarrow> \<not> in_log (klog s) k \<Longrightarrow> k \<notin> home s ` {..<logn s} \<Longrightarrow> d ! k = disk s ! k"
      using c by (simp_all add: committed_def)
    have "replay (klog s) d ! k = bview s k" if "k < length (disk s)" "\<not> in_log (klog s) k" for k
    proof (cases "k \<in> home s ` {..<logn s}")
      case True
      then obtain i where i: "i < logn s" "k = home s i" by auto
      then show ?thesis using replay_simps(2) [OF ok, of i] n by (simp add: logaddr_def)
    next
      case False
      then have "k \<notin> hdr_block (d ! ?st) ` {..<hdr_n (d ! ?st)}" using n(1,2) by auto
      then have "replay (klog s) d ! k = d ! k" by (rule replay_simps(3) [OF ok])
      then show ?thesis using n(4,5) that False bview_clean [OF inv, of k] dt by simp
    qed
    then show ?thesis using replay_simps(1) [OF ok] n(4) by simp
  qed
qed

text \<open>Facts about a transaction's geometry that every phase uses.\<close>

lemma txn_facts:
  assumes t: "txn_ready p s"
  shows "inj_on (home s) {..<logn s}" and "\<And>i. i < logn s \<Longrightarrow> home s i < length (disk s) \<and> \<not> in_log (klog s) (home s i)"
    and "card (dirty s) < NBUF" and "dirty s - logaddr s ` {..<logn s} = dirty s" and "dirty s - {unat (log_start (klog s))} = dirty s"
    and "unat (log_start (klog s)) \<notin> logaddr s ` {..<j}" and "unat (log_start (klog s)) \<notin> home s ` {..<logn s}"
proof -
  from t have g: "log_geom s" and l: "log_blocks_ok s" and dt: "dirty s = home s ` {..<logn s}" by (simp_all add: txn_ready_def)
  show inj: "inj_on (home s) {..<logn s}" and hr: "\<And>i. i < logn s \<Longrightarrow> home s i < length (disk s) \<and> \<not> in_log (klog s) (home s i)"
    using l by (simp_all add: log_blocks_ok_def)
  have "card (dirty s) = logn s" unfolding dt using inj by (simp add: card_image)
  then show "card (dirty s) < NBUF" using l g by (simp add: log_blocks_ok_def log_geom_def)
  note stp = log_start_props [OF g] and la = logaddr_props [OF g l]
  show "dirty s - logaddr s ` {..<logn s} = dirty s" using la(3) hr dt by fastforce
  show "dirty s - {unat (log_start (klog s))} = dirty s" using stp(2) hr dt by fastforce
  show "unat (log_start (klog s)) \<notin> logaddr s ` {..<j}" "unat (log_start (klog s)) \<notin> home s ` {..<logn s}"
    using stp hr by (auto simp: logaddr_def)
qed

lemma clean_block_length:
  assumes "bc_inv p {} u" and "k < length (disk u)" and "k \<notin> dirty u"
  shows "length (bview u k) = BSIZE"
proof -
  have "disk u ! k \<in> set (disk u)" using assms(2) by simp
  then show ?thesis using assms bview_clean [OF assms(1,3)] by (simp add: bc_inv_def bc_wf_def)
qed

text \<open>Copying to the log and writing the header.\<close>

lemma commit_log_phase:
  assumes t: "txn_ready p s"
  shows "\<exists>u1 u2 new. write_log s = Ok () u1 \<and> write_head u1 = Ok () u2 \<and> env s u2 \<and> bc_inv p {} u2 \<and> dirty u2 = dirty s \<and>
     committed s (disk u2) \<and> disk_hist u2 = disk_hist s @ new \<and> (\<forall>d\<in>set new. before_commit s d) \<and>
     (\<forall>i < logn s. bview u2 (logaddr s i) = bview s (home s i)) \<and>
     (\<forall>l. (\<forall>c. l \<noteq> SlBuf c) \<longrightarrow> sleeplocks u2 l = sleeplocks s l)"
proof -
  let ?st = "unat (log_start (klog s))" and ?N = "logn s" and ?v1 = "\<lambda>i. bview s (home s i)"
  from t have rd: "ready_in p s" and inv: "bc_inv p {} s" and g: "log_geom s" and l: "log_blocks_ok s" and n0: "0 \<le> lh_n (klog s)"
    and dt: "dirty s = home s ` {..<?N}" and hz: "hdr_n (disk s ! ?st) = 0"
    by (simp_all add: txn_ready_def)
  note tf = txn_facts [OF t] and stp = log_start_props [OF g] and la = logaddr_props [OF g l]
  obtain u1 where u1: "write_log s = Ok () u1" "wrote_all p (logaddr s) ?v1 ?N s u1"
    using write_log_ok [OF rd inv g l _ tf(3)] dt by auto
  have e1: "env s u1" and i1: "bc_inv p {} u1" and d1: "dirty u1 = dirty s" and k1: "disk u1 = writes (logaddr s) ?v1 ?N (disk s)"
    and v1: "bview u1 = stores (logaddr s) ?v1 ?N (bview s)" and h1: "disk_hist u1 = disk_hist s @ map (\<lambda>j. writes (logaddr s) ?v1 j (disk s)) [0 ..< ?N]"
    using u1(2) tf(4) by (simp_all add: wrote_all_def)
  have kl1: "klog u1 = klog s" by (rule env_klog [OF e1])
  have g1: "log_geom u1" using g kl1 k1 by (simp add: log_geom_def)
  have pre: "before_commit s (writes (logaddr s) ?v1 j (disk s))" if "j \<le> ?N" for j
  proof -
    have "k \<notin> logaddr s ` {..<j}" if "\<not> in_log (klog s) k" for k using la(3) that \<open>j \<le> ?N\<close> by auto
    then show ?thesis using hz tf(6) by (simp add: before_commit_def same_home_def writes_other)
  qed
  define H where "H = head_of (klog s) (bview u1 ?st)"
  obtain u2 where u2: "write_head u1 = Ok () u2" "wrote p ?st H u1 u2"
    using write_head_ok [OF env_ready [OF rd e1] i1 g1] tf(3) d1 kl1 by (auto simp: H_def)
  have e2: "env u1 u2" and k2: "disk u2 = (disk u1)[?st := H]" and v2: "bview u2 = (bview u1)(?st := H)"
    and h2: "disk_hist u2 = disk_hist u1 @ [disk u1]" using u2(2) by (simp_all add: wrote_def)
  have "?st \<notin> dirty u1" using tf(5) d1 by blast
  then have lenH: "length (bview u1 ?st) = BSIZE" using clean_block_length [OF i1] stp k1 by simp
  have Hp: "hdr_n H = ?N" "\<And>i. i < ?N \<Longrightarrow> hdr_block H i = home s i"
    using head_of_props [OF lenH n0] l g by (simp_all add: H_def logn_def home_def log_blocks_ok_def log_geom_def)
  have "committed s (disk u2)"
  proof -
    have "disk u2 ! logaddr s i = ?v1 i" if "i < ?N" for i
      using k2 k1 la [OF that] writes_at [OF inj_logaddr that] by simp
    moreover have "disk u2 ! k = disk s ! k" if "\<not> in_log (klog s) k" for k
    proof -
      have "k \<noteq> ?st" "k \<notin> logaddr s ` {..<?N}" using that stp la(3) by auto
      then show ?thesis using k2 k1 by (simp add: writes_other)
    qed
    ultimately show ?thesis using Hp k2 k1 stp by (simp add: committed_def)
  qed
  moreover have "bview u2 (logaddr s i) = ?v1 i" if "i < ?N" for i
    using v2 v1 la(4) that stores_at [OF inj_logaddr] by simp
  moreover have "env s u2" by (rule env_trans [OF e1 e2])
  moreover have "bc_inv p {} u2" "dirty u2 = dirty s" using u2(2) d1 tf(5) by (simp_all add: wrote_def)
  moreover have "disk_hist u2 = disk_hist s @ map (\<lambda>j. writes (logaddr s) ?v1 j (disk s)) [0 ..< Suc ?N]" using h1 h2 k1 by simp
  moreover have "\<forall>d\<in>set (map (\<lambda>j. writes (logaddr s) ?v1 j (disk s)) [0 ..< Suc ?N]). before_commit s d" using pre by auto
  moreover have "\<forall>l. (\<forall>c. l \<noteq> SlBuf c) \<longrightarrow> sleeplocks u2 l = sleeplocks s l"
    using u1(2) u2(2) by (simp add: wrote_all_def wrote_def)
  ultimately show ?thesis using u1(1) u2(1) by blast
qed

text \<open>Installing the committed blocks.\<close>

lemma commit_install_phase:
  assumes t: "txn_ready p s" and e: "env s u" and i: "bc_inv p {} u" and d: "dirty u = dirty s" and c: "committed s (disk u)"
    and v: "\<And>i. i < logn s \<Longrightarrow> bview u (logaddr s i) = bview s (home s i)"
  shows "\<exists>w new. install_trans u = Ok () w \<and> env u w \<and> bc_inv p {} w \<and> dirty w = {} \<and> committed s (disk w) \<and>
     (\<forall>i < logn s. disk w ! home s i = bview s (home s i)) \<and> disk_hist w = disk_hist u @ new \<and> (\<forall>d\<in>set new. committed s d) \<and>
     (\<forall>l. (\<forall>c. l \<noteq> SlBuf c) \<longrightarrow> sleeplocks w l = sleeplocks u l)"
proof -
  let ?st = "unat (log_start (klog s))" and ?N = "logn s" and ?v = "\<lambda>i. bview u (logaddr s i)"
  from t have rd: "ready_in p s" and g: "log_geom s" and l: "log_blocks_ok s" and dt: "dirty s = home s ` {..<?N}"
    by (simp_all add: txn_ready_def)
  note tf = txn_facts [OF t] and stp = log_start_props [OF g] and la = logaddr_props [OF g l]
  have kl: "klog u = klog s" by (rule env_klog [OF e])
  have len: "length (disk u) = length (disk s)" using c by (simp add: committed_def)
  have gu: "log_geom u" using g kl len by (simp add: log_geom_def)
  have same: "home u = home s" "logn u = ?N" "logaddr u = logaddr s" by (simp_all add: fun_eq_iff home_def logn_def logaddr_def kl)
  have lu: "log_blocks_ok u" using l len by (simp add: log_blocks_ok_def same kl)
  obtain w where w: "install_trans u = Ok () w" "wrote_all p (home s) ?v ?N u w"
    using install_ok [OF env_ready [OF rd e] i gu lu] d dt tf(3) unfolding same by auto
  have k: "disk w = writes (home s) ?v ?N (disk u)" using w(2) by (simp add: wrote_all_def)
  have mid: "committed s (writes (home s) ?v j (disk u))" if "j \<le> ?N" for j
  proof -
    let ?d = "writes (home s) ?v j (disk u)"
    have jn: "home s ` {..<j} \<subseteq> home s ` {..<?N}" using that by auto
    have "?d ! ?st = disk u ! ?st" using tf(7) jn by (intro writes_other) auto
    moreover have "?d ! logaddr s i = disk u ! logaddr s i" if "i < ?N" for i
    proof (rule writes_other)
      show "logaddr s i \<notin> home s ` {..<j}" using la(3) [OF that] tf(2) jn by fastforce
    qed
    moreover have "?d ! k = disk u ! k" if "k \<notin> home s ` {..<?N}" for k using that jn by (intro writes_other) auto
    ultimately show ?thesis using c by (simp add: committed_def)
  qed
  have "disk w ! home s j = bview s (home s j)" if "j < ?N" for j
    unfolding k using writes_at [OF tf(1) that, of "disk u" ?v] tf(2) [OF that] len v [OF that] by simp
  moreover have "committed s (disk w)" using mid [of ?N] k by simp
  moreover have "disk_hist w = disk_hist u @ map (\<lambda>j. writes (home s) ?v j (disk u)) [0 ..< ?N]" "dirty w = {}"
    "\<forall>l. (\<forall>c. l \<noteq> SlBuf c) \<longrightarrow> sleeplocks w l = sleeplocks u l" "env u w" "bc_inv p {} w"
    using w(2) d dt by (simp_all add: wrote_all_def)
  moreover have "\<forall>d\<in>set (map (\<lambda>j. writes (home s) ?v j (disk u)) [0 ..< ?N]). committed s d" using mid by auto
  ultimately show ?thesis using w(1) by blast
qed

text \<open>Erasing the log.\<close>

lemma commit_erase_phase:
  assumes t: "txn_ready p s" and e: "env s u" and i: "bc_inv p {} u" and d: "dirty u = {}" and c: "committed s (disk u)"
    and h: "\<And>i. i < logn s \<Longrightarrow> disk u ! home s i = bview s (home s i)"
  shows "\<exists>w. write_head (u\<lparr>klog := (klog s)\<lparr>lh_n := 0\<rparr>\<rparr>) = Ok () w \<and> env (u\<lparr>klog := (klog s)\<lparr>lh_n := 0\<rparr>\<rparr>) w \<and> bc_inv p {} w \<and>
     dirty w = {} \<and> erased s (disk w) \<and> disk_hist w = disk_hist u @ [disk u] \<and>
     (\<forall>l. (\<forall>c. l \<noteq> SlBuf c) \<longrightarrow> sleeplocks w l = sleeplocks u l)"
proof -
  let ?st = "unat (log_start (klog s))" and ?u = "u\<lparr>klog := (klog s)\<lparr>lh_n := 0\<rparr>\<rparr>"
  from t have rd: "ready_in p s" and inv: "bc_inv p {} s" and g: "log_geom s" and dt: "dirty s = home s ` {..<logn s}"
    by (simp_all add: txn_ready_def)
  note stp = log_start_props [OF g]
  have len: "length (disk u) = length (disk s)" using c by (simp add: committed_def)
  have gu: "log_geom ?u" using g len by (simp add: log_geom_def)
  have ru: "ready_in p ?u" using env_ready [OF rd e] by simp
  have iu: "bc_inv p {} ?u" using i by simp
  define Z where "Z = head_of (klog ?u) (bview u ?st)"
  obtain w where w: "write_head ?u = Ok () w" "wrote p ?st Z ?u w"
    using write_head_ok [OF ru iu gu] d by (auto simp: Z_def NBUF_def)
  have k: "disk w = (disk u)[?st := Z]" using w(2) by (simp add: wrote_def)
  have "length (bview u ?st) = BSIZE" using clean_block_length [OF i] stp len d by simp
  then have "hdr_n Z = 0" using head_of_props(1) [of "bview u ?st" "klog ?u"] g by (simp add: Z_def log_geom_def)
  then have hdr0: "hdr_n (disk w ! ?st) = 0" using k stp len by simp
  have "disk w ! x = bview s x" if x: "x < length (disk s)" "\<not> in_log (klog s) x" for x
  proof -
    have "x \<noteq> ?st" using x stp by auto
    then have "disk w ! x = disk u ! x" using k by simp
    also have "\<dots> = bview s x"
    proof (cases "x \<in> home s ` {..<logn s}")
      case False
      then have "disk u ! x = disk s ! x" using c x by (simp add: committed_def)
      then show ?thesis using bview_clean [OF inv, of x] dt False by simp
    qed (use h in auto)
    finally show ?thesis .
  qed
  then have "erased s (disk w)" using hdr0 k len by (simp add: erased_def)
  then show ?thesis using w d by (auto simp: wrote_def)
qed

lemma commit_ok:
  assumes t: "txn_ready p s"
  shows "\<exists>u new. commit s = Ok () u \<and> disk_hist u = disk_hist s @ new \<and>
    (\<forall>d\<in>set new. before_commit s d \<or> committed s d) \<and> erased s (disk u) \<and> bc_inv p {} u \<and> ready_in p u \<and> dirty u = {} \<and>
    klog u = (klog s)\<lparr>lh_n := 0\<rparr> \<and> (\<forall>l. (\<forall>c. l \<noteq> SlBuf c) \<longrightarrow> sleeplocks u l = sleeplocks s l) \<and> env (s\<lparr>klog := (klog s)\<lparr>lh_n := 0\<rparr>\<rparr>) u"
proof (cases "logn s = 0")
  case True
  then have z: "lh_n (klog s) = 0" "dirty s = {}" using t by (simp_all add: txn_ready_def logn_def)
  have k: "(klog s)\<lparr>lh_n := 0\<rparr> = klog s" using z(1) by (cases "klog s") simp
  have "bview s k = disk s ! k" for k using bview_clean t z(2) by (auto simp: txn_ready_def)
  then have "erased s (disk s)" using t by (simp add: erased_def txn_ready_def)
  moreover have "env (s\<lparr>klog := (klog s)\<lparr>lh_n := 0\<rparr>\<rparr>) s" unfolding k using env_refl t by (auto simp: txn_ready_def)
  ultimately show ?thesis using t z by (auto simp: commit_def kbind_apply txn_ready_def)
next
  case False
  from t have rd: "ready_in p s" by (simp add: txn_ready_def)
  obtain u1 u2 new1 where u2: "write_log s = Ok () u1" "write_head u1 = Ok () u2" "env s u2" "bc_inv p {} u2" "dirty u2 = dirty s"
      "committed s (disk u2)" "disk_hist u2 = disk_hist s @ new1" "\<forall>d\<in>set new1. before_commit s d"
      "\<forall>i < logn s. bview u2 (logaddr s i) = bview s (home s i)" "\<forall>l. (\<forall>c. l \<noteq> SlBuf c) \<longrightarrow> sleeplocks u2 l = sleeplocks s l"
    using commit_log_phase [OF t] by blast
  obtain u3 new2 where u3: "install_trans u2 = Ok () u3" "env u2 u3" "bc_inv p {} u3" "dirty u3 = {}" "committed s (disk u3)"
      "\<forall>i < logn s. disk u3 ! home s i = bview s (home s i)" "disk_hist u3 = disk_hist u2 @ new2" "\<forall>d\<in>set new2. committed s d"
      "\<forall>l. (\<forall>c. l \<noteq> SlBuf c) \<longrightarrow> sleeplocks u3 l = sleeplocks u2 l"
    using commit_install_phase [OF t u2(3-6)] u2(9) by blast
  have e3: "env s u3" by (rule env_trans [OF u2(3) u3(2)])
  let ?u4 = "u3\<lparr>klog := (klog s)\<lparr>lh_n := 0\<rparr>\<rparr>"
  obtain u where u: "write_head ?u4 = Ok () u" "env ?u4 u" "bc_inv p {} u" "dirty u = {}" "erased s (disk u)"
      "disk_hist u = disk_hist u3 @ [disk u3]" "\<forall>l. (\<forall>c. l \<noteq> SlBuf c) \<longrightarrow> sleeplocks u l = sleeplocks u3 l"
    using commit_erase_phase [OF t e3 u3(3-5)] u3(6) by blast
  have run: "commit s = Ok () u"
    using False u2(1,2) u3(1) u(1) env_klog [OF e3] by (simp add: commit_def kbind_apply kseq_apply upd_log_def logn_def)
  have hist: "disk_hist u = disk_hist s @ (new1 @ new2 @ [disk u3])" using u(6) u3(7) u2(7) by simp
  have imgs: "\<forall>d\<in>set (new1 @ new2 @ [disk u3]). before_commit s d \<or> committed s d" using u2(8) u3(5,8) by auto
  have "klog u = (klog s)\<lparr>lh_n := 0\<rparr>" using env_klog [OF u(2)] by simp
  moreover have "ready_in p u" using env_ready [OF _ u(2)] env_ready [OF rd e3] by simp
  moreover have "\<forall>l. (\<forall>c. l \<noteq> SlBuf c) \<longrightarrow> sleeplocks u l = sleeplocks s l" using u2(10) u3(9) u(7) by simp
  moreover have "env (s\<lparr>klog := (klog s)\<lparr>lh_n := 0\<rparr>\<rparr>) u"
  proof -
    have "bcache.more ?u4 = bcache.more (s\<lparr>klog := (klog s)\<lparr>lh_n := 0\<rparr>\<rparr>)" using e3 unfolding env_def by (cases s, cases u3) simp
    then show ?thesis using e3 u(2) by (auto simp: env_def)
  qed
  ultimately show ?thesis using run hist imgs u(3-5) by blast
qed

text \<open>C13. Transactions are atomic with respect to crashes. When \<open>commit\<close> is called with the
  transaction's blocks pinned in the cache, it succeeds and leaves every block of the file system on
  the disk with its cached contents; and if the machine stops after any of the disk writes in between
  (every image the disk goes through), then after a reboot on that image \<open>recover_from_log\<close> succeeds
  and restores either all blocks as they were before the transaction or all blocks as the transaction
  left them.\<close>

theorem commit_is_crash_atomic:
  assumes "txn_ready p s"
  shows "\<exists>u new. commit s = Ok () u \<and> disk_hist u = disk_hist s @ new \<and> dirty u = {} \<and>
    (\<forall>k < length (disk s). \<not> in_log (klog s) k \<longrightarrow> disk u ! k = bview s k) \<and>
    (\<forall>d\<in>set (new @ [disk u]). \<forall>q r. booted q (klog s) d (r :: 'm logged_scheme) \<longrightarrow>
      (\<exists>w. recover_from_log r = Ok () w \<and>
        ((\<forall>k < length (disk s). \<not> in_log (klog s) k \<longrightarrow> disk w ! k = disk s ! k) \<or>
         (\<forall>k < length (disk s). \<not> in_log (klog s) k \<longrightarrow> disk w ! k = bview s k))))"
proof -
  from assms have g: "log_geom s" and l: "log_blocks_ok s" by (simp_all add: txn_ready_def)
  obtain u new where u: "commit s = Ok () u" "disk_hist u = disk_hist s @ new" "\<forall>d\<in>set new. before_commit s d \<or> committed s d"
      "erased s (disk u)" "dirty u = {}" using commit_ok [OF assms] by blast
  have "\<exists>w. recover_from_log r = Ok () w \<and>
        ((\<forall>k < length (disk s). \<not> in_log (klog s) k \<longrightarrow> disk w ! k = disk s ! k) \<or>
         (\<forall>k < length (disk s). \<not> in_log (klog s) k \<longrightarrow> disk w ! k = bview s k))"
    if d: "d \<in> set (new @ [disk u])" and b: "booted q (klog s) d r" for d q and r :: "'m logged_scheme"
  proof -
    have k: "before_commit s d \<or> committed s d \<or> erased s d" using d u(3,4) by auto
    then have ok: "hdr_ok (klog s) (length d) (d ! unat (log_start (klog s)))"
      using hdr_ok_empty [OF _ g] committed_hdr_ok [OF l] by (auto simp: before_commit_def erased_def)
    from recover_ok [OF b ok] obtain w where w: "recover_from_log r = Ok () w" "same_home (klog s) (disk w) (replay (klog s) d)" by blast
    from k image_replay [OF assms, of d] w show ?thesis by (auto simp: same_home_def)
  qed
  moreover have "\<forall>k < length (disk s). \<not> in_log (klog s) k \<longrightarrow> disk u ! k = bview s k" using u(4) by (simp add: erased_def)
  ultimately show ?thesis using u(1,2,5) by blast
qed

text \<open>C14. Recovery can be repeated: on a disk whose log is valid, \<open>recover_from_log\<close> brings every
  logged block to its home location and leaves an empty log, and running it again changes no block of
  the file system.\<close>

theorem recovery_is_idempotent:
  assumes "booted p l d r" and "hdr_ok l (length d) (d ! unat (log_start l))"
  shows "\<exists>w. recover_from_log r = Ok () w \<and> same_home l (disk w) (replay l d) \<and> hdr_n (disk w ! unat (log_start l)) = 0 \<and>
    (\<forall>q r'. booted q l (disk w) (r' :: 'm logged_scheme) \<longrightarrow>
      (\<exists>w'. recover_from_log r' = Ok () w' \<and> same_home l (disk w') (disk w)))"
proof -
  obtain w where w: "recover_from_log r = Ok () w" "same_home l (disk w) (replay l d)" "hdr_n (disk w ! unat (log_start l)) = 0"
    using recover_ok [OF assms] by blast
  have "\<exists>w'. recover_from_log r' = Ok () w' \<and> same_home l (disk w') (disk w)" if b: "booted q l (disk w) r'" for q and r' :: "'m logged_scheme"
  proof -
    have "0 < log_size l" using b by (simp add: booted_def log_geom_def)
    then have ok: "hdr_ok l (length (disk w)) (disk w ! unat (log_start l))" using w(3) by (simp add: hdr_ok_def)
    have "replay l (disk w) = disk w" using w(3) by (simp add: replay_def)
    then show ?thesis using recover_ok [OF b ok] by auto
  qed
  with w show ?thesis by blast
qed

subsection \<open>The space the log reserves\<close>

lemma begin_op_ok:
  assumes "cpu_inv s" and "lock_free LkLog s" and "\<not> committing (klog s)"
    and "lh_n (klog s) + (outstanding (klog s) + 1) * MAXOPBLOCKS \<le> int LOGSIZE"
  shows "begin_op s = Ok () ((settle s)\<lparr>klog := (klog s)\<lparr>outstanding := outstanding (klog s) + 1\<rparr>\<rparr>)"
  using assms by (simp add: begin_op_def begin_op_loop_def upd_log_def kexec)


subsection \<open>Concrete machines\<close>

text \<open>A disk of eight blocks whose log area is the blocks 2 to 4, with a buffer of the first slot given.\<close>

definition log0 :: "int \<Rightarrow> int \<Rightarrow> log" where
  "log0 lsz n = \<lparr>log_start = 2, log_size = lsz, outstanding = 0, committing = False, log_dev = 1, lh_n = n, lh_block = 6 # replicate 29 0\<rparr>"

definition disk0 :: "uchar list list" where
  "disk0 = replicate 8 (replicate BSIZE 0)"

definition parked_l :: "buf \<Rightarrow> log \<Rightarrow> logged" where
  "parked_l b l = bcache.extend ((parked_b disk0)\<lparr>bufs := b # replicate 29 buf0\<rparr>) \<lparr>klog = l\<rparr>"

definition buf6 :: buf where
  "buf6 = \<lparr>b_valid = True, b_dirty = True, dev = 1, blockno = 6, refcnt = 0, data = replicate BSIZE 1\<rparr>"

lemma parked_l_ready: "ready_in 0 (run_on 0 (parked_l b l))" "cpu_inv (run_on 0 (parked_l b l))" "lock_free lk (run_on 0 (parked_l b l))"
proof -
  have "calm (parked_l b l)" "on_thread 0 0 (parked_l b l)" "all_free (parked_l b l)" "cpu_proc (cpus (parked_l b l) ! 0) = Some 0"
    using ready_calm ready_threads
    by (simp_all add: parked_l_def parked_b_def parked_k_def parked_m_def parked_sl_def calm_def on_thread_def runs_def lock_free_def
        all_free_def ptable.extend_def sltable.extend_def mtable.extend_def kmem.extend_def bcache.extend_def parked_def)
  then show "ready_in 0 (run_on 0 (parked_l b l))" "cpu_inv (run_on 0 (parked_l b l))" "lock_free lk (run_on 0 (parked_l b l))"
    using on_threadD [of 0 0 "parked_l b l"] by (simp_all add: ready_in_def all_free_def)
qed

lemma parked_l_fields [simp]: "length (bufs (parked_l b l)) = NBUF" "disk (parked_l b l) = disk0" "klog (parked_l b l) = l"
    "lru (parked_l b l) = rev [0 ..< NBUF]" "sleeplocks (parked_l b l) = (\<lambda>_. \<lparr>slocked = False, sl_pid = 0\<rparr>)"
  by (simp_all add: parked_l_def parked_b_def parked_k_def parked_m_def parked_sl_def bcache.extend_def kmem.extend_def mtable.extend_def
      sltable.extend_def ptable.extend_def NBUF_def)

lemma parked_l_nth [simp]: "i < NBUF \<Longrightarrow> bufs (parked_l b l) ! i = (if i = 0 then b else buf0)"
  using nth_Cons_replicate [of i 29 b buf0] by (simp add: NBUF_def parked_l_def bcache.extend_def)

lemma NBUF_pos [simp]: "0 < NBUF"
  by (simp add: NBUF_def)

lemma parked_l_inv: "b = buf0 \<or> b = buf6 \<Longrightarrow> bc_inv 0 {} (run_on 0 (parked_l b l))"
  by (auto simp: bc_inv_def bc_wf_def bc_locks_def bc_data_def disk0_def buf0_def buf6_def)

lemma parked_l_dirty: "dirty (run_on 0 (parked_l buf0 l)) = {}" "dirty (run_on 0 (parked_l buf6 l)) = {6}"
  unfolding dirty_def by (auto simp: buf0_def buf6_def split: if_splits intro!: exI [of _ "0 :: nat"])

lemma zero_header: "hdr_n (replicate BSIZE 0) = 0"
  by (simp add: hdr_n_def get32_def BSIZE_def)

lemma parked_l_geom: "2 < lsz \<Longrightarrow> lsz \<le> 6 \<Longrightarrow> log_geom (run_on 0 (parked_l b (log0 lsz n)))"
  by (simp add: log_geom_def log0_def LOGSIZE_def NBUF_def disk0_def)

lemma parked_l_txn: "txn_ready 0 (run_on 0 (parked_l buf6 (log0 3 1)))"
proof -
  let ?s = "run_on 0 (parked_l buf6 (log0 3 1))"
  have n: "logn ?s = 1" "home ?s 0 = 6" by (simp_all add: logn_def home_def log0_def)
  then have "home ?s ` {..<logn ?s} = {6}" by auto
  moreover have "log_blocks_ok ?s"
    using n by (simp add: log_blocks_ok_def lessThan_Suc) (simp add: LOGSIZE_def log0_def in_log_def disk0_def)
  ultimately show ?thesis
    using parked_l_ready(1) parked_l_inv parked_l_geom [of 3] parked_l_dirty(2) zero_header
    by (simp add: txn_ready_def) (simp add: log0_def disk0_def)
qed

theorem commit_is_crash_atomic_witness:
  "\<exists>u. commit (run_on 0 (parked_l buf6 (log0 3 1))) = Ok () u \<and> disk u ! 6 = replicate BSIZE 1"
proof -
  let ?s = "run_on 0 (parked_l buf6 (log0 3 1))"
  have i: "bc_data {} ?s" using parked_l_inv [of buf6] by (simp add: bc_inv_def)
  have "caches ?s 6 0" by (simp add: caches_def buf6_def)
  then have v: "bview ?s 6 = replicate BSIZE 1" using bview_cached [OF i, of 0 6] by (simp add: NBUF_def buf6_def)
  from commit_is_crash_atomic [OF parked_l_txn] obtain u where "commit ?s = Ok () u"
    "\<forall>k < length (disk ?s). \<not> in_log (klog ?s) k \<longrightarrow> disk u ! k = bview ?s k" by blast
  then show ?thesis using v by (auto simp: disk0_def log0_def in_log_def)
qed

theorem recovery_is_idempotent_witness:
  "\<exists>w. recover_from_log (run_on 0 (parked_l buf0 (log0 3 0))) = Ok () w \<and> same_home (log0 3 0) (disk w) (replay (log0 3 0) disk0)"
proof -
  let ?r = "run_on 0 (parked_l buf0 (log0 3 0))"
  have "booted 0 (log0 3 0) disk0 ?r"
    using parked_l_ready(1) parked_l_inv [of buf0] parked_l_geom [of 3] parked_l_dirty(1) by (simp add: booted_def)
  moreover have "hdr_ok (log0 3 0) (length disk0) (disk0 ! unat (log_start (log0 3 0)))"
    using zero_header by (simp add: hdr_ok_def log0_def disk0_def)
  ultimately show ?thesis using recovery_is_idempotent by blast
qed


end
