(* ===== verification/Fs.thy ===== *)
theory Fs
  imports Log
begin

unbundle bit_operations_syntax

text \<open>
  The file system proper (\<open>fs.c\<close>): the block allocator, the inode cache and the inodes on disk, the
  contents of a file as a sequence of blocks, directories, and path names.
\<close>

subsection \<open>State\<close>

definition NDIRECT :: nat where "NDIRECT = 12"
definition NINDIRECT :: nat where "NINDIRECT = BSIZE div 4"
definition MAXFILE :: nat where "MAXFILE = NDIRECT + NINDIRECT"
definition BPB :: nat where "BPB = BSIZE * 8"
definition IPB :: nat where "IPB = BSIZE div 64"
definition DIRSIZ :: nat where "DIRSIZ = 14"
definition ROOTINO :: uint where "ROOTINO = 1"
definition ROOTDEV :: uint where "ROOTDEV = 1"
definition NINODE :: nat where "NINODE = 50"
definition NDEV :: nat where "NDEV = 10"
definition T_DIR :: "16 word" where "T_DIR = 1"
definition T_FILE :: "16 word" where "T_FILE = 2"
definition T_DEV :: "16 word" where "T_DEV = 3"

record inode =
  i_dev :: uint
  inum :: uint
  i_ref :: int
  i_valid :: bool
  itype :: "16 word"
  imajor :: "16 word"
  iminor :: "16 word"
  inlink :: "16 word"
  isize :: uint
  addrs :: "uint list"

record stat =
  st_type :: "16 word"
  st_dev :: uint
  st_ino :: uint
  st_nlink :: "16 word"
  st_size :: uint

record fsys = logged +
  inodes :: "inode list"
  ksb :: superblock

lemma inodes_frame [simp]:
  "inodes (push s) = inodes s"
  "inodes (pop s) = inodes s"
  "inodes (settle s) = inodes s"
  "inodes (acq lk s) = inodes s"
  "inodes (rel lk s) = inodes s"
  "inodes (upd_cpu c g s) = inodes s"
  "inodes (upd_cur g s) = inodes s"
  "inodes (upd_lock lk h s) = inodes s"
  "inodes (upd_thread t k s) = inodes s"
  "inodes (upd_proc p q s) = inodes s"
  "inodes (run_on c s) = inodes s"
  "settle (s\<lparr>inodes := x\<rparr>) = (settle s)\<lparr>inodes := x\<rparr>"
  "acq lk (s\<lparr>inodes := x\<rparr>) = (acq lk s)\<lparr>inodes := x\<rparr>"
  "rel lk (s\<lparr>inodes := x\<rparr>) = (rel lk s)\<lparr>inodes := x\<rparr>"
  "upd_cpu c g (s\<lparr>inodes := x\<rparr>) = (upd_cpu c g s)\<lparr>inodes := x\<rparr>"
  "upd_cur g (s\<lparr>inodes := x\<rparr>) = (upd_cur g s)\<lparr>inodes := x\<rparr>"
  "upd_lock lk h (s\<lparr>inodes := x\<rparr>) = (upd_lock lk h s)\<lparr>inodes := x\<rparr>"
  "upd_thread t k (s\<lparr>inodes := x\<rparr>) = (upd_thread t k s)\<lparr>inodes := x\<rparr>"
  "upd_proc p q (s\<lparr>inodes := x\<rparr>) = (upd_proc p q s)\<lparr>inodes := x\<rparr>"
  "run_on c (s\<lparr>inodes := x\<rparr>) = (run_on c s)\<lparr>inodes := x\<rparr>"
  "this_cpu (s\<lparr>inodes := x\<rparr>) = this_cpu s"
  "cur (s\<lparr>inodes := x\<rparr>) = cur s"
  "cpu_inv (s\<lparr>inodes := x\<rparr>) = cpu_inv s"
  "in_cs (s\<lparr>inodes := x\<rparr>) = in_cs s"
  "lock_free lk (s\<lparr>inodes := x\<rparr>) = lock_free lk s"
  "lock_held lk (s\<lparr>inodes := x\<rparr>) = lock_held lk s"
  "calm (s\<lparr>inodes := x\<rparr>) = calm s"
  "runs (s\<lparr>inodes := x\<rparr>) = runs s"
  by (simp_all add: frame_ext_defs)

lemma ksb_frame [simp]:
  "ksb (push s) = ksb s"
  "ksb (pop s) = ksb s"
  "ksb (settle s) = ksb s"
  "ksb (acq lk s) = ksb s"
  "ksb (rel lk s) = ksb s"
  "ksb (upd_cpu c g s) = ksb s"
  "ksb (upd_cur g s) = ksb s"
  "ksb (upd_lock lk h s) = ksb s"
  "ksb (upd_thread t k s) = ksb s"
  "ksb (upd_proc p q s) = ksb s"
  "ksb (run_on c s) = ksb s"
  "settle (s\<lparr>ksb := x\<rparr>) = (settle s)\<lparr>ksb := x\<rparr>"
  "acq lk (s\<lparr>ksb := x\<rparr>) = (acq lk s)\<lparr>ksb := x\<rparr>"
  "rel lk (s\<lparr>ksb := x\<rparr>) = (rel lk s)\<lparr>ksb := x\<rparr>"
  "upd_cpu c g (s\<lparr>ksb := x\<rparr>) = (upd_cpu c g s)\<lparr>ksb := x\<rparr>"
  "upd_cur g (s\<lparr>ksb := x\<rparr>) = (upd_cur g s)\<lparr>ksb := x\<rparr>"
  "upd_lock lk h (s\<lparr>ksb := x\<rparr>) = (upd_lock lk h s)\<lparr>ksb := x\<rparr>"
  "upd_thread t k (s\<lparr>ksb := x\<rparr>) = (upd_thread t k s)\<lparr>ksb := x\<rparr>"
  "upd_proc p q (s\<lparr>ksb := x\<rparr>) = (upd_proc p q s)\<lparr>ksb := x\<rparr>"
  "run_on c (s\<lparr>ksb := x\<rparr>) = (run_on c s)\<lparr>ksb := x\<rparr>"
  "this_cpu (s\<lparr>ksb := x\<rparr>) = this_cpu s"
  "cur (s\<lparr>ksb := x\<rparr>) = cur s"
  "cpu_inv (s\<lparr>ksb := x\<rparr>) = cpu_inv s"
  "in_cs (s\<lparr>ksb := x\<rparr>) = in_cs s"
  "lock_free lk (s\<lparr>ksb := x\<rparr>) = lock_free lk s"
  "lock_held lk (s\<lparr>ksb := x\<rparr>) = lock_held lk s"
  "calm (s\<lparr>ksb := x\<rparr>) = calm s"
  "runs (s\<lparr>ksb := x\<rparr>) = runs s"
  by (simp_all add: frame_ext_defs)

definition upd_inode :: "nat \<Rightarrow> (inode \<Rightarrow> inode) \<Rightarrow> 'm fsys_scheme \<Rightarrow> 'm fsys_scheme" where
  "upd_inode i f s = s\<lparr>inodes := (inodes s)[i := f (inodes s ! i)]\<rparr>"

text \<open>
  Bytes pass between files and either memory at an address or a local variable of the kernel, such
  as a directory entry on its stack, which is a list of bytes.
\<close>

datatype kbuf = KMem uint | KLocal "uchar list"

text \<open>
  The address the hardware accesses for a virtual address: the kernel's part of the address space is
  mapped directly, the user part through the page table in \<open>cr3\<close>. The callers have checked that
  user addresses lie inside the process.
\<close>

definition vaddr :: "'m kmem_scheme \<Rightarrow> uint \<Rightarrow> uint" where
  "vaddr s a = (if KERNBASE \<le> a then a else
     let pde = rd32 (mem s) (P2V (cr3 s) + 4 * PDX a);
         pte = rd32 (mem s) (P2V (PTE_ADDR pde) + 4 * PTX a)
     in P2V (PTE_ADDR pte) + (a AND 0xFFF))"

definition fetch_bytes :: "kbuf \<Rightarrow> nat \<Rightarrow> nat \<Rightarrow> 'm kmem_scheme \<Rightarrow> uchar list" where
  "fetch_bytes src off n s = (case src of
     KMem a \<Rightarrow> map (\<lambda>i. mem s (vaddr s (a + of_nat (off + i)))) [0 ..< n]
   | KLocal bs \<Rightarrow> take n (drop off bs))"

definition store_bytes :: "kbuf \<Rightarrow> nat \<Rightarrow> uchar list \<Rightarrow> ('m kmem_scheme, unit) kop" where
  "store_bytes dst off bs = (case dst of
     KMem a \<Rightarrow> kmod (\<lambda>s. s\<lparr>mem := fold (\<lambda>i m. m(vaddr s (a + of_nat (off + i)) := bs ! i)) [0 ..< length bs] (mem s)\<rparr>)
   | KLocal _ \<Rightarrow> kret ())"

text \<open>
  The device switch: \<open>devsw[major].read\<close> and \<open>devsw[major].write\<close> are function pointers the drivers
  fill in, so they are arguments of the operations that call through them.
\<close>

type_synonym 's devfun = "int \<Rightarrow> (nat \<Rightarrow> kbuf \<Rightarrow> int \<Rightarrow> ('s, int) kop) option"

subsection \<open>Blocks\<close>

definition bzero :: "uint \<Rightarrow> uint \<Rightarrow> ('m logged_scheme, unit) kop" where
  "bzero d bno =
     kbind (bread d bno) (\<lambda>bp.
     kseq (kmod (upd_buf bp (\<lambda>x. x\<lparr>data := replicate BSIZE 0\<rparr>)))
     (kseq (log_write bp)
     (brelse bp)))"

definition BBLOCK :: "nat \<Rightarrow> superblock \<Rightarrow> uint" where
  "BBLOCK b sb = of_nat (b div BPB) + sb_bmapstart sb"

definition bit_mask :: "nat \<Rightarrow> uchar" where
  "bit_mask bi = push_bit (bi mod 8) 1"

fun balloc_loop :: "uint \<Rightarrow> superblock \<Rightarrow> nat list \<Rightarrow> ('m logged_scheme, uint) kop" where
  "balloc_loop d sb [] = kpanic ''balloc: out of blocks''"
| "balloc_loop d sb (b # bs) =
     kbind (bread d (BBLOCK b sb)) (\<lambda>bp.
     kbind (kget (\<lambda>s. find (\<lambda>bi. data (bufs s ! bp) ! (bi div 8) AND bit_mask bi = 0)
        [0 ..< min BPB (unat (sb_size sb) - b)])) (\<lambda>r.
     case r of
       Some bi \<Rightarrow>
         kseq (kmod (upd_buf bp (\<lambda>x. x\<lparr>data := (data x)[bi div 8 := data x ! (bi div 8) OR bit_mask bi]\<rparr>)))
         (kseq (log_write bp)
         (kseq (brelse bp)
         (kseq (bzero d (of_nat (b + bi)))
         (kret (of_nat (b + bi))))))
     | None \<Rightarrow>
         kseq (brelse bp)
         (balloc_loop d sb bs)))"

definition balloc :: "uint \<Rightarrow> ('m fsys_scheme, uint) kop" where
  "balloc d =
     kbind (kget ksb) (\<lambda>sb.
     balloc_loop d sb (map (\<lambda>i. BPB * i) [0 ..< (unat (sb_size sb) + BPB - 1) div BPB]))"

definition bfree :: "uint \<Rightarrow> uint \<Rightarrow> ('m fsys_scheme, unit) kop" where
  "bfree d b =
     kbind (readsb d) (\<lambda>sb.
     kseq (kmod (\<lambda>s. s\<lparr>ksb := sb\<rparr>))
     (kbind (bread d (BBLOCK (unat b) sb)) (\<lambda>bp.
     let bi = unat b mod BPB in
     kbind (kget (\<lambda>s. data (bufs s ! bp) ! (bi div 8))) (\<lambda>v.
     if v AND bit_mask bi = 0 then kpanic ''freeing free block'' else
     kseq (kmod (upd_buf bp (\<lambda>x. x\<lparr>data := (data x)[bi div 8 := v AND NOT (bit_mask bi)]\<rparr>)))
     (kseq (log_write bp)
     (brelse bp))))))"

subsection \<open>Inodes\<close>

definition iinit :: "uint \<Rightarrow> ('m fsys_scheme, unit) kop" where
  "iinit d =
     kseq (initlock LkIcache ''icache'')
     (kseq (each (\<lambda>i. initsleeplock (SlInode i)) [0 ..< NINODE])
     (kbind (readsb d) (\<lambda>sb.
     kmod (\<lambda>s. s\<lparr>ksb := sb\<rparr>))))"

definition IBLOCK :: "uint \<Rightarrow> superblock \<Rightarrow> uint" where
  "IBLOCK i sb = of_nat (unat i div IPB) + sb_inodestart sb"

text \<open>An inode on disk: sixteen 32-bit words, the first two of them four half words.\<close>

definition dinode_type :: "uchar list \<Rightarrow> nat \<Rightarrow> 16 word" where
  "dinode_type d k = get16 d (32 * k)"

definition load_dinode :: "uchar list \<Rightarrow> nat \<Rightarrow> inode \<Rightarrow> inode" where
  "load_dinode d k ip = ip\<lparr>itype := get16 d (32 * k), imajor := get16 d (32 * k + 1), iminor := get16 d (32 * k + 2),
     inlink := get16 d (32 * k + 3), isize := get32 d (16 * k + 2), addrs := map (\<lambda>j. get32 d (16 * k + 3 + j)) [0 ..< NDIRECT + 1]\<rparr>"

definition store_dinode :: "inode \<Rightarrow> nat \<Rightarrow> uchar list \<Rightarrow> uchar list" where
  "store_dinode ip k d = put_words (16 * k + 2) (isize ip # addrs ip)
     (put16 (32 * k + 3) (inlink ip) (put16 (32 * k + 2) (iminor ip) (put16 (32 * k + 1) (imajor ip) (put16 (32 * k) (itype ip) d))))"

definition iget :: "uint \<Rightarrow> uint \<Rightarrow> ('m fsys_scheme, nat) kop" where
  "iget d n =
     kseq (acquire LkIcache)
     (kbind (kget (\<lambda>s. scan (\<lambda>ip. i_ref ip > 0 \<and> i_dev ip = d \<and> inum ip = n) (inodes s))) (\<lambda>r.
     case r of
       Some i \<Rightarrow>
         kseq (kmod (upd_inode i (\<lambda>ip. ip\<lparr>i_ref := i_ref ip + 1\<rparr>)))
         (kseq (release LkIcache)
         (kret i))
     | None \<Rightarrow>
         kbind (kget (\<lambda>s. scan (\<lambda>ip. i_ref ip = 0) (inodes s))) (\<lambda>r.
         case r of
           None \<Rightarrow> kpanic ''iget: no inodes''
         | Some i \<Rightarrow>
             kseq (kmod (upd_inode i (\<lambda>ip. ip\<lparr>i_dev := d, inum := n, i_ref := 1, i_valid := False\<rparr>)))
             (kseq (release LkIcache)
             (kret i)))))"

fun ialloc_loop :: "uint \<Rightarrow> 16 word \<Rightarrow> nat list \<Rightarrow> ('m fsys_scheme, nat) kop" where
  "ialloc_loop d ty [] = kpanic ''ialloc: no inodes''"
| "ialloc_loop d ty (i # is) =
     kbind (kget (\<lambda>s. IBLOCK (of_nat i) (ksb s))) (\<lambda>bn.
     kbind (bread d bn) (\<lambda>bp.
     kbind (kget (\<lambda>s. dinode_type (data (bufs s ! bp)) (i mod IPB))) (\<lambda>t.
     if t = 0 then
       kseq (kmod (upd_buf bp (\<lambda>x. x\<lparr>data := put16 (32 * (i mod IPB)) ty (put_at (64 * (i mod IPB)) (replicate 64 0) (data x))\<rparr>)))
       (kseq (log_write bp)
       (kseq (brelse bp)
       (iget d (of_nat i))))
     else
       kseq (brelse bp)
       (ialloc_loop d ty is))))"

definition ialloc :: "uint \<Rightarrow> 16 word \<Rightarrow> ('m fsys_scheme, nat) kop" where
  "ialloc d ty =
     kbind (kget (\<lambda>s. unat (sb_ninodes (ksb s)))) (\<lambda>n.
     ialloc_loop d ty [1 ..< n])"

definition iupdate :: "nat \<Rightarrow> ('m fsys_scheme, unit) kop" where
  "iupdate i =
     kbind (kget (\<lambda>s. inodes s ! i)) (\<lambda>ip.
     kbind (kget (\<lambda>s. IBLOCK (inum ip) (ksb s))) (\<lambda>bn.
     kbind (bread (i_dev ip) bn) (\<lambda>bp.
     kseq (kmod (upd_buf bp (\<lambda>x. x\<lparr>data := store_dinode ip (unat (inum ip) mod IPB) (data x)\<rparr>)))
     (kseq (log_write bp)
     (brelse bp)))))"

definition idup :: "nat \<Rightarrow> ('m fsys_scheme, nat) kop" where
  "idup i =
     kseq (acquire LkIcache)
     (kseq (kmod (upd_inode i (\<lambda>ip. ip\<lparr>i_ref := i_ref ip + 1\<rparr>)))
     (kseq (release LkIcache)
     (kret i)))"

definition ilock :: "nat option \<Rightarrow> ('m fsys_scheme, unit) kop" where
  "ilock i0 = (case i0 of None \<Rightarrow> kpanic ''ilock'' | Some i \<Rightarrow>
     kbind (kget (\<lambda>s. i_ref (inodes s ! i))) (\<lambda>r.
     if r < 1 then kpanic ''ilock'' else
     kseq (acquiresleep (SlInode i))
     (kbind (kget (\<lambda>s. inodes s ! i)) (\<lambda>ip.
     if i_valid ip then kret () else
     kbind (kget (\<lambda>s. IBLOCK (inum ip) (ksb s))) (\<lambda>bn.
     kbind (bread (i_dev ip) bn) (\<lambda>bp.
     kseq (kmod (\<lambda>s. upd_inode i (load_dinode (data (bufs s ! bp)) (unat (inum ip) mod IPB)) s))
     (kseq (brelse bp)
     (kseq (kmod (upd_inode i (\<lambda>ip. ip\<lparr>i_valid := True\<rparr>)))
     (kbind (kget (\<lambda>s. itype (inodes s ! i))) (\<lambda>t.
     if t = 0 then kpanic ''ilock: no type'' else kret ()))))))))))"

definition iunlock :: "nat option \<Rightarrow> ('m fsys_scheme, unit) kop" where
  "iunlock i0 = (case i0 of None \<Rightarrow> kpanic ''iunlock'' | Some i \<Rightarrow>
     kbind (holdingsleep (SlInode i)) (\<lambda>h.
     kbind (kget (\<lambda>s. i_ref (inodes s ! i))) (\<lambda>r.
     if \<not> h \<or> r < 1 then kpanic ''iunlock'' else
     releasesleep (SlInode i))))"

definition itrunc_direct :: "nat \<Rightarrow> nat \<Rightarrow> ('m fsys_scheme, unit) kop" where
  "itrunc_direct i j =
     kbind (kget (\<lambda>s. inodes s ! i)) (\<lambda>ip.
     if addrs ip ! j \<noteq> 0 then
       kseq (bfree (i_dev ip) (addrs ip ! j))
       (kmod (upd_inode i (\<lambda>ip. ip\<lparr>addrs := (addrs ip)[j := 0]\<rparr>)))
     else kret ())"

definition itrunc_indirect :: "nat \<Rightarrow> nat \<Rightarrow> nat \<Rightarrow> ('m fsys_scheme, unit) kop" where
  "itrunc_indirect i bp j =
     kbind (kget (\<lambda>s. get32 (data (bufs s ! bp)) j)) (\<lambda>a.
     kbind (kget (\<lambda>s. i_dev (inodes s ! i))) (\<lambda>d.
     if a \<noteq> 0 then bfree d a else kret ()))"

definition itrunc :: "nat \<Rightarrow> ('m fsys_scheme, unit) kop" where
  "itrunc i =
     kseq (each (itrunc_direct i) [0 ..< NDIRECT])
     (kbind (kget (\<lambda>s. inodes s ! i)) (\<lambda>ip.
     kseq (if addrs ip ! NDIRECT \<noteq> 0 then
         kbind (bread (i_dev ip) (addrs ip ! NDIRECT)) (\<lambda>bp.
         kseq (each (itrunc_indirect i bp) [0 ..< NINDIRECT])
         (kseq (brelse bp)
         (kseq (bfree (i_dev ip) (addrs ip ! NDIRECT))
         (kmod (upd_inode i (\<lambda>ip. ip\<lparr>addrs := (addrs ip)[NDIRECT := 0]\<rparr>))))))
       else kret ())
     (kseq (kmod (upd_inode i (\<lambda>ip. ip\<lparr>isize := 0\<rparr>)))
     (iupdate i))))"

definition iput :: "nat \<Rightarrow> ('m fsys_scheme, unit) kop" where
  "iput i =
     kseq (acquiresleep (SlInode i))
     (kbind (kget (\<lambda>s. inodes s ! i)) (\<lambda>ip.
     kseq (if i_valid ip \<and> inlink ip = 0 then
         kseq (acquire LkIcache)
         (kbind (kget (\<lambda>s. i_ref (inodes s ! i))) (\<lambda>r.
         kseq (release LkIcache)
         (if r = 1 then
           kseq (itrunc i)
           (kseq (kmod (upd_inode i (\<lambda>ip. ip\<lparr>itype := 0\<rparr>)))
           (kseq (iupdate i)
           (kmod (upd_inode i (\<lambda>ip. ip\<lparr>i_valid := False\<rparr>)))))
         else kret ())))
       else kret ())
     (kseq (releasesleep (SlInode i))
     (kseq (acquire LkIcache)
     (kseq (kmod (upd_inode i (\<lambda>ip. ip\<lparr>i_ref := i_ref ip - 1\<rparr>)))
     (release LkIcache))))))"

definition iunlockput :: "nat \<Rightarrow> ('m fsys_scheme, unit) kop" where
  "iunlockput i = kseq (iunlock (Some i)) (iput i)"

subsection \<open>File contents\<close>

definition bmap :: "nat \<Rightarrow> nat \<Rightarrow> ('m fsys_scheme, uint) kop" where
  "bmap i bn =
     kbind (kget (\<lambda>s. inodes s ! i)) (\<lambda>ip.
     if bn < NDIRECT then
       if addrs ip ! bn = 0 then
         kbind (balloc (i_dev ip)) (\<lambda>a.
         kseq (kmod (upd_inode i (\<lambda>ip. ip\<lparr>addrs := (addrs ip)[bn := a]\<rparr>)))
         (kret a))
       else kret (addrs ip ! bn)
     else if bn - NDIRECT < NINDIRECT then
       kbind (if addrs ip ! NDIRECT = 0 then
           kbind (balloc (i_dev ip)) (\<lambda>a.
           kseq (kmod (upd_inode i (\<lambda>ip. ip\<lparr>addrs := (addrs ip)[NDIRECT := a]\<rparr>)))
           (kret a))
         else kret (addrs ip ! NDIRECT)) (\<lambda>ind.
       kbind (bread (i_dev ip) ind) (\<lambda>bp.
       kbind (kget (\<lambda>s. get32 (data (bufs s ! bp)) (bn - NDIRECT))) (\<lambda>a0.
       kbind (if a0 = 0 then
           kbind (balloc (i_dev ip)) (\<lambda>a.
           kseq (kmod (upd_buf bp (\<lambda>x. x\<lparr>data := put32 (bn - NDIRECT) a (data x)\<rparr>)))
           (kseq (log_write bp)
           (kret a)))
         else kret a0) (\<lambda>a.
       kseq (brelse bp)
       (kret a)))))
     else kpanic ''bmap: out of range'')"

definition stati :: "nat \<Rightarrow> ('m fsys_scheme, stat) kop" where
  "stati i = kget (\<lambda>s. let ip = inodes s ! i in
     \<lparr>st_type = itype ip, st_dev = i_dev ip, st_ino = inum ip, st_nlink = inlink ip, st_size = isize ip\<rparr>)"

text \<open>The copying loops; \<open>n\<close> is what remains of the request, \<open>tot\<close> what was done.\<close>

function readi_loop :: "nat \<Rightarrow> kbuf \<Rightarrow> nat \<Rightarrow> nat \<Rightarrow> nat \<Rightarrow> ('m fsys_scheme, uchar list) kop" where
  "readi_loop i dst tot off n =
     (if n = 0 then kret [] else
     let m = min n (BSIZE - off mod BSIZE) in
     kbind (bmap i (off div BSIZE)) (\<lambda>a.
     kbind (kget (\<lambda>s. i_dev (inodes s ! i))) (\<lambda>d.
     kbind (bread d a) (\<lambda>bp.
     kbind (kget (\<lambda>s. get_at (off mod BSIZE) m (data (bufs s ! bp)))) (\<lambda>bs.
     kseq (store_bytes dst tot bs)
     (kseq (brelse bp)
     (kbind (readi_loop i dst (tot + m) (off + m) (n - m)) (\<lambda>rest.
     kret (bs @ rest)))))))))"
  by pat_completeness auto

termination by (relation "measure (\<lambda>(i, dst, tot, off, n). n)") (auto simp: BSIZE_def)

declare readi_loop.simps [simp del]

text \<open>The result is the return value and, for a local destination, the bytes it holds.\<close>

definition readi :: "('m fsys_scheme) devfun \<Rightarrow> nat \<Rightarrow> kbuf \<Rightarrow> uint \<Rightarrow> uint \<Rightarrow> ('m fsys_scheme, int \<times> uchar list) kop" where
  "readi dv i dst off n =
     kbind (kget (\<lambda>s. inodes s ! i)) (\<lambda>ip.
     if itype ip = T_DEV then
       if sint (imajor ip) < 0 \<or> int NDEV \<le> sint (imajor ip) then kret (-1, [])
       else case dv (sint (imajor ip)) of
         None \<Rightarrow> kret (-1, [])
       | Some f \<Rightarrow> kbind (f i dst (sint n)) (\<lambda>r. kret (r, []))
     else if off > isize ip \<or> off + n < off then kret (-1, [])
     else
       let n1 = (if off + n > isize ip then isize ip - off else n) in
       kbind (readi_loop i dst 0 (unat off) (unat n1)) (\<lambda>bs.
       kret (sint n1, bs)))"

function writei_loop :: "nat \<Rightarrow> kbuf \<Rightarrow> nat \<Rightarrow> nat \<Rightarrow> nat \<Rightarrow> ('m fsys_scheme, unit) kop" where
  "writei_loop i src tot off n =
     (if n = 0 then kret () else
     let m = min n (BSIZE - off mod BSIZE) in
     kbind (bmap i (off div BSIZE)) (\<lambda>a.
     kbind (kget (\<lambda>s. i_dev (inodes s ! i))) (\<lambda>d.
     kbind (bread d a) (\<lambda>bp.
     kbind (kget (fetch_bytes src tot m)) (\<lambda>bs.
     kseq (kmod (upd_buf bp (\<lambda>x. x\<lparr>data := put_at (off mod BSIZE) bs (data x)\<rparr>)))
     (kseq (log_write bp)
     (kseq (brelse bp)
     (writei_loop i src (tot + m) (off + m) (n - m)))))))))"
  by pat_completeness auto

termination by (relation "measure (\<lambda>(i, src, tot, off, n). n)") (auto simp: BSIZE_def)

declare writei_loop.simps [simp del]

definition writei :: "('m fsys_scheme) devfun \<Rightarrow> nat \<Rightarrow> kbuf \<Rightarrow> uint \<Rightarrow> uint \<Rightarrow> ('m fsys_scheme, int) kop" where
  "writei dv i src off n =
     kbind (kget (\<lambda>s. inodes s ! i)) (\<lambda>ip.
     if itype ip = T_DEV then
       if sint (imajor ip) < 0 \<or> int NDEV \<le> sint (imajor ip) then kret (-1)
       else case dv (sint (imajor ip)) of
         None \<Rightarrow> kret (-1)
       | Some f \<Rightarrow> f i src (sint n)
     else if off > isize ip \<or> off + n < off then kret (-1)
     else if off + n > of_nat (MAXFILE * BSIZE) then kret (-1)
     else
       kseq (writei_loop i src 0 (unat off) (unat n))
       (kseq (kbind (kget (\<lambda>s. isize (inodes s ! i))) (\<lambda>sz0.
         if n > 0 \<and> off + n > sz0 then
           kseq (kmod (upd_inode i (\<lambda>ip. ip\<lparr>isize := off + n\<rparr>)))
           (iupdate i)
         else kret ()))
       (kret (sint n))))"

subsection \<open>Directories\<close>

text \<open>Names are byte arrays of length \<open>DIRSIZ\<close>, not necessarily terminated; the comparison is \<open>strncmp\<close> on them.\<close>

fun strncmp_bytes :: "nat \<Rightarrow> uchar list \<Rightarrow> uchar list \<Rightarrow> int" where
  "strncmp_bytes (Suc n) (p # ps) (q # qs) =
     (if p \<noteq> 0 \<and> p = q then strncmp_bytes n ps qs else uint p - uint q)"
| "strncmp_bytes n ps qs = 0"

definition namecmp :: "uchar list \<Rightarrow> uchar list \<Rightarrow> int" where
  "namecmp s t = strncmp_bytes DIRSIZ s t"

definition dirent_inum :: "uchar list \<Rightarrow> 16 word" where
  "dirent_inum de = get16 de 0"

definition dirent_name :: "uchar list \<Rightarrow> uchar list" where
  "dirent_name de = drop 2 de"

text \<open>The offsets of the entries of a directory of the given size.\<close>

definition dir_offsets :: "uint \<Rightarrow> nat list" where
  "dir_offsets len = map (\<lambda>k. 16 * k) [0 ..< (unat len + 15) div 16]"

fun dirlookup_loop :: "('m fsys_scheme) devfun \<Rightarrow> nat \<Rightarrow> uchar list \<Rightarrow> nat list \<Rightarrow> ('m fsys_scheme, (nat \<times> nat) option) kop" where
  "dirlookup_loop dv dp name [] = kret None"
| "dirlookup_loop dv dp name (off # offs) =
     kbind (readi dv dp (KLocal []) (of_nat off) 16) (\<lambda>(r, de).
     if r \<noteq> 16 then kpanic ''dirlookup read''
     else if dirent_inum de = 0 then dirlookup_loop dv dp name offs
     else if namecmp name (dirent_name de) = 0 then
       kbind (kget (\<lambda>s. i_dev (inodes s ! dp))) (\<lambda>d.
       kbind (iget d (ucast (dirent_inum de))) (\<lambda>ip.
       kret (Some (ip, off))))
     else dirlookup_loop dv dp name offs)"

text \<open>The result is the inode and the byte offset of its entry.\<close>

definition dirlookup :: "('m fsys_scheme) devfun \<Rightarrow> nat \<Rightarrow> uchar list \<Rightarrow> ('m fsys_scheme, (nat \<times> nat) option) kop" where
  "dirlookup dv dp name =
     kbind (kget (\<lambda>s. inodes s ! dp)) (\<lambda>ip.
     if itype ip \<noteq> T_DIR then kpanic ''dirlookup not DIR'' else
     dirlookup_loop dv dp name (dir_offsets (isize ip)))"

fun dirlink_slot :: "('m fsys_scheme) devfun \<Rightarrow> nat \<Rightarrow> nat \<Rightarrow> nat list \<Rightarrow> ('m fsys_scheme, nat) kop" where
  "dirlink_slot dv dp final [] = kret final"
| "dirlink_slot dv dp final (off # offs) =
     kbind (readi dv dp (KLocal []) (of_nat off) 16) (\<lambda>(r, de).
     if r \<noteq> 16 then kpanic ''dirlink read''
     else if dirent_inum de = 0 then kret off
     else dirlink_slot dv dp final offs)"

text \<open>\<open>strncpy\<close> into a name field: the bytes up to the terminator, padded with zeros.\<close>

definition strncpy_name :: "uchar list \<Rightarrow> uchar list" where
  "strncpy_name name = (let bs = takeWhile (\<lambda>c. c \<noteq> 0) (take DIRSIZ name) in bs @ replicate (DIRSIZ - length bs) 0)"

definition dirlink :: "('m fsys_scheme) devfun \<Rightarrow> ('m fsys_scheme) devfun \<Rightarrow> nat \<Rightarrow> uchar list \<Rightarrow> uint \<Rightarrow> ('m fsys_scheme, int) kop" where
  "dirlink dr dw dp name ino =
     kbind (dirlookup dr dp name) (\<lambda>r.
     case r of
       Some (ip, _) \<Rightarrow>
         kseq (iput ip)
         (kret (-1))
     | None \<Rightarrow>
         kbind (kget (\<lambda>s. isize (inodes s ! dp))) (\<lambda>len.
         kbind (dirlink_slot dr dp (16 * ((unat len + 15) div 16)) (dir_offsets len)) (\<lambda>off.
         kbind (writei dw dp (KLocal (put16 0 (ucast ino) (replicate 2 0) @ strncpy_name name)) (of_nat off) 16) (\<lambda>w.
         if w \<noteq> 16 then kpanic ''dirlink'' else kret 0))))"

subsection \<open>Paths\<close>

text \<open>
  A path is the bytes of the string up to its terminator. \<open>skipelem\<close> returns what follows the next
  element and the element in the name buffer, whose old contents show through behind the terminator.
\<close>

definition slash :: uchar where "slash = 47"

definition skipelem :: "uchar list \<Rightarrow> uchar list \<Rightarrow> (uchar list \<times> uchar list) option" where
  "skipelem path name =
     (case dropWhile (\<lambda>c. c = slash) path of
       [] \<Rightarrow> None
     | p # ps \<Rightarrow>
         let elem = takeWhile (\<lambda>c. c \<noteq> slash) (p # ps);
             rest = dropWhile (\<lambda>c. c \<noteq> slash) (p # ps);
             len = length elem
         in Some (dropWhile (\<lambda>c. c = slash) rest,
              if DIRSIZ \<le> len then take DIRSIZ elem else elem @ [0] @ drop (len + 1) name))"

lemma skipelem_shorter: "skipelem path name = Some (rest, nm) \<Longrightarrow> length rest < length path"
proof -
  assume s: "skipelem path name = Some (rest, nm)"
  then obtain p ps where p: "dropWhile (\<lambda>c. c = slash) path = p # ps" by (auto simp: skipelem_def split: list.splits)
  then have "p \<noteq> slash" using hd_dropWhile [of "\<lambda>c. c = slash" path] by auto
  then have "rest = dropWhile (\<lambda>c. c = slash) (dropWhile (\<lambda>c. c \<noteq> slash) ps)" using s p by (auto simp: skipelem_def Let_def)
  then have "length rest \<le> length ps" using length_dropWhile_le order_trans by metis
  moreover have "length (p # ps) \<le> length path" using p length_dropWhile_le [of "\<lambda>c. c = slash" path] by simp
  ultimately show ?thesis by simp
qed

function namex_loop :: "('m fsys_scheme) devfun \<Rightarrow> bool \<Rightarrow> nat \<Rightarrow> uchar list \<Rightarrow> uchar list \<Rightarrow> ('m fsys_scheme, nat option \<times> uchar list) kop" where
  "namex_loop dv par ip path name =
     (case skipelem path name of
       None \<Rightarrow>
         if par then kseq (iput ip) (kret (None, name))
         else kret (Some ip, name)
     | Some (path', name') \<Rightarrow>
         kseq (ilock (Some ip))
         (kbind (kget (\<lambda>s. itype (inodes s ! ip))) (\<lambda>t.
         if t \<noteq> T_DIR then
           kseq (iunlockput ip) (kret (None, name'))
         else if par \<and> path' = [] then
           kseq (iunlock (Some ip)) (kret (Some ip, name'))
         else
           kbind (dirlookup dv ip name') (\<lambda>r.
           case r of
             None \<Rightarrow> kseq (iunlockput ip) (kret (None, name'))
           | Some (nxt, _) \<Rightarrow>
               kseq (iunlockput ip)
               (namex_loop dv par nxt path' name')))))"
  by pat_completeness auto

termination by (relation "measure (\<lambda>(dv, par, ip, path, name). length path)") (auto dest: skipelem_shorter)

declare namex_loop.simps [simp del]

definition namex :: "('m fsys_scheme) devfun \<Rightarrow> uchar list \<Rightarrow> bool \<Rightarrow> uchar list \<Rightarrow> ('m fsys_scheme, nat option \<times> uchar list) kop" where
  "namex dv path par name =
     kbind (if path \<noteq> [] \<and> hd path = slash then iget ROOTDEV ROOTINO
       else kbind myproc (\<lambda>p0. kbind (deref p0) (\<lambda>p.
         kbind (kget (\<lambda>s. cwd (procs s ! p))) (\<lambda>c. kbind (deref c) idup)))) (\<lambda>ip.
     namex_loop dv par ip path name)"

definition namei :: "('m fsys_scheme) devfun \<Rightarrow> uchar list \<Rightarrow> ('m fsys_scheme, nat option) kop" where
  "namei dv path = kbind (namex dv path False (replicate DIRSIZ 0)) (\<lambda>r. kret (fst r))"

definition nameiparent :: "('m fsys_scheme) devfun \<Rightarrow> uchar list \<Rightarrow> uchar list \<Rightarrow> ('m fsys_scheme, nat option \<times> uchar list) kop" where
  "nameiparent dv path name = namex dv path True name"

section \<open>Properties of the file system\<close>

subsection \<open>The inode cache\<close>

text \<open>At most one cache entry in use stands for an inode.\<close>

definition icache_wf :: "inode list \<Rightarrow> bool" where
  "icache_wf ips \<longleftrightarrow> (\<forall>i < length ips. 0 \<le> i_ref (ips ! i)) \<and>
     (\<forall>i < length ips. \<forall>j < length ips. i_ref (ips ! i) > 0 \<longrightarrow> i_ref (ips ! j) > 0 \<longrightarrow>
        i_dev (ips ! i) = i_dev (ips ! j) \<longrightarrow> inum (ips ! i) = inum (ips ! j) \<longrightarrow> i = j)"

definition iclaim :: "uint \<Rightarrow> uint \<Rightarrow> nat \<Rightarrow> inode \<Rightarrow> inode" where
  "iclaim d n i ip = ip\<lparr>i_dev := d, inum := n, i_ref := 1, i_valid := False\<rparr>"

interpretation icache_slots: slot_table "\<lambda>ip. i_ref ip = 0" "iclaim d n" for d n
  by unfold_locales (simp add: iclaim_def)

lemma upd_inode_simps [simp]:
  "inodes (upd_inode i f s) = (inodes s)[i := f (inodes s ! i)]" "rel lk (upd_inode i f s) = upd_inode i f (rel lk s)"
  "acq lk (upd_inode i f s) = upd_inode i f (acq lk s)" "settle (upd_inode i f s) = upd_inode i f (settle s)"
  "cpu_inv (upd_inode i f s) = cpu_inv s" "in_cs (upd_inode i f s) = in_cs s" "lock_held lk (upd_inode i f s) = lock_held lk s"
  "lock_free lk (upd_inode i f s) = lock_free lk s" "cur (upd_inode i f s) = cur s" "this_cpu (upd_inode i f s) = this_cpu s"
  by (simp_all add: upd_inode_def)

lemma iget_hit:
  assumes "cpu_inv s" and "lock_free LkIcache s" and "scan (\<lambda>ip. i_ref ip > 0 \<and> i_dev ip = d \<and> inum ip = n) (inodes s) = Some i"
  shows "iget d n s = Ok i (upd_inode i (\<lambda>ip. ip\<lparr>i_ref := i_ref ip + 1\<rparr>) (settle s))"
  using assms by (simp add: iget_def kexec)

lemma iget_miss:
  assumes "cpu_inv s" and "lock_free LkIcache s" and "scan (\<lambda>ip. i_ref ip > 0 \<and> i_dev ip = d \<and> inum ip = n) (inodes s) = None"
    and "scan (\<lambda>ip. i_ref ip = 0) (inodes s) = Some i"
  shows "iget d n s = Ok i (upd_inode i (iclaim d n i) (settle s))"
  using assms by (simp add: iget_def kexec iclaim_def [abs_def] del: scan_None_iff)

lemma iget_full:
  assumes "cpu_inv s" and "lock_free LkIcache s" and "scan (\<lambda>ip. i_ref ip > 0 \<and> i_dev ip = d \<and> inum ip = n) (inodes s) = None"
    and "scan (\<lambda>ip. i_ref ip = 0) (inodes s) = None"
  shows "iget d n s = Panic ''iget: no inodes''"
  using assms by (simp add: iget_def kexec del: scan_None_iff)

text \<open>Putting a referenced entry in a slot keeps the table well-formed when no other slot stands for the inode.\<close>

lemma icache_wf_update:
  assumes "icache_wf ips" and "0 \<le> i_ref x"
    and "\<And>j. j < length ips \<Longrightarrow> j \<noteq> i \<Longrightarrow> i_ref (ips ! j) > 0 \<Longrightarrow> i_ref x > 0 \<Longrightarrow> i_dev (ips ! j) = i_dev x \<Longrightarrow> inum (ips ! j) \<noteq> inum x"
  shows "icache_wf (ips[i := x])"
  unfolding icache_wf_def
proof (intro conjI allI impI)
  fix j k assume a: "j < length (ips[i := x])" "k < length (ips[i := x])" "i_ref (ips[i := x] ! j) > 0" "i_ref (ips[i := x] ! k) > 0"
    "i_dev (ips[i := x] ! j) = i_dev (ips[i := x] ! k)" "inum (ips[i := x] ! j) = inum (ips[i := x] ! k)"
  show "j = k"
  proof (rule ccontr)
    assume "j \<noteq> k"
    then show False
      using a assms(1) assms(3) [of j] assms(3) [of k] unfolding icache_wf_def
      by (cases "j = i"; cases "k = i") (auto simp: nth_update_at)
  qed
qed (use assms(1,2) in \<open>auto simp: icache_wf_def nth_update_at\<close>)

text \<open>C18. \<open>iget\<close> hands out one cache entry per inode. It returns the entry that already stands for the
  inode when there is one and otherwise claims a free slot that has to be read from the disk; the
  count of the entry goes up by one, every other entry is untouched, and still no inode has two
  entries in use. It panics exactly when the inode is not cached and no slot is free.\<close>

theorem iget_hands_out_one_entry_per_inode:
  assumes "cpu_inv s" and "lock_free LkIcache s" and "icache_wf (inodes s)"
  shows "(\<exists>i < length (inodes s). i_ref (inodes s ! i) > 0 \<and> i_dev (inodes s ! i) = d \<and> inum (inodes s ! i) = n \<and>
       (\<exists>u. iget d n s = Ok i u \<and> icache_wf (inodes u) \<and> inodes u = (inodes s)[i := (inodes s ! i)\<lparr>i_ref := i_ref (inodes s ! i) + 1\<rparr>])) \<or>
    (\<forall>ip\<in>set (inodes s). \<not> (i_ref ip > 0 \<and> i_dev ip = d \<and> inum ip = n)) \<and>
    ((\<exists>i < length (inodes s). i_ref (inodes s ! i) = 0 \<and>
       (\<exists>u. iget d n s = Ok i u \<and> icache_wf (inodes u) \<and> inodes u = (inodes s)[i := iclaim d n i (inodes s ! i)])) \<or>
     (\<forall>ip\<in>set (inodes s). i_ref ip \<noteq> 0) \<and> iget d n s = Panic ''iget: no inodes'')"
proof (cases "scan (\<lambda>ip. i_ref ip > 0 \<and> i_dev ip = d \<and> inum ip = n) (inodes s)")
  case (Some i)
  from scan_SomeD [OF Some] have i: "i < length (inodes s)" "i_ref (inodes s ! i) > 0" "i_dev (inodes s ! i) = d" "inum (inodes s ! i) = n" by auto
  have "icache_wf ((inodes s)[i := (inodes s ! i)\<lparr>i_ref := i_ref (inodes s ! i) + 1\<rparr>])"
    by (rule icache_wf_update [OF assms(3)]) (use i assms(3) in \<open>auto simp: icache_wf_def\<close>)
  then show ?thesis using i iget_hit [OF assms(1,2) Some] by auto
next
  case None
  then have no: "\<forall>ip\<in>set (inodes s). \<not> (i_ref ip > 0 \<and> i_dev ip = d \<and> inum ip = n)" by simp
  show ?thesis
  proof (cases "scan (\<lambda>ip. i_ref ip = 0) (inodes s)")
    case f: (Some i)
    note fr = icache_slots.alloc_first_free [OF f]
    have "icache_wf ((inodes s)[i := iclaim d n i (inodes s ! i)])"
      by (rule icache_wf_update [OF assms(3)]) (use no in \<open>auto simp: iclaim_def\<close>)
    then show ?thesis using fr iget_miss [OF assms(1,2) None f] no by auto
  next
    case f: None
    then show ?thesis using iget_full [OF assms(1,2) None f] no by simp
  qed
qed

subsection \<open>Inodes on disk\<close>

text \<open>C24. Writing an inode to its slot of an inode block and reading the slot gives the inode back, and the
  other seven inodes of the block read as before.\<close>

theorem dinode_roundtrip:
  assumes "length d = BSIZE" and "k < IPB" and "length (addrs ip) = NDIRECT + 1"
  shows "load_dinode (store_dinode ip k d) k ip = ip \<and> length (store_dinode ip k d) = BSIZE \<and>
    (\<forall>j < IPB. j \<noteq> k \<longrightarrow> load_dinode (store_dinode ip k d) j jp = load_dinode d j jp)"
proof -
  have l: "4 * (16 * k + 2 + length (isize ip # addrs ip)) \<le> 512" using assms by (simp add: IPB_def BSIZE_def NDIRECT_def)
  let ?h = "put16 (32 * k + 3) (inlink ip) (put16 (32 * k + 2) (iminor ip) (put16 (32 * k + 1) (imajor ip) (put16 (32 * k) (itype ip) d)))"
  have lh: "length ?h = 512" using assms(1) by (simp add: BSIZE_def)
  have k: "k \<le> 7" using assms(2) by (simp add: IPB_def BSIZE_def)
  have w: "get32 (store_dinode ip k d) j = (if 16 * k + 2 \<le> j \<and> j < 16 * k + 16 then (isize ip # addrs ip) ! (j - (16 * k + 2)) else get32 ?h j)" for j
    unfolding store_dinode_def using get32_put_words [of "16 * k + 2" "isize ip # addrs ip" ?h j] l lh assms(3) by (simp add: NDIRECT_def)
  have h: "get16 (store_dinode ip k d) (32 * j + i) = get16 ?h (32 * j + i)" if "i < 4" for i j
  proof -
    have "(32 * j + i) div 2 = 16 * j + i div 2" "i div 2 < 2" using that by auto
    then show ?thesis unfolding store_dinode_def using assms(3)
      by (intro get16_put_words) (cases "j \<le> k"; simp add: NDIRECT_def)
  qed
  have h1: "get16 ?h (32 * k) = itype ip" "get16 ?h (32 * k + 1) = imajor ip" "get16 ?h (32 * k + 2) = iminor ip" "get16 ?h (32 * k + 3) = inlink ip"
    using k assms(1) by (simp_all add: BSIZE_def)
  have "map (\<lambda>j. get32 (store_dinode ip k d) (16 * k + 3 + j)) [0 ..< NDIRECT + 1] = addrs ip"
    using assms(3) by (intro nth_equalityI) (auto simp: w NDIRECT_def)
  then have "load_dinode (store_dinode ip k d) k ip = ip"
    using h [of 0 k] h [of 1 k] h [of 2 k] h [of 3 k] h1 w [of "16 * k + 2"] by (simp add: load_dinode_def)
  moreover have "load_dinode (store_dinode ip k d) j jp = load_dinode d j jp" if "j < IPB" "j \<noteq> k" for j
  proof -
    have g: "get32 (store_dinode ip k d) (16 * j + i) = get32 d (16 * j + i)" if "2 \<le> i" "i < 16" for i
      using that \<open>j \<noteq> k\<close> unfolding w by (cases "j < k") auto
    have "get16 (store_dinode ip k d) (32 * j + i) = get16 d (32 * j + i)" if "i < 4" for i
      using that \<open>j \<noteq> k\<close> unfolding h [OF that] by (cases "j < k") auto
    note q = this [of 0] this [of 1] this [of 2] this [of 3] g [of 2]
    have "map (\<lambda>i. get32 (store_dinode ip k d) (16 * j + 3 + i)) [0 ..< NDIRECT + 1] = map (\<lambda>i. get32 d (16 * j + 3 + i)) [0 ..< NDIRECT + 1]"
      by (rule map_cong [OF refl]) (use g in \<open>auto simp: NDIRECT_def add.assoc\<close>)
    then show ?thesis using q unfolding load_dinode_def by simp
  qed
  ultimately show ?thesis using assms by (simp add: store_dinode_def)
qed

subsection \<open>Path elements\<close>

text \<open>The components of a path: the non-empty pieces between slashes.\<close>

fun split_slash :: "uchar list \<Rightarrow> uchar list list" where
  "split_slash [] = [[]]"
| "split_slash (c # cs) = (if c = slash then [] # split_slash cs else (c # hd (split_slash cs)) # tl (split_slash cs))"

definition components :: "uchar list \<Rightarrow> uchar list list" where
  "components path = filter (\<lambda>e. e \<noteq> []) (split_slash path)"

text \<open>The names \<open>namex\<close> looks up, one after the other, as the comparison reads them from the name buffer.\<close>

definition cname :: "uchar list \<Rightarrow> uchar list" where
  "cname name = takeWhile (\<lambda>c. c \<noteq> 0) (take DIRSIZ name)"

function walk :: "uchar list \<Rightarrow> uchar list \<Rightarrow> uchar list list" where
  "walk path name = (case skipelem path name of None \<Rightarrow> [] | Some (rest, nm) \<Rightarrow> cname nm # walk rest nm)"
  by pat_completeness auto

termination by (relation "measure (\<lambda>(path, name). length path)") (auto dest: skipelem_shorter)

declare walk.simps [simp del]

lemma split_slash_not_nil [simp]: "split_slash p \<noteq> []"
  by (cases p) simp_all

lemma components_slash [simp]: "components (slash # p) = components p"
  by (simp add: components_def)

lemma components_dropWhile: "components (dropWhile (\<lambda>c. c = slash) p) = components p"
  by (induction p) auto

lemma split_slash_elem:
  "split_slash p = (case dropWhile (\<lambda>c. c \<noteq> slash) p of
     [] \<Rightarrow> [takeWhile (\<lambda>c. c \<noteq> slash) p] | c # cs \<Rightarrow> takeWhile (\<lambda>c. c \<noteq> slash) p # split_slash cs)"
  by (induction p) (auto split: list.split simp del: dropWhile_eq_Nil_conv)

lemma components_elem:
  assumes "p \<noteq> []" and "hd p \<noteq> slash"
  shows "components p = takeWhile (\<lambda>c. c \<noteq> slash) p # components (dropWhile (\<lambda>c. c \<noteq> slash) p)"
proof -
  have t: "takeWhile (\<lambda>c. c \<noteq> slash) p \<noteq> []" using assms by (cases p) auto
  show ?thesis
  proof (cases "dropWhile (\<lambda>c. c \<noteq> slash) p")
    case Nil
    then show ?thesis using t split_slash_elem [of p] by (simp add: components_def del: dropWhile_eq_Nil_conv)
  next
    case (Cons c cs)
    then have "c = slash" using hd_dropWhile [of "\<lambda>c. c \<noteq> slash" p] by auto
    then show ?thesis using t Cons split_slash_elem [of p] by (simp add: components_def)
  qed
qed

lemma cname_elem:
  assumes "0 \<notin> set e"
  shows "cname (if DIRSIZ \<le> length e then take DIRSIZ e else e @ [0] @ drop (length e + 1) name) = take DIRSIZ e"
proof (cases "DIRSIZ \<le> length e")
  case True
  have "takeWhile (\<lambda>c. c \<noteq> 0) (take DIRSIZ e) = take DIRSIZ e"
    using assms by (auto simp: takeWhile_eq_all_conv dest: in_set_takeD)
  with True show ?thesis by (simp add: cname_def)
next
  case False
  have "takeWhile (\<lambda>c. c \<noteq> 0) (take DIRSIZ (e @ [0] @ xs)) = e" for xs
    using False assms by (auto simp: takeWhile_append take_Cons')
  with False show ?thesis by (simp add: cname_def)
qed

lemma skipelem_step:
  assumes z: "0 \<notin> set path"
  shows "(skipelem path name = None \<and> components path = []) \<or>
      (\<exists>rest nm e. skipelem path name = Some (rest, nm) \<and> components path = e # components rest \<and> cname nm = take DIRSIZ e \<and>
        (rest = [] \<longleftrightarrow> components rest = []) \<and> 0 \<notin> set rest)"
proof (cases "dropWhile (\<lambda>c. c = slash) path")
  case Nil
  then show ?thesis using components_dropWhile [of path] by (simp add: skipelem_def components_def del: dropWhile_eq_Nil_conv)
next
  case (Cons p ps)
  let ?e = "takeWhile (\<lambda>c. c \<noteq> slash) (p # ps)" and ?r = "dropWhile (\<lambda>c. c \<noteq> slash) (p # ps)"
  let ?rest = "dropWhile (\<lambda>c. c = slash) ?r"
  have hp: "p \<noteq> slash" using hd_dropWhile [of "\<lambda>c. c = slash" path] Cons by auto
  have sub: "set (p # ps) \<subseteq> set path" using Cons set_dropWhileD [of _ "\<lambda>c. c = slash" path] by auto
  have ze: "0 \<notin> set ?e" "0 \<notin> set ?rest" using z sub by (meson set_takeWhileD set_dropWhileD subsetD)+
  have c: "components path = ?e # components ?rest"
    using components_elem [of "p # ps"] hp components_dropWhile [of path] components_dropWhile [of ?r] Cons by simp
  have r: "?rest = [] \<longleftrightarrow> components ?rest = []"
  proof
    assume e: "components ?rest = []"
    show "?rest = []"
    proof (rule ccontr)
      assume n: "?rest \<noteq> []"
      then have "hd ?rest \<noteq> slash" using hd_dropWhile [of "\<lambda>c. c = slash" ?r] by simp
      from components_elem [OF n this] e show False by simp
    qed
  next
    assume e: "?rest = []"
    show "components ?rest = []" unfolding e by (simp add: components_def)
  qed
  define nm where "nm = (if DIRSIZ \<le> length ?e then take DIRSIZ ?e else ?e @ [0] @ drop (length ?e + 1) name)"
  have s: "skipelem path name = Some (?rest, nm)" unfolding skipelem_def Cons nm_def by (simp only: list.case Let_def)
  have "cname nm = take DIRSIZ ?e" unfolding nm_def by (rule cname_elem [OF ze(1)])
  then show ?thesis using s c r ze(2) by blast
qed

lemma walk_components: "0 \<notin> set path \<Longrightarrow> walk path name = map (take DIRSIZ) (components path)"
proof (induction path name rule: walk.induct)
  case (1 path name)
  from skipelem_step [OF 1(2), of name] show ?case
  proof (elim disjE conjE exE)
    fix rest nm e
    assume "skipelem path name = Some (rest, nm)" "components path = e # components rest" "cname nm = take DIRSIZ e" "0 \<notin> set rest"
    then show ?thesis using 1(1) [OF _ refl] walk.simps [of path name] by simp
  next
    assume "skipelem path name = None" "components path = []"
    then show ?thesis using walk.simps [of path name] by simp
  qed
qed

text \<open>C23. Path parsing. On a path string the loop of \<open>namex\<close> visits exactly the components of the path, the
  non-empty pieces between slashes in order, each cut to \<open>DIRSIZ\<close> bytes, whatever the name buffer
  held before; and \<open>skipelem\<close> leaves an empty rest exactly when its component is the last one.\<close>

theorem path_walk_visits_components:
  assumes "0 \<notin> set path"
  shows "walk path name = map (take DIRSIZ) (components path) \<and>
    (\<forall>rest nm. skipelem path name = Some (rest, nm) \<longrightarrow> components path = hd (components path) # components rest \<and> (rest = [] \<longleftrightarrow> components rest = []))"
proof -
  have "components path = hd (components path) # components rest \<and> (rest = [] \<longleftrightarrow> components rest = [])"
    if "skipelem path name = Some (rest, nm)" for rest nm using skipelem_step [OF assms, of name] that by auto
  then show ?thesis using walk_components [OF assms] by blast
qed

subsection \<open>Concrete instances\<close>

definition inode0 :: inode where
  "inode0 = \<lparr>i_dev = 0, inum = 0, i_ref = 0, i_valid = False, itype = 0, imajor = 0, iminor = 0, inlink = 0, isize = 0,
     addrs = replicate 13 0\<rparr>"

definition sb0 :: superblock where
  "sb0 = \<lparr>sb_size = 8, sb_nblocks = 1, sb_ninodes = 8, sb_nlog = 3, sb_logstart = 2, sb_inodestart = 5, sb_bmapstart = 6\<rparr>"

definition parked_f :: "inode list \<Rightarrow> fsys" where
  "parked_f ips = logged.extend (parked_l buf0 (log0 3 0)) \<lparr>inodes = ips, ksb = sb0\<rparr>"

lemma parked_f_ready: "ready_in 0 (run_on 0 (parked_f ips))" "cpu_inv (run_on 0 (parked_f ips))" "lock_free lk (run_on 0 (parked_f ips))"
    "inodes (parked_f ips) = ips" "ksb (parked_f ips) = sb0"
proof -
  have "calm (parked_f ips)" "on_thread 0 0 (parked_f ips)" "all_free (parked_f ips)" "cpu_proc (cpus (parked_f ips) ! 0) = Some 0"
    using ready_calm ready_threads
    by (simp_all add: parked_f_def parked_l_def parked_b_def parked_k_def parked_m_def parked_sl_def calm_def on_thread_def runs_def lock_free_def
        all_free_def ptable.extend_def sltable.extend_def mtable.extend_def kmem.extend_def bcache.extend_def logged.extend_def parked_def)
  then show "ready_in 0 (run_on 0 (parked_f ips))" "cpu_inv (run_on 0 (parked_f ips))" "lock_free lk (run_on 0 (parked_f ips))"
    using on_threadD [of 0 0 "parked_f ips"] by (simp_all add: ready_in_def all_free_def)
qed (simp_all add: parked_f_def logged.extend_def)

theorem iget_hands_out_one_entry_per_inode_witness:
  "\<exists>i u. iget 1 7 (run_on 0 (parked_f (replicate 50 inode0))) = Ok i u \<and> icache_wf (inodes u) \<and> i_ref (inodes u ! i) = 1"
proof -
  let ?s = "run_on 0 (parked_f (replicate 50 inode0))"
  have "icache_wf (inodes ?s)" by (simp add: parked_f_ready(4) icache_wf_def inode0_def)
  from iget_hands_out_one_entry_per_inode [OF parked_f_ready(2,3) this, of 1 7] show ?thesis
    by (auto simp: parked_f_ready(4) inode0_def iclaim_def)
qed

theorem dinode_roundtrip_witness:
  "load_dinode (store_dinode (inode0\<lparr>isize := 700\<rparr>) 3 (replicate BSIZE 1)) 3 (inode0\<lparr>isize := 700\<rparr>) = inode0\<lparr>isize := 700\<rparr>"
  using dinode_roundtrip [of "replicate BSIZE 1" 3 "inode0\<lparr>isize := 700\<rparr>"] by (simp add: IPB_def BSIZE_def NDIRECT_def inode0_def)

text \<open>The path \<open>/a//bc\<close>.\<close>

theorem path_walk_visits_components_witness:
  "walk [47, 97, 47, 47, 98, 99] (replicate 14 0) = [[97], [98, 99]]"
  using path_walk_visits_components [of "[47, 97, 47, 47, 98, 99]" "replicate 14 0"]
  by (simp add: components_def slash_def DIRSIZ_def)

end
