(* ===== verification/Ring.thy ===== *)
theory Ring
  imports Prelude
begin

text \<open>
  A ring buffer with free-running 32-bit counters, as pipes and the console input use it: the
  counter of reads and the counter of writes wrap around at \<open>2 ^ 32\<close>, and the slot of a counter is
  its remainder by the size of the buffer.
\<close>

definition ring_contents :: "nat \<Rightarrow> 'a list \<Rightarrow> uint \<Rightarrow> uint \<Rightarrow> 'a list" where
  "ring_contents n bs r w = map (\<lambda>i. bs ! (unat (r + of_nat i) mod n)) [0 ..< unat (w - r)]"

locale ring =
  fixes n :: nat
  assumes n_pos: "0 < n"
    and n_dvd: "n dvd 2 ^ 32"
    and n_less: "n < 2 ^ 32"
begin

lemma slot_add: "unat (r + of_nat i :: uint) mod n = (unat r + i) mod n"
proof -
  have "unat (r + of_nat i) = (unat r + i) mod 2 ^ 32"
    by (simp add: unat_word_ariths unat_of_nat mod_add_right_eq)
  then show ?thesis using n_dvd by (simp only: mod_mod_cancel)
qed

lemma slots_differ_less: "i < j \<Longrightarrow> j < n \<Longrightarrow> (a + j) mod n \<noteq> (a + i) mod n"
proof
  assume a: "i < j" "j < n" "(a + j) mod n = (a + i) mod n"
  then have "n dvd (a + j) - (a + i)" by (subst mod_eq_dvd_iff_nat [symmetric]) auto
  then have "n \<le> j - i" using a(1) by (intro dvd_imp_le) auto
  with a show False by simp
qed

lemma slots_differ: "i < n \<Longrightarrow> j < n \<Longrightarrow> i \<noteq> j \<Longrightarrow> (a + i) mod n \<noteq> (a + j) mod n"
  using slots_differ_less [of i j a] slots_differ_less [of j i a] by (cases "i < j") auto

lemma contents_length: "length (ring_contents n bs r w) = unat (w - r)"
  by (simp add: ring_contents_def)

lemma put_contents:
  assumes "length bs = n" and "unat (w - r) < n"
  shows "ring_contents n (bs[unat w mod n := x]) r (w + 1) = ring_contents n bs r w @ [x]"
proof -
  let ?k = "unat (w - r)"
  have len: "unat (w + 1 - r) = ?k + 1"
  proof -
    have "?k < 2 ^ 32 - 1" using assms(2) n_less by simp
    then have "unat ((w - r) + 1) = ?k + 1" by (simp add: unat_word_ariths)
    then show ?thesis by (simp add: algebra_simps)
  qed
  have w: "r + of_nat ?k = w" by simp
  then have wk: "unat w mod n = (unat r + ?k) mod n" using slot_add [of r ?k] by simp
  have "(bs[unat w mod n := x]) ! ((unat r + i) mod n) = bs ! ((unat r + i) mod n)" if "i < ?k" for i
    using that slots_differ [of i ?k "unat r"] assms(2) unfolding wk by simp
  moreover have "(bs[unat w mod n := x]) ! ((unat r + ?k) mod n) = x" using assms(1) n_pos unfolding wk by simp
  ultimately show ?thesis unfolding ring_contents_def len slot_add by simp
qed

lemma used_step: "r \<noteq> w \<Longrightarrow> unat (w - r) = Suc (unat (w - (r + 1)))" for r w :: uint
  using unat_minus_one [of "w - r"] unat_gt_0 [of "w - r"] by (simp add: algebra_simps)

lemma get_contents:
  assumes "r \<noteq> w"
  shows "ring_contents n bs r w = bs ! (unat r mod n) # ring_contents n bs (r + 1) w"
proof -
  note k = used_step [OF assms]
  have "map (\<lambda>i. bs ! (unat (r + of_nat i) mod n)) [0 ..< Suc m] =
      bs ! (unat r mod n) # map (\<lambda>i. bs ! (unat (r + 1 + of_nat i) mod n)) [0 ..< m]" for m
    by (simp add: upt_conv_Cons map_Suc_upt [symmetric] o_def algebra_simps del: upt_Suc)
  from this [of "unat (w - (r + 1))"] show ?thesis unfolding ring_contents_def k .
qed

lemma drop_contents:
  "k \<le> unat (w - r) \<Longrightarrow> ring_contents n bs (r + of_nat k) w = drop k (ring_contents n bs r w)"
proof (induction k arbitrary: r)
  case (Suc k)
  then have rw: "r \<noteq> w" by auto
  then have "k \<le> unat (w - (r + 1))" using Suc.prems used_step [OF rw] by simp
  from Suc.IH [OF this] show ?case using get_contents [OF rw, of bs] by (simp add: algebra_simps)
qed simp

lemma unput_contents:
  assumes "r \<noteq> w"
  shows "ring_contents n bs r w = ring_contents n bs r (w - 1) @ [bs ! (unat (w - 1) mod n)]"
proof -
  have k: "unat (w - r) = Suc (unat (w - 1 - r))" using used_step [OF assms] by (simp add: algebra_simps)
  have "r + of_nat (unat (w - 1 - r)) = w - 1" by simp
  then show ?thesis unfolding ring_contents_def k by simp
qed

lemma empty_contents: "ring_contents n bs r r = []"
  by (simp add: ring_contents_def)

lemma full_iff: "w = r + of_nat n \<longleftrightarrow> unat (w - r) = n" for r w :: uint
proof
  assume "w = r + of_nat n"
  then show "unat (w - r) = n" using n_less by (simp add: unat_of_nat)
next
  assume k: "unat (w - r) = n"
  have "of_nat n = w - r" unfolding k [symmetric] by simp
  then show "w = r + of_nat n" by (simp add: algebra_simps)
qed

end

end
