(* ===== verification/File.thy ===== *)
theory File
  imports Fs Ring
begin

unbundle bit_operations_syntax

text \<open>
  Open files (\<open>file.c\<close>) and pipes (\<open>pipe.c\<close>).
\<close>

subsection \<open>State\<close>

definition NFILE :: nat where "NFILE = 100"
definition PIPESIZE :: nat where "PIPESIZE = 512"

datatype fdtype = FD_NONE | FD_PIPE | FD_INODE

record kfile =
  ftype :: fdtype
  f_ref :: int
  readable :: bool
  writable :: bool
  f_pipe :: uint
  f_ip :: "nat option"
  f_off :: uint

text \<open>
  A pipe lives in a page of its own; \<open>pipes\<close> maps the page's address to it.
\<close>

record pipe =
  p_data :: "uchar list"
  nread :: uint
  nwrite :: uint
  readopen :: bool
  writeopen :: bool

record ftab = fsys +
  files :: "kfile list"
  pipes :: "uint \<Rightarrow> pipe"

lemma files_frame [simp]:
  "files (push s) = files s"
  "files (pop s) = files s"
  "files (settle s) = files s"
  "files (acq lk s) = files s"
  "files (rel lk s) = files s"
  "files (upd_cpu c g s) = files s"
  "files (upd_cur g s) = files s"
  "files (upd_lock lk h s) = files s"
  "files (upd_thread t k s) = files s"
  "files (upd_proc p q s) = files s"
  "files (run_on c s) = files s"
  "settle (s\<lparr>files := x\<rparr>) = (settle s)\<lparr>files := x\<rparr>"
  "acq lk (s\<lparr>files := x\<rparr>) = (acq lk s)\<lparr>files := x\<rparr>"
  "rel lk (s\<lparr>files := x\<rparr>) = (rel lk s)\<lparr>files := x\<rparr>"
  "upd_cpu c g (s\<lparr>files := x\<rparr>) = (upd_cpu c g s)\<lparr>files := x\<rparr>"
  "upd_cur g (s\<lparr>files := x\<rparr>) = (upd_cur g s)\<lparr>files := x\<rparr>"
  "upd_lock lk h (s\<lparr>files := x\<rparr>) = (upd_lock lk h s)\<lparr>files := x\<rparr>"
  "upd_thread t k (s\<lparr>files := x\<rparr>) = (upd_thread t k s)\<lparr>files := x\<rparr>"
  "upd_proc p q (s\<lparr>files := x\<rparr>) = (upd_proc p q s)\<lparr>files := x\<rparr>"
  "run_on c (s\<lparr>files := x\<rparr>) = (run_on c s)\<lparr>files := x\<rparr>"
  "this_cpu (s\<lparr>files := x\<rparr>) = this_cpu s"
  "cur (s\<lparr>files := x\<rparr>) = cur s"
  "cpu_inv (s\<lparr>files := x\<rparr>) = cpu_inv s"
  "in_cs (s\<lparr>files := x\<rparr>) = in_cs s"
  "lock_free lk (s\<lparr>files := x\<rparr>) = lock_free lk s"
  "lock_held lk (s\<lparr>files := x\<rparr>) = lock_held lk s"
  "calm (s\<lparr>files := x\<rparr>) = calm s"
  "runs (s\<lparr>files := x\<rparr>) = runs s"
  by (simp_all add: frame_ext_defs)

lemma pipes_frame [simp]:
  "pipes (push s) = pipes s"
  "pipes (pop s) = pipes s"
  "pipes (settle s) = pipes s"
  "pipes (acq lk s) = pipes s"
  "pipes (rel lk s) = pipes s"
  "pipes (upd_cpu c g s) = pipes s"
  "pipes (upd_cur g s) = pipes s"
  "pipes (upd_lock lk h s) = pipes s"
  "pipes (upd_thread t k s) = pipes s"
  "pipes (upd_proc p q s) = pipes s"
  "pipes (run_on c s) = pipes s"
  "settle (s\<lparr>pipes := x\<rparr>) = (settle s)\<lparr>pipes := x\<rparr>"
  "acq lk (s\<lparr>pipes := x\<rparr>) = (acq lk s)\<lparr>pipes := x\<rparr>"
  "rel lk (s\<lparr>pipes := x\<rparr>) = (rel lk s)\<lparr>pipes := x\<rparr>"
  "upd_cpu c g (s\<lparr>pipes := x\<rparr>) = (upd_cpu c g s)\<lparr>pipes := x\<rparr>"
  "upd_cur g (s\<lparr>pipes := x\<rparr>) = (upd_cur g s)\<lparr>pipes := x\<rparr>"
  "upd_lock lk h (s\<lparr>pipes := x\<rparr>) = (upd_lock lk h s)\<lparr>pipes := x\<rparr>"
  "upd_thread t k (s\<lparr>pipes := x\<rparr>) = (upd_thread t k s)\<lparr>pipes := x\<rparr>"
  "upd_proc p q (s\<lparr>pipes := x\<rparr>) = (upd_proc p q s)\<lparr>pipes := x\<rparr>"
  "run_on c (s\<lparr>pipes := x\<rparr>) = (run_on c s)\<lparr>pipes := x\<rparr>"
  "this_cpu (s\<lparr>pipes := x\<rparr>) = this_cpu s"
  "cur (s\<lparr>pipes := x\<rparr>) = cur s"
  "cpu_inv (s\<lparr>pipes := x\<rparr>) = cpu_inv s"
  "in_cs (s\<lparr>pipes := x\<rparr>) = in_cs s"
  "lock_free lk (s\<lparr>pipes := x\<rparr>) = lock_free lk s"
  "lock_held lk (s\<lparr>pipes := x\<rparr>) = lock_held lk s"
  "calm (s\<lparr>pipes := x\<rparr>) = calm s"
  "runs (s\<lparr>pipes := x\<rparr>) = runs s"
  by (simp_all add: frame_ext_defs)

definition upd_file :: "nat \<Rightarrow> (kfile \<Rightarrow> kfile) \<Rightarrow> 'm ftab_scheme \<Rightarrow> 'm ftab_scheme" where
  "upd_file i f s = s\<lparr>files := (files s)[i := f (files s ! i)]\<rparr>"

definition upd_pipe :: "uint \<Rightarrow> (pipe \<Rightarrow> pipe) \<Rightarrow> 'm ftab_scheme \<Rightarrow> 'm ftab_scheme" where
  "upd_pipe p f s = s\<lparr>pipes := (pipes s)(p := f (pipes s p))\<rparr>"

subsection \<open>Pipes\<close>

definition pipeclose :: "uint \<Rightarrow> bool \<Rightarrow> ('m ftab_scheme, unit) kop" where
  "pipeclose p wr =
     kseq (acquire (LkPipe (unat p)))
     (kseq (if wr then
         kseq (kmod (upd_pipe p (\<lambda>x. x\<lparr>writeopen := False\<rparr>)))
         (wakeup (Some (ChPipeNread (unat p))))
       else
         kseq (kmod (upd_pipe p (\<lambda>x. x\<lparr>readopen := False\<rparr>)))
         (wakeup (Some (ChPipeNwrite (unat p)))))
     (kbind (kget (\<lambda>s. pipes s p)) (\<lambda>x.
     if \<not> readopen x \<and> \<not> writeopen x then
       kseq (release (LkPipe (unat p)))
       (kfree p)
     else release (LkPipe (unat p)))))"

definition my_killed :: "('m ptable_scheme, bool) kop" where
  "my_killed = kbind myproc (\<lambda>p0. kbind (deref p0) (\<lambda>p. kget (\<lambda>s. killed (procs s ! p))))"

text \<open>\<open>k\<close> bytes remain of the \<open>n\<close> to write; a writer that sleeps goes on at the same byte.\<close>

fun pipewrite_loop :: "uint \<Rightarrow> uint \<Rightarrow> int \<Rightarrow> nat \<Rightarrow> nat \<Rightarrow> ('m ftab_scheme, int) kop" where
  "pipewrite_loop p addr n i 0 =
     kseq (wakeup (Some (ChPipeNread (unat p))))
     (kseq (release (LkPipe (unat p)))
     (kret n))"
| "pipewrite_loop p addr n i (Suc k) =
     kbind (kget (\<lambda>s. pipes s p)) (\<lambda>x.
     if nwrite x = nread x + of_nat PIPESIZE then
       kbind (if \<not> readopen x then kret True else my_killed) (\<lambda>stop.
       if stop then
         kseq (release (LkPipe (unat p)))
         (kret (-1))
       else
         kseq (wakeup (Some (ChPipeNread (unat p))))
         (kseq (sleep (ChPipeNwrite (unat p)) (Some (LkPipe (unat p))))
         (kret 0)))
     else
       kseq (kmod (\<lambda>s. upd_pipe p (\<lambda>x. x\<lparr>p_data := (p_data x)[unat (nwrite x) mod PIPESIZE := mem s (vaddr s (addr + of_nat i))],
          nwrite := nwrite x + 1\<rparr>) s))
       (pipewrite_loop p addr n (Suc i) k))"

definition pipewrite :: "uint \<Rightarrow> uint \<Rightarrow> int \<Rightarrow> ('m ftab_scheme, int) kop" where
  "pipewrite p addr n =
     kseq (acquire (LkPipe (unat p)))
     (pipewrite_loop p addr n 0 (nat n))"

definition pipewrite_resume :: "uint \<Rightarrow> uint \<Rightarrow> int \<Rightarrow> nat \<Rightarrow> ('m ftab_scheme, int) kop" where
  "pipewrite_resume p addr n i =
     kseq (sleep_resume (LkPipe (unat p)))
     (pipewrite_loop p addr n i (nat n - i))"

fun piperead_copy :: "uint \<Rightarrow> uint \<Rightarrow> nat \<Rightarrow> nat \<Rightarrow> ('m ftab_scheme, nat) kop" where
  "piperead_copy p addr i 0 = kret i"
| "piperead_copy p addr i (Suc k) =
     kbind (kget (\<lambda>s. pipes s p)) (\<lambda>x.
     if nread x = nwrite x then kret i
     else
       kseq (kmod (\<lambda>s. s\<lparr>mem := (mem s)(vaddr s (addr + of_nat i) := p_data x ! (unat (nread x) mod PIPESIZE))\<rparr>))
       (kseq (kmod (upd_pipe p (\<lambda>x. x\<lparr>nread := nread x + 1\<rparr>)))
       (piperead_copy p addr (Suc i) k)))"

definition piperead_loop :: "uint \<Rightarrow> uint \<Rightarrow> int \<Rightarrow> ('m ftab_scheme, int) kop" where
  "piperead_loop p addr n =
     kbind (kget (\<lambda>s. pipes s p)) (\<lambda>x.
     if nread x = nwrite x \<and> writeopen x then
       kbind my_killed (\<lambda>stop.
       if stop then
         kseq (release (LkPipe (unat p)))
         (kret (-1))
       else
         kseq (sleep (ChPipeNread (unat p)) (Some (LkPipe (unat p))))
         (kret 0))
     else
       kbind (piperead_copy p addr 0 (nat n)) (\<lambda>i.
       kseq (wakeup (Some (ChPipeNwrite (unat p))))
       (kseq (release (LkPipe (unat p)))
       (kret (int i)))))"

definition piperead :: "uint \<Rightarrow> uint \<Rightarrow> int \<Rightarrow> ('m ftab_scheme, int) kop" where
  "piperead p addr n = kseq (acquire (LkPipe (unat p))) (piperead_loop p addr n)"

definition piperead_resume :: "uint \<Rightarrow> uint \<Rightarrow> int \<Rightarrow> ('m ftab_scheme, int) kop" where
  "piperead_resume p addr n = kseq (sleep_resume (LkPipe (unat p))) (piperead_loop p addr n)"

subsection \<open>Open files\<close>

definition fileinit :: "('m ftab_scheme, unit) kop" where
  "fileinit = initlock LkFtable ''ftable''"

definition filealloc :: "('m ftab_scheme, nat option) kop" where
  "filealloc =
     kseq (acquire LkFtable)
     (kbind (kget (\<lambda>s. scan (\<lambda>f. f_ref f = 0) (files s))) (\<lambda>r.
     case r of
       Some i \<Rightarrow>
         kseq (kmod (upd_file i (\<lambda>f. f\<lparr>f_ref := 1\<rparr>)))
         (kseq (release LkFtable)
         (kret (Some i)))
     | None \<Rightarrow>
         kseq (release LkFtable)
         (kret None)))"

definition filedup :: "nat \<Rightarrow> ('m ftab_scheme, nat) kop" where
  "filedup f =
     kseq (acquire LkFtable)
     (kbind (kget (\<lambda>s. f_ref (files s ! f))) (\<lambda>r.
     if r < 1 then kpanic ''filedup'' else
     kseq (kmod (upd_file f (\<lambda>x. x\<lparr>f_ref := f_ref x + 1\<rparr>)))
     (kseq (release LkFtable)
     (kret f))))"

definition fileclose :: "nat \<Rightarrow> ('m ftab_scheme, unit) kop" where
  "fileclose f =
     kseq (acquire LkFtable)
     (kbind (kget (\<lambda>s. f_ref (files s ! f))) (\<lambda>r.
     if r < 1 then kpanic ''fileclose'' else
     kseq (kmod (upd_file f (\<lambda>x. x\<lparr>f_ref := f_ref x - 1\<rparr>)))
     (if r - 1 > 0 then release LkFtable
     else
       kbind (kget (\<lambda>s. files s ! f)) (\<lambda>ff.
       kseq (kmod (upd_file f (\<lambda>x. x\<lparr>f_ref := 0, ftype := FD_NONE\<rparr>)))
       (kseq (release LkFtable)
       (if ftype ff = FD_PIPE then pipeclose (f_pipe ff) (writable ff)
       else if ftype ff = FD_INODE then
         kseq begin_op
         (kbind (deref (f_ip ff)) (\<lambda>ip.
         kseq (iput ip)
         end_op))
       else kret ()))))))"

definition filestat :: "nat \<Rightarrow> ('m ftab_scheme, stat option) kop" where
  "filestat f =
     kbind (kget (\<lambda>s. files s ! f)) (\<lambda>x.
     if ftype x = FD_INODE then
       kseq (ilock (f_ip x))
       (kbind (deref (f_ip x)) (\<lambda>ip.
       kbind (stati ip) (\<lambda>st.
       kseq (iunlock (f_ip x))
       (kret (Some st)))))
     else kret None)"

definition fileread :: "('m ftab_scheme) devfun \<Rightarrow> nat \<Rightarrow> uint \<Rightarrow> int \<Rightarrow> ('m ftab_scheme, int) kop" where
  "fileread dr f addr n =
     kbind (kget (\<lambda>s. files s ! f)) (\<lambda>x.
     if \<not> readable x then kret (-1)
     else if ftype x = FD_PIPE then piperead (f_pipe x) addr n
     else if ftype x = FD_INODE then
       kseq (ilock (f_ip x))
       (kbind (deref (f_ip x)) (\<lambda>ip.
       kbind (readi dr ip (KMem addr) (f_off x) (of_int n)) (\<lambda>(r, _).
       kseq (if r > 0 then kmod (upd_file f (\<lambda>x. x\<lparr>f_off := f_off x + of_int r\<rparr>)) else kret ())
       (kseq (iunlock (f_ip x))
       (kret r)))))
     else kpanic ''fileread'')"

definition filewrite_max :: int where
  "filewrite_max = ((MAXOPBLOCKS - 1 - 1 - 2) div 2) * 512"

function filewrite_loop :: "('m ftab_scheme) devfun \<Rightarrow> nat \<Rightarrow> uint \<Rightarrow> int \<Rightarrow> int \<Rightarrow> ('m ftab_scheme, int) kop" where
  "filewrite_loop dw f addr n i =
     (if i < n then
       (let n1 = min (n - i) filewrite_max in
       kseq begin_op
       (kbind (kget (\<lambda>s. files s ! f)) (\<lambda>x.
       kseq (ilock (f_ip x))
       (kbind (deref (f_ip x)) (\<lambda>ip.
       kbind (writei dw ip (KMem (addr + of_int i)) (f_off x) (of_int n1)) (\<lambda>r.
       kseq (if r > 0 then kmod (upd_file f (\<lambda>x. x\<lparr>f_off := f_off x + of_int r\<rparr>)) else kret ())
       (kseq (iunlock (f_ip x))
       (kseq end_op
       (if r < 0 then kret i
       else if r \<noteq> n1 then kpanic ''short filewrite''
       else filewrite_loop dw f addr n (i + r))))))))))
     else kret i)"
  by pat_completeness auto

termination by (relation "measure (\<lambda>(dw, f, addr, n, i). nat (n - i))") (auto simp: filewrite_max_def MAXOPBLOCKS_def min_def)

declare filewrite_loop.simps [simp del]

definition filewrite :: "('m ftab_scheme) devfun \<Rightarrow> nat \<Rightarrow> uint \<Rightarrow> int \<Rightarrow> ('m ftab_scheme, int) kop" where
  "filewrite dw f addr n =
     kbind (kget (\<lambda>s. files s ! f)) (\<lambda>x.
     if \<not> writable x then kret (-1)
     else if ftype x = FD_PIPE then pipewrite (f_pipe x) addr n
     else if ftype x = FD_INODE then
       kbind (filewrite_loop dw f addr n 0) (\<lambda>i.
       kret (if i = n then n else -1))
     else kpanic ''filewrite'')"

definition pipealloc_bad :: "uint \<Rightarrow> nat option \<Rightarrow> nat option \<Rightarrow> ('m ftab_scheme, (nat \<times> nat) option) kop" where
  "pipealloc_bad p f0 f1 =
     kseq (if p \<noteq> 0 then kfree p else kret ())
     (kseq (case f0 of Some f \<Rightarrow> fileclose f | None \<Rightarrow> kret ())
     (kseq (case f1 of Some f \<Rightarrow> fileclose f | None \<Rightarrow> kret ())
     (kret None)))"

text \<open>The result is the read end and the write end, or nothing for the C result \<open>-1\<close>.\<close>

definition pipealloc :: "('m ftab_scheme, (nat \<times> nat) option) kop" where
  "pipealloc =
     kbind filealloc (\<lambda>f0. case f0 of None \<Rightarrow> pipealloc_bad 0 None None | Some a \<Rightarrow>
     kbind filealloc (\<lambda>f1. case f1 of None \<Rightarrow> pipealloc_bad 0 (Some a) None | Some b \<Rightarrow>
     kbind kalloc (\<lambda>p.
     if p = 0 then pipealloc_bad 0 (Some a) (Some b) else
     kseq (kmod (upd_pipe p (\<lambda>x. x\<lparr>readopen := True, writeopen := True, nwrite := 0, nread := 0\<rparr>)))
     (kseq (initlock (LkPipe (unat p)) ''pipe'')
     (kseq (kmod (upd_file a (\<lambda>f. f\<lparr>ftype := FD_PIPE, readable := True, writable := False, f_pipe := p\<rparr>)))
     (kseq (kmod (upd_file b (\<lambda>f. f\<lparr>ftype := FD_PIPE, readable := False, writable := True, f_pipe := p\<rparr>)))
     (kret (Some (a, b)))))))))"

section \<open>Properties\<close>

subsection \<open>A pipe is a bounded queue\<close>

interpretation pipe_ring: ring PIPESIZE
  by unfold_locales (simp_all add: PIPESIZE_def)

definition pipe_queue :: "pipe \<Rightarrow> uchar list" where
  "pipe_queue x = ring_contents PIPESIZE (p_data x) (nread x) (nwrite x)"

definition pipe_wf :: "pipe \<Rightarrow> bool" where
  "pipe_wf x \<longleftrightarrow> length (p_data x) = PIPESIZE \<and> unat (nwrite x - nread x) \<le> PIPESIZE"

definition pipe_put :: "pipe \<Rightarrow> uchar \<Rightarrow> pipe" where
  "pipe_put x b = x\<lparr>p_data := (p_data x)[unat (nwrite x) mod PIPESIZE := b], nwrite := nwrite x + 1\<rparr>"

lemma pipe_queue_length: "length (pipe_queue x) = unat (nwrite x - nread x)"
  unfolding pipe_queue_def by (rule pipe_ring.contents_length)

lemma pipe_full_iff: "nwrite x = nread x + of_nat PIPESIZE \<longleftrightarrow> length (pipe_queue x) = PIPESIZE"
  unfolding pipe_queue_length by (rule pipe_ring.full_iff)

lemma pipe_empty_iff: "nread x = nwrite x \<longleftrightarrow> pipe_queue x = []"
  using pipe_queue_length [of x] by (metis length_0_conv right_minus_eq unat_eq_zero)

lemma pipe_put_queue:
  assumes "pipe_wf x" and "length (pipe_queue x) < PIPESIZE"
  shows "pipe_queue (pipe_put x b) = pipe_queue x @ [b]" and "pipe_wf (pipe_put x b)"
    and "readopen (pipe_put x b) = readopen x" and "writeopen (pipe_put x b) = writeopen x"
proof -
  show q: "pipe_queue (pipe_put x b) = pipe_queue x @ [b]"
    using assms pipe_ring.put_contents [of "p_data x" "nwrite x" "nread x" b]
    by (simp add: pipe_queue_def pipe_put_def pipe_wf_def pipe_ring.contents_length)
  have "length (pipe_queue (pipe_put x b)) \<le> PIPESIZE" using q assms(2) by simp
  then show "pipe_wf (pipe_put x b)" using assms(1) unfolding pipe_queue_length by (simp add: pipe_wf_def pipe_put_def)
qed (simp_all add: pipe_put_def)

lemma pipe_puts_queue:
  assumes "pipe_wf x" and "length (pipe_queue x) + length bs \<le> PIPESIZE"
  shows "pipe_queue (foldl pipe_put x bs) = pipe_queue x @ bs \<and> pipe_wf (foldl pipe_put x bs) \<and>
    readopen (foldl pipe_put x bs) = readopen x \<and> writeopen (foldl pipe_put x bs) = writeopen x"
  using assms
proof (induction bs arbitrary: x)
  case (Cons b bs)
  with pipe_put_queue [of x b] show ?case by simp
qed simp

lemma upd_pipe_simps [simp]:
  "pipes (upd_pipe p f s) = (pipes s)(p := f (pipes s p))" "mem (upd_pipe p f s) = mem s" "cr3 (upd_pipe p f s) = cr3 s"
  "procs (upd_pipe p f s) = procs s" "ttable (upd_pipe p f s) = ttable s" "files (upd_pipe p f s) = files s"
  "cpu_inv (upd_pipe p f s) = cpu_inv s" "in_cs (upd_pipe p f s) = in_cs s" "lock_free lk (upd_pipe p f s) = lock_free lk s"
  "lock_held lk (upd_pipe p f s) = lock_held lk s" "cur (upd_pipe p f s) = cur s" "settle (upd_pipe p f s) = upd_pipe p f (settle s)"
  "rel lk (upd_pipe p f s) = upd_pipe p f (rel lk s)" "acq lk (upd_pipe p f s) = upd_pipe p f (acq lk s)"
  by (simp_all add: upd_pipe_def)

lemma cr3_locks [simp]: "cr3 (acq lk s) = cr3 s" "cr3 (rel lk s) = cr3 s" "cr3 (settle s) = cr3 s"
  by (simp_all add: frame_defs)

lemma vaddr_acq [simp]: "vaddr (acq lk s) = vaddr s" "vaddr ((acq lk s)\<lparr>mem := m\<rparr>) = vaddr (s\<lparr>mem := m\<rparr>)"
  by (simp_all add: vaddr_def fun_eq_iff)

lemma vaddr_upd_pipe [simp]: "vaddr (upd_pipe p f s) a = vaddr s a" "vaddr ((upd_pipe p f s)\<lparr>mem := m\<rparr>) a = vaddr (s\<lparr>mem := m\<rparr>) a"
  by (simp_all add: vaddr_def)

lemma upd_pipe_twice: "upd_pipe p f (upd_pipe p g s) = upd_pipe p (\<lambda>x. f (g x)) s"
  by (simp add: upd_pipe_def)

definition user_byte :: "'m kmem_scheme \<Rightarrow> uint \<Rightarrow> nat \<Rightarrow> uchar" where
  "user_byte s addr i = mem s (vaddr s (addr + of_nat i))"

text \<open>The writing loop puts bytes in the buffer as long as they fit.\<close>

lemma pipewrite_loop_fits:
  assumes "pipe_wf (pipes s p)" and "length (pipe_queue (pipes s p)) + m \<le> PIPESIZE" and "m \<le> k"
  shows "pipewrite_loop p addr n i k s =
     pipewrite_loop p addr n (i + m) (k - m) (upd_pipe p (\<lambda>x. foldl pipe_put x (map (user_byte s addr) [i ..< i + m])) s)"
  using assms
proof (induction m arbitrary: i k s)
  case 0
  have "upd_pipe p (\<lambda>x. x) s = s" by (simp add: upd_pipe_def)
  then show ?case by simp
next
  case (Suc m)
  then obtain k' where k: "k = Suc k'" by (cases k) auto
  let ?b = "user_byte s addr i"
  let ?s = "upd_pipe p (\<lambda>x. pipe_put x ?b) s"
  have nf: "nwrite (pipes s p) \<noteq> nread (pipes s p) + of_nat PIPESIZE" using Suc.prems pipe_full_iff by simp
  have "length (pipe_queue (pipes s p)) < PIPESIZE" using Suc.prems by simp
  note put = pipe_put_queue [OF Suc.prems(1) this, of ?b]
  have e: "pipewrite_loop p addr n i k s = pipewrite_loop p addr n (Suc i) k' ?s"
    using nf unfolding k by (simp add: kbind_apply kseq_apply pipe_put_def user_byte_def)
  have ub: "user_byte ?s addr = user_byte s addr" by (simp add: user_byte_def fun_eq_iff)
  have "pipewrite_loop p addr n (Suc i) k' ?s = pipewrite_loop p addr n (Suc i + m) (k' - m)
      (upd_pipe p (\<lambda>x. foldl pipe_put x (map (user_byte ?s addr) [Suc i ..< Suc i + m])) ?s)"
    by (rule Suc.IH) (use Suc.prems put k in simp_all)
  also have "upd_pipe p (\<lambda>x. foldl pipe_put x (map (user_byte ?s addr) [Suc i ..< Suc i + m])) ?s =
      upd_pipe p (\<lambda>x. foldl pipe_put x (map (user_byte s addr) [i ..< i + Suc m])) s"
    by (simp add: upd_pipe_twice ub upt_conv_Cons del: upt_Suc)
  finally show ?case using e k by simp
qed

lemma pipewrite_done:
  assumes "in_cs s" and "lock_held (LkPipe (unat p)) s" and "lock_free LkPtable s"
  shows "pipewrite_loop p addr n i 0 s =
     Ok n ((rel (LkPipe (unat p)) s)\<lparr>ttable := wake_procs (Some (ChPipeNread (unat p))) (procs s) (ttable s)\<rparr>)"
  using assms in_cs_cpu_inv [OF assms(1)] by (simp add: kexec)

lemma pipewrite_stuck:
  assumes cs: "in_cs s" and "lock_held (LkPipe (unat p)) s" and "lock_free LkPtable s"
    and "length (pipe_queue (pipes s p)) = PIPESIZE"
    and "ncli (cur s) = 1" and "cpu_thread (cur s) = Some t" and "t < length (ttable s)" and "cpu_proc (cur s) = Some q"
  shows "pipewrite_loop p addr n i (Suc k) s =
     (if \<not> readopen (pipes s p) \<or> killed (procs s ! q) then Ok (-1) (rel (LkPipe (unat p)) s)
      else Swtch (sleeping t (ChPipeNwrite (unat p)) (rel (LkPipe (unat p)) (acq LkPtable
        (s\<lparr>ttable := wake_procs (Some (ChPipeNread (unat p))) (procs s) (ttable s)\<rparr>)))))"
proof -
  have f: "nwrite (pipes s p) = nread (pipes s p) + of_nat PIPESIZE" using assms(4) pipe_full_iff by simp
  note i = in_cs_cpu_inv [OF cs]
  show ?thesis
    using assms f i by (simp add: kexec my_killed_def)
qed

text \<open>The reading loop takes bytes from the buffer in order; the destination is mapped.\<close>

definition user_buf :: "'m kmem_scheme \<Rightarrow> uint \<Rightarrow> nat \<Rightarrow> bool" where
  "user_buf s addr n \<longleftrightarrow> inj_on (\<lambda>i. vaddr s (addr + of_nat i)) {..<n} \<and>
     (\<forall>m. (\<forall>x. x \<notin> (\<lambda>i. vaddr s (addr + of_nat i)) ` {..<n} \<longrightarrow> m x = mem s x) \<longrightarrow>
        (\<forall>i < n. vaddr (s\<lparr>mem := m\<rparr>) (addr + of_nat i) = vaddr s (addr + of_nat i)))"

definition poke :: "'m kmem_scheme \<Rightarrow> uint \<Rightarrow> uchar list \<Rightarrow> memory" where
  "poke s addr bs = (\<lambda>x. case scan (\<lambda>i. vaddr s (addr + of_nat i) = x) [0 ..< length bs] of Some i \<Rightarrow> bs ! i | None \<Rightarrow> mem s x)"

lemma poke_at:
  assumes "inj_on (\<lambda>i. vaddr s (addr + of_nat i)) {..<length bs}" and "i < length bs"
  shows "poke s addr bs (vaddr s (addr + of_nat i)) = bs ! i"
proof -
  have "scan (\<lambda>j. vaddr s (addr + of_nat j) = vaddr s (addr + of_nat i)) [0 ..< length bs] = Some i"
    using assms by (auto simp: scan_Some_iff dest: inj_onD)
  then show ?thesis by (simp add: poke_def)
qed

lemma poke_other: "x \<notin> (\<lambda>i. vaddr s (addr + of_nat i)) ` {..<length bs} \<Longrightarrow> poke s addr bs x = mem s x"
proof -
  assume "x \<notin> (\<lambda>i. vaddr s (addr + of_nat i)) ` {..<length bs}"
  then have "scan (\<lambda>i. vaddr s (addr + of_nat i) = x) [0 ..< length bs] = None" by auto
  then show ?thesis by (simp add: poke_def del: scan_None_iff)
qed

lemma poke_snoc:
  assumes "inj_on (\<lambda>i. vaddr s (addr + of_nat i)) {..<Suc (length bs)}"
  shows "(poke s addr bs)(vaddr s (addr + of_nat (length bs)) := b) = poke s addr (bs @ [b])"
proof
  fix x
  have inj: "inj_on (\<lambda>i. vaddr s (addr + of_nat i)) {..<length bs}" "inj_on (\<lambda>i. vaddr s (addr + of_nat i)) {..<length (bs @ [b])}"
    using assms by (auto simp: lessThan_Suc inj_on_def)
  show "((poke s addr bs)(vaddr s (addr + of_nat (length bs)) := b)) x = poke s addr (bs @ [b]) x"
  proof (cases "x \<in> (\<lambda>i. vaddr s (addr + of_nat i)) ` {..<length (bs @ [b])}")
    case True
    then obtain i where i: "i < length (bs @ [b])" "x = vaddr s (addr + of_nat i)" by auto
    show ?thesis
    proof (cases "i = length bs")
      case False
      then have "vaddr s (addr + of_nat i) \<noteq> vaddr s (addr + of_nat (length bs))" using i inj_onD [OF assms] by auto
      then show ?thesis using i False poke_at [OF inj(1), of i] poke_at [OF inj(2), of i] by (simp add: nth_append)
    qed (use i poke_at [OF inj(2), of i] in \<open>simp add: nth_append\<close>)
  next
    case False
    then show ?thesis using poke_other [of x s addr "bs @ [b]"] poke_other [of x s addr bs] by (auto simp: lessThan_Suc)
  qed
qed

lemma mem_pipes_comm: "s\<lparr>pipes := x, mem := m\<rparr> = s\<lparr>mem := m, pipes := x\<rparr>"
  by simp

lemma piperead_copy_takes:
  assumes "user_buf s addr n" and "i + k \<le> n" and "length bs = i" and "pipe_wf (pipes s p)"
  shows "\<exists>u. piperead_copy p addr i k (s\<lparr>mem := poke s addr bs\<rparr>) = Ok (i + min k (length (pipe_queue (pipes s p)))) u \<and>
     u = (upd_pipe p (\<lambda>x. x\<lparr>nread := nread x + of_nat (min k (length (pipe_queue x)))\<rparr>) s)
       \<lparr>mem := poke s addr (bs @ take k (pipe_queue (pipes s p)))\<rparr>"
  using assms
proof (induction k arbitrary: i bs s)
  case 0
  have "upd_pipe p (\<lambda>x. x\<lparr>nread := nread x\<rparr>) s = s" by (simp add: upd_pipe_def)
  then show ?case by simp
next
  case (Suc k)
  let ?x = "pipes s p"
  show ?case
  proof (cases "pipe_queue ?x")
    case Nil
    have "upd_pipe p (\<lambda>x. x\<lparr>nread := nread x + of_nat (min (Suc k) (length (pipe_queue x)))\<rparr>) s = s"
      using Nil by (simp add: upd_pipe_def fun_upd_idem)
    then show ?thesis using Nil pipe_empty_iff [of ?x] by (simp add: kbind_apply)
  next
    case (Cons b q)
    then have ne: "nread ?x \<noteq> nwrite ?x" using pipe_empty_iff [of ?x] by simp
    have bq: "b = p_data ?x ! (unat (nread ?x) mod PIPESIZE)" "q = ring_contents PIPESIZE (p_data ?x) (nread ?x + 1) (nwrite ?x)"
      using Cons pipe_ring.get_contents [OF ne, of "p_data ?x"] by (simp_all add: pipe_queue_def)
    let ?s = "upd_pipe p (\<lambda>x. x\<lparr>nread := nread x + 1\<rparr>) s"
    have qs: "pipe_queue (pipes ?s p) = q" using bq(2) by (simp add: pipe_queue_def)
    have inj: "inj_on (\<lambda>i. vaddr s (addr + of_nat i)) {..<Suc (length bs)}"
      using Suc.prems by (auto simp: user_buf_def intro: inj_on_subset)
    have "\<forall>x. x \<notin> (\<lambda>i. vaddr s (addr + of_nat i)) ` {..<n} \<longrightarrow> poke s addr bs x = mem s x"
    proof (intro allI impI poke_other)
      fix x assume "x \<notin> (\<lambda>i. vaddr s (addr + of_nat i)) ` {..<n}"
      then show "x \<notin> (\<lambda>i. vaddr s (addr + of_nat i)) ` {..<length bs}" using Suc.prems(2,3) by auto
    qed
    then have va: "vaddr (s\<lparr>mem := poke s addr bs\<rparr>) (addr + of_nat i) = vaddr s (addr + of_nat i)"
      using Suc.prems by (simp add: user_buf_def)
    have pk: "poke ?s addr = poke s addr" by (simp add: poke_def fun_eq_iff cong: option.case_cong)
    have step: "piperead_copy p addr i (Suc k) (s\<lparr>mem := poke s addr bs\<rparr>) =
        piperead_copy p addr (Suc i) k (?s\<lparr>mem := poke ?s addr (bs @ [b])\<rparr>)"
      using ne va poke_snoc [OF inj, of b] Suc.prems(3) bq(1) pk
      by (simp add: kbind_apply kseq_apply) (simp add: upd_pipe_def mem_pipes_comm)
    have ub: "user_buf ?s addr n" using Suc.prems(1) by (simp add: user_buf_def)
    have lq: "unat (nwrite ?x - (nread ?x + 1)) = length q"
      unfolding bq(2) by (simp add: pipe_ring.contents_length)
    have "length q \<le> PIPESIZE" using Suc.prems(4) Cons pipe_queue_length [of ?x] by (simp add: pipe_wf_def)
    then have wf: "pipe_wf (pipes ?s p)" using Suc.prems(4) lq by (simp add: pipe_wf_def)
    from Suc.IH [OF ub _ _ wf, of "Suc i" "bs @ [b]"] Suc.prems obtain u where
      u: "piperead_copy p addr (Suc i) k (?s\<lparr>mem := poke ?s addr (bs @ [b])\<rparr>) = Ok (Suc i + min k (length q)) u"
      "u = (upd_pipe p (\<lambda>x. x\<lparr>nread := nread x + of_nat (min k (length (pipe_queue x)))\<rparr>) ?s)\<lparr>mem := poke ?s addr ((bs @ [b]) @ take k q)\<rparr>"
      unfolding qs by auto
    have "upd_pipe p (\<lambda>x. x\<lparr>nread := nread x + of_nat (min k (length (pipe_queue x)))\<rparr>) ?s =
        upd_pipe p (\<lambda>x. x\<lparr>nread := nread x + of_nat (min (Suc k) (length (pipe_queue x)))\<rparr>) s"
      using qs Cons by (simp add: upd_pipe_def algebra_simps)
    then show ?thesis using step u Cons pk by simp
  qed
qed

text \<open>A thread that is not in a critical section calls into the pipe.\<close>

definition pipe_caller :: "uint \<Rightarrow> nat \<Rightarrow> nat \<Rightarrow> 'm ftab_scheme \<Rightarrow> bool" where
  "pipe_caller p q t s \<longleftrightarrow> cpu_inv s \<and> lock_free (LkPipe (unat p)) s \<and> lock_free LkPtable s \<and> ncli (cur s) = 0 \<and>
     cpu_proc (cur s) = Some q \<and> cpu_thread (cur s) = Some t \<and> t < length (ttable s) \<and> \<not> killed (procs s ! q) \<and> pipe_wf (pipes s p)"

lemma pipe_callerD:
  assumes "pipe_caller p q t s"
  defines "v \<equiv> acq (LkPipe (unat p)) s"
  shows "acquire (LkPipe (unat p)) s = Ok () v" and "in_cs v" and "lock_held (LkPipe (unat p)) v" and "lock_free LkPtable v"
    and "ncli (cur v) = 1" and "cpu_thread (cur v) = Some t" and "t < length (ttable v)" and "cpu_proc (cur v) = Some q"
    and "pipes v = pipes s" and "mem v = mem s" and "procs v = procs s" and "ttable v = ttable s" and "vaddr v = vaddr s"
    and "pipe_wf (pipes s p)" and "\<not> killed (procs s ! q)"
  using assms(1) unfolding pipe_caller_def v_def by (auto simp: kexec)

lemma user_byte_acq: "user_byte (acq lk s) addr = user_byte s addr"
  by (simp add: user_byte_def fun_eq_iff)

lemma pipewrite_ok:
  assumes c: "pipe_caller p q t s" and "length (pipe_queue (pipes s p)) + nat n \<le> PIPESIZE"
  shows "\<exists>u. pipewrite p addr n s = Ok n u \<and> pipe_queue (pipes u p) = pipe_queue (pipes s p) @ map (user_byte s addr) [0 ..< nat n] \<and>
     pipe_wf (pipes u p)"
proof -
  note d = pipe_callerD [OF c]
  let ?v = "acq (LkPipe (unat p)) s"
  let ?w = "upd_pipe p (\<lambda>x. foldl pipe_put x (map (user_byte ?v addr) [0 ..< 0 + nat n])) ?v"
  have "pipewrite_loop p addr n 0 (nat n) ?v = pipewrite_loop p addr n (nat n) 0 ?w"
    using pipewrite_loop_fits [of ?v p "nat n" "nat n" addr n 0] d assms(2) by simp
  also have "\<dots> = Ok n ((rel (LkPipe (unat p)) ?w)\<lparr>ttable := wake_procs (Some (ChPipeNread (unat p))) (procs ?w) (ttable ?w)\<rparr>)"
    by (rule pipewrite_done) (use d in simp_all)
  finally have r: "pipewrite p addr n s = \<dots>" by (simp add: pipewrite_def kseq_apply d(1))
  show ?thesis
    using r pipe_puts_queue [OF d(14), of "map (user_byte s addr) [0 ..< nat n]"] assms(2) d(9) by (simp add: user_byte_acq)
qed

lemma pipewrite_overflows:
  assumes c: "pipe_caller p q t s" and over: "PIPESIZE < length (pipe_queue (pipes s p)) + nat n"
  defines "m \<equiv> PIPESIZE - length (pipe_queue (pipes s p))"
  shows "readopen (pipes s p) \<Longrightarrow> \<exists>u. pipewrite p addr n s = Swtch u \<and> pipe_wf (pipes u p) \<and> lock_free (LkPipe (unat p)) u \<and>
      pipe_queue (pipes u p) = pipe_queue (pipes s p) @ take m (map (user_byte s addr) [0 ..< nat n]) \<and> tstate (ttable u ! t) = SLEEPING"
    and "\<not> readopen (pipes s p) \<Longrightarrow> \<exists>u. pipewrite p addr n s = Ok (-1) u"
proof -
  note d = pipe_callerD [OF c]
  let ?v = "acq (LkPipe (unat p)) s"
  let ?w = "upd_pipe p (\<lambda>x. foldl pipe_put x (map (user_byte ?v addr) [0 ..< 0 + m])) ?v"
  have lq: "length (pipe_queue (pipes s p)) \<le> PIPESIZE" using d(14) unfolding pipe_queue_length by (simp add: pipe_wf_def)
  have mn: "m < nat n" "length (pipe_queue (pipes s p)) + m = PIPESIZE" using over lq by (simp_all add: m_def)
  have bs: "map (user_byte ?v addr) [0 ..< 0 + m] = take m (map (user_byte s addr) [0 ..< nat n])"
    using mn(1) by (simp add: user_byte_acq take_map)
  have qw: "pipe_queue (pipes ?w p) = pipe_queue (pipes s p) @ take m (map (user_byte s addr) [0 ..< nat n])" "pipe_wf (pipes ?w p)"
    "readopen (pipes ?w p) = readopen (pipes s p)"
    using pipe_puts_queue [OF d(14), of "map (user_byte ?v addr) [0 ..< 0 + m]"] mn d(9) unfolding bs by auto
  obtain k where k: "nat n - m = Suc k" using mn(1) by (cases "nat n - m") auto
  have "pipewrite_loop p addr n 0 (nat n) ?v = pipewrite_loop p addr n m (nat n - m) ?w"
    using pipewrite_loop_fits [of ?v p m "nat n" addr n 0] d mn by simp
  then have r: "pipewrite p addr n s = pipewrite_loop p addr n m (Suc k) ?w" by (simp add: pipewrite_def kseq_apply d(1) k)
  have full: "length (pipe_queue (pipes ?w p)) = PIPESIZE" using qw(1) mn by simp
  have st: "pipewrite_loop p addr n m (Suc k) ?w =
     (if \<not> readopen (pipes ?w p) \<or> killed (procs ?w ! q) then Ok (-1) (rel (LkPipe (unat p)) ?w)
      else Swtch (sleeping t (ChPipeNwrite (unat p)) (rel (LkPipe (unat p)) (acq LkPtable
        (?w\<lparr>ttable := wake_procs (Some (ChPipeNread (unat p))) (procs ?w) (ttable ?w)\<rparr>)))))"
    by (rule pipewrite_stuck [OF _ _ _ full]) (use d in simp_all)
  show "\<exists>u. pipewrite p addr n s = Ok (-1) u" if "\<not> readopen (pipes s p)" using that r st qw(3) by simp
  let ?u = "sleeping t (ChPipeNwrite (unat p)) (rel (LkPipe (unat p)) (acq LkPtable
        (?w\<lparr>ttable := wake_procs (Some (ChPipeNread (unat p))) (procs ?w) (ttable ?w)\<rparr>)))"
  show "\<exists>u. pipewrite p addr n s = Swtch u \<and> pipe_wf (pipes u p) \<and> lock_free (LkPipe (unat p)) u \<and>
      pipe_queue (pipes u p) = pipe_queue (pipes s p) @ take m (map (user_byte s addr) [0 ..< nat n]) \<and> tstate (ttable u ! t) = SLEEPING"
    if ro: "readopen (pipes s p)"
  proof (intro exI conjI)
    show "pipewrite p addr n s = Swtch ?u" using ro r st qw(3) d by simp
    have pu: "pipes ?u = pipes ?w" by (simp add: sleeping_def)
    show "pipe_wf (pipes ?u p)" unfolding pu by (rule qw(2))
    show "pipe_queue (pipes ?u p) = pipe_queue (pipes s p) @ take m (map (user_byte s addr) [0 ..< nat n])" unfolding pu by (rule qw(1))
    show "tstate (ttable ?u ! t) = SLEEPING" using d(7) by (simp add: sleeping_def upd_thread_def)
    show "lock_free (LkPipe (unat p)) ?u" using d by (simp add: sleeping_def)
  qed
qed

lemma piperead_ok:
  assumes c: "pipe_caller p q t s" and ub: "user_buf s addr (nat n)" and ne: "pipe_queue (pipes s p) \<noteq> [] \<or> \<not> writeopen (pipes s p)"
  shows "\<exists>u. piperead p addr n s = Ok (int (min (nat n) (length (pipe_queue (pipes s p))))) u \<and>
     mem u = poke s addr (take (nat n) (pipe_queue (pipes s p))) \<and>
     pipe_queue (pipes u p) = drop (nat n) (pipe_queue (pipes s p)) \<and> pipe_wf (pipes u p)"
proof -
  note d = pipe_callerD [OF c]
  let ?v = "acq (LkPipe (unat p)) s" and ?q = "pipe_queue (pipes s p)"
  have ubv: "user_buf ?v addr (nat n)" using ub by (simp add: user_buf_def)
  have pv: "poke ?v = poke s" by (simp add: poke_def fun_eq_iff d(13) cong: option.case_cong)
  have p0: "poke ?v addr [] = mem ?v" by (simp add: poke_def fun_eq_iff)
  let ?w = "(upd_pipe p (\<lambda>x. x\<lparr>nread := nread x + of_nat (min (nat n) (length (pipe_queue x)))\<rparr>) ?v)\<lparr>mem := poke s addr (take (nat n) ?q)\<rparr>"
  have e: "?v\<lparr>mem := poke ?v addr []\<rparr> = ?v" unfolding p0 by simp
  have "pipe_wf (pipes ?v p)" using d by simp
  from piperead_copy_takes [OF ubv _ _ this, of 0 "nat n" "[]", unfolded e]
  have cp: "piperead_copy p addr 0 (nat n) ?v = Ok (min (nat n) (length ?q)) ?w" using d(9) pv by simp
  have go: "\<not> (nread (pipes ?v p) = nwrite (pipes ?v p) \<and> writeopen (pipes ?v p))"
    using ne d(9) pipe_empty_iff [of "pipes s p"] by auto
  let ?u = "(rel (LkPipe (unat p)) ?w)\<lparr>ttable := wake_procs (Some (ChPipeNwrite (unat p))) (procs ?w) (ttable ?w)\<rparr>"
  have r: "piperead p addr n s = Ok (int (min (nat n) (length ?q))) ?u"
    using go d in_cs_cpu_inv [OF d(2)]
    by (cases "nread (pipes s p) = nwrite (pipes s p)") (simp_all add: piperead_def kexec piperead_loop_def cp)
  from pipe_ring.drop_contents [of "min (nat n) (length ?q)" "nwrite (pipes s p)" "nread (pipes s p)" "p_data (pipes s p)"]
  have qu: "pipe_queue (pipes ?u p) = drop (nat n) ?q"
    by (simp add: pipe_queue_def d(9) pipe_ring.contents_length) (simp add: min_def ring_contents_def)
  have "length ?q \<le> PIPESIZE" using d(14) pipe_queue_length [of "pipes s p"] by (simp add: pipe_wf_def)
  then have "length (pipe_queue (pipes ?u p)) \<le> PIPESIZE" unfolding qu by simp
  then have "pipe_wf (pipes ?u p)" using d(14) d(9) unfolding pipe_queue_length by (simp add: pipe_wf_def)
  then show ?thesis using r qu by (intro exI [of _ ?u]) simp
qed

lemma piperead_blocks:
  assumes c: "pipe_caller p q t s" and "pipe_queue (pipes s p) = []" and "writeopen (pipes s p)"
  shows "\<exists>u. piperead p addr n s = Swtch u \<and> pipes u = pipes s \<and> lock_free (LkPipe (unat p)) u \<and> tstate (ttable u ! t) = SLEEPING"
proof -
  note d = pipe_callerD [OF c]
  let ?v = "acq (LkPipe (unat p)) s"
  let ?u = "sleeping t (ChPipeNread (unat p)) (rel (LkPipe (unat p)) (acq LkPtable ?v))"
  have "nread (pipes s p) = nwrite (pipes s p)" using assms(2) pipe_empty_iff by simp
  then have "piperead p addr n s = Swtch ?u"
    using d assms(3) in_cs_cpu_inv [OF d(2)] by (simp add: piperead_def piperead_loop_def kexec my_killed_def)
  moreover have "pipes ?u = pipes s" using d(9) by (simp add: sleeping_def)
  moreover have "lock_free (LkPipe (unat p)) ?u" by (simp add: sleeping_def)
  moreover have "tstate (ttable ?u ! t) = SLEEPING" using d(7) by (simp add: sleeping_def upd_thread_def)
  ultimately show ?thesis by blast
qed

text \<open>C19. A pipe is a first-in first-out queue of at most \<open>PIPESIZE\<close> bytes. A write that fits
  appends its bytes in order, whole, and returns their number; a write that does not fit appends what
  fits and then sleeps with the lock released, or returns \<open>-1\<close> when the reading end is closed or
  the process was killed. A read of a non-empty pipe moves the oldest bytes, as many as were asked for
  or are there, to the buffer and returns their number; a read of an empty pipe whose writing end is
  closed returns zero, and with the writing end open it sleeps. The counters may have wrapped around.\<close>

theorem pipe_is_a_bounded_queue:
  fixes addr :: uint and n :: int
  assumes "pipe_caller p q t s"
  defines "fits \<equiv> PIPESIZE - length (pipe_queue (pipes s p))" and "sent \<equiv> map (user_byte s addr) [0 ..< nat n]"
  shows "(nat n \<le> fits \<longrightarrow> (\<exists>u. pipewrite p addr n s = Ok n u \<and> pipe_queue (pipes u p) = pipe_queue (pipes s p) @ sent \<and> pipe_wf (pipes u p))) \<and>
    (fits < nat n \<and> readopen (pipes s p) \<longrightarrow> (\<exists>u. pipewrite p addr n s = Swtch u \<and> pipe_wf (pipes u p) \<and> lock_free (LkPipe (unat p)) u \<and>
       pipe_queue (pipes u p) = pipe_queue (pipes s p) @ take fits sent \<and> tstate (ttable u ! t) = SLEEPING)) \<and>
    (fits < nat n \<and> \<not> readopen (pipes s p) \<longrightarrow> (\<exists>u. pipewrite p addr n s = Ok (-1) u)) \<and>
    (user_buf s addr (nat n) \<and> (pipe_queue (pipes s p) \<noteq> [] \<or> \<not> writeopen (pipes s p)) \<longrightarrow>
      (\<exists>u. piperead p addr n s = Ok (int (min (nat n) (length (pipe_queue (pipes s p))))) u \<and>
        mem u = poke s addr (take (nat n) (pipe_queue (pipes s p))) \<and>
        pipe_queue (pipes u p) = drop (nat n) (pipe_queue (pipes s p)) \<and> pipe_wf (pipes u p))) \<and>
    (pipe_queue (pipes s p) = [] \<and> writeopen (pipes s p) \<longrightarrow> (\<exists>u. piperead p addr n s = Swtch u \<and> pipes u = pipes s \<and>
       lock_free (LkPipe (unat p)) u \<and> tstate (ttable u ! t) = SLEEPING))"
proof -
  have lq: "length (pipe_queue (pipes s p)) \<le> PIPESIZE"
    using assms(1) pipe_queue_length [of "pipes s p"] by (simp add: pipe_caller_def pipe_wf_def)
  have f: "nat n \<le> fits \<longleftrightarrow> length (pipe_queue (pipes s p)) + nat n \<le> PIPESIZE"
    "fits < nat n \<longleftrightarrow> PIPESIZE < length (pipe_queue (pipes s p)) + nat n"
    using lq by (auto simp: fits_def)
  show ?thesis
    using pipewrite_ok [OF assms(1), of n addr] pipewrite_overflows [OF assms(1), of n addr, folded fits_def sent_def]
      piperead_ok [OF assms(1), of addr n] piperead_blocks [OF assms(1), of addr n]
    unfolding f sent_def [symmetric] by blast
qed

subsection \<open>Reference counts of open files\<close>

interpretation file_slots: slot_table "\<lambda>f. f_ref f = 0" "\<lambda>_ f. f\<lparr>f_ref := 1\<rparr>"
  by unfold_locales simp

lemma upd_file_simps [simp]:
  "files (upd_file i f s) = (files s)[i := f (files s ! i)]" "rel lk (upd_file i f s) = upd_file i f (rel lk s)"
  "acq lk (upd_file i f s) = upd_file i f (acq lk s)" "settle (upd_file i f s) = upd_file i f (settle s)"
  "cpu_inv (upd_file i f s) = cpu_inv s" "in_cs (upd_file i f s) = in_cs s" "lock_held lk (upd_file i f s) = lock_held lk s"
  "lock_free lk (upd_file i f s) = lock_free lk s" "cur (upd_file i f s) = cur s" "pipes (upd_file i f s) = pipes s"
  "ftab.more (upd_file i f s) = ftab.more s" "inodes (upd_file i f s) = inodes s"
  by (simp_all add: upd_file_def)

lemma filealloc_ok:
  assumes "cpu_inv s" and "lock_free LkFtable s"
  shows "filealloc s = (case scan (\<lambda>f. f_ref f = 0) (files s) of
     Some i \<Rightarrow> Ok (Some i) (upd_file i (\<lambda>f. f\<lparr>f_ref := 1\<rparr>) (settle s)) | None \<Rightarrow> Ok None (settle s))"
  using assms by (cases "scan (\<lambda>f. f_ref f = 0) (files s)") (simp_all add: filealloc_def kexec del: scan_None_iff)

lemma more_settle_ft: "ftab.more (settle s) = ftab.more s"
  by (simp add: settle_def upd_cur_def upd_cpu_def)

text \<open>C20. The open-file table counts references. \<open>filealloc\<close> returns a slot that nobody refers to, now with
  one reference, and fails only when every slot is referred to; \<open>filedup\<close> adds a reference to a
  file in use and panics on one that is not; \<open>fileclose\<close> drops one reference, and as long as
  another remains it changes nothing else: the file keeps its type, its inode or pipe and its offset.\<close>

theorem open_files_are_reference_counted:
  assumes "cpu_inv s" and "lock_free LkFtable s" and "f < length (files s)"
  shows "((\<exists>i u. filealloc s = Ok (Some i) u \<and> i < length (files s) \<and> f_ref (files s ! i) = 0 \<and>
       files u = (files s)[i := (files s ! i)\<lparr>f_ref := 1\<rparr>] \<and>
       Suc (length (filter (\<lambda>f. f_ref f = 0) (files u))) = length (filter (\<lambda>f. f_ref f = 0) (files s))) \<or>
     (\<forall>x\<in>set (files s). f_ref x \<noteq> 0) \<and> (\<exists>u. filealloc s = Ok None u \<and> files u = files s)) \<and>
    (f_ref (files s ! f) \<ge> 1 \<longrightarrow> (\<exists>u. filedup f s = Ok f u \<and> files u = (files s)[f := (files s ! f)\<lparr>f_ref := f_ref (files s ! f) + 1\<rparr>])) \<and>
    (f_ref (files s ! f) < 1 \<longrightarrow> filedup f s = Panic ''filedup'' \<and> fileclose f s = Panic ''fileclose'') \<and>
    (f_ref (files s ! f) \<ge> 2 \<longrightarrow> (\<exists>u. fileclose f s = Ok () u \<and> files u = (files s)[f := (files s ! f)\<lparr>f_ref := f_ref (files s ! f) - 1\<rparr>] \<and>
       inodes u = inodes s \<and> pipes u = pipes s \<and> ftab.more u = ftab.more s)) \<and>
    (f_ref (files s ! f) = 1 \<and> ftype (files s ! f) = FD_PIPE \<longrightarrow> fileclose f s =
       pipeclose (f_pipe (files s ! f)) (writable (files s ! f)) (upd_file f (\<lambda>x. x\<lparr>f_ref := 0, ftype := FD_NONE\<rparr>) (settle s)))"
proof (intro conjI impI)
  show "(\<exists>i u. filealloc s = Ok (Some i) u \<and> i < length (files s) \<and> f_ref (files s ! i) = 0 \<and>
       files u = (files s)[i := (files s ! i)\<lparr>f_ref := 1\<rparr>] \<and>
       Suc (length (filter (\<lambda>f. f_ref f = 0) (files u))) = length (filter (\<lambda>f. f_ref f = 0) (files s))) \<or>
     (\<forall>x\<in>set (files s). f_ref x \<noteq> 0) \<and> (\<exists>u. filealloc s = Ok None u \<and> files u = files s)"
  proof (cases "scan (\<lambda>f. f_ref f = 0) (files s)")
    case (Some i)
    then show ?thesis
      using filealloc_ok [OF assms(1,2)] file_slots.alloc_first_free [OF Some] file_slots.alloc_free_count [OF Some] by simp
  next
    case None
    then have "\<forall>x\<in>set (files s). f_ref x \<noteq> 0" by simp
    moreover have "filealloc s = Ok None (settle s)" using filealloc_ok [OF assms(1,2)] None by (simp del: scan_None_iff)
    ultimately show ?thesis by simp
  qed
  assume r: "f_ref (files s ! f) = 1 \<and> ftype (files s ! f) = FD_PIPE"
  have "upd_file f (\<lambda>x. x\<lparr>f_ref := 0, ftype := FD_NONE\<rparr>) (upd_file f (\<lambda>x. x\<lparr>f_ref := f_ref x - 1\<rparr>) (settle s)) =
      upd_file f (\<lambda>x. x\<lparr>f_ref := 0, ftype := FD_NONE\<rparr>) (settle s)" using assms(3) by (simp add: upd_file_def)
  then show "fileclose f s = pipeclose (f_pipe (files s ! f)) (writable (files s ! f)) (upd_file f (\<lambda>x. x\<lparr>f_ref := 0, ftype := FD_NONE\<rparr>) (settle s))"
    using r assms by (simp add: fileclose_def kexec)
qed (use assms in \<open>simp_all add: filedup_def fileclose_def kexec more_settle_ft\<close>)

subsection \<open>Concrete instances\<close>

definition file0 :: kfile where
  "file0 = \<lparr>ftype = FD_NONE, f_ref = 0, readable = False, writable = False, f_pipe = 0, f_ip = None, f_off = 0\<rparr>"

text \<open>The counters of this pipe have wrapped around: three bytes were read before \<open>2 ^ 32\<close>.\<close>

definition pipe0 :: pipe where
  "pipe0 = \<lparr>p_data = replicate 512 9, nread = -2, nwrite = 3, readopen = True, writeopen = True\<rparr>"

definition parked_p :: ftab where
  "parked_p = fsys.extend (parked_f (replicate 50 inode0)) \<lparr>files = replicate 100 file0, pipes = (\<lambda>_. pipe0)\<rparr>"

lemma parked_p_fields: "files parked_p = replicate 100 file0" "pipes parked_p = (\<lambda>_. pipe0)" "length (ttable parked_p) = 1025"
    "killed (procs parked_p ! 0) = False"
  using ready_threads
  by (simp_all add: parked_p_def parked_f_def parked_l_def parked_b_def parked_k_def parked_m_def parked_sl_def ptable.extend_def
      sltable.extend_def mtable.extend_def kmem.extend_def bcache.extend_def logged.extend_def fsys.extend_def) (simp add: parked_def ready_def proc0_def)

lemma parked_p_on: "calm parked_p" "on_thread 0 0 parked_p" "lock_free lk parked_p" "cpu_proc (cpus parked_p ! 0) = Some 0"
  using ready_calm ready_threads
  by (simp_all add: parked_p_def parked_f_def parked_l_def parked_b_def parked_k_def parked_m_def parked_sl_def calm_def on_thread_def runs_def
      lock_free_def ptable.extend_def sltable.extend_def mtable.extend_def kmem.extend_def bcache.extend_def logged.extend_def fsys.extend_def parked_def)

lemma parked_p_run: "cpu_inv (run_on 0 parked_p)" "lock_free lk (run_on 0 parked_p)" "cpu_proc (cur (run_on 0 parked_p)) = Some 0"
    "cpu_thread (cur (run_on 0 parked_p)) = Some 0" "ncli (cur (run_on 0 parked_p)) = 0"
  using on_threadD [OF parked_p_on(2,1)] parked_p_on by simp_all

lemma pipe0_queue: "length (pipe_queue pipe0) = 5"
  by (simp add: pipe_queue_def ring_contents_def pipe0_def)

theorem pipe_is_a_bounded_queue_witness:
  "\<exists>u. pipewrite 0x80200000 0x80100000 7 (run_on 0 parked_p) = Ok 7 u \<and> length (pipe_queue (pipes u 0x80200000)) = 12"
proof -
  have c: "pipe_caller 0x80200000 0 0 (run_on 0 parked_p)"
    by (simp add: pipe_caller_def parked_p_run parked_p_fields parked_p_on) (simp add: pipe_wf_def pipe0_def PIPESIZE_def)
  have "\<exists>u. pipewrite 0x80200000 0x80100000 7 (run_on 0 parked_p) = Ok 7 u \<and>
      pipe_queue (pipes u 0x80200000) = pipe_queue (pipes (run_on 0 parked_p) 0x80200000) @ map (user_byte (run_on 0 parked_p) 0x80100000) [0 ..< nat 7]"
    using pipe_is_a_bounded_queue [OF c, of 7 "0x80100000"] by (simp add: parked_p_fields pipe0_queue PIPESIZE_def) blast
  then show ?thesis by (auto simp: parked_p_fields pipe0_queue)
qed

theorem open_files_are_reference_counted_witness:
  "\<exists>i u. filealloc (run_on 0 parked_p) = Ok (Some i) u \<and> f_ref (files u ! i) = 1"
proof -
  have "0 < length (files (run_on 0 parked_p))" by (simp add: parked_p_fields)
  from open_files_are_reference_counted [OF parked_p_run(1,2) this, THEN conjunct1] show ?thesis
    by (auto simp: parked_p_fields file0_def)
qed

end
