(* ===== verification/Console.thy ===== *)
theory Console
  imports File
begin

unbundle bit_operations_syntax

text \<open>
  The console (\<open>console.c\<close>), the keyboard (\<open>kbd.c\<close>, \<open>kbd.h\<close>) and the serial port
  (\<open>uart.c\<close>), with the process listing of \<open>proc.c\<close> that the console prints.

  The devices are part of the state: the bytes sent to the serial port, the bytes waiting at the
  serial port and at the keyboard controller, and the cursor register of the screen. The screen
  itself is memory. A busy-wait for the serial port changes nothing and is not modelled.
\<close>

subsection \<open>State\<close>

definition INPUT_BUF :: nat where "INPUT_BUF = 128"
definition BACKSPACE :: int where "BACKSPACE = 0x100"
definition crt :: uint where "crt = P2V 0xb8000"

record console =
  panicked :: bool
  cons_locking :: bool
  uart :: bool
  serial_out :: "uchar list"
  serial_in :: "uchar list"
  cursor :: "16 word"
  kbd_in :: "uchar list"
  kbd_shift :: uint
  in_buf :: "uchar list"
  in_r :: uint
  in_w :: uint
  in_e :: uint

record cons_state = ftab +
  con :: console

definition upd_con :: "(console \<Rightarrow> console) \<Rightarrow> 'm cons_state_scheme \<Rightarrow> 'm cons_state_scheme" where
  "upd_con f s = s\<lparr>con := f (con s)\<rparr>"

definition chars :: "string \<Rightarrow> uchar list" where
  "chars = map of_char"

lemma con_frame [simp]:
  "con (push s) = con s"
  "con (pop s) = con s"
  "con (settle s) = con s"
  "con (acq lk s) = con s"
  "con (rel lk s) = con s"
  "con (upd_cpu c g s) = con s"
  "con (upd_cur g s) = con s"
  "con (upd_lock lk h s) = con s"
  "con (upd_thread t k s) = con s"
  "con (upd_proc p q s) = con s"
  "con (run_on c s) = con s"
  "settle (s\<lparr>con := x\<rparr>) = (settle s)\<lparr>con := x\<rparr>"
  "acq lk (s\<lparr>con := x\<rparr>) = (acq lk s)\<lparr>con := x\<rparr>"
  "rel lk (s\<lparr>con := x\<rparr>) = (rel lk s)\<lparr>con := x\<rparr>"
  "upd_cpu c g (s\<lparr>con := x\<rparr>) = (upd_cpu c g s)\<lparr>con := x\<rparr>"
  "upd_cur g (s\<lparr>con := x\<rparr>) = (upd_cur g s)\<lparr>con := x\<rparr>"
  "upd_lock lk h (s\<lparr>con := x\<rparr>) = (upd_lock lk h s)\<lparr>con := x\<rparr>"
  "upd_thread t k (s\<lparr>con := x\<rparr>) = (upd_thread t k s)\<lparr>con := x\<rparr>"
  "upd_proc p q (s\<lparr>con := x\<rparr>) = (upd_proc p q s)\<lparr>con := x\<rparr>"
  "run_on c (s\<lparr>con := x\<rparr>) = (run_on c s)\<lparr>con := x\<rparr>"
  "this_cpu (s\<lparr>con := x\<rparr>) = this_cpu s"
  "cur (s\<lparr>con := x\<rparr>) = cur s"
  "cpu_inv (s\<lparr>con := x\<rparr>) = cpu_inv s"
  "in_cs (s\<lparr>con := x\<rparr>) = in_cs s"
  "lock_free lk (s\<lparr>con := x\<rparr>) = lock_free lk s"
  "lock_held lk (s\<lparr>con := x\<rparr>) = lock_held lk s"
  "calm (s\<lparr>con := x\<rparr>) = calm s"
  "runs (s\<lparr>con := x\<rparr>) = runs s"
  by (simp_all add: frame_ext_defs)

subsection \<open>Serial port\<close>

definition uartputc :: "int \<Rightarrow> ('m cons_state_scheme, unit) kop" where
  "uartputc c =
     kbind (kget (\<lambda>s. uart (con s))) (\<lambda>u.
     if \<not> u then kret ()
     else kmod (upd_con (\<lambda>k. k\<lparr>serial_out := serial_out k @ [word_of_int c]\<rparr>)))"

definition uartinit :: "bool \<Rightarrow> ('m cons_state_scheme, unit) kop" where
  "uartinit found =
     (if \<not> found then kret () else
     kseq (kmod (upd_con (\<lambda>k. k\<lparr>uart := True\<rparr>)))
     (each (\<lambda>c. uartputc (uint c)) (chars ''xv6...'' @ [10])))"

definition uartgetc :: "('m cons_state_scheme, int) kop" where
  "uartgetc =
     kbind (kget con) (\<lambda>k.
     if \<not> uart k then kret (- 1) else
     case serial_in k of
       [] \<Rightarrow> kret (- 1)
     | c # cs \<Rightarrow> kseq (kmod (upd_con (\<lambda>k. k\<lparr>serial_in := cs\<rparr>))) (kret (uint c)))"

subsection \<open>Output\<close>

definition crt_cell :: "int \<Rightarrow> uint" where
  "crt_cell pos = crt + 2 * word_of_int pos"

definition crt_put :: "int \<Rightarrow> 16 word \<Rightarrow> memory \<Rightarrow> memory" where
  "crt_put pos w = put_bytes (crt_cell pos) [ucast w, ucast (drop_bit 8 w)]"

definition cga_scroll :: "int \<Rightarrow> memory \<Rightarrow> int \<times> memory" where
  "cga_scroll pos m =
     (if pos div 80 \<ge> 24 then
        let m1 = memmove crt (crt_cell 80) (2 * 23 * 80) m;
            pos1 = pos - 80
        in (pos1, memset (crt_cell pos1) 0 (2 * word_of_int (24 * 80 - pos1)) m1)
      else (pos, m))"

definition cgaputc :: "int \<Rightarrow> ('m cons_state_scheme, unit) kop" where
  "cgaputc c =
     kbind (kget (\<lambda>s. uint (cursor (con s)))) (\<lambda>pos.
     kbind (if c = 10 then kret (pos + (80 - pos mod 80))
       else if c = BACKSPACE then kret (if pos > 0 then pos - 1 else pos)
       else kseq (kmod (\<lambda>s. s\<lparr>mem := crt_put pos ((word_of_int c AND 0xff) OR 0x0700) (mem s)\<rparr>)) (kret (pos + 1))) (\<lambda>pos.
     if pos < 0 \<or> pos > 25 * 80 then kpanic ''pos under/overflow'' else
     kbind (kget (\<lambda>s. cga_scroll pos (mem s))) (\<lambda>(pos, m).
     kseq (kmod (\<lambda>s. s\<lparr>mem := m\<rparr>))
     (kseq (kmod (upd_con (\<lambda>k. k\<lparr>cursor := word_of_int pos\<rparr>)))
     (kmod (\<lambda>s. s\<lparr>mem := crt_put pos (0x20 OR 0x0700) (mem s)\<rparr>))))))"

definition consputc :: "int \<Rightarrow> ('m cons_state_scheme, unit) kop" where
  "consputc c =
     kbind (kget (\<lambda>s. panicked (con s))) (\<lambda>p.
     if p then (\<lambda>s. Spin (s\<lparr>eflags_if := False\<rparr>)) else
     kseq (if c = BACKSPACE then kseq (uartputc 8) (kseq (uartputc 0x20) (uartputc 8)) else uartputc c)
     (cgaputc c))"

text \<open>
  The digits go into a buffer of 16 bytes, least significant first; \<open>print_buf\<close> is undefined
  when the buffer overflows.
\<close>

definition digit :: "uint \<Rightarrow> uchar" where
  "digit d = chars ''0123456789abcdef'' ! unat d"

fun print_buf :: "nat \<Rightarrow> uint \<Rightarrow> uint \<Rightarrow> uchar list option" where
  "print_buf 0 base x = None"
| "print_buf (Suc n) base x =
     (let d = digit (x mod base); x' = x div base
      in if x' \<noteq> 0 then map_option ((#) d) (print_buf n base x') else Some [d])"

definition printint :: "uint \<Rightarrow> uint \<Rightarrow> bool \<Rightarrow> ('m cons_state_scheme, unit) kop" where
  "printint xx base sign =
     (let neg = sign \<and> sint xx < 0; x = (if neg then - xx else xx)
      in case print_buf 16 base x of
           None \<Rightarrow> kfault ''printint buffer''
         | Some buf \<Rightarrow>
             (let buf = buf @ (if neg then chars ''-'' else [])
              in if length buf > 16 then kfault ''printint buffer''
                 else each (\<lambda>c. consputc (uint c)) (rev buf)))"

text \<open>
  The variable arguments of \<open>cprintf\<close>. The strings the kernel prints are its own, so a string
  argument carries its bytes; a number where a string is expected, or a missing argument, is a
  fault unless the number is the null pointer.
\<close>

datatype carg = ANum uint | AStr "uchar list"

fun cprintf_loop :: "uchar list \<Rightarrow> carg list \<Rightarrow> ('m cons_state_scheme, unit) kop" where
  "cprintf_loop [] args = kret ()"
| "cprintf_loop [c] args = (if c \<noteq> of_char CHR ''%'' then consputc (uint c) else kret ())"
| "cprintf_loop (c # d # fmt) args =
     (if c \<noteq> of_char CHR ''%'' then kseq (consputc (uint c)) (cprintf_loop (d # fmt) args)
      else if d = of_char CHR ''d'' then
        (case args of ANum x # rest \<Rightarrow> kseq (printint x 10 True) (cprintf_loop fmt rest) | _ \<Rightarrow> kfault ''cprintf argument'')
      else if d = of_char CHR ''x'' \<or> d = of_char CHR ''p'' then
        (case args of ANum x # rest \<Rightarrow> kseq (printint x 16 False) (cprintf_loop fmt rest) | _ \<Rightarrow> kfault ''cprintf argument'')
      else if d = of_char CHR ''s'' then
        (case args of
           AStr bs # rest \<Rightarrow> kseq (each (\<lambda>c. consputc (sint c)) (takeWhile (\<lambda>b. b \<noteq> 0) bs)) (cprintf_loop fmt rest)
         | ANum x # rest \<Rightarrow> if x = 0 then kseq (each (\<lambda>c. consputc (sint c)) (chars ''(null)'')) (cprintf_loop fmt rest)
             else kfault ''cprintf argument''
         | _ \<Rightarrow> kfault ''cprintf argument'')
      else if d = of_char CHR ''%'' then kseq (consputc (uint (of_char CHR ''%'' :: uchar))) (cprintf_loop fmt args)
      else kseq (consputc (uint (of_char CHR ''%'' :: uchar))) (kseq (consputc (uint d)) (cprintf_loop fmt args)))"

definition cprintf :: "uchar list \<Rightarrow> carg list \<Rightarrow> ('m cons_state_scheme, unit) kop" where
  "cprintf fmt args =
     kbind (kget (\<lambda>s. cons_locking (con s))) (\<lambda>locking.
     kseq (if locking then acquire LkCons else kret ())
     (kseq (cprintf_loop fmt args)
     (if locking then release LkCons else kret ())))"

subsection \<open>The process listing\<close>

fun callerpcs :: "nat \<Rightarrow> uint \<Rightarrow> memory \<Rightarrow> uint list" where
  "callerpcs 0 ebp m = []"
| "callerpcs (Suc n) ebp m =
     (if ebp = 0 \<or> ebp < KERNBASE \<or> ebp = 0xffffffff then replicate (Suc n) 0
      else rd32 m (ebp + 4) # callerpcs n (rd32 m ebp) m)"

definition getcallerpcs :: "uint \<Rightarrow> memory \<Rightarrow> uint list" where
  "getcallerpcs v m = callerpcs 10 (v - 8) m"

text \<open>
  The table of state names is indexed by two enumerations whose values overlap, so the later
  initialisers, those of the thread states, win.
\<close>

definition procstate_num :: "procstate \<Rightarrow> nat" where
  "procstate_num st = (case st of UNUSED \<Rightarrow> 0 | EMBRYO \<Rightarrow> 1 | USED \<Rightarrow> 2 | ZOMBIE \<Rightarrow> 3)"

definition procdump_states :: "string list" where
  "procdump_states = (replicate 6 [])[0 := ''unused'', 1 := ''embryo'', 2 := ''used  '', 3 := ''zombie'',
     0 := ''uninit'', 1 := ''sleep '', 2 := ''runble'', 3 := ''run   '', 4 := ''block '', 5 := ''termnt'']"

definition state_name :: "procstate \<Rightarrow> string" where
  "state_name st = (if procstate_num st < length procdump_states then procdump_states ! procstate_num st else ''???'')"

definition procdump_thread :: "nat \<Rightarrow> nat \<Rightarrow> ('m cons_state_scheme, unit) kop" where
  "procdump_thread p t =
     kbind (kget (\<lambda>s. ttable s ! t)) (\<lambda>k.
     if tstate k = UNINIT then kret () else
     kbind (kget (\<lambda>s. pstate (procs s ! p))) (\<lambda>st.
     kseq (cprintf (chars ''thread: %d %s , '') [ANum (word_of_int (tid k)), AStr (chars (state_name st))])
     (if tstate k = SLEEPING then
        kbind (kget (\<lambda>s. getcallerpcs (ctx_ebp (tcontext k) + 8) (mem s))) (\<lambda>pc.
        each (\<lambda>x. cprintf (chars '' %p '') [ANum x]) (takeWhile (\<lambda>x. x \<noteq> 0) pc))
      else kret ())))"

definition procdump_proc :: "nat \<Rightarrow> ('m cons_state_scheme, unit) kop" where
  "procdump_proc p =
     kbind (kget (\<lambda>s. procs s ! p)) (\<lambda>k.
     if pstate k = UNUSED then kret () else
     kseq (cprintf (chars ''process: %d %s %s , '') [ANum (word_of_int (pid k)), AStr (chars (state_name (pstate k))), AStr (pname k)])
     (each (procdump_thread p) (row (p_threads k))))"

definition procdump :: "('m cons_state_scheme, unit) kop" where
  "procdump = kseq (each procdump_proc [0 ..< NPROC]) (cprintf [10] [])"

subsection \<open>Input\<close>

definition ctrl :: "char \<Rightarrow> int" where
  "ctrl c = of_char c - of_char CHR ''@''"

definition in_slot :: "uint \<Rightarrow> nat" where
  "in_slot i = unat i mod INPUT_BUF"

text \<open>\<open>n\<close> bounds the number of characters in the buffer.\<close>

fun kill_line :: "nat \<Rightarrow> ('m cons_state_scheme, unit) kop" where
  "kill_line 0 = kret ()"
| "kill_line (Suc n) =
     kbind (kget con) (\<lambda>k.
     if in_e k \<noteq> in_w k \<and> in_buf k ! in_slot (in_e k - 1) \<noteq> 10 then
       kseq (kmod (upd_con (\<lambda>k. k\<lparr>in_e := in_e k - 1\<rparr>)))
       (kseq (consputc BACKSPACE)
       (kill_line n))
     else kret ())"

definition cons_key :: "int \<Rightarrow> ('m cons_state_scheme, unit) kop" where
  "cons_key c =
     (if c = ctrl CHR ''U'' then
        kbind (kget (\<lambda>s. unat (in_e (con s) - in_w (con s)))) kill_line
      else if c = ctrl CHR ''H'' \<or> c = 0x7f then
        kbind (kget con) (\<lambda>k.
        if in_e k \<noteq> in_w k then
          kseq (kmod (upd_con (\<lambda>k. k\<lparr>in_e := in_e k - 1\<rparr>)))
          (consputc BACKSPACE)
        else kret ())
      else
        kbind (kget con) (\<lambda>k.
        if c \<noteq> 0 \<and> in_e k - in_r k < of_nat INPUT_BUF then
          let c = (if c = 13 then 10 else c) in
          kseq (kmod (upd_con (\<lambda>k. k\<lparr>in_buf := (in_buf k)[in_slot (in_e k) := word_of_int c], in_e := in_e k + 1\<rparr>)))
          (kseq (consputc c)
          (kbind (kget con) (\<lambda>k.
          if c = 10 \<or> c = ctrl CHR ''D'' \<or> in_e k = in_r k + of_nat INPUT_BUF then
            kseq (kmod (upd_con (\<lambda>k. k\<lparr>in_w := in_e k\<rparr>)))
            (wakeup (Some ChInput))
          else kret ())))
        else kret ()))"

text \<open>
  The loop reads the device until it is empty. A device that always has another byte would keep it
  going forever; the fuel stands for the bytes that are waiting.
\<close>

fun consoleintr_loop :: "nat \<Rightarrow> ('m cons_state_scheme, int) kop \<Rightarrow> bool \<Rightarrow> ('m cons_state_scheme, bool) kop" where
  "consoleintr_loop 0 getc dump = Spin"
| "consoleintr_loop (Suc n) getc dump =
     kbind getc (\<lambda>c.
     if c < 0 then kret dump
     else if c = ctrl CHR ''P'' then consoleintr_loop n getc True
     else kseq (cons_key c) (consoleintr_loop n getc dump))"

definition consoleintr :: "('m cons_state_scheme, int) kop \<Rightarrow> ('m cons_state_scheme, unit) kop" where
  "consoleintr getc =
     kseq (acquire LkCons)
     (kbind (kget (\<lambda>s. Suc (length (kbd_in (con s)) + length (serial_in (con s))))) (\<lambda>n.
     kbind (consoleintr_loop n getc False) (\<lambda>doprocdump.
     kseq (release LkCons)
     (if doprocdump then procdump else kret ()))))"

text \<open>
  The reader's locals are the bytes still wanted (\<open>n\<close>) and the next user address.
\<close>

fun consoleread_loop :: "nat \<Rightarrow> kbuf \<Rightarrow> int \<Rightarrow> nat \<Rightarrow> nat \<Rightarrow> ('m cons_state_scheme, int) kop" where
  "consoleread_loop ip dst target got 0 =
     kseq (release LkCons)
     (kseq (ilock (Some ip))
     (kret (int got)))"
| "consoleread_loop ip dst target got (Suc n) =
     kbind (kget con) (\<lambda>k.
     if in_r k = in_w k then
       kbind my_killed (\<lambda>stop.
       if stop then
         kseq (release LkCons)
         (kseq (ilock (Some ip))
         (kret (- 1)))
       else
         kseq (sleep ChInput (Some LkCons))
         (kret 0))
     else
       let c = in_buf k ! in_slot (in_r k) in
       kseq (kmod (upd_con (\<lambda>k. k\<lparr>in_r := in_r k + 1\<rparr>)))
       (if sint c = ctrl CHR ''D'' then
          kseq (if int (Suc n) < target then kmod (upd_con (\<lambda>k. k\<lparr>in_r := in_r k - 1\<rparr>)) else kret ())
          (consoleread_loop ip dst target got 0)
        else
          kseq (store_bytes dst got [c])
          (if c = 10 then consoleread_loop ip dst target (Suc got) 0
           else consoleread_loop ip dst target (Suc got) n)))"

definition consoleread :: "nat \<Rightarrow> kbuf \<Rightarrow> int \<Rightarrow> ('m cons_state_scheme, int) kop" where
  "consoleread ip dst n =
     kseq (iunlock (Some ip))
     (kseq (acquire LkCons)
     (consoleread_loop ip dst n 0 (nat n)))"

definition consoleread_resume :: "nat \<Rightarrow> kbuf \<Rightarrow> int \<Rightarrow> nat \<Rightarrow> ('m cons_state_scheme, int) kop" where
  "consoleread_resume ip dst n got =
     kseq (sleep_resume LkCons)
     (consoleread_loop ip dst n got (nat n - got))"

definition consolewrite :: "nat \<Rightarrow> kbuf \<Rightarrow> int \<Rightarrow> ('m cons_state_scheme, int) kop" where
  "consolewrite ip src n =
     kseq (iunlock (Some ip))
     (kseq (acquire LkCons)
     (kseq (each (\<lambda>i. kbind (kget (fetch_bytes src i 1)) (\<lambda>bs. consputc (uint (bs ! 0)))) [0 ..< nat n])
     (kseq (release LkCons)
     (kseq (ilock (Some ip))
     (kret n)))))"

text \<open>The device switch after \<open>consoleinit\<close>: the console is device 1.\<close>

definition CONSOLE :: int where "CONSOLE = 1"

definition devsw_read :: "('m cons_state_scheme) devfun" where
  "devsw_read d = (if d = CONSOLE then Some consoleread else None)"

definition devsw_write :: "('m cons_state_scheme) devfun" where
  "devsw_write d = (if d = CONSOLE then Some consolewrite else None)"

definition consoleinit :: "('m cons_state_scheme, unit) kop" where
  "consoleinit = kseq (initlock LkCons ''console'') (kmod (upd_con (\<lambda>k. k\<lparr>cons_locking := True\<rparr>)))"

subsection \<open>Keyboard\<close>

definition kb_NO :: uchar where "kb_NO = 0"
definition SHIFT :: uint where "SHIFT = 1"
definition CTL :: uint where "CTL = 2"
definition ALT :: uint where "ALT = 4"
definition CAPSLOCK :: uint where "CAPSLOCK = 8"
definition NUMLOCK :: uint where "NUMLOCK = 16"
definition SCROLLLOCK :: uint where "SCROLLLOCK = 32"
definition E0ESC :: uint where "E0ESC = 64"

definition shiftcode :: "uchar \<Rightarrow> uint" where
  "shiftcode d = (if d = 0x1D then CTL else if d = 0x2A then SHIFT else if d = 0x36 then SHIFT
     else if d = 0x38 then ALT else if d = 0x9D then CTL else if d = 0xB8 then ALT else 0)"

definition togglecode :: "uchar \<Rightarrow> uint" where
  "togglecode d = (if d = 0x3A then CAPSLOCK else if d = 0x45 then NUMLOCK else if d = 0x46 then SCROLLLOCK else 0)"

definition special_keys :: "(uchar \<times> uchar) list" where
  "special_keys = [(0xC8, 0xE2), (0xD0, 0xE3), (0xC9, 0xE6), (0xD1, 0xE7), (0xCB, 0xE4), (0xCD, 0xE5),
     (0x97, 0xE0), (0xCF, 0xE1), (0xD2, 0xE8), (0xD3, 0xE9)]"

definition keymap :: "uchar list \<Rightarrow> (uchar \<times> uchar) list \<Rightarrow> uchar \<Rightarrow> uchar" where
  "keymap rows extra d = (case map_of extra d of Some c \<Rightarrow> c | None \<Rightarrow> if unat d < length rows then rows ! unat d else kb_NO)"

definition keypad :: "uchar list" where
  "keypad = replicate 13 kb_NO @ chars ''789-456+1230.'' @ replicate 4 kb_NO"

definition normalmap :: "uchar \<Rightarrow> uchar" where
  "normalmap = keymap
     ([kb_NO, 0x1B] @ chars ''1234567890-='' @ [8, 9] @ chars ''qwertyuiop[]'' @ [10, kb_NO] @ chars ''asdfghjkl;'' @
      [39, 96, kb_NO, 92] @ chars ''zxcvbnm,./'' @ [kb_NO, 42, kb_NO, 32] @ keypad)
     ([(0x9C, 10), (0xB5, 47)] @ special_keys)"

definition shiftmap :: "uchar \<Rightarrow> uchar" where
  "shiftmap = keymap
     ([kb_NO, 0x1B] @ chars ''!@#$%^&*()_+'' @ [8, 9] @ chars ''QWERTYUIOP{}'' @ [10, kb_NO] @ chars ''ASDFGHJKL:'' @
      [34, 126, kb_NO, 124] @ chars ''ZXCVBNM<>?'' @ [kb_NO, 42, kb_NO, 32] @ keypad)
     ([(0x9C, 10), (0xB5, 47)] @ special_keys)"

definition ctl :: "char \<Rightarrow> uchar" where
  "ctl c = of_char c - of_char CHR ''@''"

definition ctlmap :: "uchar \<Rightarrow> uchar" where
  "ctlmap = keymap
     (replicate 16 kb_NO @ map ctl ''QWERTYUIOP'' @ [kb_NO, kb_NO, 13, kb_NO] @ map ctl ''ASDFGHJKL'' @
      [kb_NO, kb_NO, kb_NO, kb_NO, 92 - 64] @ map ctl ''ZXCVBNM'' @ [kb_NO, kb_NO, ctl CHR ''/'', kb_NO, kb_NO])
     ([(0x9C, 13), (0xB5, ctl CHR ''/'')] @ special_keys)"

definition charcode :: "uint \<Rightarrow> uchar \<Rightarrow> uchar" where
  "charcode sh = (if sh = 0 then normalmap else if sh = 1 then shiftmap else ctlmap)"

definition kbd_char :: "uint \<Rightarrow> uchar \<Rightarrow> uchar" where
  "kbd_char sh d =
     (let c = charcode (sh AND (CTL OR SHIFT)) d
      in if sh AND CAPSLOCK \<noteq> 0 then
           if of_char CHR ''a'' \<le> c \<and> c \<le> of_char CHR ''z'' then c + (of_char CHR ''A'' - of_char CHR ''a'')
           else if of_char CHR ''A'' \<le> c \<and> c \<le> of_char CHR ''Z'' then c + (of_char CHR ''a'' - of_char CHR ''A'')
           else c
         else c)"

definition kbd_step :: "uint \<Rightarrow> uchar \<Rightarrow> uint \<times> uchar" where
  "kbd_step sh d =
     (if d = 0xE0 then (sh OR E0ESC, 0)
      else if d AND 0x80 \<noteq> 0 then
        let d = (if sh AND E0ESC \<noteq> 0 then d else d AND 0x7F)
        in (sh AND NOT (shiftcode d OR E0ESC), 0)
      else
        let (sh, d) = (if sh AND E0ESC \<noteq> 0 then (sh AND NOT E0ESC, d OR 0x80) else (sh, d));
            sh = sh OR shiftcode d;
            sh = sh XOR togglecode d
        in (sh, kbd_char sh d))"

definition kbdgetc :: "('m cons_state_scheme, int) kop" where
  "kbdgetc =
     kbind (kget con) (\<lambda>k.
     case kbd_in k of
       [] \<Rightarrow> kret (- 1)
     | d # ds \<Rightarrow>
         let (sh, c) = kbd_step (kbd_shift k) d in
         kseq (kmod (upd_con (\<lambda>k. k\<lparr>kbd_in := ds, kbd_shift := sh\<rparr>)))
         (kret (uint c)))"

definition kbdintr :: "('m cons_state_scheme, unit) kop" where
  "kbdintr = consoleintr kbdgetc"

definition uartintr :: "('m cons_state_scheme, unit) kop" where
  "uartintr = consoleintr uartgetc"

subsection \<open>Showing a character\<close>

definition cga_pos :: "int \<Rightarrow> int \<Rightarrow> int" where
  "cga_pos c pos = (if c = 10 then pos + (80 - pos mod 80) else if c = BACKSPACE then if pos > 0 then pos - 1 else pos else pos + 1)"

definition echo :: "int \<Rightarrow> uchar list" where
  "echo c = (if c = BACKSPACE then [8, 0x20, 8] else [word_of_int c])"

definition cga_mem :: "int \<Rightarrow> int \<Rightarrow> memory \<Rightarrow> int \<times> memory" where
  "cga_mem c pos m = cga_scroll (cga_pos c pos)
     (if c = 10 \<or> c = BACKSPACE then m else crt_put pos ((word_of_int c AND 0xff) OR 0x0700) m)"

definition shown :: "int \<Rightarrow> 'm cons_state_scheme \<Rightarrow> 'm cons_state_scheme" where
  "shown c s =
     (let (pos, m) = cga_mem c (uint (cursor (con s))) (mem s)
      in s\<lparr>mem := crt_put pos (0x20 OR 0x0700) m,
           con := (con s)\<lparr>serial_out := serial_out (con s) @ (if uart (con s) then echo c else []), cursor := word_of_int pos\<rparr>\<rparr>)"

definition screen_ok :: "console \<Rightarrow> bool" where
  "screen_ok k \<longleftrightarrow> \<not> panicked k \<and> uint (cursor k) < 24 * 80"

lemma cga_pos_range:
  assumes "0 \<le> pos" and "pos < 1920"
  shows "0 \<le> cga_pos c pos" and "cga_pos c pos \<le> 1920"
proof -
  have "pos mod 80 = pos - 80 * (pos div 80)" by (simp add: minus_mult_div_eq_mod)
  moreover have "pos div 80 \<le> 23" using assms by simp
  moreover have "0 \<le> pos mod 80" "pos mod 80 < 80" by simp_all
  ultimately show "0 \<le> cga_pos c pos" "cga_pos c pos \<le> 1920" using assms by (auto simp: cga_pos_def)
qed

lemma cga_mem_range:
  assumes "0 \<le> pos" and "pos < 1920"
  shows "0 \<le> fst (cga_mem c pos m)" and "fst (cga_mem c pos m) < 1920"
proof -
  note r = cga_pos_range [OF assms, of c]
  have "(24 \<le> cga_pos c pos div 80) = (1920 \<le> cga_pos c pos)" by linarith
  then show "0 \<le> fst (cga_mem c pos m)" "fst (cga_mem c pos m) < 1920"
    using r by (simp_all add: cga_mem_def cga_scroll_def Let_def)
qed

lemma consputc_ok [kexec]:
  assumes "screen_ok (con s)"
  shows "consputc c s = Ok () (shown c s)"
proof -
  have b: "0 \<le> uint (cursor (con s))" "uint (cursor (con s)) < 1920" using assms by (simp_all add: screen_ok_def)
  have p: "\<not> cga_pos c (uint (cursor (con s))) < 0" "\<not> 2000 < cga_pos c (uint (cursor (con s)))"
    using cga_pos_range [OF b, of c] by simp_all
  have pn: "\<not> panicked (con s)" using assms by (simp add: screen_ok_def)
  show ?thesis
    using p pn b
    by (cases "c = 10"; cases "c = BACKSPACE"; simp add: BACKSPACE_def consputc_def cgaputc_def uartputc_def kexec shown_def cga_mem_def cga_pos_def echo_def upd_con_def
        split: if_splits prod.split)
qed

lemma screen_ok_shown [simp]: "screen_ok (con s) \<Longrightarrow> screen_ok (con (shown c s))"
  using cga_mem_range [of "uint (cursor (con s))" c "mem s"]
  by (auto simp: screen_ok_def shown_def Let_def split: prod.split) (simp add: uint_word_of_int)

lemma shown_frame [simp]:
  "in_cs (shown c s) = in_cs s" "lock_held lk (shown c s) = lock_held lk s" "lock_free lk (shown c s) = lock_free lk s"
  "procs (shown c s) = procs s" "ttable (shown c s) = ttable s" "cpu_inv (shown c s) = cpu_inv s"
  "in_buf (con (shown c s)) = in_buf (con s)" "in_r (con (shown c s)) = in_r (con s)"
  "in_w (con (shown c s)) = in_w (con s)" "in_e (con (shown c s)) = in_e (con s)"
  "kbd_in (con (shown c s)) = kbd_in (con s)" "serial_in (con (shown c s)) = serial_in (con s)" "uart (con (shown c s)) = uart (con s)"
  "kbd_shift (con (shown c s)) = kbd_shift (con s)" "cons_locking (con (shown c s)) = cons_locking (con s)"
  by (simp_all add: shown_def split: prod.split)

subsection \<open>The line discipline\<close>

interpretation cons_ring: ring INPUT_BUF
  by unfold_locales (simp_all add: INPUT_BUF_def)

text \<open>
  What the input buffer means: the characters of finished lines, which readers may take, and the
  characters of the line that is being edited.
\<close>

definition typed :: "console \<Rightarrow> uchar list" where
  "typed k = ring_contents INPUT_BUF (in_buf k) (in_r k) (in_e k)"

definition finished :: "console \<Rightarrow> nat" where
  "finished k = unat (in_w k - in_r k)"

definition lines :: "console \<Rightarrow> uchar list \<times> uchar list" where
  "lines k = (take (finished k) (typed k), drop (finished k) (typed k))"

definition cons_wf :: "console \<Rightarrow> bool" where
  "cons_wf k \<longleftrightarrow> length (in_buf k) = INPUT_BUF \<and> length (typed k) \<le> INPUT_BUF \<and> finished k \<le> length (typed k) \<and>
     10 \<notin> set (snd (lines k)) \<and> screen_ok k"

fun line_key :: "uchar list \<times> uchar list \<Rightarrow> int \<Rightarrow> uchar list \<times> uchar list" where
  "line_key (q, l) c =
     (if c = 0x15 then (q, [])
      else if c = 8 \<or> c = 0x7f then (q, butlast l)
      else if c = 0 \<or> length q + length l \<ge> 128 then (q, l)
      else let b = (if c = 13 then 10 else c)
           in if b = 10 \<or> b = 4 \<or> Suc (length q + length l) = 128 then (q @ l @ [word_of_int b], [])
              else (q, l @ [word_of_int b]))"

definition cons_ready :: "'m cons_state_scheme \<Rightarrow> bool" where
  "cons_ready s \<longleftrightarrow> in_cs s \<and> lock_held LkCons s \<and> lock_free LkPtable s \<and> cons_wf (con s)"

definition same_devices :: "console \<Rightarrow> console \<Rightarrow> bool" where
  "same_devices k k' \<longleftrightarrow> kbd_in k' = kbd_in k \<and> kbd_shift k' = kbd_shift k \<and> serial_in k' = serial_in k \<and> uart k' = uart k"

definition woke :: "'m cons_state_scheme \<Rightarrow> 'm cons_state_scheme \<Rightarrow> bool" where
  "woke s u \<longleftrightarrow> procs u = procs s \<and>
     (fst (lines (con u)) = fst (lines (con s)) \<and> ttable u = ttable s \<or>
      ttable u = wake_procs (Some ChInput) (procs s) (ttable s))"

lemma ctrl_codes: "ctrl CHR ''U'' = 0x15" "ctrl CHR ''H'' = 8" "ctrl CHR ''D'' = 4" "ctrl CHR ''P'' = 16"
  by (simp_all add: ctrl_def of_char_def)

lemma wake_procs_idem: "wake_procs ch ps (wake_procs ch ps tt) = wake_procs ch ps tt"
  by (rule nth_equalityI) (auto simp: nth_wake_procs)

lemma woke_trans: "woke s t \<Longrightarrow> woke t u \<Longrightarrow> woke s u"
  by (auto simp: woke_def wake_procs_idem)

lemma typed_length: "length (typed k) = unat (in_e k - in_r k)"
  unfolding typed_def by (rule cons_ring.contents_length)

lemma lines_length: "cons_wf k \<Longrightarrow> length (fst (lines k)) + length (snd (lines k)) = length (typed k)"
  by (simp add: lines_def cons_wf_def)

lemma editing_empty_iff:
  assumes "cons_wf k"
  shows "in_e k = in_w k \<longleftrightarrow> snd (lines k) = []"
proof -
  have "finished k \<le> length (typed k)" using assms by (simp add: cons_wf_def)
  moreover have "in_e k = in_w k \<longleftrightarrow> unat (in_e k - in_r k) = unat (in_w k - in_r k)"
    using unsigned_word_eqI [of "in_e k - in_r k" "in_w k - in_r k"] by auto
  ultimately show ?thesis by (auto simp: lines_def finished_def typed_length)
qed

lemma lines_shown [simp]: "lines (con (shown c s)) = lines (con s)" "typed (con (shown c s)) = typed (con s)"
    "finished (con (shown c s)) = finished (con s)"
  by (simp_all add: lines_def typed_def finished_def)

lemma cons_wf_shown [simp]: "cons_wf (con s) \<Longrightarrow> cons_wf (con (shown c s))"
  by (simp add: cons_wf_def)

lemma cons_ready_shown [simp]: "cons_ready s \<Longrightarrow> cons_ready (shown c s)"
  by (simp add: cons_ready_def)

lemma same_devices_simps [simp]: "same_devices k k" "same_devices k (con (shown c s)) = same_devices k (con s)"
  by (simp_all add: same_devices_def)

lemma same_devices_trans: "same_devices k k' \<Longrightarrow> same_devices k' k'' \<Longrightarrow> same_devices k k''"
  by (simp add: same_devices_def)

text \<open>Taking back the last character.\<close>

definition unput :: "console \<Rightarrow> console" where
  "unput k = k\<lparr>in_e := in_e k - 1\<rparr>"

lemma unput_lines:
  assumes "cons_wf k" and "in_e k \<noteq> in_w k"
  shows "lines (unput k) = (fst (lines k), butlast (snd (lines k)))" and "cons_wf (unput k)"
    and "snd (lines k) = snd (lines (unput k)) @ [in_buf k ! in_slot (in_e k - 1)]" and "same_devices k (unput k)"
proof -
  have f: "finished k \<le> length (typed k)" using assms by (simp add: cons_wf_def)
  have ne: "snd (lines k) \<noteq> []" using assms editing_empty_iff by blast
  then have lt: "finished k < length (typed k)" by (simp add: lines_def)
  then have "in_r k \<noteq> in_e k" by (auto simp: typed_length)
  from cons_ring.unput_contents [OF this, of "in_buf k"]
  have t: "typed k = typed (unput k) @ [in_buf k ! in_slot (in_e k - 1)]" by (simp add: typed_def unput_def in_slot_def)
  have fu: "finished (unput k) = finished k" by (simp add: finished_def unput_def)
  have le: "finished k \<le> length (typed (unput k))" using t lt by simp
  show l: "snd (lines k) = snd (lines (unput k)) @ [in_buf k ! in_slot (in_e k - 1)]"
    using le unfolding lines_def fu by (subst t) simp
  have "fst (lines (unput k)) = fst (lines k)" using le arg_cong [OF t, of "take (finished k)"] by (simp add: lines_def fu)
  then show "lines (unput k) = (fst (lines k), butlast (snd (lines k)))" using l by (metis butlast_snoc prod.collapse)
  have sc: "screen_ok k" "length (in_buf k) = INPUT_BUF" "length (typed k) \<le> INPUT_BUF" "10 \<notin> set (snd (lines k))"
    using assms(1) by (simp_all add: cons_wf_def)
  have "10 \<notin> set (snd (lines (unput k)))" using sc(4) unfolding l by simp
  moreover have "length (typed (unput k)) \<le> INPUT_BUF" using sc(3) unfolding t by simp
  ultimately show "cons_wf (unput k)" using sc le fu by (simp add: cons_wf_def screen_ok_def) (simp add: unput_def)
  show "same_devices k (unput k)" by (simp add: same_devices_def unput_def)
qed

text \<open>Adding a character, which may finish the line.\<close>

definition put_char :: "uchar \<Rightarrow> console \<Rightarrow> console" where
  "put_char b k = k\<lparr>in_buf := (in_buf k)[in_slot (in_e k) := b], in_e := in_e k + 1\<rparr>"

definition commit_line :: "console \<Rightarrow> console" where
  "commit_line k = k\<lparr>in_w := in_e k\<rparr>"

lemma put_char_lines:
  assumes "cons_wf k" and "length (typed k) < INPUT_BUF"
  shows "lines (put_char b k) = (fst (lines k), snd (lines k) @ [b])" and "b \<noteq> 10 \<Longrightarrow> cons_wf (put_char b k)"
    and "length (typed (put_char b k)) = Suc (length (typed k))"
    and "lines (commit_line (put_char b k)) = (fst (lines k) @ snd (lines k) @ [b], [])" and "cons_wf (commit_line (put_char b k))"
    and "same_devices k (put_char b k)"
    and "in_e (put_char b k) = in_r (put_char b k) + of_nat INPUT_BUF \<longleftrightarrow> Suc (length (typed k)) = INPUT_BUF"
proof -
  have sc: "screen_ok k" "length (in_buf k) = INPUT_BUF" "length (typed k) \<le> INPUT_BUF" "finished k \<le> length (typed k)"
    "10 \<notin> set (snd (lines k))" using assms(1) by (simp_all add: cons_wf_def)
  have t: "typed (put_char b k) = typed k @ [b]"
    using cons_ring.put_contents [OF sc(2), of "in_e k" "in_r k" b] assms(2)
    by (simp add: typed_def put_char_def in_slot_def cons_ring.contents_length)
  have f: "finished (put_char b k) = finished k" by (simp add: finished_def put_char_def)
  show l: "lines (put_char b k) = (fst (lines k), snd (lines k) @ [b])" using sc(4) by (simp add: lines_def t f)
  show len: "length (typed (put_char b k)) = Suc (length (typed k))" by (simp add: t)
  have so: "screen_ok (put_char b k)" "length (in_buf (put_char b k)) = INPUT_BUF" using sc(1,2) by (simp_all add: screen_ok_def put_char_def)
  show "cons_wf (put_char b k)" if "b \<noteq> 10" using that sc assms(2) so l by (simp add: cons_wf_def t f)
  have tc: "typed (commit_line (put_char b k)) = typed k @ [b]" by (simp add: typed_def commit_line_def t [unfolded typed_def])
  have fc: "finished (commit_line (put_char b k)) = Suc (length (typed k))"
    using len by (simp add: finished_def commit_line_def typed_length)
  show lc: "lines (commit_line (put_char b k)) = (fst (lines k) @ snd (lines k) @ [b], [])"
    by (simp add: lines_def tc fc)
  show "cons_wf (commit_line (put_char b k))"
    using so sc(1,3) assms(2) lc by (simp add: cons_wf_def tc fc) (simp add: commit_line_def screen_ok_def)
  show "same_devices k (put_char b k)" by (simp add: same_devices_def put_char_def)
  show "in_e (put_char b k) = in_r (put_char b k) + of_nat INPUT_BUF \<longleftrightarrow> Suc (length (typed k)) = INPUT_BUF"
    unfolding cons_ring.full_iff using len by (simp add: typed_length)
qed

lemma upd_con_simps [simp]: "con (upd_con f s) = f (con s)" "procs (upd_con f s) = procs s" "ttable (upd_con f s) = ttable s"
    "in_cs (upd_con f s) = in_cs s" "lock_held lk (upd_con f s) = lock_held lk s" "lock_free lk (upd_con f s) = lock_free lk s"
    "cpu_inv (upd_con f s) = cpu_inv s" "settle (upd_con f s) = upd_con f (settle s)"
  by (simp_all add: upd_con_def)

lemma kill_line_unput:
  "kill_line (Suc n) = kbind (kget con) (\<lambda>k.
     if in_e k \<noteq> in_w k \<and> in_buf k ! in_slot (in_e k - 1) \<noteq> 10 then
       kseq (kmod (upd_con unput)) (kseq (consputc BACKSPACE) (kill_line n))
     else kret ())"
  unfolding kill_line.simps unput_def [abs_def] ..

lemma cons_key_back:
  "c = 8 \<or> c = 0x7f \<Longrightarrow> cons_key c = kbind (kget con) (\<lambda>k.
     if in_e k \<noteq> in_w k then kseq (kmod (upd_con unput)) (consputc BACKSPACE) else kret ())"
  unfolding cons_key_def ctrl_codes unput_def [abs_def] by auto

lemma kill_line_ok:
  assumes "cons_ready s" and "length (snd (lines (con s))) = n"
  shows "\<exists>u. kill_line n s = Ok () u \<and> cons_ready u \<and> lines (con u) = (fst (lines (con s)), []) \<and>
     procs u = procs s \<and> ttable u = ttable s \<and> same_devices (con s) (con u)"
  using assms
proof (induction n arbitrary: s)
  case 0
  then show ?case by (cases "lines (con s)") simp
next
  case (Suc n)
  have wf: "cons_wf (con s)" using Suc.prems by (simp add: cons_ready_def)
  then have ne: "in_e (con s) \<noteq> in_w (con s)" using Suc.prems editing_empty_iff by fastforce
  note u = unput_lines [OF wf ne]
  have "in_buf (con s) ! in_slot (in_e (con s) - 1) \<in> set (snd (lines (con s)))" by (subst u(3)) simp
  then have nl: "in_buf (con s) ! in_slot (in_e (con s) - 1) \<noteq> 10" using wf by (auto simp: cons_wf_def)
  define t where "t = upd_con unput s"
  have t: "con t = unput (con s)" "procs t = procs s" "ttable t = ttable s" by (simp_all add: t_def)
  have ct: "cons_ready t" using Suc.prems(1) u(2) by (simp add: cons_ready_def t_def)
  then have "cons_ready (shown BACKSPACE t)" by simp
  moreover have "length (snd (lines (con (shown BACKSPACE t)))) = n" using u(1) Suc.prems(2) by (simp add: t)
  ultimately obtain w where w: "kill_line n (shown BACKSPACE t) = Ok () w" "cons_ready w"
      "lines (con w) = (fst (lines (con t)), [])" "procs w = procs t" "ttable w = ttable t" "same_devices (con t) (con w)"
    using Suc.IH [of "shown BACKSPACE t"] by (auto simp: same_devices_def)
  have "screen_ok (con t)" using ct by (simp add: cons_ready_def cons_wf_def)
  then have p: "consputc BACKSPACE t = Ok () (shown BACKSPACE t)" by (rule consputc_ok)
  have "kill_line (Suc n) s = kseq (consputc BACKSPACE) (kill_line n) t"
    using ne nl unfolding kill_line_unput t_def by (simp add: kbind_apply kseq_apply del: kill_line.simps)
  then have "kill_line (Suc n) s = Ok () w" using p w(1) by (simp add: kseq_apply)
  then show ?case using w(2-6) u(1) t same_devices_trans [OF u(4), of "con w"] by simp
qed

lemma uint_numeral_uchar: "uint (10 :: uchar) = 10"
  by simp

lemma uint_numeral_uchar16: "uint (16 :: uchar) = 16"
  by simp

lemma commit_shown [simp]: "lines (commit_line (con (shown c s))) = lines (commit_line (con s))"
    "cons_wf (commit_line (con s)) \<Longrightarrow> screen_ok (con s) \<Longrightarrow> cons_wf (commit_line (con (shown c s)))"
    "same_devices k (commit_line (con (shown c s))) = same_devices k (con s)"
  using screen_ok_shown [of s c]
  by (simp_all add: lines_def typed_def finished_def commit_line_def cons_wf_def same_devices_def screen_ok_def)

lemma cons_key_insert:
  assumes "c \<notin> {0x15, 8, 0x7f}"
  shows "cons_key c = kbind (kget con) (\<lambda>k.
     if c \<noteq> 0 \<and> in_e k - in_r k < of_nat INPUT_BUF then
       let b = (if c = 13 then 10 else c) in
       kseq (kmod (upd_con (put_char (word_of_int b))))
       (kseq (consputc b)
       (kbind (kget con) (\<lambda>k.
       if b = 10 \<or> b = 4 \<or> in_e k = in_r k + of_nat INPUT_BUF then
         kseq (kmod (upd_con commit_line)) (wakeup (Some ChInput))
       else kret ())))
     else kret ())"
  using assms unfolding cons_key_def ctrl_codes put_char_def [abs_def] commit_line_def [abs_def] by simp

text \<open>The three branches of the handler: kill line, erase, and every other key.\<close>

lemma cons_key_kill:
  assumes s: "cons_ready s" and U: "c = 0x15"
  shows "\<exists>u. cons_key c s = Ok () u \<and> cons_ready u \<and> lines (con u) = line_key (lines (con s)) c \<and>
     woke s u \<and> same_devices (con s) (con u)"
proof -
  have wf: "cons_wf (con s)" using s by (simp add: cons_ready_def)
  obtain q l where ql: "lines (con s) = (q, l)" by force
  have "unat (in_e (con s) - in_w (con s)) = length l"
  proof -
    have "finished (con s) \<le> length (typed (con s))" using wf by (simp add: cons_wf_def)
    moreover have "in_e (con s) - in_w (con s) = (in_e (con s) - in_r (con s)) - (in_w (con s) - in_r (con s))" by simp
    ultimately have "unat (in_e (con s) - in_w (con s)) = length (typed (con s)) - finished (con s)"
      by (simp only: typed_length finished_def unat_sub word_le_nat_alt)
    also have "\<dots> = length l" using ql by (auto simp: lines_def)
    finally show ?thesis .
  qed
  with kill_line_ok [OF s, of "length l"] ql U show ?thesis
    by (auto simp: cons_key_def ctrl_codes kexec woke_def)
qed

lemma cons_key_erase:
  assumes s: "cons_ready s" and H: "c = 8 \<or> c = 0x7f"
  shows "\<exists>u. cons_key c s = Ok () u \<and> cons_ready u \<and> lines (con u) = line_key (lines (con s)) c \<and>
     woke s u \<and> same_devices (con s) (con u)"
proof (cases "in_e (con s) = in_w (con s)")
  case True
  have wf: "cons_wf (con s)" using s by (simp add: cons_ready_def)
  obtain q l where ql: "lines (con s) = (q, l)" by force
  have "l = []" using True editing_empty_iff [OF wf] ql by simp
  then show ?thesis using True H s ql by (auto simp: cons_key_def ctrl_codes kexec woke_def)
next
  case False
  have wf: "cons_wf (con s)" using s by (simp add: cons_ready_def)
  obtain q l where ql: "lines (con s) = (q, l)" by force
  note u = unput_lines [OF wf False]
  define t where "t = upd_con unput s"
  have t: "con t = unput (con s)" "procs t = procs s" "ttable t = ttable s" by (simp_all add: t_def)
  have ct: "cons_ready t" using s u(2) by (simp add: cons_ready_def t_def)
  have "cons_key c s = Ok () (shown BACKSPACE t)"
    using False consputc_ok [of t BACKSPACE] ct unfolding cons_key_back [OF H] t_def by (simp add: kbind_apply kseq_apply cons_ready_def cons_wf_def)
  then show ?thesis using ct u(1,4) ql H by (auto simp: t woke_def)
qed

lemma cons_key_other:
  assumes s: "cons_ready s" and c: "0 \<le> c" "c < 256" and I: "c \<notin> {0x15, 8, 0x7f}"
  shows "\<exists>u. cons_key c s = Ok () u \<and> cons_ready u \<and> lines (con u) = line_key (lines (con s)) c \<and>
     woke s u \<and> same_devices (con s) (con u)"
proof -
  have wf: "cons_wf (con s)" using s by (simp add: cons_ready_def)
  obtain q l where ql: "lines (con s) = (q, l)" by force
  have len: "length (typed (con s)) = length q + length l" using lines_length [OF wf] ql by simp
  show ?thesis
  proof (cases "c = 0 \<or> 128 \<le> length q + length l")
    case True
    then have "\<not> (c \<noteq> 0 \<and> in_e (con s) - in_r (con s) < of_nat INPUT_BUF)"
      using len by (auto simp: typed_length word_less_nat_alt INPUT_BUF_def)
    then show ?thesis using I s ql True by (auto simp: cons_key_def ctrl_codes kexec woke_def)
  next
    case False
    then have room: "length (typed (con s)) < INPUT_BUF" using len by (simp add: INPUT_BUF_def)
    then have g: "c \<noteq> 0 \<and> in_e (con s) - in_r (con s) < of_nat INPUT_BUF"
      using False by (simp add: typed_length word_less_nat_alt INPUT_BUF_def)
    define b where "b = (if c = 13 then 10 else c)"
    note u = put_char_lines [OF wf room, of "word_of_int b"]
    define t where "t = shown b (upd_con (put_char (word_of_int b)) s)"
    have sc: "screen_ok (con (upd_con (put_char (word_of_int b)) s))"
      using wf by (simp add: upd_con_def cons_wf_def screen_ok_def put_char_def)
    have e: "cons_key c s = (if b = 10 \<or> b = 4 \<or> in_e (con t) = in_r (con t) + of_nat INPUT_BUF
        then wakeup (Some ChInput) (upd_con commit_line t) else Ok () t)"
      using g consputc_ok [OF sc, of b] unfolding cons_key_insert [OF I] Let_def b_def [symmetric] t_def by (simp add: kexec)
    have tf: "in_cs t" "lock_held LkCons t" "lock_free LkPtable t" "procs t = procs s" "ttable t = ttable s"
      using s by (simp_all add: t_def cons_ready_def)
    have lt: "lines (con t) = (q, l @ [word_of_int b])" "lines (commit_line (con t)) = (q @ l @ [word_of_int b], [])"
      using u(1,4) ql by (simp_all add: t_def)
    have full: "in_e (con t) = in_r (con t) + of_nat INPUT_BUF \<longleftrightarrow> Suc (length q + length l) = 128"
      using u(7) len by (simp add: t_def INPUT_BUF_def)
    show ?thesis
    proof (cases "b = 10 \<or> b = 4 \<or> Suc (length q + length l) = 128")
      case True
      let ?v = "upd_con commit_line t"
      have "cons_wf (con ?v)" using u(5) sc by (simp add: t_def)
      moreover have "cons_key c s = Ok () (?v\<lparr>ttable := wake_procs (Some ChInput) (procs s) (ttable s)\<rparr>)"
        using True e tf full by (auto simp: kexec in_cs_cpu_inv)
      moreover have "line_key (lines (con s)) c = (q @ l @ [word_of_int b], [])"
        using True False I ql by (auto simp: b_def)
      moreover have "same_devices (con s) (con ?v)" using u(6) by (simp add: t_def)
      ultimately show ?thesis using lt tf by (auto simp: cons_ready_def woke_def)
    next
      case nc: False
      then have "b \<noteq> 10" by simp
      moreover have "uint (word_of_int b :: uchar) = b" using c by (simp add: b_def uint_word_of_int)
      ultimately have "word_of_int b \<noteq> (10 :: uchar)" by (metis uint_numeral_uchar)
      then have "cons_wf (con t)" using u(2) by (simp add: t_def)
      moreover have "cons_key c s = Ok () t" using nc e full by auto
      moreover have "line_key (lines (con s)) c = (q, l @ [word_of_int b])"
        using nc False I ql by (auto simp: b_def)
      moreover have "same_devices (con s) (con t)" using u(6) by (simp add: t_def)
      ultimately show ?thesis using lt tf ql by (auto simp: cons_ready_def woke_def)
    qed
  qed
qed

lemma cons_key_ok:
  assumes s: "cons_ready s" and c: "0 \<le> c" "c < 256"
  shows "\<exists>u. cons_key c s = Ok () u \<and> cons_ready u \<and> lines (con u) = line_key (lines (con s)) c \<and>
     woke s u \<and> same_devices (con s) (con u)"
  using cons_key_kill [OF s] cons_key_erase [OF s] cons_key_other [OF s c] by blast

lemma consoleintr_loop_ok:
  assumes "cons_ready s" and "uart (con s)" and "length (serial_in (con s)) < n"
  shows "\<exists>u. consoleintr_loop n uartgetc dump s = Ok (dump \<or> 16 \<in> set (serial_in (con s))) u \<and> cons_ready u \<and>
     lines (con u) = foldl line_key (lines (con s)) (map uint (filter (\<lambda>b. b \<noteq> 16) (serial_in (con s)))) \<and>
     woke s u \<and> serial_in (con u) = []"
  using assms
proof (induction n arbitrary: s dump)
  case (Suc n)
  show ?case
  proof (cases "serial_in (con s)")
    case Nil
    then show ?thesis using Suc.prems by (auto simp: uartgetc_def kexec woke_def)
  next
    case (Cons b bs)
    define t where "t = upd_con (\<lambda>k. k\<lparr>serial_in := bs\<rparr>) s"
    have lt: "lines (con t) = lines (con s)" by (simp add: t_def lines_def typed_def finished_def)
    have wt: "cons_wf (con t)" using Suc.prems(1) lt
      by (simp add: cons_ready_def cons_wf_def) (simp add: t_def typed_def finished_def screen_ok_def)
    have t: "cons_ready t" "woke s t" "uart (con t)" "serial_in (con t) = bs"
      using Suc.prems wt lt by (simp_all add: cons_ready_def woke_def) (simp_all add: t_def)
    have g: "uartgetc s = Ok (uint b) t" using Suc.prems(2) Cons by (simp add: uartgetc_def kexec t_def)
    have ib: "0 \<le> uint b" "uint b < 256" using uint_bounded [of b] by simp_all
    have lb: "length bs < n" using Suc.prems(3) Cons by simp
    show ?thesis
    proof (cases "b = 16")
      case True
      from Suc.IH [OF t(1,3), of True] t(4) lb obtain u where
        "consoleintr_loop n uartgetc True t = Ok True u" "cons_ready u" "woke t u" "serial_in (con u) = []"
        "lines (con u) = foldl line_key (lines (con s)) (map uint (filter (\<lambda>b. b \<noteq> 16) bs))" by (auto simp: lt)
      then show ?thesis using g True Cons t(2) by (auto simp: kexec ctrl_codes intro: woke_trans)
    next
      case False
      have nb: "uint b \<noteq> 16" using False by (metis uint_numeral_uchar16 word_uint_eqI)
      from cons_key_ok [OF t(1) ib] obtain v where v: "cons_key (uint b) t = Ok () v" "cons_ready v"
        "lines (con v) = line_key (lines (con s)) (uint b)" "woke t v" "same_devices (con t) (con v)" by (auto simp: lt)
      have vd: "uart (con v)" "serial_in (con v) = bs" using v(5) t(3,4) by (simp_all add: same_devices_def)
      from Suc.IH [OF v(2) vd(1), of dump] vd(2) lb obtain u where
        "consoleintr_loop n uartgetc dump v = Ok (dump \<or> 16 \<in> set bs) u" "cons_ready u" "woke v u" "serial_in (con u) = []"
        "lines (con u) = foldl line_key (lines (con v)) (map uint (filter (\<lambda>b. b \<noteq> 16) bs))" by auto
      then show ?thesis using g False nb ib Cons t(2) v by (auto simp: kexec ctrl_codes intro: woke_trans)
    qed
  qed
qed simp

text \<open>C21. The console edits lines. When the serial port has delivered the bytes \<open>cs\<close>, none of them
  control-P, the interrupt handler takes all of them, ends, and leaves the input buffer as the line
  editor \<open>line_key\<close> says: control-U deletes the unfinished line, backspace and delete remove its last
  character, a carriage return counts as a newline, a newline, a control-D or the 128th buffered character
  finishes the line, and a full buffer drops what is typed. Readers are woken if a line was finished, and
  nothing else happens to the threads. The counters may wrap around.\<close>

theorem console_edits_lines:
  assumes "cpu_inv s" and "lock_free LkCons s" and "lock_free LkPtable s" and "cons_wf (con s)" and "uart (con s)"
    and "16 \<notin> set (serial_in (con s))"
  shows "\<exists>u. uartintr s = Ok () u \<and> serial_in (con u) = [] \<and> cons_wf (con u) \<and>
     lines (con u) = foldl line_key (lines (con s)) (map uint (serial_in (con s))) \<and> procs u = procs s \<and>
     (fst (lines (con u)) = fst (lines (con s)) \<and> ttable u = ttable s \<or>
      ttable u = wake_procs (Some ChInput) (procs s) (ttable s))"
proof -
  define t where "t = acq LkCons s"
  have t: "con t = con s" "procs t = procs s" "ttable t = ttable s" by (simp_all add: t_def)
  have "cons_ready t" using assms by (simp add: cons_ready_def t_def)
  from consoleintr_loop_ok [OF this, of "Suc (length (kbd_in (con s)) + length (serial_in (con s)))" False] assms(5,6)
  obtain u where u: "consoleintr_loop (Suc (length (kbd_in (con s)) + length (serial_in (con s)))) uartgetc False t = Ok False u"
      "cons_ready u" "woke t u" "serial_in (con u) = []"
      "lines (con u) = foldl line_key (lines (con s)) (map uint (filter (\<lambda>b. b \<noteq> 16) (serial_in (con s))))" by (auto simp: t)
  have f: "filter (\<lambda>b. b \<noteq> 16) (serial_in (con s)) = serial_in (con s)" using assms(6) by (auto simp: filter_id_conv)
  have "uartintr s = Ok () (rel LkCons u)"
    using assms u(1,2) by (simp add: uartintr_def consoleintr_def kexec t_def [symmetric] t cons_ready_def in_cs_cpu_inv del: consoleintr_loop.simps)
  then show ?thesis using u f by (auto simp: woke_def t cons_ready_def)
qed

subsection \<open>Printing numbers\<close>

text \<open>The number a list of digits stands for, least significant digit first.\<close>

primrec digits_val :: "nat \<Rightarrow> nat list \<Rightarrow> nat" where
  "digits_val b [] = 0"
| "digits_val b (d # ds) = d + b * digits_val b ds"

lemma print_buf_digits:
  assumes "2 \<le> unat base" and "unat x < unat base ^ n" and "0 < n"
  shows "\<exists>ds. print_buf n base x = Some (map (\<lambda>d. digit (of_nat d)) ds) \<and> digits_val (unat base) ds = unat x \<and>
     (\<forall>d\<in>set ds. d < unat base) \<and> ds \<noteq> [] \<and> length ds \<le> n \<and> (last ds = 0 \<longrightarrow> ds = [0])"
  using assms(2,3)
proof (induction n arbitrary: x)
  case (Suc n)
  let ?d = "unat (x mod base)" and ?x = "x div base"
  have d: "?d = unat x mod unat base" "unat ?x = unat x div unat base" by (simp_all add: unat_mod unat_div)
  have lt: "?d < unat base" using assms(1) d(1) by simp
  have val: "?d + unat base * unat ?x = unat x" by (simp add: d)
  show ?case
  proof (cases "?x = 0")
    case True
    then have "print_buf (Suc n) base x = Some (map (\<lambda>d. digit (of_nat d)) [?d])" by simp
    moreover have "?d = unat x" using val True by simp
    ultimately show ?thesis using lt by (intro exI [of _ "[?d]"]) simp
  next
    case False
    then have "0 < unat ?x" by (simp add: unat_gt_0)
    have less: "unat ?x < unat base ^ n"
    proof -
      have "unat base * unat ?x \<le> unat x" using val by linarith
      then have "unat base * unat ?x < unat base * unat base ^ n" using Suc.prems(1) by (metis le_less_trans power_Suc)
      then show ?thesis by simp
    qed
    then have "0 < n" using \<open>0 < unat ?x\<close> by (cases n) auto
    from Suc.IH [OF less this] obtain ds where ds: "print_buf n base ?x = Some (map (\<lambda>d. digit (of_nat d)) ds)"
        "digits_val (unat base) ds = unat ?x" "\<forall>d\<in>set ds. d < unat base" "ds \<noteq> []" "length ds \<le> n" "last ds = 0 \<longrightarrow> ds = [0]" by auto
    have "print_buf (Suc n) base x = Some (map (\<lambda>d. digit (of_nat d)) (?d # ds))" using False ds(1) by simp
    moreover have "last ds \<noteq> 0" using ds(2,6) \<open>0 < unat ?x\<close> by auto
    ultimately show ?thesis using ds(2-5) lt val by (intro exI [of _ "?d # ds"]) simp
  qed
qed simp

lemma print_buf_more: "print_buf n b y = Some r \<Longrightarrow> print_buf (Suc n) b y = Some r"
proof (induction n arbitrary: y r)
  case (Suc n)
  show ?case
  proof (cases "y div b = 0")
    case False
    with Suc.prems obtain z where z: "print_buf n b (y div b) = Some z" "r = digit (y mod b) # z" by (auto simp: Let_def)
    from False z(2) Suc.IH [OF z(1)] show ?thesis by (subst print_buf.simps(2)) (simp only: Let_def if_True option.map simp_thms)
  qed (use Suc.prems in simp)
qed simp

lemma each_consputc:
  assumes "screen_ok (con s)" and "uart (con s)"
  shows "\<exists>u. each (\<lambda>c. consputc (uint c)) bs s = Ok () u \<and> serial_out (con u) = serial_out (con s) @ bs \<and>
     screen_ok (con u) \<and> uart (con u) \<and> procs u = procs s \<and> ttable u = ttable s"
  using assms
proof (induction bs arbitrary: s)
  case (Cons b bs)
  have "uint b \<noteq> BACKSPACE" using uint_bounded [of b] by (simp add: BACKSPACE_def)
  then have so: "serial_out (con (shown (uint b) s)) = serial_out (con s) @ [b]"
    using Cons.prems by (simp add: shown_def echo_def split: prod.split)
  from Cons.IH [of "shown (uint b) s"] Cons.prems so show ?case by (auto simp: kseq_apply consputc_ok)
qed simp

text \<open>C22. \<open>printint\<close> prints the number. In base 10 and in base 16 its buffer of 16 bytes is always large
  enough, and the console shows a minus sign exactly if the number is printed signed and is negative,
  followed by digits below the base, most significant first and without leading zeros, whose value is the
  absolute value of the number. This includes the most negative number.\<close>

theorem printint_prints_the_number:
  assumes "screen_ok (con s)" and "uart (con s)" and "base = 10 \<or> base = 16"
  shows "\<exists>u ds. printint xx base sign s = Ok () u \<and>
     serial_out (con u) = serial_out (con s) @ (if sign \<and> sint xx < 0 then chars ''-'' else []) @ map (\<lambda>d. digit (of_nat d)) ds \<and>
     (\<forall>d\<in>set ds. d < unat base) \<and> ds \<noteq> [] \<and> (hd ds = 0 \<longrightarrow> ds = [0]) \<and>
     int (digits_val (unat base) (rev ds)) = (if sign then \<bar>sint xx\<bar> else uint xx)"
proof -
  define neg where "neg \<longleftrightarrow> sign \<and> sint xx < 0"
  define x where "x = (if neg then - xx else xx)"
  have b2: "2 \<le> unat base" using assms(3) by auto
  have "unat x < 2 ^ LENGTH(32)" by (rule unsigned_less)
  then have "unat x < 2 ^ 32" by simp
  also have "(2 :: nat) ^ 32 < 10 ^ 15" by simp
  also have "(10 :: nat) ^ 15 \<le> unat base ^ 15" using assms(3) by (intro power_mono) auto
  finally have "unat x < unat base ^ 15" .
  from print_buf_digits [OF b2 this] obtain ds where ds: "print_buf 15 base x = Some (map (\<lambda>d. digit (of_nat d)) ds)"
      "digits_val (unat base) ds = unat x" "\<forall>d\<in>set ds. d < unat base" "ds \<noteq> []" "length ds \<le> 15" "last ds = 0 \<longrightarrow> ds = [0]" by auto
  have p16: "print_buf 16 base x = Some (map (\<lambda>d. digit (of_nat d)) ds)" using print_buf_more [OF ds(1)] by simp
  let ?buf = "map (\<lambda>d. digit (of_nat d)) ds @ (if neg then chars ''-'' else [])"
  have len: "\<not> 16 < length ?buf" using ds(5) by (simp add: chars_def)
  have e: "printint xx base sign s = each (\<lambda>c. consputc (uint c)) (rev ?buf) s"
    using p16 len unfolding printint_def Let_def neg_def [symmetric] x_def [symmetric] by simp
  from each_consputc [OF assms(1,2), of "rev ?buf"] obtain u where u: "printint xx base sign s = Ok () u"
      "serial_out (con u) = serial_out (con s) @ rev ?buf" unfolding e by auto
  have val: "int (unat x) = (if sign then \<bar>sint xx\<bar> else uint xx)"
  proof -
    have r: "- (2 ^ 31) \<le> sint xx" "sint xx < 2 ^ 31" using sint_ge [of xx] sint_lt [of xx] by simp_all
    have ux: "uint xx = sint xx mod 2 ^ 32" by (simp add: uint_sint take_bit_eq_mod)
    have un: "uint (- xx) = (- sint xx) mod 2 ^ 32" unfolding uint_word_ariths ux by (simp add: mod_minus_eq)
    show ?thesis
    proof (cases "sint xx < 0")
      case True
      then have "(- sint xx) mod 2 ^ 32 = - sint xx" using r by (intro mod_pos_pos_trivial) auto
      then show ?thesis using True un by (simp add: x_def neg_def)
    next
      case False
      then have "sint xx mod 2 ^ 32 = sint xx" using r by (intro mod_pos_pos_trivial) auto
      then show ?thesis using False ux by (simp add: x_def neg_def)
    qed
  qed
  have "rev ?buf = (if neg then chars ''-'' else []) @ map (\<lambda>d. digit (of_nat d)) (rev ds)" by (simp add: chars_def rev_map)
  then show ?thesis using u ds val by (intro exI [of _ u] exI [of _ "rev ds"]) (auto simp: neg_def hd_rev)
qed

subsection \<open>Concrete instances\<close>

text \<open>A console on which \<open>ab\<close>, backspace, \<open>c\<close>, return were typed; its counters are about to wrap around.\<close>

definition console0 :: console where
  "console0 = \<lparr>panicked = False, cons_locking = True, uart = True, serial_out = [], serial_in = [97, 98, 8, 99, 13], cursor = 1919,
     kbd_in = [], kbd_shift = 0, in_buf = replicate 128 0, in_r = -1, in_w = -1, in_e = -1\<rparr>"

definition parked_c :: cons_state where
  "parked_c = ftab.extend parked_p \<lparr>con = console0\<rparr>"

lemma parked_c_fields: "con parked_c = console0" "ttable parked_c = ttable parked_p" "procs parked_c = procs parked_p"
  by (simp_all add: parked_c_def ftab.extend_def)

lemma parked_c_on: "calm parked_c" "on_thread 0 0 parked_c" "lock_free lk parked_c" "cpu_proc (cpus parked_c ! 0) = Some 0"
  using parked_p_on by (simp_all add: parked_c_def ftab.extend_def calm_def on_thread_def runs_def lock_free_def)

lemma parked_c_run: "cpu_inv (run_on 0 parked_c)" "lock_free lk (run_on 0 parked_c)" "cpu_proc (cur (run_on 0 parked_c)) = Some 0"
    "cpu_thread (cur (run_on 0 parked_c)) = Some 0" "ncli (cur (run_on 0 parked_c)) = 0"
  using on_threadD [OF parked_c_on(2,1)] parked_c_on by simp_all

theorem console_edits_lines_witness:
  "\<exists>u. uartintr (run_on 0 parked_c) = Ok () u \<and> lines (con u) = ([97, 99, 10], [])"
proof -
  have "cons_wf (con (run_on 0 parked_c))"
    by (simp add: parked_c_fields) (simp add: console0_def cons_wf_def lines_def typed_def finished_def ring_contents_def INPUT_BUF_def screen_ok_def)
  moreover have "uart (con (run_on 0 parked_c))" "16 \<notin> set (serial_in (con (run_on 0 parked_c)))"
    by (simp_all add: parked_c_fields) (simp_all add: console0_def)
  ultimately obtain u where u: "uartintr (run_on 0 parked_c) = Ok () u"
      "lines (con u) = foldl line_key (lines (con (run_on 0 parked_c))) (map uint (serial_in (con (run_on 0 parked_c))))"
    using console_edits_lines [OF parked_c_run(1,2,2)] by blast
  have "lines console0 = ([], [])" by (simp add: console0_def lines_def typed_def ring_contents_def)
  then have "lines (con u) = ([97, 99, 10], [])" using u(2) by (simp add: parked_c_fields) (simp add: console0_def)
  with u(1) show ?thesis by blast
qed

theorem printint_prints_the_number_witness:
  "\<exists>u ds. printint (- 42) 10 True (run_on 0 parked_c) = Ok () u \<and>
     serial_out (con u) = chars ''-'' @ map (\<lambda>d. digit (of_nat d)) ds \<and> digits_val 10 (rev ds) = 42"
proof -
  have "screen_ok (con (run_on 0 parked_c))" "uart (con (run_on 0 parked_c))"
    by (simp_all add: parked_c_fields) (simp_all add: console0_def screen_ok_def)
  from printint_prints_the_number [OF this, of 10 "- 42" True]
  show ?thesis by (auto simp: parked_c_fields) (auto simp: console0_def)
qed

end
