(* ===== verification/Life.thy ===== *)
theory Life
  imports Console
begin

unbundle bit_operations_syntax

text \<open>
  The life of processes and threads: \<open>allocproc\<close>, \<open>userinit\<close>, \<open>growproc\<close>, \<open>fork\<close>,
  \<open>exit\<close>, \<open>wait\<close> and \<open>forkret\<close> of \<open>proc.c\<close>, and \<open>kthread.c\<close>.

  An operation that may block deep inside a call (\<open>exit\<close> closing a file that has to wait for the log,
  say) is described up to the point where it gives up the processor; the loops of these files that sleep
  themselves, \<open>wait\<close> and \<open>kthread_join\<close>, have a \<open>_resume\<close> operation.
\<close>

subsection \<open>State\<close>

text \<open>
  Addresses the linker provides: two assembly entry points, the program of the first process, and the
  start of the kernel's data.
\<close>

record symbols =
  sym_trapret :: uint
  sym_forkret :: uint
  sym_initcode :: uint
  sym_initcode_size :: uint
  sym_data :: uint

text \<open>\<open>forkret_first\<close> is the static variable of \<open>forkret\<close>.\<close>

record life = cons_state +
  forkret_first :: bool

lemma forkret_first_frame [simp]:
  "forkret_first (push s) = forkret_first s"
  "forkret_first (pop s) = forkret_first s"
  "forkret_first (settle s) = forkret_first s"
  "forkret_first (acq lk s) = forkret_first s"
  "forkret_first (rel lk s) = forkret_first s"
  "forkret_first (upd_cpu c g s) = forkret_first s"
  "forkret_first (upd_cur g s) = forkret_first s"
  "forkret_first (upd_lock lk h s) = forkret_first s"
  "forkret_first (upd_thread t k s) = forkret_first s"
  "forkret_first (upd_proc p q s) = forkret_first s"
  "forkret_first (run_on c s) = forkret_first s"
  "settle (s\<lparr>forkret_first := x\<rparr>) = (settle s)\<lparr>forkret_first := x\<rparr>"
  "acq lk (s\<lparr>forkret_first := x\<rparr>) = (acq lk s)\<lparr>forkret_first := x\<rparr>"
  "rel lk (s\<lparr>forkret_first := x\<rparr>) = (rel lk s)\<lparr>forkret_first := x\<rparr>"
  "upd_cpu c g (s\<lparr>forkret_first := x\<rparr>) = (upd_cpu c g s)\<lparr>forkret_first := x\<rparr>"
  "upd_cur g (s\<lparr>forkret_first := x\<rparr>) = (upd_cur g s)\<lparr>forkret_first := x\<rparr>"
  "upd_lock lk h (s\<lparr>forkret_first := x\<rparr>) = (upd_lock lk h s)\<lparr>forkret_first := x\<rparr>"
  "upd_thread t k (s\<lparr>forkret_first := x\<rparr>) = (upd_thread t k s)\<lparr>forkret_first := x\<rparr>"
  "upd_proc p q (s\<lparr>forkret_first := x\<rparr>) = (upd_proc p q s)\<lparr>forkret_first := x\<rparr>"
  "run_on c (s\<lparr>forkret_first := x\<rparr>) = (run_on c s)\<lparr>forkret_first := x\<rparr>"
  "this_cpu (s\<lparr>forkret_first := x\<rparr>) = this_cpu s"
  "cur (s\<lparr>forkret_first := x\<rparr>) = cur s"
  "cpu_inv (s\<lparr>forkret_first := x\<rparr>) = cpu_inv s"
  "in_cs (s\<lparr>forkret_first := x\<rparr>) = in_cs s"
  "lock_free lk (s\<lparr>forkret_first := x\<rparr>) = lock_free lk s"
  "lock_held lk (s\<lparr>forkret_first := x\<rparr>) = lock_held lk s"
  "calm (s\<lparr>forkret_first := x\<rparr>) = calm s"
  "runs (s\<lparr>forkret_first := x\<rparr>) = runs s"
  by (simp_all add: frame_ext_defs)

subsection \<open>Creating processes\<close>

text \<open>
  The kernel stack of a new thread: the trap frame on top, below it the address the new thread returns
  to after \<open>forkret\<close>, and the saved registers with which it starts in \<open>forkret\<close>.
\<close>

definition zero_context :: kcontext where
  "zero_context = \<lparr>ctx_edi = 0, ctx_esi = 0, ctx_ebx = 0, ctx_ebp = 0, ctx_eip = 0\<rparr>"

definition zero_tf :: trapframe where
  "zero_tf = \<lparr>tf_edi = 0, tf_esi = 0, tf_ebp = 0, tf_oesp = 0, tf_ebx = 0, tf_edx = 0, tf_ecx = 0, tf_eax = 0, tf_gs = 0, tf_fs = 0,
     tf_es = 0, tf_ds = 0, tf_trapno = 0, tf_err = 0, tf_eip = 0, tf_cs = 0, tf_eflags = 0, tf_esp = 0, tf_ss = 0\<rparr>"

definition sizeof_trapframe :: uint where "sizeof_trapframe = 76"

definition init_kstack :: "symbols \<Rightarrow> nat \<Rightarrow> uint \<Rightarrow> ('m life_scheme, unit) kop" where
  "init_kstack sy t ks =
     (let sp = ks + KSTACKSIZE - sizeof_trapframe - 4 in
     kseq (kmod (\<lambda>s. s\<lparr>mem := wr32 sp (sym_trapret sy) (mem s)\<rparr>))
     (kmod (upd_thread t (\<lambda>k. k\<lparr>tcontext := zero_context\<lparr>ctx_eip := sym_forkret sy\<rparr>\<rparr>))))"

definition allocproc :: "symbols \<Rightarrow> ('m life_scheme, nat option) kop" where
  "allocproc sy =
     kseq (acquire LkPtable)
     (kbind (kget (\<lambda>s. scan (\<lambda>p. pstate p = UNUSED) (procs s))) (\<lambda>r.
     case r of
       None \<Rightarrow> kseq (release LkPtable) (kret None)
     | Some p \<Rightarrow>
         let t = NTHREAD * p in
         kseq (kmod (upd_proc p (\<lambda>k. k\<lparr>pstate := EMBRYO\<rparr>)))
         (kseq (kmod (\<lambda>s. upd_proc p (\<lambda>k. k\<lparr>pid := nextpid s\<rparr>) s))
         (kseq (kmod (\<lambda>s. s\<lparr>nextpid := nextpid s + 1\<rparr>))
         (kseq (kmod (upd_proc p (\<lambda>k. k\<lparr>p_threads := t\<rparr>)))
         (kseq (each (\<lambda>x. kmod (upd_thread x (\<lambda>k. k\<lparr>tstate := UNINIT\<rparr>))) (row t))
         (kseq (kmod (upd_thread t (\<lambda>k. k\<lparr>tproc := Some p\<rparr>)))
         (kseq (kmod (\<lambda>s. upd_thread t (\<lambda>k. k\<lparr>tid := nexttid s\<rparr>) s))
         (kseq (kmod (\<lambda>s. s\<lparr>nexttid := nexttid s + 1\<rparr>))
         (kseq (kmod (upd_thread t (\<lambda>k. k\<lparr>exitRequest := False\<rparr>)))
         (kseq (release LkPtable)
         (kbind kalloc (\<lambda>ks.
         kseq (kmod (upd_thread t (\<lambda>k. k\<lparr>kstack := ks\<rparr>)))
         (if ks = 0 then kret None
          else kseq (init_kstack sy t ks) (kret (Some p))))))))))))))))"

text \<open>\<open>safestrcpy\<close> on the name of a process, which is a list; reading behind the source finds its end.\<close>

fun name_copy :: "uchar list \<Rightarrow> nat \<Rightarrow> uchar list \<Rightarrow> nat \<Rightarrow> uchar list" where
  "name_copy dst i src 0 = dst[i := 0]"
| "name_copy dst i [] (Suc n) = dst[i := 0, Suc i := 0]"
| "name_copy dst i (c # cs) (Suc n) =
     (if c \<noteq> 0 then name_copy (dst[i := c]) (Suc i) cs n else dst[i := 0, Suc i := 0])"

definition set_name :: "uchar list \<Rightarrow> uchar list \<Rightarrow> uchar list" where
  "set_name dst src = name_copy dst 0 src 15"

definition userinit :: "symbols \<Rightarrow> ('m life_scheme) devfun \<Rightarrow> ('m life_scheme, unit) kop" where
  "userinit sy dv =
     kbind (allocproc sy) (\<lambda>p0.
     kseq (kmod (\<lambda>s. s\<lparr>initproc := p0\<rparr>))
     (kbind (setupkvm (sym_data sy)) (\<lambda>pd.
     kbind (deref p0) (\<lambda>p.
     kseq (kmod (upd_proc p (\<lambda>k. k\<lparr>pgdir := pd\<rparr>)))
     (if pd = 0 then kpanic ''userinit: out of memory?'' else
     kseq (inituvm pd (sym_initcode sy) (sym_initcode_size sy))
     (kseq (kmod (upd_proc p (\<lambda>k. k\<lparr>sz := PGSIZE\<rparr>)))
     (kbind (kget (\<lambda>s. p_threads (procs s ! p))) (\<lambda>t.
     kseq (kmod (upd_thread t (\<lambda>k. k\<lparr>tf := zero_tf\<lparr>tf_cs := (3 * 8) OR 3, tf_ds := (4 * 8) OR 3, tf_es := (4 * 8) OR 3,
        tf_ss := (4 * 8) OR 3, tf_eflags := 0x200, tf_esp := PGSIZE, tf_eip := 0\<rparr>\<rparr>)))
     (kseq (kmod (upd_proc p (\<lambda>k. k\<lparr>pname := set_name (pname k) (chars ''initcode'')\<rparr>)))
     (kbind (namei dv (chars ''/'')) (\<lambda>ip.
     kseq (kmod (upd_proc p (\<lambda>k. k\<lparr>cwd := ip\<rparr>)))
     (kseq (acquire LkPtable)
     (kseq (kmod (upd_proc p (\<lambda>k. k\<lparr>pstate := USED\<rparr>)))
     (kseq (kmod (upd_thread t (\<lambda>k. k\<lparr>tstate := RUNNABLE\<rparr>)))
     (release LkPtable)))))))))))))))"

definition growproc :: "int \<Rightarrow> ('m life_scheme, int) kop" where
  "growproc n =
     kbind myproc (\<lambda>p0.
     kseq (acquire LkPtable)
     (kbind (deref p0) (\<lambda>p.
     kbind (kget (\<lambda>s. procs s ! p)) (\<lambda>k.
     kbind (if n > 0 then allocuvm (pgdir k) (sz k) (sz k + word_of_int n)
       else if n < 0 then deallocuvm (pgdir k) (sz k) (sz k + word_of_int n)
       else kret (sz k)) (\<lambda>z.
     if n \<noteq> 0 \<and> z = 0 then
       kseq (release LkPtable)
       (kret (- 1))
     else
       kseq (kmod (upd_proc p (\<lambda>k. k\<lparr>sz := z\<rparr>)))
       (kseq (switchuvm p0)
       (kseq (release LkPtable)
       (kret 0))))))))"

definition fork_file :: "nat \<Rightarrow> nat \<Rightarrow> nat \<Rightarrow> ('m life_scheme, unit) kop" where
  "fork_file p np i =
     kbind (kget (\<lambda>s. ofile (procs s ! p) ! i)) (\<lambda>f0.
     case f0 of None \<Rightarrow> kret () | Some f \<Rightarrow>
     kbind (filedup f) (\<lambda>f.
     kmod (upd_proc np (\<lambda>k. k\<lparr>ofile := (ofile k)[i := Some f]\<rparr>))))"

text \<open>The second half of \<open>fork\<close>, once the child has its address space.\<close>

definition fork_finish :: "nat \<Rightarrow> nat \<Rightarrow> nat \<Rightarrow> nat \<Rightarrow> ('m life_scheme, int) kop" where
  "fork_finish p t np nt =
     kseq (kmod (\<lambda>s. upd_proc np (\<lambda>k. k\<lparr>sz := sz (procs s ! p)\<rparr>) s))
     (kseq (kmod (upd_proc np (\<lambda>k. k\<lparr>parent := Some p\<rparr>)))
     (kseq (kmod (\<lambda>s. upd_thread nt (\<lambda>k. k\<lparr>tf := tf (ttable s ! t)\<rparr>) s))
     (kseq (kmod (upd_thread nt (\<lambda>k. k\<lparr>tf := (tf k)\<lparr>tf_eax := 0\<rparr>\<rparr>)))
     (kseq (each (fork_file p np) [0 ..< NOFILE])
     (kbind (kget (\<lambda>s. cwd (procs s ! p))) (\<lambda>c0.
     kbind (deref c0) (\<lambda>c.
     kbind (idup c) (\<lambda>c.
     kseq (kmod (upd_proc np (\<lambda>k. k\<lparr>cwd := Some c\<rparr>)))
     (kseq (kmod (\<lambda>s. upd_proc np (\<lambda>k. k\<lparr>pname := set_name (pname k) (pname (procs s ! p))\<rparr>) s))
     (kbind (kget (\<lambda>s. pid (procs s ! np))) (\<lambda>n.
     kseq (acquire LkPtable)
     (kseq (kmod (upd_proc np (\<lambda>k. k\<lparr>pstate := USED\<rparr>)))
     (kseq (kmod (upd_thread nt (\<lambda>k. k\<lparr>tstate := RUNNABLE\<rparr>)))
     (kseq (release LkPtable)
     (kret n)))))))))))))))"

definition fork :: "symbols \<Rightarrow> ('m life_scheme, int) kop" where
  "fork sy =
     kbind myproc (\<lambda>p0.
     kbind mythread (\<lambda>t0.
     kbind (allocproc sy) (\<lambda>np0.
     case np0 of None \<Rightarrow> kret (- 1) | Some np \<Rightarrow>
     kbind (kget (\<lambda>s. p_threads (procs s ! np))) (\<lambda>nt.
     kseq (kmod (upd_thread nt (\<lambda>k. k\<lparr>tproc := Some np\<rparr>)))
     (kbind (deref p0) (\<lambda>p.
     kbind (kget (\<lambda>s. procs s ! p)) (\<lambda>k.
     kbind (copyuvm (sym_data sy) (pgdir k) (sz k)) (\<lambda>pd.
     kseq (kmod (upd_proc np (\<lambda>k. k\<lparr>pgdir := pd\<rparr>)))
     (if pd = 0 then
        kbind (kget (\<lambda>s. kstack (ttable s ! nt))) (\<lambda>ks.
        kseq (kfree ks)
        (kseq (kmod (upd_thread nt (\<lambda>k. k\<lparr>kstack := 0\<rparr>)))
        (kseq (kmod (upd_proc np (\<lambda>k. k\<lparr>pstate := UNUSED\<rparr>)))
        (kseq (kmod (upd_thread nt (\<lambda>k. k\<lparr>tstate := UNINIT\<rparr>)))
        (kret (- 1))))))
      else
        kbind (deref t0) (\<lambda>t.
        fork_finish p t np nt))))))))))"

definition forkret :: "('m life_scheme, unit) kop" where
  "forkret =
     kseq (release LkPtable)
     (kbind (kget forkret_first) (\<lambda>f.
     if f then
       kseq (kmod (\<lambda>s. s\<lparr>forkret_first := False\<rparr>))
       (kseq (iinit ROOTDEV)
       (initlog ROOTDEV))
     else kret ()))"

subsection \<open>Exit and wait\<close>

definition alive :: "kthread \<Rightarrow> bool" where
  "alive k \<longleftrightarrow> tstate k \<noteq> TERMINATED \<and> tstate k \<noteq> UNINIT"

text \<open>Ask the other threads of the process to exit; the result says that there is no other.\<close>

fun request_exits :: "nat \<Rightarrow> nat list \<Rightarrow> ('m ptable_scheme, bool) kop" where
  "request_exits t0 [] = kret True"
| "request_exits t0 (t # ts) =
     kbind (kget (\<lambda>s. ttable s ! t)) (\<lambda>k.
     if t \<noteq> t0 \<and> alive k then
       kseq (kmod (upd_thread t (\<lambda>k. k\<lparr>exitRequest := True\<rparr>)))
       (kseq (request_exits t0 ts) (kret False))
     else request_exits t0 ts)"

definition exit_close :: "nat \<Rightarrow> nat \<Rightarrow> ('m life_scheme, unit) kop" where
  "exit_close p fd =
     kbind (kget (\<lambda>s. ofile (procs s ! p) ! fd)) (\<lambda>f0.
     case f0 of None \<Rightarrow> kret () | Some f \<Rightarrow>
     kseq (fileclose f)
     (kmod (upd_proc p (\<lambda>k. k\<lparr>ofile := (ofile k)[fd := None]\<rparr>))))"

definition exit_orphan :: "nat \<Rightarrow> nat \<Rightarrow> ('m ptable_scheme, unit) kop" where
  "exit_orphan p c =
     kbind (kget (\<lambda>s. procs s ! c)) (\<lambda>k.
     if parent k = Some p then
       kseq (kmod (\<lambda>s. upd_proc c (\<lambda>k. k\<lparr>parent := initproc s\<rparr>) s))
       (if pstate k = ZOMBIE then kbind (kget initproc) (\<lambda>i. wakeup1 (map_option ChProc i)) else kret ())
     else kret ())"

definition exit_tail :: "nat \<Rightarrow> nat \<Rightarrow> ('m life_scheme, unit) kop" where
  "exit_tail p t =
     kseq (acquire LkPtable)
     (kbind (kget (\<lambda>s. parent (procs s ! p))) (\<lambda>q.
     kseq (wakeup1 (map_option ChProc q))
     (kseq (each (exit_orphan p) [0 ..< NPROC])
     (kseq (wakeup1 (Some (ChThread t)))
     (kseq (kmod (upd_proc p (\<lambda>k. k\<lparr>pstate := ZOMBIE\<rparr>)))
     (kseq (kmod (upd_thread t (\<lambda>k. k\<lparr>tstate := TERMINATED\<rparr>)))
     (kseq sched
     (kpanic ''zombie exit''))))))))"

definition exit :: "('m life_scheme, unit) kop" where
  "exit =
     kbind myproc (\<lambda>p0.
     kbind mythread (\<lambda>t0.
     kbind (kget initproc) (\<lambda>i.
     if p0 = i then kpanic ''init exiting'' else
     kseq (acquire LkPtable)
     (kbind (deref p0) (\<lambda>p.
     kbind (deref t0) (\<lambda>t.
     kbind (kget (\<lambda>s. p_threads (procs s ! p))) (\<lambda>b.
     kbind (request_exits t (row b)) (\<lambda>lastRunning.
     if lastRunning then
       kseq (release LkPtable)
       (kseq (each (exit_close p) [0 ..< NOFILE])
       (kseq begin_op
       (kbind (kget (\<lambda>s. cwd (procs s ! p))) (\<lambda>c0.
       kbind (deref c0) (\<lambda>c.
       kseq (iput c)
       (kseq end_op
       (kseq (kmod (upd_proc p (\<lambda>k. k\<lparr>cwd := None\<rparr>)))
       (exit_tail p t))))))))
     else release LkPtable))))))))"

text \<open>
  Reaping the threads of a zombie; the result says that a thread other than the caller is still alive.
\<close>

fun reap_threads :: "nat list \<Rightarrow> ('m life_scheme, bool) kop" where
  "reap_threads [] = kret False"
| "reap_threads (t # ts) =
     kbind (kget (\<lambda>s. ttable s ! t)) (\<lambda>k.
     kseq (if tstate k = TERMINATED then
         kseq (kfree (kstack k))
         (kmod (upd_thread t (\<lambda>k. k\<lparr>kstack := 0, tid := 0, tproc := None, exitRequest := False, tstate := UNINIT\<rparr>)))
       else kret ())
     (kbind mythread (\<lambda>t0.
     kbind (kget (\<lambda>s. ttable s ! t)) (\<lambda>k.
     kbind (reap_threads ts) (\<lambda>r.
     kret (r \<or> (Some t \<noteq> t0 \<and> alive k)))))))"

definition reap :: "nat \<Rightarrow> ('m life_scheme, int) kop" where
  "reap c =
     kbind (kget (\<lambda>s. p_threads (procs s ! c))) (\<lambda>b.
     kbind (reap_threads (row b)) (\<lambda>nonterminated.
     if nonterminated then kret 0
     else
       kbind (kget (\<lambda>s. procs s ! c)) (\<lambda>k.
       kseq (freevm (pgdir k))
       (kseq (kmod (upd_proc c (\<lambda>k. k\<lparr>pid := 0, parent := None, pname := (pname k)[0 := 0], killed := False, pstate := UNUSED\<rparr>)))
       (kret (pid k))))))"

text \<open>The children are searched in order; the result is what \<open>wait\<close> returns, or whether there are children.\<close>

fun wait_scan :: "nat \<Rightarrow> nat list \<Rightarrow> bool \<Rightarrow> ('m life_scheme, int + bool) kop" where
  "wait_scan p [] havekids = kret (Inr havekids)"
| "wait_scan p (c # cs) havekids =
     kbind (kget (\<lambda>s. procs s ! c)) (\<lambda>k.
     if parent k \<noteq> Some p then wait_scan p cs havekids
     else if pstate k = ZOMBIE then
       kbind (reap c) (\<lambda>n.
       kseq (release LkPtable)
       (kret (Inl n)))
     else wait_scan p cs True)"

definition wait_loop :: "nat \<Rightarrow> ('m life_scheme, int) kop" where
  "wait_loop p =
     kbind (wait_scan p [0 ..< NPROC] False) (\<lambda>r.
     case r of
       Inl n \<Rightarrow> kret n
     | Inr havekids \<Rightarrow>
         kbind (kget (\<lambda>s. killed (procs s ! p))) (\<lambda>k.
         kbind (if \<not> havekids \<or> k then kret True
           else kbind mythread (\<lambda>t0. kbind (deref t0) (\<lambda>t. kget (\<lambda>s. exitRequest (ttable s ! t))))) (\<lambda>stop.
         if stop then kseq (release LkPtable) (kret (- 1))
         else kseq (sleep (ChProc p) (Some LkPtable)) (kret 0))))"

definition wait :: "('m life_scheme, int) kop" where
  "wait =
     kbind myproc (\<lambda>p0.
     kseq (acquire LkPtable)
     (kbind (deref p0) wait_loop))"

definition wait_resume :: "nat \<Rightarrow> ('m life_scheme, int) kop" where
  "wait_resume p = kseq (sleep_resume LkPtable) (wait_loop p)"

subsection \<open>Kernel threads\<close>

definition wakeupThreads :: "chan option \<Rightarrow> ('m ptable_scheme, unit) kop" where
  "wakeupThreads ch = kmod (\<lambda>s. s\<lparr>ttable := wake_procs ch (procs s) (ttable s)\<rparr>)"

definition kthread_create :: "symbols \<Rightarrow> uint \<Rightarrow> uint \<Rightarrow> ('m life_scheme, int) kop" where
  "kthread_create sy start_func stack =
     kbind myproc (\<lambda>p0.
     kseq (acquire LkPtable)
     (kbind (deref p0) (\<lambda>p.
     kbind (kget (\<lambda>s. find (\<lambda>t. tstate (ttable s ! t) = UNINIT) (row (p_threads (procs s ! p))))) (\<lambda>r.
     case r of
       None \<Rightarrow> kseq (release LkPtable) (kret (- 1))
     | Some t \<Rightarrow>
         kseq (kmod (upd_thread t (\<lambda>k. k\<lparr>tproc := Some p\<rparr>)))
         (kseq (kmod (\<lambda>s. upd_thread t (\<lambda>k. k\<lparr>tid := nexttid s\<rparr>) s))
         (kseq (kmod (\<lambda>s. s\<lparr>nexttid := nexttid s + 1\<rparr>))
         (kseq (release LkPtable)
         (kbind kalloc (\<lambda>ks.
         kseq (kmod (upd_thread t (\<lambda>k. k\<lparr>kstack := ks\<rparr>)))
         (if ks = 0 then kret 0
          else
            kseq (init_kstack sy t ks)
            (kseq (kmod (upd_thread t (\<lambda>k. k\<lparr>exitRequest := False\<rparr>)))
            (kseq (kmod (upd_thread t (\<lambda>k. k\<lparr>tstate := RUNNABLE\<rparr>)))
            (kseq (kmod (upd_thread t (\<lambda>k. k\<lparr>ustack := stack\<rparr>)))
            (kbind mythread (\<lambda>t0.
            kbind (deref t0) (\<lambda>me.
            kseq (kmod (\<lambda>s. upd_thread t (\<lambda>k. k\<lparr>tf := tf (ttable s ! me)\<rparr>) s))
            (kseq (kmod (upd_thread t (\<lambda>k. k\<lparr>tf := (tf k)\<lparr>tf_eip := start_func, tf_esp := stack\<rparr>\<rparr>)))
            (kget (\<lambda>s. tid (ttable s ! t))))))))))))))))))))"

definition kthread_id :: "('m life_scheme, int) kop" where
  "kthread_id = kbind mythread (\<lambda>t0. kbind (deref t0) (\<lambda>t. kget (\<lambda>s. tid (ttable s ! t))))"

definition last_running :: "nat \<Rightarrow> nat list \<Rightarrow> kthread list \<Rightarrow> bool" where
  "last_running t0 ts tt = list_all (\<lambda>t. \<not> (t \<noteq> t0 \<and> alive (tt ! t))) ts"

definition kthread_exit :: "('m life_scheme, unit) kop" where
  "kthread_exit =
     kbind mythread (\<lambda>t0.
     kseq (acquire LkPtable)
     (kbind (deref t0) (\<lambda>t.
     kbind (kget (\<lambda>s. tproc (ttable s ! t))) (\<lambda>p0.
     kbind (deref p0) (\<lambda>p.
     kbind (kget (\<lambda>s. last_running t (row (p_threads (procs s ! p))) (ttable s))) (\<lambda>lastRunning.
     kseq (if lastRunning then kseq (release LkPtable) exit else kret ())
     (kseq (wakeupThreads (Some (ChThread t)))
     (kseq (kmod (upd_thread t (\<lambda>k. k\<lparr>tstate := TERMINATED\<rparr>)))
     (kseq sched
     (kpanic ''terminated exit''))))))))))"

text \<open>
  The search for the thread stops at the first match or one slot behind the row of the process, whose
  \<open>tid\<close> is then compared once more.
\<close>

definition join_slot :: "int \<Rightarrow> nat \<Rightarrow> kthread list \<Rightarrow> nat" where
  "join_slot n b tt = (case find (\<lambda>t. tid (tt ! t) = n) (row b) of Some t \<Rightarrow> t | None \<Rightarrow> b + NTHREAD)"

definition join_loop :: "nat \<Rightarrow> ('m life_scheme, int) kop" where
  "join_loop t =
     kbind (kget (\<lambda>s. ttable s ! t)) (\<lambda>k.
     if tstate k \<noteq> TERMINATED then
       kseq (sleep (ChThread t) (Some LkPtable)) (kret 0)
     else
       kseq (kfree (kstack k))
       (kseq (kmod (upd_thread t (\<lambda>k. k\<lparr>kstack := 0, tstate := UNINIT\<rparr>)))
       (kseq (release LkPtable)
       (kret 0))))"

definition kthread_join :: "int \<Rightarrow> ('m life_scheme, int) kop" where
  "kthread_join n =
     kbind myproc (\<lambda>p0.
     kbind mythread (\<lambda>t0.
     kbind (deref t0) (\<lambda>me.
     kbind (kget (\<lambda>s. tid (ttable s ! me))) (\<lambda>mytid.
     if mytid = n then kret (- 1) else
     kseq (acquire LkPtable)
     (kbind (deref p0) (\<lambda>p.
     kbind (kget (\<lambda>s. join_slot n (p_threads (procs s ! p)) (ttable s))) (\<lambda>t.
     kbind (kget (\<lambda>s. ttable s ! t)) (\<lambda>k.
     if tid k \<noteq> n then kseq (release LkPtable) (kret (- 1))
     else if tstate k = UNINIT then kseq (release LkPtable) (kret (- 1))
     else join_loop t))))))))"

definition kthread_join_resume :: "nat \<Rightarrow> ('m life_scheme, int) kop" where
  "kthread_join_resume t = kseq (sleep_resume LkPtable) (join_loop t)"

subsection \<open>Exit and wait\<close>

text \<open>A thread \<open>t\<close> of process \<open>p\<close> that runs outside every critical section.\<close>

definition caller :: "nat \<Rightarrow> nat \<Rightarrow> 'm ptable_scheme \<Rightarrow> bool" where
  "caller p t s \<longleftrightarrow> cpu_inv s \<and> ncli (cur s) = 0 \<and> lock_free LkPtable s \<and> cpu_proc (cur s) = Some p \<and>
     cpu_thread (cur s) = Some t \<and> t < length (ttable s) \<and> p < length (procs s)"

definition wakes_only :: "chan option \<Rightarrow> kthread list \<Rightarrow> kthread list \<Rightarrow> bool" where
  "wakes_only ch tt tt' \<longleftrightarrow> length tt' = length tt \<and> (\<forall>x < length tt. tt' ! x = tt ! x \<or>
     tstate (tt ! x) = SLEEPING \<and> chan (tt ! x) = ch \<and> tt' ! x = (tt ! x)\<lparr>tstate := RUNNABLE\<rparr>)"

lemma wakes_only_refl [simp]: "wakes_only ch tt tt"
  by (simp add: wakes_only_def)

lemma wakes_only_wake [simp]: "wakes_only ch tt (wake_procs ch ps tt)"
  by (simp add: wakes_only_def nth_wake_procs)

lemma wakes_only_trans: "wakes_only ch tt tt' \<Longrightarrow> wakes_only ch tt' tt'' \<Longrightarrow> wakes_only ch tt tt''"
  unfolding wakes_only_def by (metis kthread.select_convs(3) kthread.surjective kthread.update_convs(3) threadstate.distinct(11))

definition reparent :: "nat \<Rightarrow> nat option \<Rightarrow> proc \<Rightarrow> proc" where
  "reparent p i k = (if parent k = Some p then k\<lparr>parent := i\<rparr> else k)"

lemma exit_orphans_ok:
  assumes "\<forall>c\<in>set cs. c < length (procs s)" and "distinct cs"
  shows "\<exists>tt. each (exit_orphan p) cs s =
       Ok () (s\<lparr>procs := map (\<lambda>c. if c \<in> set cs then reparent p (initproc s) (procs s ! c) else procs s ! c) [0 ..< length (procs s)],
                ttable := tt\<rparr>) \<and>
     wakes_only (map_option ChProc (initproc s)) (ttable s) tt"
  using assms
proof (induction cs arbitrary: s)
  case Nil
  then show ?case by (intro exI [of _ "ttable s"]) (simp add: map_nth)
next
  case (Cons c cs)
  let ?ps = "(procs s)[c := reparent p (initproc s) (procs s ! c)]"
  obtain tt where tt: "exit_orphan p c s = Ok () (s\<lparr>procs := ?ps, ttable := tt\<rparr>)"
      "wakes_only (map_option ChProc (initproc s)) (ttable s) tt"
  proof (cases "parent (procs s ! c) = Some p \<and> pstate (procs s ! c) = ZOMBIE")
    case True
    then show ?thesis
      using that [of "wake_procs (map_option ChProc (initproc s)) ?ps (ttable s)"]
      by (simp add: exit_orphan_def kexec wakeup1_def upd_proc_def reparent_def)
  next
    case False
    then show ?thesis using that [of "ttable s"] Cons.prems
      by (auto simp: exit_orphan_def kexec upd_proc_def reparent_def)
  qed
  define u where "u = s\<lparr>procs := ?ps, ttable := tt\<rparr>"
  have "\<forall>c\<in>set cs. c < length (procs u)" "distinct cs" using Cons.prems by (simp_all add: u_def)
  from Cons.IH [OF this] obtain tt' where tt': "each (exit_orphan p) cs u =
       Ok () (u\<lparr>procs := map (\<lambda>c. if c \<in> set cs then reparent p (initproc u) (procs u ! c) else procs u ! c) [0 ..< length (procs u)],
                ttable := tt'\<rparr>)" "wakes_only (map_option ChProc (initproc u)) (ttable u) tt'" by blast
  have "map (\<lambda>c. if c \<in> set cs then reparent p (initproc u) (procs u ! c) else procs u ! c) [0 ..< length (procs u)] =
      map (\<lambda>d. if d \<in> set (c # cs) then reparent p (initproc s) (procs s ! d) else procs s ! d) [0 ..< length (procs s)]"
    using Cons.prems by (auto simp: u_def nth_list_update)
  then have "each (exit_orphan p) (c # cs) s = Ok () (s\<lparr>procs := map (\<lambda>d. if d \<in> set (c # cs) then reparent p (initproc s) (procs s ! d) else procs s ! d) [0 ..< length (procs s)], ttable := tt'\<rparr>)"
    using tt(1) tt'(1) by (simp add: kseq_apply u_def)
  then show ?case using tt(2) tt'(2) wakes_only_trans by (auto simp: u_def)
qed

lemma exit_tail_ok:
  assumes c: "caller p t s" and n: "length (procs s) = NPROC"
  shows "\<exists>w tt. exit_tail p t s = Swtch w \<and> lock_held LkPtable w \<and>
     procs w = (map (reparent p (initproc s)) (procs s))[p := (reparent p (initproc s) (procs s ! p))\<lparr>pstate := ZOMBIE\<rparr>] \<and>
     wakes_only (map_option ChProc (initproc s)) (wake_procs (map_option ChProc (parent (procs s ! p))) (procs s) (ttable s)) tt \<and>
     map tstate (ttable w) = (map tstate (wake_procs (Some (ChThread t)) (map (reparent p (initproc s)) (procs s)) tt))[t := TERMINATED]"
proof -
  let ?v = "acq LkPtable s"
  let ?w = "?v\<lparr>ttable := wake_procs (map_option ChProc (parent (procs s ! p))) (procs s) (ttable s)\<rparr>"
  from exit_orphans_ok [of "[0 ..< NPROC]" ?w p] n obtain tt where tt:
      "each (exit_orphan p) [0 ..< NPROC] ?w = Ok () (?w\<lparr>procs := map (\<lambda>c. if c < NPROC then reparent p (initproc s) (procs s ! c) else procs s ! c) [0 ..< NPROC], ttable := tt\<rparr>)"
      "wakes_only (map_option ChProc (initproc s)) (wake_procs (map_option ChProc (parent (procs s ! p))) (procs s) (ttable s)) tt"
    by (auto cong: if_cong)
  have ps: "map (\<lambda>c. if c < NPROC then reparent p (initproc s) (procs s ! c) else procs s ! c) [0 ..< NPROC] = map (reparent p (initproc s)) (procs s)"
    using n by (intro nth_equalityI) auto
  have cs: "cpu_inv s" "ncli (cur s) = 0" "lock_free LkPtable s" "cpu_thread (cur s) = Some t" "t < length (ttable s)" "p < length (procs s)"
    using c by (simp_all add: caller_def)
  have lt: "length tt = length (ttable s)" using tt(2) by (simp add: wakes_only_def)
  show ?thesis
    using cs tt(2) lt n
    by (intro exI [of _ tt] exI conjI)
      (auto simp: exit_tail_def kexec wakeup1_def tt(1) [unfolded ps] suspended_def map_update upd_thread_def upd_proc_def)
qed

text \<open>Operations that never give up the processor.\<close>

definition stays :: "('s, 'a) kop \<Rightarrow> bool" where
  "stays m \<longleftrightarrow> (\<forall>s u. m s \<noteq> Swtch u)"

named_theorems stays_intro \<open>composition of operations that never give up the processor\<close>

lemma stays_basic [stays_intro]: "stays (kret x)" "stays (kpanic msg)" "stays (kfault msg)" "stays (kget f)" "stays (kmod g)" "stays Spin"
  by (simp_all add: stays_def)

lemma stays_deref [stays_intro]: "stays (deref q)"
  by (cases q) (simp_all add: stays_intro)

lemma stays_kbind [stays_intro]: "stays m \<Longrightarrow> (\<And>x. stays (f x)) \<Longrightarrow> stays (kbind m f)"
  by (auto simp: stays_def kbind_def split: res.splits)

lemma stays_kseq [stays_intro]: "stays m \<Longrightarrow> stays n \<Longrightarrow> stays (kseq m n)"
  unfolding kseq_def by (intro stays_intro)

lemma stays_if [stays_intro]: "(b \<Longrightarrow> stays m) \<Longrightarrow> (\<not> b \<Longrightarrow> stays n) \<Longrightarrow> stays (if b then m else n)"
  by simp

lemma stays_mycpu [stays_intro]: "stays mycpu"
  by (auto simp: stays_def mycpu_def split: option.splits)

lemma stays_locks [stays_intro]: "stays (acquire lk)" "stays (release lk)" "stays mythread" "stays myproc"
  unfolding acquire_def acquire_enter_def acquire_xchg_def xchg_def acquire_record_def release_def release_enter_def release_store_def
    mythread_def myproc_def holding_def pushcli_def popcli_def
  by (intro stays_intro; auto simp: stays_def kexec split: res.splits)+

lemma stays_kfree [stays_intro]: "stays (kfree v)"
  unfolding kfree_def kmem_lock_def kmem_unlock_def by (intro stays_intro)

lemma stays_kalloc [stays_intro]: "stays kalloc"
  unfolding kalloc_def kmem_lock_def kmem_unlock_def by (intro stays_intro)

lemma stays_walk [stays_intro]: "stays (walkpgdir pd va alloc)"
  unfolding walkpgdir_def by (intro stays_intro)

lemma stays_deallocuvm_loop [stays_intro]: "stays (deallocuvm_loop n pd a usz)"
  by (induction n arbitrary: a) (auto intro!: stays_intro)

lemma stays_freevm_loop [stays_intro]: "stays (freevm_loop n i pd)"
  by (induction n arbitrary: i) (auto intro!: stays_intro)

lemma stays_freevm [stays_intro]: "stays (freevm pd)"
  unfolding freevm_def deallocuvm_def by (intro stays_intro)

lemma stays_reap_threads [stays_intro]: "stays (reap_threads ts)"
  by (induction ts) (simp_all only: reap_threads.simps, (intro stays_intro | assumption)+)

lemma stays_reap [stays_intro]: "stays (reap c)"
  unfolding reap_def by (intro stays_intro)

lemma wait_scan_no_zombie:
  assumes "\<forall>c\<in>set cs. parent (procs s ! c) = Some p \<longrightarrow> pstate (procs s ! c) \<noteq> ZOMBIE"
  shows "wait_scan p cs h s = Ok (Inr (h \<or> (\<exists>c\<in>set cs. parent (procs s ! c) = Some p))) s"
  using assms by (induction cs arbitrary: h) (auto simp: kexec)

lemma wait_scan_zombie:
  assumes "c \<in> set cs" and "parent (procs s ! c) = Some p" and "pstate (procs s ! c) = ZOMBIE"
  shows "wait_scan p cs h (s :: 'a life_scheme) \<noteq> Ok (Inr r) u" and "wait_scan p cs h s \<noteq> Swtch u"
proof -
  have r: "reap d s \<noteq> Swtch u" "release LkPtable v \<noteq> Swtch u" for d and v :: "'a life_scheme"
    by (rule stays_reap [unfolded stays_def, rule_format], rule stays_locks(2) [unfolded stays_def, rule_format])
  have "wait_scan p cs h s \<noteq> Ok (Inr r) u \<and> wait_scan p cs h s \<noteq> Swtch u"
    using assms
    by (induction cs arbitrary: h) (auto simp: kbind_apply kseq_apply r split: res.splits)
  then show "wait_scan p cs h s \<noteq> Ok (Inr r) u" "wait_scan p cs h s \<noteq> Swtch u" by simp_all
qed

lemma exit_wakes_waiting_parent:
  assumes v: "caller c x v" "length (procs v) = NPROC" "parent (procs v ! c) = Some p" "pstate (procs v ! p) \<noteq> UNUSED" "p < NPROC"
      "t \<in> set (row (p_threads (procs v ! p)))" "t < length (ttable v)" "t \<noteq> x"
      "tstate (ttable v ! t) = SLEEPING" "chan (ttable v ! t) = Some (ChProc p)"
  shows "\<exists>w. exit_tail c x v = Swtch w \<and> lock_held LkPtable w \<and> pstate (procs w ! c) = ZOMBIE \<and> tstate (ttable w ! x) = TERMINATED \<and> tstate (ttable w ! t) = RUNNABLE"
proof -
  from exit_tail_ok [OF v(1,2)] v(3) obtain u tt where u: "exit_tail c x v = Swtch u" "lock_held LkPtable u"
     "procs u = (map (reparent c (initproc v)) (procs v))[c := (reparent c (initproc v) (procs v ! c))\<lparr>pstate := ZOMBIE\<rparr>]"
     "wakes_only (map_option ChProc (initproc v)) (wake_procs (Some (ChProc p)) (procs v) (ttable v)) tt"
     "map tstate (ttable u) = (map tstate (wake_procs (Some (ChThread x)) (map (reparent c (initproc v)) (procs v)) tt))[x := TERMINATED]"
    by auto
  have c: "c < length (procs v)" "x < length (ttable v)" using v(1) by (simp_all add: caller_def)
  have lt: "length tt = length (ttable v)" using u(4) by (simp add: wakes_only_def)
  have "\<exists>q\<in>set (procs v). pstate q \<noteq> UNUSED \<and> t \<in> set (row (p_threads q))" using v(2,4-6) by (metis nth_mem)
  then have "tstate (wake_procs (Some (ChProc p)) (procs v) (ttable v) ! t) = RUNNABLE" using v(7,9,10) by (simp add: nth_wake_procs)
  then have r: "tstate (tt ! t) = RUNNABLE" using u(4) v(7) unfolding wakes_only_def by fastforce
  have "length (map tstate (ttable u)) = length tt" using u(5) by simp
  then have lu: "length (ttable u) = length (ttable v)" using lt by simp
  have "tstate (ttable u ! t) = map tstate (ttable u) ! t" using lu v(7) by simp
  also have "\<dots> = RUNNABLE" using u(5) r v(7,8) lt by (simp add: nth_wake_procs)
  finally have rt: "tstate (ttable u ! t) = RUNNABLE" .
  have "tstate (ttable u ! x) = map tstate (ttable u) ! x" using lu c by simp
  also have "\<dots> = TERMINATED" using u(5) c lt by simp
  finally show ?thesis using u(1-3) c rt by auto
qed

text \<open>C7. \<open>wait\<close> misses no \<open>exit\<close>. A caller without children gets \<open>-1\<close> at once; with a child that has
  exited \<open>wait\<close> never goes to sleep; if no child has exited, and the caller is neither killed nor asked to
  exit, it goes to sleep on its process, and releases the lock of the table only in the scheduler. From
  then on, when any child executes the end of \<open>exit\<close>, the child becomes a zombie, its thread is
  terminated and leaves the processor for good, and the sleeping thread is runnable again.\<close>

theorem wait_misses_no_exit:
  assumes s: "caller p t s" "length (procs s) = NPROC"
    and v: "caller c x v" "length (procs v) = NPROC" "parent (procs v ! c) = Some p" "pstate (procs v ! p) \<noteq> UNUSED" "p < NPROC"
      "t \<in> set (row (p_threads (procs v ! p)))" "t < length (ttable v)" "t \<noteq> x"
      "tstate (ttable v ! t) = SLEEPING" "chan (ttable v ! t) = Some (ChProc p)"
  shows "((\<forall>d < NPROC. parent (procs s ! d) \<noteq> Some p) \<longrightarrow> (\<exists>u. wait s = Ok (- 1) u \<and> procs u = procs s \<and> ttable u = ttable s)) \<and>
    ((\<exists>d < NPROC. parent (procs s ! d) = Some p \<and> pstate (procs s ! d) = ZOMBIE) \<longrightarrow> (\<nexists>u. wait s = Swtch u)) \<and>
    ((\<exists>d < NPROC. parent (procs s ! d) = Some p) \<and> \<not> (\<exists>d < NPROC. parent (procs s ! d) = Some p \<and> pstate (procs s ! d) = ZOMBIE) \<and>
      \<not> killed (procs s ! p) \<and> \<not> exitRequest (ttable s ! t) \<longrightarrow>
      (\<exists>u. wait s = Swtch u \<and> lock_held LkPtable u \<and> procs u = procs s \<and> tstate (ttable u ! t) = SLEEPING \<and> chan (ttable u ! t) = Some (ChProc p))) \<and>
    (\<exists>w. exit_tail c x v = Swtch w \<and> lock_held LkPtable w \<and> pstate (procs w ! c) = ZOMBIE \<and> tstate (ttable w ! x) = TERMINATED \<and> tstate (ttable w ! t) = RUNNABLE)"
    (is "?none \<and> ?zombie \<and> ?sleep \<and> ?exit")
proof (intro conjI)
  have cs: "cpu_inv s" "ncli (cur s) = 0" "lock_free LkPtable s" "cpu_proc (cur s) = Some p" "cpu_thread (cur s) = Some t" "t < length (ttable s)"
    using s(1) by (simp_all add: caller_def)
  have w: "wait s = wait_loop p (acq LkPtable s)" using cs by (simp add: wait_def kexec)
  note ws = wait_scan_no_zombie [of "[0 ..< NPROC]" "acq LkPtable s" p False]
  show ?none
  proof
    assume n: "\<forall>d < NPROC. parent (procs s ! d) \<noteq> Some p"
    then have "wait_scan p [0 ..< NPROC] False (acq LkPtable s) = Ok (Inr False) (acq LkPtable s)" using ws by auto
    then show "\<exists>u. wait s = Ok (- 1) u \<and> procs u = procs s \<and> ttable u = ttable s" using w cs by (simp add: wait_loop_def kexec)
  qed
  show ?zombie
  proof
    assume "\<exists>d < NPROC. parent (procs s ! d) = Some p \<and> pstate (procs s ! d) = ZOMBIE"
    then obtain d where "d < NPROC" "parent (procs s ! d) = Some p" "pstate (procs s ! d) = ZOMBIE" by blast
    then have "wait_scan p [0 ..< NPROC] False (acq LkPtable s) \<noteq> Ok (Inr r) u" "wait_scan p [0 ..< NPROC] False (acq LkPtable s) \<noteq> Swtch u" for r u
      using wait_scan_zombie [of d "[0 ..< NPROC]" "acq LkPtable s" p] by simp_all
    then show "\<nexists>u. wait s = Swtch u" unfolding w wait_loop_def by (auto simp: kbind_apply split: res.splits sum.splits)
  qed
  show ?sleep
  proof (intro impI, elim conjE)
    assume k: "\<exists>d < NPROC. parent (procs s ! d) = Some p" "\<not> killed (procs s ! p)" "\<not> exitRequest (ttable s ! t)"
      and z: "\<not> (\<exists>d < NPROC. parent (procs s ! d) = Some p \<and> pstate (procs s ! d) = ZOMBIE)"
    then have "wait_scan p [0 ..< NPROC] False (acq LkPtable s) = Ok (Inr True) (acq LkPtable s)" using ws by auto
    then show "\<exists>u. wait s = Swtch u \<and> lock_held LkPtable u \<and> procs u = procs s \<and> tstate (ttable u ! t) = SLEEPING \<and> chan (ttable u ! t) = Some (ChProc p)"
      using w cs k by (simp add: wait_loop_def kexec sleeping_def)
  qed
  show ?exit by (rule exit_wakes_waiting_parent [OF v])
qed

subsection \<open>Exit with other threads\<close>

definition request :: "nat \<Rightarrow> nat list \<Rightarrow> kthread list \<Rightarrow> kthread list" where
  "request t0 ts tt = map (\<lambda>x. if x \<in> set ts \<and> x \<noteq> t0 \<and> alive (tt ! x) then (tt ! x)\<lparr>exitRequest := True\<rparr> else tt ! x) [0 ..< length tt]"

lemma alive_exitRequest [simp]: "alive (k\<lparr>exitRequest := b\<rparr>) = alive k"
  by (simp add: alive_def)

lemma request_exits_ok:
  assumes "\<forall>x\<in>set ts. x < length (ttable s)"
  shows "request_exits t0 ts s = Ok (last_running t0 ts (ttable s)) (s\<lparr>ttable := request t0 ts (ttable s)\<rparr>)"
  using assms
proof (induction ts arbitrary: s)
  case Nil
  then show ?case by (simp add: request_def last_running_def map_nth)
next
  case (Cons x xs)
  show ?case
  proof (cases "x \<noteq> t0 \<and> alive (ttable s ! x)")
    case True
    let ?u = "upd_thread x (\<lambda>k. k\<lparr>exitRequest := True\<rparr>) s"
    have "request_exits t0 xs ?u = Ok (last_running t0 xs (ttable ?u)) (?u\<lparr>ttable := request t0 xs (ttable ?u)\<rparr>)"
      using Cons by simp
    moreover have "request t0 xs (ttable ?u) = request t0 (x # xs) (ttable s)"
      using True Cons.prems by (auto simp: request_def nth_list_update)
    ultimately show ?thesis using True by (simp add: kexec last_running_def upd_thread_def)
  next
    case False
    have "request t0 xs (ttable s) = request t0 (x # xs) (ttable s)" using False by (auto simp: request_def)
    then show ?thesis using Cons False by (auto simp: kexec last_running_def)
  qed
qed

text \<open>C30. \<open>exit\<close> returns to its caller while another thread of the process is alive, although its comment
  says that it does not return. It only asks the other threads to exit; the process table is unchanged, and
  the calling thread goes on running.\<close>

theorem exit_returns_while_threads_live:
  assumes "caller p t s" and "initproc s \<noteq> Some p" and "\<forall>x\<in>set (row (p_threads (procs s ! p))). x < length (ttable s)"
    and "x \<in> set (row (p_threads (procs s ! p)))" and "x \<noteq> t" and "alive (ttable s ! x)"
  shows "\<exists>u. exit s = Ok () u \<and> procs u = procs s \<and> ttable u = request t (row (p_threads (procs s ! p))) (ttable s) \<and>
     exitRequest (ttable u ! x) \<and> ttable u ! t = ttable s ! t"
proof -
  have c: "cpu_inv s" "ncli (cur s) = 0" "lock_free LkPtable s" "cpu_proc (cur s) = Some p" "cpu_thread (cur s) = Some t" "t < length (ttable s)"
    using assms(1) by (simp_all add: caller_def)
  have l: "\<not> last_running t (row (p_threads (procs s ! p))) (ttable s)"
    using assms(4-6) by (auto simp: last_running_def list_all_iff)
  have r: "request_exits t (row (p_threads (procs s ! p))) (acq LkPtable s) =
      Ok False ((acq LkPtable s)\<lparr>ttable := request t (row (p_threads (procs s ! p))) (ttable s)\<rparr>)"
    using request_exits_ok [of "row (p_threads (procs s ! p))" "acq LkPtable s" t] assms(3) l by simp
  have n: "Some p \<noteq> initproc s" using assms(2) by simp
  have "exit s = Ok () (settle s\<lparr>ttable := request t (row (p_threads (procs s ! p))) (ttable s)\<rparr>)"
    using c n r by (simp add: exit_def kexec)
  moreover have "x < length (ttable s)" using assms(3,4) by blast
  ultimately show ?thesis using c(6) assms(4-6) by (auto simp: request_def)
qed

subsection \<open>Threads that exit and threads that join\<close>

lemma find_unique:
  assumes "x \<in> set xs" and "P x" and "\<forall>y\<in>set xs. P y \<longrightarrow> y = x"
  shows "find P xs = Some x"
  using assms
proof (induction xs)
  case (Cons y ys)
  show ?case
  proof (cases "P y")
    case True
    then have "y = x" using Cons.prems(3) by simp
    then show ?thesis using True by simp
  next
    case False
    then have "x \<in> set ys" using Cons.prems(1,2) by auto
    moreover have "\<forall>y\<in>set ys. P y \<longrightarrow> y = x" using Cons.prems(3) by (meson list.set_intros(2))
    ultimately have "find P ys = Some x" using Cons.IH Cons.prems(2) by blast
    then show ?thesis using False by simp
  qed
qed simp

text \<open>C8. \<open>kthread_join\<close> misses no \<open>kthread_exit\<close>. If thread \<open>x\<close> of the caller's process, and only it, has the
  identifier \<open>n\<close>, then joining it succeeds at once if it has terminated, makes its slot free and gives its
  kernel stack back to the page allocator, and changes no other thread; if it is still alive the caller goes to sleep on it. From then on, when
  \<open>x\<close> executes \<open>kthread_exit\<close> and is not the last thread of its process, it is terminated, gives up the
  processor for good, and the sleeping thread is runnable again.\<close>

theorem join_misses_no_exit:
  assumes s: "caller p t s" "x \<in> set (row (p_threads (procs s ! p)))" "x < length (ttable s)" "tid (ttable s ! x) = n" "tid (ttable s ! t) \<noteq> n"
      "\<forall>y\<in>set (row (p_threads (procs s ! p))). tid (ttable s ! y) = n \<longrightarrow> y = x"
      "lock_free LkKmem s" "page_ok (kernel_end s) (kstack (ttable s ! x))"
    and v: "caller q x v" "tproc (ttable v ! x) = Some q" "\<not> last_running x (row (p_threads (procs v ! q))) (ttable v)"
      "p < length (procs v)" "pstate (procs v ! p) \<noteq> UNUSED" "t \<in> set (row (p_threads (procs v ! p)))" "t < length (ttable v)" "t \<noteq> x"
      "tstate (ttable v ! t) = SLEEPING" "chan (ttable v ! t) = Some (ChThread x)"
  shows "(tstate (ttable s ! x) = TERMINATED \<longrightarrow>
      (\<exists>u. kthread_join n s = Ok 0 u \<and> tstate (ttable u ! x) = UNINIT \<and> freelist u = kstack (ttable s ! x) \<and> rd32 (mem u) (freelist u) = freelist s \<and>
         (\<forall>y. y \<noteq> x \<longrightarrow> ttable u ! y = ttable s ! y) \<and> procs u = procs s)) \<and>
    (alive (ttable s ! x) \<longrightarrow>
      (\<exists>u. kthread_join n s = Swtch u \<and> lock_held LkPtable u \<and> tstate (ttable u ! t) = SLEEPING \<and> chan (ttable u ! t) = Some (ChThread x))) \<and>
    (\<exists>w. kthread_exit v = Swtch w \<and> lock_held LkPtable w \<and> tstate (ttable w ! x) = TERMINATED \<and> tstate (ttable w ! t) = RUNNABLE)"
proof (intro conjI impI)
  have c: "cpu_inv s" "ncli (cur s) = 0" "lock_free LkPtable s" "cpu_proc (cur s) = Some p" "cpu_thread (cur s) = Some t" "t < length (ttable s)"
    using s(1) by (simp_all add: caller_def)
  have "find (\<lambda>y. tid (ttable s ! y) = n) (row (p_threads (procs s ! p))) = Some x"
    by (rule find_unique [OF s(2,4,6)])
  then have j: "join_slot n (p_threads (procs s ! p)) (ttable s) = x" by (simp add: join_slot_def)
  have xt: "x \<noteq> t" using s(4,5) by auto
  have pre: "kthread_join n s = join_loop x (acq LkPtable s)" if "tstate (ttable s ! x) \<noteq> UNINIT"
    using c s(4,5) j that by (simp add: kthread_join_def kexec)
  { assume st: "tstate (ttable s ! x) = TERMINATED"
    have "kmem_ready (acq LkPtable s)" using c s(7) by (simp add: kmem_ready_def)
    moreover have "aligned4 (kstack (ttable s ! x))" using s(8) by (rule page_ok_aligned)
    ultimately show "\<exists>u. kthread_join n s = Ok 0 u \<and> tstate (ttable u ! x) = UNINIT \<and> freelist u = kstack (ttable s ! x) \<and> rd32 (mem u) (freelist u) = freelist s \<and>
         (\<forall>y. y \<noteq> x \<longrightarrow> ttable u ! y = ttable s ! y) \<and> procs u = procs s"
      using c s(3,8) st pre by (simp add: join_loop_def kexec ksettle_def) }
  { assume "alive (ttable s ! x)"
    then show "\<exists>u. kthread_join n s = Swtch u \<and> lock_held LkPtable u \<and> tstate (ttable u ! t) = SLEEPING \<and> chan (ttable u ! t) = Some (ChThread x)"
      using c xt pre by (simp add: join_loop_def kexec alive_def sleeping_def) }
  have d: "cpu_inv v" "ncli (cur v) = 0" "lock_free LkPtable v" "cpu_proc (cur v) = Some q" "cpu_thread (cur v) = Some x" "x < length (ttable v)"
    using v(1) by (simp_all add: caller_def)
  have "\<exists>k\<in>set (procs v). pstate k \<noteq> UNUSED \<and> t \<in> set (row (p_threads k))" using v(4-6) by (metis nth_mem)
  then have "tstate (wake_procs (Some (ChThread x)) (procs v) (ttable v) ! t) = RUNNABLE" using v(7,9,10) by (simp add: nth_wake_procs)
  then show "\<exists>w. kthread_exit v = Swtch w \<and> lock_held LkPtable w \<and> tstate (ttable w ! x) = TERMINATED \<and> tstate (ttable w ! t) = RUNNABLE"
    using d v(2,3,7,8) by (simp add: kthread_exit_def kexec wakeupThreads_def suspended_def)
qed

subsection \<open>What the child of a fork inherits\<close>

definition shares :: "nat option list \<Rightarrow> nat \<Rightarrow> int" where
  "shares fs f = int (length (filter (\<lambda>x. x = Some f) fs))"

lemma shares_snoc: "shares (fs @ [x]) f = shares fs f + (if x = Some f then 1 else 0)"
  by (simp add: shares_def)

definition files_shared :: "kfile list \<Rightarrow> kfile list \<Rightarrow> nat option list \<Rightarrow> bool" where
  "files_shared fs fs' os \<longleftrightarrow> length fs' = length fs \<and> (\<forall>f < length fs. fs' ! f = (fs ! f)\<lparr>f_ref := f_ref (fs ! f) + shares os f\<rparr>)"

lemma upd_file_tables [simp]: "procs (upd_file i f s) = procs s" "ttable (upd_file i f s) = ttable s"
  by (simp_all add: upd_file_def)

lemma upd_inode_tables [simp]: "procs (upd_inode i g s) = procs s" "ttable (upd_inode i g s) = ttable s"
    "cpu_inv (upd_inode i g s) = cpu_inv s" "lock_free lk (upd_inode i g s) = lock_free lk s"
    "in_cs (upd_inode i g s) = in_cs s" "lock_held lk (upd_inode i g s) = lock_held lk s"
    "settle (upd_inode i g s) = upd_inode i g (settle s)" "rel lk (upd_inode i g s) = upd_inode i g (rel lk s)"
    "files (upd_inode i g s) = files s" "inodes (upd_inode i g s) = (inodes s)[i := g (inodes s ! i)]"
  by (simp_all add: upd_inode_def)

lemma upd_proc_rest [simp]: "files (upd_proc p g s) = files s" "inodes (upd_proc p g s) = inodes s"
    "files (upd_thread t h s) = files s" "inodes (upd_thread t h s) = inodes s"
  by (simp_all add: upd_proc_def upd_thread_def)

lemma fork_files_ok:
  assumes "cpu_inv s" and "lock_free LkFtable s" and "p < length (procs s)" and "np < length (procs s)" and "p \<noteq> np"
    and "length (ofile (procs s ! p)) = NOFILE" and "ofile (procs s ! np) = replicate NOFILE None"
    and "\<forall>f. Some f \<in> set (ofile (procs s ! p)) \<longrightarrow> f < length (files s) \<and> 1 \<le> f_ref (files s ! f)"
    and "n \<le> NOFILE"
  shows "\<exists>u. each (fork_file p np) [0 ..< n] s = Ok () u \<and> cpu_inv u \<and> (\<forall>lk. lock_free lk u = lock_free lk s) \<and>
     ttable u = ttable s \<and> inodes u = inodes s \<and>
     procs u = (procs s)[np := (procs s ! np)\<lparr>ofile := take n (ofile (procs s ! p)) @ replicate (NOFILE - n) None\<rparr>] \<and>
     files_shared (files s) (files u) (take n (ofile (procs s ! p)))"
  using assms(9)
proof (induction n)
  case 0
  have "(procs s)[np := (procs s ! np)\<lparr>ofile := replicate NOFILE None\<rparr>] = procs s"
    unfolding assms(7) [symmetric] by simp
  then show ?case using assms(1) by (simp add: files_shared_def shares_def)
next
  case (Suc n)
  then obtain u where u: "each (fork_file p np) [0 ..< n] s = Ok () u" "cpu_inv u" "\<forall>lk. lock_free lk u = lock_free lk s"
     "ttable u = ttable s" "inodes u = inodes s"
     "procs u = (procs s)[np := (procs s ! np)\<lparr>ofile := take n (ofile (procs s ! p)) @ replicate (NOFILE - n) None\<rparr>]"
     "files_shared (files s) (files u) (take n (ofile (procs s ! p)))" by auto
  have n: "n < length (ofile (procs s ! p))" using Suc.prems assms(6) by simp
  have tk: "take (Suc n) (ofile (procs s ! p)) = take n (ofile (procs s ! p)) @ [ofile (procs s ! p) ! n]" using n by (rule take_Suc_conv_app_nth)
  have rp: "replicate (NOFILE - n) None = None # replicate (NOFILE - Suc n) None" using Suc.prems by (metis Suc_diff_le diff_Suc_Suc replicate_Suc)
  have pu: "procs u ! p = procs s ! p" using u(6) assms(5) by simp
  have e: "each (fork_file p np) [0 ..< Suc n] s = fork_file p np n u" using u(1) by (simp add: each_append kseq_apply split: res.split)
  show ?case
  proof (cases "ofile (procs s ! p) ! n")
    case None
    then have "fork_file p np n u = Ok () u" by (simp add: fork_file_def kexec pu)
    moreover have "procs u = (procs s)[np := (procs s ! np)\<lparr>ofile := take (Suc n) (ofile (procs s ! p)) @ replicate (NOFILE - Suc n) None\<rparr>]"
      using u(6) unfolding tk rp None by simp
    moreover have "files_shared (files s) (files u) (take (Suc n) (ofile (procs s ! p)))"
      using u(7) unfolding tk None files_shared_def shares_snoc by simp
    ultimately show ?thesis using e u by simp
  next
    case (Some f)
    have "Some f \<in> set (ofile (procs s ! p))" using n unfolding Some [symmetric] by (rule nth_mem)
    then have f: "f < length (files s)" "1 \<le> f_ref (files s ! f)" using assms(8) by blast+
    have fu: "f < length (files u)" "1 \<le> f_ref (files u ! f)" using u(7) f by (auto simp: files_shared_def shares_def)
    let ?v = "upd_proc np (\<lambda>k. k\<lparr>ofile := (ofile k)[n := Some f]\<rparr>) (upd_file f (\<lambda>x. x\<lparr>f_ref := f_ref x + 1\<rparr>) (settle u))"
    have "fork_file p np n u = Ok () ?v" using Some fu u(2,3) assms(2) by (simp add: fork_file_def kexec pu filedup_def)
    moreover have "procs ?v = (procs s)[np := (procs s ! np)\<lparr>ofile := take (Suc n) (ofile (procs s ! p)) @ replicate (NOFILE - Suc n) None\<rparr>]"
      using u(6) n assms(4) unfolding tk rp Some by (simp add: list_update_append)
    moreover have "files_shared (files s) (files ?v) (take (Suc n) (ofile (procs s ! p)))"
      using u(7) fu f unfolding tk Some files_shared_def shares_snoc by (auto simp: nth_list_update upd_proc_def)
    ultimately show ?thesis using e u by simp
  qed
qed

text \<open>C9. What a child inherits. Once \<open>fork\<close> has allocated the child \<open>np\<close> with its thread \<open>nt\<close> and copied
  the address space, the rest of \<open>fork\<close> returns the child's identifier to the parent; the child has the
  parent's size, open files and current directory and the parent as its parent, its registers are those
  of the calling thread except that \<open>eax\<close>, the result of the call, is zero, and it is ready to run. Every
  file gains one reference for each descriptor it is open on, the current directory gains one, and the
  parent's process and thread are unchanged.\<close>

theorem fork_child_inherits:
  assumes c: "caller p t s" and l: "lock_free LkFtable s" "lock_free LkIcache s"
    and np: "np < length (procs s)" "p \<noteq> np" "nt < length (ttable s)" "nt \<noteq> t" "ofile (procs s ! np) = replicate NOFILE None"
    and o: "length (ofile (procs s ! p)) = NOFILE"
      "\<forall>f. Some f \<in> set (ofile (procs s ! p)) \<longrightarrow> f < length (files s) \<and> 1 \<le> f_ref (files s ! f)"
    and i: "cwd (procs s ! p) = Some d" "d < length (inodes s)"
  shows "\<exists>u. fork_finish p t np nt s = Ok (pid (procs s ! np)) u \<and>
     procs u ! np = (procs s ! np)\<lparr>sz := sz (procs s ! p), parent := Some p, ofile := ofile (procs s ! p), cwd := Some d,
        pname := set_name (pname (procs s ! np)) (pname (procs s ! p)), pstate := USED\<rparr> \<and>
     ttable u ! nt = (ttable s ! nt)\<lparr>tf := (tf (ttable s ! t))\<lparr>tf_eax := 0\<rparr>, tstate := RUNNABLE\<rparr> \<and>
     (\<forall>q. q \<noteq> np \<longrightarrow> procs u ! q = procs s ! q) \<and> (\<forall>x. x \<noteq> nt \<longrightarrow> ttable u ! x = ttable s ! x) \<and>
     i_ref (inodes u ! d) = i_ref (inodes s ! d) + 1 \<and>
     (\<forall>f < length (files s). f_ref (files u ! f) = f_ref (files s ! f) + shares (ofile (procs s ! p)) f)"
proof -
  let ?w = "upd_thread nt (\<lambda>k. k\<lparr>tf := (tf (ttable s ! t))\<lparr>tf_eax := 0\<rparr>\<rparr>)
     (upd_proc np (\<lambda>k. k\<lparr>sz := sz (procs s ! p), parent := Some p\<rparr>) s)"
  have cs: "cpu_inv s" "lock_free LkPtable s" "p < length (procs s)" using c by (simp_all add: caller_def)
  have w: "cpu_inv ?w" "lock_free LkFtable ?w" "p < length (procs ?w)" "np < length (procs ?w)" "p \<noteq> np"
    "length (ofile (procs ?w ! p)) = NOFILE" "ofile (procs ?w ! np) = replicate NOFILE None"
    "\<forall>f. Some f \<in> set (ofile (procs ?w ! p)) \<longrightarrow> f < length (files ?w) \<and> 1 \<le> f_ref (files ?w ! f)"
    using cs l np o by simp_all
  obtain u where u: "each (fork_file p np) [0 ..< NOFILE] ?w = Ok () u" "cpu_inv u" "\<forall>lk. lock_free lk u = lock_free lk ?w"
     "ttable u = ttable ?w" "inodes u = inodes ?w"
     "procs u = (procs ?w)[np := (procs ?w ! np)\<lparr>ofile := take NOFILE (ofile (procs ?w ! p)) @ replicate (NOFILE - NOFILE) None\<rparr>]"
     "files_shared (files ?w) (files u) (take NOFILE (ofile (procs ?w ! p)))"
    using fork_files_ok [OF w order_refl] by blast
  have pu: "procs u ! p = procs s ! p" "procs u ! np = (procs s ! np)\<lparr>sz := sz (procs s ! p), parent := Some p, ofile := ofile (procs s ! p)\<rparr>"
    "\<And>q. q \<noteq> np \<Longrightarrow> procs u ! q = procs s ! q" "length (procs u) = length (procs s)"
    using u(6) np(1,2) o(1) by simp_all
  let ?z = "upd_thread nt (\<lambda>k. k\<lparr>tstate := RUNNABLE\<rparr>) (upd_proc np (\<lambda>k. k\<lparr>pstate := USED\<rparr>)
     (upd_proc np (\<lambda>k. k\<lparr>pname := set_name (pname k) (pname (procs s ! p))\<rparr>) (upd_proc np (\<lambda>k. k\<lparr>cwd := Some d\<rparr>)
     (upd_inode d (\<lambda>ip. ip\<lparr>i_ref := i_ref ip + 1\<rparr>) (settle u)))))"
  have lf: "lock_free LkIcache u" "lock_free LkPtable u" using u(3) l cs(2) by simp_all
  have st: "kseq (kmod (\<lambda>s. upd_proc np (\<lambda>k. k\<lparr>sz := sz (procs s ! p)\<rparr>) s))
     (kseq (kmod (upd_proc np (\<lambda>k. k\<lparr>parent := Some p\<rparr>)))
     (kseq (kmod (\<lambda>s. upd_thread nt (\<lambda>k. k\<lparr>tf := tf (ttable s ! t)\<rparr>) s))
     (kseq (kmod (upd_thread nt (\<lambda>k. k\<lparr>tf := (tf k)\<lparr>tf_eax := 0\<rparr>\<rparr>))) rest))) s = rest ?w" for rest :: "('a life_scheme, int) kop"
    using np(1,3,4) by (simp add: kseq_apply upd_thread_compose) (simp add: upd_proc_def)
  have "fork_finish p t np nt s = Ok (pid (procs s ! np)) ?z"
    unfolding fork_finish_def st
    using u(1,2) lf pu(1,2,4) i np(1,2) by (simp add: kexec idup_def)
  moreover have "procs ?z ! np = (procs s ! np)\<lparr>sz := sz (procs s ! p), parent := Some p, ofile := ofile (procs s ! p), cwd := Some d,
        pname := set_name (pname (procs s ! np)) (pname (procs s ! p)), pstate := USED\<rparr>"
    using np(1) pu(2,4) by simp
  moreover have "ttable ?z ! nt = (ttable s ! nt)\<lparr>tf := (tf (ttable s ! t))\<lparr>tf_eax := 0\<rparr>, tstate := RUNNABLE\<rparr>"
    using u(4) np(3) by simp
  moreover have "\<forall>f < length (files s). f_ref (files ?z ! f) = f_ref (files s ! f) + shares (ofile (procs s ! p)) f"
    using u(7) np(2) o(1) by (simp add: files_shared_def)
  ultimately show ?thesis using u(4,5) pu(3) i(2) by auto
qed

subsection \<open>Concrete instances\<close>

definition life0 :: life where
  "life0 = cons_state.extend parked_c \<lparr>forkret_first = False\<rparr>"

definition scene :: "nat \<Rightarrow> nat \<Rightarrow> proc list \<Rightarrow> kthread list \<Rightarrow> life" where
  "scene p t ps tt = life0\<lparr>cpus := [(cpu0 0)\<lparr>cpu_proc := Some p, cpu_thread := Some t\<rparr>, cpu0 1], procs := ps, ttable := tt\<rparr>"

lemma life0_machine: "lapic_id life0 = 0" "eflags_if life0 = True" "locks life0 lk = \<lparr>locked = 0, lk_name = [], lk_cpu = None\<rparr>"
    "initproc life0 = Some 0" "kernel_end life0 = 0x80110000"
  using parked_k_ok(2)
  by (simp_all add: life0_def parked_c_def parked_p_def parked_f_def parked_l_def parked_b_def parked_k_def parked_m_def parked_sl_def
      ptable.extend_def sltable.extend_def mtable.extend_def kmem.extend_def bcache.extend_def logged.extend_def fsys.extend_def
      ftab.extend_def cons_state.extend_def parked_def ready_def)

lemma life0_files: "files life0 = replicate 100 file0" "inodes life0 = replicate 50 inode0"
  by (simp_all add: life0_def parked_c_def parked_p_def parked_f_def
      cons_state.extend_def ftab.extend_def fsys.extend_def logged.extend_def)

lemma scene_caller: "p < length ps \<Longrightarrow> t < length tt \<Longrightarrow> caller p t (scene p t ps tt)" "lock_free lk (scene p t ps tt)"
    "procs (scene p t ps tt) = ps" "ttable (scene p t ps tt) = tt" "initproc (scene p t ps tt) = Some 0" "kernel_end (scene p t ps tt) = 0x80110000"
    "files (scene p t ps tt) = replicate 100 file0" "inodes (scene p t ps tt) = replicate 50 inode0"
  by (simp_all add: scene_def caller_def cpu_inv_def this_cpu_def cur_def lock_free_def life0_machine life0_files cpu0_def)

text \<open>Init, a process 1 with threads 16 and 17, and a child of it with thread 32.\<close>

definition family :: "proc list" where
  "family = proc0\<lparr>pstate := USED, pid := 1\<rparr> # proc0\<lparr>pstate := USED, pid := 2, parent := Some 0, p_threads := 16\<rparr> #
     proc0\<lparr>pstate := USED, pid := 3, parent := Some 1, p_threads := 32\<rparr> # replicate 61 proc0"

definition family_threads :: "kthread \<Rightarrow> kthread \<Rightarrow> kthread \<Rightarrow> kthread list" where
  "family_threads a b c = (replicate 1025 thread0)[16 := a, 17 := b, 32 := c]"

definition thread_in :: "threadstate \<Rightarrow> int \<Rightarrow> nat \<Rightarrow> kthread" where
  "thread_in st n p = thread0\<lparr>kstack := 0x80300000, tstate := st, tid := n, tproc := Some p\<rparr>"

lemma family_simps: "length family = NPROC" "family ! 0 = proc0\<lparr>pstate := USED, pid := 1\<rparr>"
    "family ! Suc 0 = proc0\<lparr>pstate := USED, pid := 2, parent := Some 0, p_threads := 16\<rparr>"
    "family ! 2 = proc0\<lparr>pstate := USED, pid := 3, parent := Some 1, p_threads := 32\<rparr>"
    "length (family_threads a b c) = 1025" "family_threads a b c ! 16 = a" "family_threads a b c ! 17 = b" "family_threads a b c ! 32 = c"
    "\<And>i. i < 1025 \<Longrightarrow> i \<noteq> 16 \<Longrightarrow> i \<noteq> 17 \<Longrightarrow> i \<noteq> 32 \<Longrightarrow> family_threads a b c ! i = thread0"
  by (simp_all add: family_def family_threads_def NPROC_def)

lemma family_zombie: "d < NPROC \<Longrightarrow> pstate (family ! d) \<noteq> ZOMBIE"
  by (auto simp: family_def NPROC_def proc0_def nth_Cons' split: if_splits)

theorem wait_misses_no_exit_witness:
  "\<exists>u w. wait (scene 1 16 family (family_threads (thread_in RUNNING 4 1) thread0 (thread_in RUNNING 6 2))) = Swtch u \<and>
     exit_tail 2 32 (scene 2 32 family (family_threads ((thread_in SLEEPING 4 1)\<lparr>chan := Some (ChProc 1)\<rparr>) thread0 (thread_in RUNNING 6 2))) = Swtch w \<and>
     tstate (ttable w ! 16) = RUNNABLE"
proof -
  let ?s = "scene 1 16 family (family_threads (thread_in RUNNING 4 1) thread0 (thread_in RUNNING 6 2))"
  let ?v = "scene 2 32 family (family_threads ((thread_in SLEEPING 4 1)\<lparr>chan := Some (ChProc 1)\<rparr>) thread0 (thread_in RUNNING 6 2))"
  have s: "caller 1 16 ?s" "length (procs ?s) = NPROC" "caller 2 32 ?v" "length (procs ?v) = NPROC"
    by (simp_all add: scene_caller family_simps NPROC_def)
  have v: "parent (procs ?v ! 2) = Some 1" "pstate (procs ?v ! 1) \<noteq> UNUSED" "1 < NPROC" "16 \<in> set (row (p_threads (procs ?v ! 1)))"
    "16 < length (ttable ?v)" "16 \<noteq> (32 :: nat)" "tstate (ttable ?v ! 16) = SLEEPING" "chan (ttable ?v ! 16) = Some (ChProc 1)"
    by (simp_all add: scene_caller family_simps row_def NTHREAD_def thread_in_def NPROC_def)
  have k: "\<exists>d < NPROC. parent (procs ?s ! d) = Some 1" "\<not> (\<exists>d < NPROC. parent (procs ?s ! d) = Some 1 \<and> pstate (procs ?s ! d) = ZOMBIE)"
    "\<not> killed (procs ?s ! 1)" "\<not> exitRequest (ttable ?s ! 16)"
    using family_zombie
    by (auto simp: scene_caller family_simps thread_in_def thread0_def proc0_def NPROC_def intro!: exI [of _ 2])
  show ?thesis using wait_misses_no_exit [OF s v] k by blast
qed

theorem join_misses_no_exit_witness:
  "\<exists>u w. kthread_join 5 (scene 1 16 family (family_threads (thread_in RUNNING 4 1) (thread_in TERMINATED 5 1) thread0)) = Ok 0 u \<and>
     kthread_exit (scene 1 17 family (family_threads ((thread_in SLEEPING 4 1)\<lparr>chan := Some (ChThread 17)\<rparr>) (thread_in RUNNING 5 1) thread0)) = Swtch w \<and>
     tstate (ttable w ! 16) = RUNNABLE"
proof -
  let ?s = "scene 1 16 family (family_threads (thread_in RUNNING 4 1) (thread_in TERMINATED 5 1) thread0)"
  let ?v = "scene 1 17 family (family_threads ((thread_in SLEEPING 4 1)\<lparr>chan := Some (ChThread 17)\<rparr>) (thread_in RUNNING 5 1) thread0)"
  have s: "caller 1 16 ?s" "17 \<in> set (row (p_threads (procs ?s ! 1)))" "17 < length (ttable ?s)" "tid (ttable ?s ! 17) = 5"
    "tid (ttable ?s ! 16) \<noteq> 5" "\<forall>y\<in>set (row (p_threads (procs ?s ! 1))). tid (ttable ?s ! y) = 5 \<longrightarrow> y = 17"
    "lock_free LkKmem ?s" "page_ok (kernel_end ?s) (kstack (ttable ?s ! 17))"
  proof -
    show "\<forall>y\<in>set (row (p_threads (procs ?s ! 1))). tid (ttable ?s ! y) = 5 \<longrightarrow> y = 17"
    proof (intro ballI impI)
      fix y assume y: "y \<in> set (row (p_threads (procs ?s ! 1)))" "tid (ttable ?s ! y) = 5"
      then have b: "16 \<le> y" "y < 32" by (simp_all add: scene_caller family_simps row_def NTHREAD_def del: upt_rec_numeral)
      have "tid (ttable ?s ! y) \<noteq> 5" if "y \<noteq> 17"
        using b that by (cases "y = 16") (simp_all add: scene_caller family_simps thread_in_def, simp add: thread0_def)
      then show "y = 17" using y(2) by blast
    qed
  qed (simp_all add: scene_caller family_simps row_def NTHREAD_def thread_in_def NPROC_def page_ok_def V2P_def KERNBASE_def PHYSTOP_def)
  have v: "caller 1 17 ?v" "tproc (ttable ?v ! 17) = Some 1" "\<not> last_running 17 (row (p_threads (procs ?v ! 1))) (ttable ?v)"
    "1 < length (procs ?v)" "pstate (procs ?v ! 1) \<noteq> UNUSED" "16 \<in> set (row (p_threads (procs ?v ! 1)))" "16 < length (ttable ?v)" "16 \<noteq> (17 :: nat)"
    "tstate (ttable ?v ! 16) = SLEEPING" "chan (ttable ?v ! 16) = Some (ChThread 17)"
    by (auto simp: scene_caller family_simps row_def NTHREAD_def thread_in_def NPROC_def last_running_def list_all_iff alive_def intro!: bexI [of _ 16])
  have "tstate (ttable ?s ! 17) = TERMINATED" by (simp add: scene_caller family_simps thread_in_def)
  then show ?thesis using join_misses_no_exit [OF s v] by blast
qed

theorem exit_returns_while_threads_live_witness:
  "\<exists>u. exit (scene 1 16 family (family_threads (thread_in RUNNING 4 1) (thread_in RUNNABLE 5 1) thread0)) = Ok () u \<and> exitRequest (ttable u ! 17)"
proof -
  let ?s = "scene 1 16 family (family_threads (thread_in RUNNING 4 1) (thread_in RUNNABLE 5 1) thread0)"
  have "caller 1 16 ?s" "initproc ?s \<noteq> Some 1" "\<forall>x\<in>set (row (p_threads (procs ?s ! 1))). x < length (ttable ?s)"
    "17 \<in> set (row (p_threads (procs ?s ! 1)))" "17 \<noteq> (16 :: nat)" "alive (ttable ?s ! 17)"
    by (simp_all add: scene_caller family_simps row_def NTHREAD_def thread_in_def NPROC_def alive_def)
  from exit_returns_while_threads_live [OF this] show ?thesis by blast
qed

theorem fork_child_inherits_witness:
  "\<exists>(s :: life) u. fork_finish 1 16 3 48 s = Ok 0 u \<and> ofile (procs u ! 3) = Some 7 # Some 7 # replicate 14 None \<and>
     f_ref (files s ! 7) = 2 \<and> f_ref (files u ! 7) = 4"
proof -
  let ?ps = "family[1 := (family ! 1)\<lparr>ofile := Some 7 # Some 7 # replicate 14 None, cwd := Some 5\<rparr>]"
  let ?s = "(scene 1 16 ?ps (family_threads (thread_in RUNNING 4 1) thread0 thread0))\<lparr>files := (replicate 100 file0)[7 := file0\<lparr>f_ref := 2\<rparr>]\<rparr>"
  have n3: "family ! 3 = proc0" by (simp add: family_def)
  have c: "caller 1 16 ?s"
    using scene_caller(1) [of 1 ?ps 16 "family_threads (thread_in RUNNING 4 1) thread0 thread0"]
    by (simp add: family_simps NPROC_def caller_def)
  have l: "lock_free LkFtable ?s" "lock_free LkIcache ?s" by (simp_all add: scene_caller)
  have a: "3 < length (procs ?s)" "(1 :: nat) \<noteq> 3" "48 < length (ttable ?s)" "48 \<noteq> (16 :: nat)" "ofile (procs ?s ! 3) = replicate NOFILE None"
    "length (ofile (procs ?s ! 1)) = NOFILE" "\<forall>f. Some f \<in> set (ofile (procs ?s ! 1)) \<longrightarrow> f < length (files ?s) \<and> 1 \<le> f_ref (files ?s ! f)"
    "cwd (procs ?s ! 1) = Some 5" "5 < length (inodes ?s)"
    by (simp_all add: scene_caller family_simps NPROC_def NOFILE_def n3 file0_def) (simp_all add: proc0_def NOFILE_def)
  from fork_child_inherits [OF c l a] obtain u where u: "fork_finish 1 16 3 48 ?s = Ok (pid (procs ?s ! 3)) u"
      "ofile (procs u ! 3) = ofile (procs ?s ! 1)" "\<forall>f < length (files ?s). f_ref (files u ! f) = f_ref (files ?s ! f) + shares (ofile (procs ?s ! 1)) f"
    by auto
  have "pid (procs ?s ! 3) = 0" "ofile (procs ?s ! 1) = Some 7 # Some 7 # replicate 14 None" "f_ref (files ?s ! 7) = 2" "7 < length (files ?s)"
    by (simp_all add: scene_caller family_simps NPROC_def n3) (simp add: proc0_def)
  then show ?thesis using u by (intro exI [of _ ?s] exI [of _ u]) (simp add: shares_def)
qed

end
