(* ===== verification/Exec.thy ===== *)
theory Exec
  imports Life
begin

unbundle bit_operations_syntax

text \<open>
  Replacing the program of a process (\<open>exec.c\<close>, \<open>elf.h\<close>, and \<open>loaduvm\<close> of \<open>vm.c\<close>).

  Headers read from the file are byte lists; the arguments are the bytes of the strings, which the
  system call has already found to be terminated.
\<close>

subsection \<open>Headers\<close>

definition ELF_MAGIC :: uint where "ELF_MAGIC = 0x464C457F"
definition ELF_PROG_LOAD :: uint where "ELF_PROG_LOAD = 1"
definition MAXARG :: nat where "MAXARG = 32"

definition elf_magic :: "uchar list \<Rightarrow> uint" where "elf_magic d = get32 d 0"
definition elf_entry :: "uchar list \<Rightarrow> uint" where "elf_entry d = get32 d 6"
definition elf_phoff :: "uchar list \<Rightarrow> uint" where "elf_phoff d = get32 d 7"
definition elf_phnum :: "uchar list \<Rightarrow> 16 word" where "elf_phnum d = get16 d 22"

definition ph_type :: "uchar list \<Rightarrow> uint" where "ph_type d = get32 d 0"
definition ph_off :: "uchar list \<Rightarrow> uint" where "ph_off d = get32 d 1"
definition ph_vaddr :: "uchar list \<Rightarrow> uint" where "ph_vaddr d = get32 d 2"
definition ph_filesz :: "uchar list \<Rightarrow> uint" where "ph_filesz d = get32 d 4"
definition ph_memsz :: "uchar list \<Rightarrow> uint" where "ph_memsz d = get32 d 5"

subsection \<open>Loading a segment\<close>

text \<open>The fuel is the number of pages of the address space.\<close>

fun loaduvm_loop :: "nat \<Rightarrow> uint \<Rightarrow> uint \<Rightarrow> nat \<Rightarrow> uint \<Rightarrow> uint \<Rightarrow> uint \<Rightarrow> ('m life_scheme, int) kop" where
  "loaduvm_loop 0 pd a ip off i len = kfault ''loaduvm''"
| "loaduvm_loop (Suc k) pd a ip off i len =
     (if i < len then
        kbind (walkpgdir pd (a + i) False) (\<lambda>pte.
        if pte = 0 then kpanic ''loaduvm: address should exist''
        else kbind (kget (\<lambda>s. PTE_ADDR (rd32 (mem s) pte))) (\<lambda>pa.
        let n = (if len - i < PGSIZE then len - i else PGSIZE) in
        kbind (readi devsw_read ip (KMem (P2V pa)) (off + i) n) (\<lambda>(r, _).
        if r \<noteq> sint n then kret (- 1)
        else loaduvm_loop k pd a ip off (i + PGSIZE) len)))
      else kret 0)"

definition loaduvm :: "uint \<Rightarrow> uint \<Rightarrow> nat \<Rightarrow> uint \<Rightarrow> uint \<Rightarrow> ('m life_scheme, int) kop" where
  "loaduvm pd a ip off len =
     (if unat a mod 4096 \<noteq> 0 then kpanic ''loaduvm: addr must be page aligned''
      else loaduvm_loop (2 ^ 20 + 1) pd a ip off 0 len)"

subsection \<open>Building the new image\<close>

text \<open>The segments; \<open>None\<close> is the jump to \<open>bad\<close>.\<close>

fun exec_load :: "nat \<Rightarrow> uint \<Rightarrow> uint \<Rightarrow> nat \<Rightarrow> uint \<Rightarrow> ('m life_scheme, uint option) kop" where
  "exec_load ip pd len 0 off = kret (Some len)"
| "exec_load ip pd len (Suc k) off =
     kbind (readi devsw_read ip (KLocal []) off 32) (\<lambda>(r, ph).
     if r \<noteq> 32 then kret None
     else if ph_type ph \<noteq> ELF_PROG_LOAD then exec_load ip pd len k (off + 32)
     else if ph_memsz ph < ph_filesz ph then kret None
     else if ph_vaddr ph + ph_memsz ph < ph_vaddr ph then kret None
     else
       kbind (allocuvm pd len (ph_vaddr ph + ph_memsz ph)) (\<lambda>len'.
       if len' = 0 then kret None
       else if unat (ph_vaddr ph) mod 4096 \<noteq> 0 then kret None
       else
         kbind (loaduvm pd (ph_vaddr ph) ip (ph_off ph) (ph_filesz ph)) (\<lambda>r.
         if r < 0 then kret None
         else exec_load ip pd len' k (off + 32))))"

text \<open>Pushing the argument strings; the result is the stack pointer and the addresses of the strings.\<close>

fun exec_args :: "uint \<Rightarrow> nat \<Rightarrow> uint \<Rightarrow> uchar list list \<Rightarrow> ('m life_scheme, (uint \<times> uint list) option) kop" where
  "exec_args pd argc sp [] = kret (Some (sp, []))"
| "exec_args pd argc sp (a # as) =
     (if argc \<ge> MAXARG then kret None
      else
        let sp' = (sp - of_nat (length a + 1)) AND NOT 3 in
        kbind (copyout pd sp' (a @ [0])) (\<lambda>r.
        if r < 0 then kret None
        else
          kbind (exec_args pd (Suc argc) sp' as) (\<lambda>q.
          kret (map_option (\<lambda>(top, ptrs). (top, sp' # ptrs)) q))))"

definition le32 :: "uint \<Rightarrow> uchar list" where
  "le32 w = [ucast w, ucast (drop_bit 8 w), ucast (drop_bit 16 w), ucast (drop_bit 24 w)]"

definition exec_ustack :: "uint \<Rightarrow> uint list \<Rightarrow> uint list" where
  "exec_ustack sp ptrs =
     (let argc = of_nat (length ptrs) in [0xffffffff, argc, sp - (argc + 1) * 4] @ ptrs @ [0])"

definition last_elem :: "uchar list \<Rightarrow> uchar list" where
  "last_elem path = rev (takeWhile (\<lambda>c. c \<noteq> slash) (rev path))"

definition exec_bad :: "uint \<Rightarrow> nat option \<Rightarrow> ('m life_scheme, int) kop" where
  "exec_bad pd ip0 =
     kseq (if pd \<noteq> 0 then freevm pd else kret ())
     (kseq (case ip0 of None \<Rightarrow> kret () | Some ip \<Rightarrow> kseq (iunlockput ip) end_op)
     (kret (- 1)))"

text \<open>After the file is closed: the stack, the arguments, and the commit to the new image.\<close>

definition exec_finish :: "nat \<Rightarrow> nat \<Rightarrow> uchar list \<Rightarrow> uchar list list \<Rightarrow> uint \<Rightarrow> uint \<Rightarrow> uint \<Rightarrow> ('m life_scheme, int) kop" where
  "exec_finish p t path argv start pd len =
     (let len = PGROUNDUP len in
     kbind (allocuvm pd len (len + 2 * PGSIZE)) (\<lambda>len.
     if len = 0 then exec_bad pd None else
     kseq (clearpteu pd (len - 2 * PGSIZE))
     (kbind (exec_args pd 0 len argv) (\<lambda>q.
     case q of None \<Rightarrow> exec_bad pd None | Some (sp, ptrs) \<Rightarrow>
     let ust = exec_ustack sp ptrs;
         sp = sp - of_nat (length ust) * 4 in
     kbind (copyout pd sp (concat (map le32 ust))) (\<lambda>r.
     if r < 0 then exec_bad pd None else
     kseq (kmod (upd_proc p (\<lambda>k. k\<lparr>pname := set_name (pname k) (last_elem path)\<rparr>)))
     (kbind (kget (\<lambda>s. pgdir (procs s ! p))) (\<lambda>oldpgdir.
     kseq (kmod (upd_proc p (\<lambda>k. k\<lparr>pgdir := pd\<rparr>)))
     (kseq (kmod (upd_proc p (\<lambda>k. k\<lparr>sz := len\<rparr>)))
     (kseq (kmod (upd_thread t (\<lambda>k. k\<lparr>tf := (tf k)\<lparr>tf_eip := start, tf_esp := sp\<rparr>\<rparr>)))
     (kseq (switchuvm (Some p))
     (kseq (freevm oldpgdir)
     (kret 0))))))))))))"

definition exec :: "symbols \<Rightarrow> uchar list \<Rightarrow> uchar list list \<Rightarrow> ('m life_scheme, int) kop" where
  "exec sy path argv =
     kbind myproc (\<lambda>p0.
     kbind mythread (\<lambda>t0.
     kbind (deref t0) (\<lambda>t.
     kbind (kget (\<lambda>s. exitRequest (ttable s ! t))) (\<lambda>e.
     if e then
       kseq kthread_exit
       (kret (- 1))
     else
     kseq (acquire LkPtable)
     (kbind (deref p0) (\<lambda>p.
     kbind (kget (\<lambda>s. p_threads (procs s ! p))) (\<lambda>b.
     kseq (request_exits t (row b))
     (kseq (release LkPtable)
     (kseq begin_op
     (kbind (namei devsw_read path) (\<lambda>ip0.
     case ip0 of
       None \<Rightarrow>
         kseq end_op
         (kseq (cprintf (chars ''exec: fail'' @ [10]) [])
         (kret (- 1)))
     | Some ip \<Rightarrow>
         kseq (ilock (Some ip))
         (kbind (readi devsw_read ip (KLocal []) 0 52) (\<lambda>(r, elf).
         if r \<noteq> 52 then exec_bad 0 (Some ip)
         else if elf_magic elf \<noteq> ELF_MAGIC then exec_bad 0 (Some ip)
         else
           kbind (setupkvm (sym_data sy)) (\<lambda>pd.
           if pd = 0 then exec_bad 0 (Some ip)
           else
             kbind (exec_load ip pd 0 (unat (elf_phnum elf)) (elf_phoff elf)) (\<lambda>q.
             case q of
               None \<Rightarrow> exec_bad pd (Some ip)
             | Some len \<Rightarrow>
                 kseq (iunlockput ip)
                 (kseq end_op
                 (exec_finish p t path argv (elf_entry elf) pd len)))))))))))))))))"

end
