(* ===== verification/Syscall.thy ===== *)
theory Syscall
  imports Exec Mutex
begin

unbundle bit_operations_syntax

text \<open>
  System calls: fetching arguments from user memory (\<open>syscall.c\<close>), the calls on processes
  (\<open>sysproc.c\<close>) and on files (\<open>sysfile.c\<close>), the dispatcher, and the trap handler (\<open>trap.c\<close>)
  with its clock.

  An operation of C that returns \<open>-1\<close> or stores its result through a pointer returns an option here.
  A call that blocks deep inside ends when it gives up the processor, as everywhere in the model.
\<close>

subsection \<open>State\<close>

record kernel = life +
  ticks :: uint

lemma ticks_frame [simp]:
  "ticks (push s) = ticks s"
  "ticks (pop s) = ticks s"
  "ticks (settle s) = ticks s"
  "ticks (acq lk s) = ticks s"
  "ticks (rel lk s) = ticks s"
  "ticks (upd_cpu c g s) = ticks s"
  "ticks (upd_cur g s) = ticks s"
  "ticks (upd_lock lk h s) = ticks s"
  "ticks (upd_thread t k s) = ticks s"
  "ticks (upd_proc p q s) = ticks s"
  "ticks (run_on c s) = ticks s"
  "settle (s\<lparr>ticks := x\<rparr>) = (settle s)\<lparr>ticks := x\<rparr>"
  "acq lk (s\<lparr>ticks := x\<rparr>) = (acq lk s)\<lparr>ticks := x\<rparr>"
  "rel lk (s\<lparr>ticks := x\<rparr>) = (rel lk s)\<lparr>ticks := x\<rparr>"
  "upd_cpu c g (s\<lparr>ticks := x\<rparr>) = (upd_cpu c g s)\<lparr>ticks := x\<rparr>"
  "upd_cur g (s\<lparr>ticks := x\<rparr>) = (upd_cur g s)\<lparr>ticks := x\<rparr>"
  "upd_lock lk h (s\<lparr>ticks := x\<rparr>) = (upd_lock lk h s)\<lparr>ticks := x\<rparr>"
  "upd_thread t k (s\<lparr>ticks := x\<rparr>) = (upd_thread t k s)\<lparr>ticks := x\<rparr>"
  "upd_proc p q (s\<lparr>ticks := x\<rparr>) = (upd_proc p q s)\<lparr>ticks := x\<rparr>"
  "run_on c (s\<lparr>ticks := x\<rparr>) = (run_on c s)\<lparr>ticks := x\<rparr>"
  "this_cpu (s\<lparr>ticks := x\<rparr>) = this_cpu s"
  "cur (s\<lparr>ticks := x\<rparr>) = cur s"
  "cpu_inv (s\<lparr>ticks := x\<rparr>) = cpu_inv s"
  "in_cs (s\<lparr>ticks := x\<rparr>) = in_cs s"
  "lock_free lk (s\<lparr>ticks := x\<rparr>) = lock_free lk s"
  "lock_held lk (s\<lparr>ticks := x\<rparr>) = lock_held lk s"
  "calm (s\<lparr>ticks := x\<rparr>) = calm s"
  "runs (s\<lparr>ticks := x\<rparr>) = runs s"
  by (simp_all add: frame_ext_defs)

subsection \<open>Arguments\<close>

definition user_byte_at :: "'m kmem_scheme \<Rightarrow> uint \<Rightarrow> uchar" where
  "user_byte_at s a = mem s (vaddr s a)"

definition user_word_at :: "'m kmem_scheme \<Rightarrow> uint \<Rightarrow> uint" where
  "user_word_at s a = word_rcat [user_byte_at s (a + 3), user_byte_at s (a + 2), user_byte_at s (a + 1), user_byte_at s a]"

definition my_sz :: "('m kernel_scheme, uint) kop" where
  "my_sz = kbind myproc (\<lambda>p0. kbind (deref p0) (\<lambda>p. kget (\<lambda>s. sz (procs s ! p))))"

definition fetchint :: "uint \<Rightarrow> ('m kernel_scheme, uint option) kop" where
  "fetchint a =
     kbind my_sz (\<lambda>z.
     if a \<ge> z \<or> a + 4 > z then kret None
     else kget (\<lambda>s. Some (user_word_at s a)))"

text \<open>The result is the string without its terminator; its length is what the C function returns.\<close>

definition fetchstr :: "uint \<Rightarrow> ('m kernel_scheme, uchar list option) kop" where
  "fetchstr a =
     kbind my_sz (\<lambda>z.
     if a \<ge> z then kret None
     else
       kget (\<lambda>s. case find (\<lambda>i. user_byte_at s (a + of_nat i) = 0) [0 ..< unat (z - a)] of
         Some n \<Rightarrow> Some (map (\<lambda>i. user_byte_at s (a + of_nat i)) [0 ..< n])
       | None \<Rightarrow> None))"

definition argint :: "nat \<Rightarrow> ('m kernel_scheme, uint option) kop" where
  "argint n =
     kbind mythread (\<lambda>t0. kbind (deref t0) (\<lambda>t.
     kbind (kget (\<lambda>s. tf_esp (tf (ttable s ! t)))) (\<lambda>esp.
     fetchint (esp + 4 + 4 * of_nat n))))"

definition argptr :: "nat \<Rightarrow> int \<Rightarrow> ('m kernel_scheme, uint option) kop" where
  "argptr n len =
     kbind my_sz (\<lambda>z.
     kbind (argint n) (\<lambda>q.
     case q of None \<Rightarrow> kret None | Some i \<Rightarrow>
     if len < 0 \<or> i \<ge> z \<or> i + word_of_int len > z then kret None
     else kret (Some i)))"

definition argstr :: "nat \<Rightarrow> ('m kernel_scheme, uchar list option) kop" where
  "argstr n = kbind (argint n) (\<lambda>q. case q of None \<Rightarrow> kret None | Some a \<Rightarrow> fetchstr a)"

subsection \<open>Processes\<close>

definition sys_fork :: "symbols \<Rightarrow> ('m kernel_scheme, int) kop" where
  "sys_fork sy = fork sy"

definition sys_exit :: "('m kernel_scheme, int) kop" where
  "sys_exit = kseq exit (kret 0)"

definition sys_wait :: "('m kernel_scheme, int) kop" where
  "sys_wait = wait"

definition with_int :: "nat \<Rightarrow> (int \<Rightarrow> ('m kernel_scheme, int) kop) \<Rightarrow> ('m kernel_scheme, int) kop" where
  "with_int n f = kbind (argint n) (\<lambda>q. case q of None \<Rightarrow> kret (- 1) | Some x \<Rightarrow> f (sint x))"

definition sys_kill :: "('m kernel_scheme, int) kop" where
  "sys_kill = with_int 0 kill"

definition sys_getpid :: "('m kernel_scheme, int) kop" where
  "sys_getpid = kbind myproc (\<lambda>p0. kbind (deref p0) (\<lambda>p. kget (\<lambda>s. pid (procs s ! p))))"

definition sys_sbrk :: "('m kernel_scheme, int) kop" where
  "sys_sbrk = with_int 0 (\<lambda>n.
     kbind my_sz (\<lambda>addr.
     kbind (growproc n) (\<lambda>r.
     if r < 0 then kret (- 1) else kret (sint addr))))"

text \<open>The comparison of the elapsed ticks with the argument is unsigned.\<close>

definition sleep_ticks_loop :: "uint \<Rightarrow> uint \<Rightarrow> ('m kernel_scheme, int) kop" where
  "sleep_ticks_loop n ticks0 =
     kbind (kget ticks) (\<lambda>now.
     if now - ticks0 < n then
       kbind my_killed (\<lambda>k.
       kbind (if k then kret True else kbind mythread (\<lambda>t0. kbind (deref t0) (\<lambda>t. kget (\<lambda>s. exitRequest (ttable s ! t))))) (\<lambda>stop.
       if stop then
         kseq (release LkTicks)
         (kret (- 1))
       else
         kseq (sleep ChTicks (Some LkTicks))
         (kret 0)))
     else
       kseq (release LkTicks)
       (kret 0))"

definition sys_sleep :: "('m kernel_scheme, int) kop" where
  "sys_sleep =
     kbind (argint 0) (\<lambda>q. case q of None \<Rightarrow> kret (- 1) | Some n \<Rightarrow>
     kseq (acquire LkTicks)
     (kbind (kget ticks) (\<lambda>ticks0.
     sleep_ticks_loop n ticks0)))"

definition sys_sleep_resume :: "uint \<Rightarrow> uint \<Rightarrow> ('m kernel_scheme, int) kop" where
  "sys_sleep_resume n ticks0 = kseq (sleep_resume LkTicks) (sleep_ticks_loop n ticks0)"

definition sys_uptime :: "('m kernel_scheme, int) kop" where
  "sys_uptime =
     kseq (acquire LkTicks)
     (kbind (kget ticks) (\<lambda>xticks.
     kseq (release LkTicks)
     (kret (sint xticks))))"

definition sys_kthread_exit :: "('m kernel_scheme, int) kop" where
  "sys_kthread_exit = kseq kthread_exit (kret 0)"

definition sys_kthread_create :: "symbols \<Rightarrow> ('m kernel_scheme, int) kop" where
  "sys_kthread_create sy =
     kbind (argptr 0 4) (\<lambda>f. case f of None \<Rightarrow> kret (- 1) | Some start_func \<Rightarrow>
     kbind (argptr 1 4) (\<lambda>k. case k of None \<Rightarrow> kret (- 1) | Some stack \<Rightarrow>
     kthread_create sy start_func stack))"

definition sys_kthread_id :: "('m kernel_scheme, int) kop" where
  "sys_kthread_id = kthread_id"

definition sys_kthread_join :: "('m kernel_scheme, int) kop" where
  "sys_kthread_join = with_int 0 kthread_join"

definition sys_kthread_mutex_alloc :: "('m kernel_scheme, int) kop" where
  "sys_kthread_mutex_alloc = kthread_mutex_alloc"

definition sys_kthread_mutex_dealloc :: "('m kernel_scheme, int) kop" where
  "sys_kthread_mutex_dealloc = with_int 0 kthread_mutex_dealloc"

definition sys_kthread_mutex_lock :: "('m kernel_scheme, int) kop" where
  "sys_kthread_mutex_lock = with_int 0 kthread_mutex_lock"

definition sys_kthread_mutex_unlock :: "('m kernel_scheme, int) kop" where
  "sys_kthread_mutex_unlock = with_int 0 kthread_mutex_unlock"

subsection \<open>File descriptors\<close>

text \<open>The descriptor and the file behind it.\<close>

definition argfd :: "nat \<Rightarrow> ('m kernel_scheme, (nat \<times> nat) option) kop" where
  "argfd n =
     kbind (argint n) (\<lambda>q. case q of None \<Rightarrow> kret None | Some x \<Rightarrow>
     if sint x < 0 \<or> sint x \<ge> int NOFILE then kret None else
     kbind myproc (\<lambda>p0. kbind (deref p0) (\<lambda>p.
     kbind (kget (\<lambda>s. ofile (procs s ! p) ! nat (sint x))) (\<lambda>f0.
     case f0 of None \<Rightarrow> kret None | Some f \<Rightarrow> kret (Some (nat (sint x), f))))))"

definition fdalloc :: "nat \<Rightarrow> ('m kernel_scheme, nat option) kop" where
  "fdalloc f =
     kbind myproc (\<lambda>p0. kbind (deref p0) (\<lambda>p.
     kbind (kget (\<lambda>s. find (\<lambda>fd. ofile (procs s ! p) ! fd = None) [0 ..< NOFILE])) (\<lambda>r.
     case r of None \<Rightarrow> kret None | Some fd \<Rightarrow>
     kseq (kmod (upd_proc p (\<lambda>k. k\<lparr>ofile := (ofile k)[fd := Some f]\<rparr>)))
     (kret (Some fd)))))"

definition clear_fd :: "nat \<Rightarrow> ('m kernel_scheme, unit) kop" where
  "clear_fd fd = kbind myproc (\<lambda>p0. kbind (deref p0) (\<lambda>p.
     kmod (upd_proc p (\<lambda>k. k\<lparr>ofile := (ofile k)[fd := None]\<rparr>))))"

definition sys_dup :: "('m kernel_scheme, int) kop" where
  "sys_dup =
     kbind (argfd 0) (\<lambda>q. case q of None \<Rightarrow> kret (- 1) | Some (_, f) \<Rightarrow>
     kbind (fdalloc f) (\<lambda>r. case r of None \<Rightarrow> kret (- 1) | Some fd \<Rightarrow>
     kseq (filedup f)
     (kret (int fd))))"

definition with_buf :: "(nat \<Rightarrow> uint \<Rightarrow> int \<Rightarrow> ('m kernel_scheme, int) kop) \<Rightarrow> ('m kernel_scheme, int) kop" where
  "with_buf g =
     kbind (argfd 0) (\<lambda>q. case q of None \<Rightarrow> kret (- 1) | Some (_, f) \<Rightarrow>
     kbind (argint 2) (\<lambda>q. case q of None \<Rightarrow> kret (- 1) | Some n \<Rightarrow>
     kbind (argptr 1 (sint n)) (\<lambda>q. case q of None \<Rightarrow> kret (- 1) | Some p \<Rightarrow>
     g f p (sint n))))"

definition sys_read :: "('m kernel_scheme, int) kop" where
  "sys_read = with_buf (fileread devsw_read)"

definition sys_write :: "('m kernel_scheme, int) kop" where
  "sys_write = with_buf (filewrite devsw_write)"

definition sys_close :: "('m kernel_scheme, int) kop" where
  "sys_close =
     kbind (argfd 0) (\<lambda>q. case q of None \<Rightarrow> kret (- 1) | Some (fd, f) \<Rightarrow>
     kseq (clear_fd fd)
     (kseq (fileclose f)
     (kret 0)))"

text \<open>The fields of \<open>struct stat\<close> at their offsets; the padding is left alone.\<close>

definition store_stat :: "uint \<Rightarrow> stat \<Rightarrow> ('m kernel_scheme, unit) kop" where
  "store_stat a st =
     kseq (store_bytes (KMem a) 0 (take 2 (le32 (ucast (st_type st)))))
     (kseq (store_bytes (KMem a) 4 (le32 (st_dev st)))
     (kseq (store_bytes (KMem a) 8 (le32 (st_ino st)))
     (kseq (store_bytes (KMem a) 12 (take 2 (le32 (ucast (st_nlink st)))))
     (store_bytes (KMem a) 16 (le32 (st_size st))))))"

definition sys_fstat :: "('m kernel_scheme, int) kop" where
  "sys_fstat =
     kbind (argfd 0) (\<lambda>q. case q of None \<Rightarrow> kret (- 1) | Some (_, f) \<Rightarrow>
     kbind (argptr 1 20) (\<lambda>q. case q of None \<Rightarrow> kret (- 1) | Some a \<Rightarrow>
     kbind (filestat f) (\<lambda>r. case r of None \<Rightarrow> kret (- 1) | Some st \<Rightarrow>
     kseq (store_stat a st)
     (kret 0))))"

subsection \<open>Directory operations\<close>

text \<open>The name buffer on the kernel stack; what it holds at first does not matter.\<close>

definition fresh_name :: "uchar list" where "fresh_name = replicate DIRSIZ 0"

definition sys_link_bad :: "nat \<Rightarrow> ('m kernel_scheme, int) kop" where
  "sys_link_bad ip =
     kseq (ilock (Some ip))
     (kseq (kmod (upd_inode ip (\<lambda>x. x\<lparr>inlink := inlink x - 1\<rparr>)))
     (kseq (iupdate ip)
     (kseq (iunlockput ip)
     (kseq end_op
     (kret (- 1))))))"

definition sys_link :: "('m kernel_scheme, int) kop" where
  "sys_link =
     kbind (argstr 0) (\<lambda>q. case q of None \<Rightarrow> kret (- 1) | Some old \<Rightarrow>
     kbind (argstr 1) (\<lambda>q. case q of None \<Rightarrow> kret (- 1) | Some new \<Rightarrow>
     kseq begin_op
     (kbind (namei devsw_read old) (\<lambda>ip0.
     case ip0 of None \<Rightarrow> kseq end_op (kret (- 1)) | Some ip \<Rightarrow>
     kseq (ilock (Some ip))
     (kbind (kget (\<lambda>s. itype (inodes s ! ip))) (\<lambda>ty.
     if ty = T_DIR then
       kseq (iunlockput ip)
       (kseq end_op
       (kret (- 1)))
     else
       kseq (kmod (upd_inode ip (\<lambda>x. x\<lparr>inlink := inlink x + 1\<rparr>)))
       (kseq (iupdate ip)
       (kseq (iunlock (Some ip))
       (kbind (nameiparent devsw_read new fresh_name) (\<lambda>(dp0, name).
       case dp0 of None \<Rightarrow> sys_link_bad ip | Some dp \<Rightarrow>
       kseq (ilock (Some dp))
       (kbind (kget (\<lambda>s. (i_dev (inodes s ! dp), inodes s ! ip))) (\<lambda>(dd, x).
       kbind (if dd \<noteq> i_dev x then kret (- 1) else dirlink devsw_read devsw_write dp name (inum x)) (\<lambda>r.
       if r < 0 then
         kseq (iunlockput dp)
         (sys_link_bad ip)
       else
         kseq (iunlockput dp)
         (kseq (iput ip)
         (kseq end_op
         (kret 0))))))))))))))))"

definition entry_offsets :: "uint \<Rightarrow> nat list" where
  "entry_offsets len = drop 2 (dir_offsets len)"

fun isdirempty_loop :: "nat \<Rightarrow> nat list \<Rightarrow> ('m kernel_scheme, bool) kop" where
  "isdirempty_loop dp [] = kret True"
| "isdirempty_loop dp (off # offs) =
     kbind (readi devsw_read dp (KLocal []) (of_nat off) 16) (\<lambda>(r, de).
     if r \<noteq> 16 then kpanic ''isdirempty: readi''
     else if dirent_inum de \<noteq> 0 then kret False
     else isdirempty_loop dp offs)"

definition isdirempty :: "nat \<Rightarrow> ('m kernel_scheme, bool) kop" where
  "isdirempty dp = kbind (kget (\<lambda>s. isize (inodes s ! dp))) (\<lambda>len. isdirempty_loop dp (entry_offsets len))"

definition sys_unlink_bad :: "nat \<Rightarrow> ('m kernel_scheme, int) kop" where
  "sys_unlink_bad dp = kseq (iunlockput dp) (kseq end_op (kret (- 1)))"

definition sys_unlink :: "('m kernel_scheme, int) kop" where
  "sys_unlink =
     kbind (argstr 0) (\<lambda>q. case q of None \<Rightarrow> kret (- 1) | Some path \<Rightarrow>
     kseq begin_op
     (kbind (nameiparent devsw_read path fresh_name) (\<lambda>(dp0, name).
     case dp0 of None \<Rightarrow> kseq end_op (kret (- 1)) | Some dp \<Rightarrow>
     kseq (ilock (Some dp))
     (if namecmp name (chars ''.'' @ [0]) = 0 \<or> namecmp name (chars ''..'' @ [0]) = 0 then sys_unlink_bad dp
     else
       kbind (dirlookup devsw_read dp name) (\<lambda>q.
       case q of None \<Rightarrow> sys_unlink_bad dp | Some (ip, off) \<Rightarrow>
       kseq (ilock (Some ip))
       (kbind (kget (\<lambda>s. inodes s ! ip)) (\<lambda>x.
       if sint (inlink x) < 1 then kpanic ''unlink: nlink < 1''
       else
         kbind (if itype x = T_DIR then kbind (isdirempty ip) (\<lambda>e. kret (\<not> e)) else kret False) (\<lambda>full.
         if full then
           kseq (iunlockput ip)
           (sys_unlink_bad dp)
         else
           kbind (writei devsw_write dp (KLocal (replicate 16 0)) (of_nat off) 16) (\<lambda>w.
           if w \<noteq> 16 then kpanic ''unlink: writei''
           else
             kseq (if itype x = T_DIR then
                 kseq (kmod (upd_inode dp (\<lambda>x. x\<lparr>inlink := inlink x - 1\<rparr>)))
                 (iupdate dp)
               else kret ())
             (kseq (iunlockput dp)
             (kseq (kmod (upd_inode ip (\<lambda>x. x\<lparr>inlink := inlink x - 1\<rparr>)))
             (kseq (iupdate ip)
             (kseq (iunlockput ip)
             (kseq end_op
             (kret 0)))))))))))))))"

definition create :: "uchar list \<Rightarrow> 16 word \<Rightarrow> 16 word \<Rightarrow> 16 word \<Rightarrow> ('m kernel_scheme, nat option) kop" where
  "create path ty major minor =
     kbind (nameiparent devsw_read path fresh_name) (\<lambda>(dp0, name).
     case dp0 of None \<Rightarrow> kret None | Some dp \<Rightarrow>
     kseq (ilock (Some dp))
     (kbind (dirlookup devsw_read dp name) (\<lambda>q.
     case q of
       Some (ip, _) \<Rightarrow>
         kseq (iunlockput dp)
         (kseq (ilock (Some ip))
         (kbind (kget (\<lambda>s. itype (inodes s ! ip))) (\<lambda>t.
         if ty = T_FILE \<and> t = T_FILE then kret (Some ip)
         else kseq (iunlockput ip) (kret None))))
     | None \<Rightarrow>
         kbind (kget (\<lambda>s. i_dev (inodes s ! dp))) (\<lambda>d.
         kbind (ialloc d ty) (\<lambda>ip.
         kseq (ilock (Some ip))
         (kseq (kmod (upd_inode ip (\<lambda>x. x\<lparr>imajor := major, iminor := minor, inlink := 1\<rparr>)))
         (kseq (iupdate ip)
         (kseq (if ty = T_DIR then
             kseq (kmod (upd_inode dp (\<lambda>x. x\<lparr>inlink := inlink x + 1\<rparr>)))
             (kseq (iupdate dp)
             (kbind (kget (\<lambda>s. (inum (inodes s ! ip), inum (inodes s ! dp)))) (\<lambda>(i, d).
             kbind (dirlink devsw_read devsw_write ip (chars ''.'' @ [0]) i) (\<lambda>r1.
             kbind (if r1 < 0 then kret r1 else dirlink devsw_read devsw_write ip (chars ''..'' @ [0]) d) (\<lambda>r2.
             if r2 < 0 then kpanic ''create dots'' else kret ())))))
           else kret ())
         (kbind (kget (\<lambda>s. inum (inodes s ! ip))) (\<lambda>i.
         kbind (dirlink devsw_read devsw_write dp name i) (\<lambda>r.
         if r < 0 then kpanic ''create: dirlink''
         else
           kseq (iunlockput dp)
           (kret (Some ip)))))))))))))"

definition O_RDONLY :: uint where "O_RDONLY = 0"
definition O_WRONLY :: uint where "O_WRONLY = 1"
definition O_RDWR :: uint where "O_RDWR = 2"
definition O_CREATE :: uint where "O_CREATE = 0x200"

text \<open>The inode to open, locked, or \<open>None\<close> after the transaction has been ended.\<close>

definition open_inode :: "uchar list \<Rightarrow> uint \<Rightarrow> ('m kernel_scheme, nat option) kop" where
  "open_inode path omode =
     (if omode AND O_CREATE \<noteq> 0 then
        kbind (create path T_FILE 0 0) (\<lambda>ip0.
        case ip0 of None \<Rightarrow> kseq end_op (kret None) | Some ip \<Rightarrow> kret (Some ip))
      else
        kbind (namei devsw_read path) (\<lambda>ip0.
        case ip0 of None \<Rightarrow> kseq end_op (kret None) | Some ip \<Rightarrow>
        kseq (ilock (Some ip))
        (kbind (kget (\<lambda>s. itype (inodes s ! ip))) (\<lambda>t.
        if t = T_DIR \<and> omode \<noteq> O_RDONLY then
          kseq (iunlockput ip)
          (kseq end_op
          (kret None))
        else kret (Some ip)))))"

definition open_file :: "nat \<Rightarrow> uint \<Rightarrow> ('m kernel_scheme, int) kop" where
  "open_file ip omode =
     kbind filealloc (\<lambda>f0.
     kbind (case f0 of None \<Rightarrow> kret None | Some f \<Rightarrow> fdalloc f) (\<lambda>fd0.
     case fd0 of
       None \<Rightarrow>
         kseq (case f0 of None \<Rightarrow> kret () | Some f \<Rightarrow> fileclose f)
         (kseq (iunlockput ip)
         (kseq end_op
         (kret (- 1))))
     | Some fd \<Rightarrow>
         kbind (deref f0) (\<lambda>f.
         kseq (iunlock (Some ip))
         (kseq end_op
         (kseq (kmod (upd_file f (\<lambda>x. x\<lparr>ftype := FD_INODE, f_ip := Some ip, f_off := 0,
            readable := (omode AND O_WRONLY = 0), writable := (omode AND O_WRONLY \<noteq> 0 \<or> omode AND O_RDWR \<noteq> 0)\<rparr>)))
         (kret (int fd)))))))"

definition sys_open :: "('m kernel_scheme, int) kop" where
  "sys_open =
     kbind (argstr 0) (\<lambda>q. case q of None \<Rightarrow> kret (- 1) | Some path \<Rightarrow>
     kbind (argint 1) (\<lambda>q. case q of None \<Rightarrow> kret (- 1) | Some omode \<Rightarrow>
     kseq begin_op
     (kbind (open_inode path omode) (\<lambda>ip0.
     case ip0 of None \<Rightarrow> kret (- 1) | Some ip \<Rightarrow> open_file ip omode))))"

definition make_node :: "uint option \<Rightarrow> uint option \<Rightarrow> uchar list option \<Rightarrow> 16 word \<Rightarrow> ('m kernel_scheme, int) kop" where
  "make_node major minor path0 ty =
     kbind (case (path0, major, minor) of
         (Some path, Some a, Some b) \<Rightarrow> create path ty (ucast a) (ucast b)
       | _ \<Rightarrow> kret None) (\<lambda>ip0.
     case ip0 of
       None \<Rightarrow> kseq end_op (kret (- 1))
     | Some ip \<Rightarrow>
         kseq (iunlockput ip)
         (kseq end_op
         (kret 0)))"

definition sys_mkdir :: "('m kernel_scheme, int) kop" where
  "sys_mkdir =
     kseq begin_op
     (kbind (argstr 0) (\<lambda>path0.
     make_node (Some 0) (Some 0) path0 T_DIR))"

definition sys_mknod :: "('m kernel_scheme, int) kop" where
  "sys_mknod =
     kseq begin_op
     (kbind (argstr 0) (\<lambda>path0.
     kbind (case path0 of None \<Rightarrow> kret None | Some _ \<Rightarrow> argint 1) (\<lambda>major.
     kbind (case major of None \<Rightarrow> kret None | Some _ \<Rightarrow> argint 2) (\<lambda>minor.
     make_node major minor path0 T_DEV))))"

definition sys_chdir :: "('m kernel_scheme, int) kop" where
  "sys_chdir =
     kbind myproc (\<lambda>p0.
     kseq begin_op
     (kbind (argstr 0) (\<lambda>path0.
     kbind (case path0 of None \<Rightarrow> kret None | Some path \<Rightarrow> namei devsw_read path) (\<lambda>ip0.
     case ip0 of None \<Rightarrow> kseq end_op (kret (- 1)) | Some ip \<Rightarrow>
     kseq (ilock (Some ip))
     (kbind (kget (\<lambda>s. itype (inodes s ! ip))) (\<lambda>t.
     if t \<noteq> T_DIR then
       kseq (iunlockput ip)
       (kseq end_op
       (kret (- 1)))
     else
       kseq (iunlock (Some ip))
       (kbind (deref p0) (\<lambda>p.
       kbind (kget (\<lambda>s. cwd (procs s ! p))) (\<lambda>c0.
       kbind (deref c0) (\<lambda>c.
       kseq (iput c)
       (kseq end_op
       (kseq (kmod (upd_proc p (\<lambda>k. k\<lparr>cwd := Some ip\<rparr>)))
       (kret 0)))))))))))) )"

text \<open>The argument vector: at most \<open>MAXARG\<close> pointers, the last one null.\<close>

fun fetch_argv :: "nat \<Rightarrow> uint \<Rightarrow> ('m kernel_scheme, uchar list list option) kop" where
  "fetch_argv 0 a = kret None"
| "fetch_argv (Suc k) a =
     kbind (fetchint a) (\<lambda>q. case q of None \<Rightarrow> kret None | Some uarg \<Rightarrow>
     if uarg = 0 then kret (Some [])
     else
       kbind (fetchstr uarg) (\<lambda>q. case q of None \<Rightarrow> kret None | Some str \<Rightarrow>
       kbind (fetch_argv k (a + 4)) (\<lambda>r.
       kret (map_option (\<lambda>rest. str # rest) r))))"

definition sys_exec :: "symbols \<Rightarrow> ('m kernel_scheme, int) kop" where
  "sys_exec sy =
     kbind (argstr 0) (\<lambda>q. case q of None \<Rightarrow> kret (- 1) | Some path \<Rightarrow>
     kbind (argint 1) (\<lambda>q. case q of None \<Rightarrow> kret (- 1) | Some uargv \<Rightarrow>
     kbind (fetch_argv MAXARG uargv) (\<lambda>r.
     case r of None \<Rightarrow> kret (- 1) | Some argv \<Rightarrow> exec sy path argv)))"

definition sys_pipe :: "('m kernel_scheme, int) kop" where
  "sys_pipe =
     kbind (argptr 0 8) (\<lambda>q. case q of None \<Rightarrow> kret (- 1) | Some fd \<Rightarrow>
     kbind pipealloc (\<lambda>q. case q of None \<Rightarrow> kret (- 1) | Some (r, w) \<Rightarrow>
     kbind (fdalloc r) (\<lambda>fd0.
     kbind (case fd0 of None \<Rightarrow> kret None | Some _ \<Rightarrow> fdalloc w) (\<lambda>fd1.
     case (fd0, fd1) of
       (Some a, Some b) \<Rightarrow>
         kseq (store_bytes (KMem fd) 0 (le32 (of_nat a)))
         (kseq (store_bytes (KMem fd) 4 (le32 (of_nat b)))
         (kret 0))
     | _ \<Rightarrow>
         kseq (case fd0 of None \<Rightarrow> kret () | Some a \<Rightarrow> clear_fd a)
         (kseq (fileclose r)
         (kseq (fileclose w)
         (kret (- 1))))))))"

subsection \<open>The dispatcher\<close>

definition syscalls :: "symbols \<Rightarrow> int \<Rightarrow> ('m kernel_scheme, int) kop option" where
  "syscalls sy num = map_of
     [(1, sys_fork sy), (2, sys_exit), (3, sys_wait), (4, sys_pipe), (5, sys_read), (6, sys_kill), (7, sys_exec sy),
      (8, sys_fstat), (9, sys_chdir), (10, sys_dup), (11, sys_getpid), (12, sys_sbrk), (13, sys_sleep), (14, sys_uptime),
      (15, sys_open), (16, sys_write), (17, sys_mknod), (18, sys_unlink), (19, sys_link), (20, sys_mkdir), (21, sys_close),
      (24, sys_kthread_exit), (25, sys_kthread_join), (22, sys_kthread_create sy), (23, sys_kthread_id),
      (26, sys_kthread_mutex_alloc), (27, sys_kthread_mutex_dealloc), (28, sys_kthread_mutex_lock), (29, sys_kthread_mutex_unlock)] num"

definition syscall :: "symbols \<Rightarrow> ('m kernel_scheme, unit) kop" where
  "syscall sy =
     kbind myproc (\<lambda>p0.
     kbind mythread (\<lambda>t0.
     kbind (deref t0) (\<lambda>t.
     kbind (kget (\<lambda>s. sint (tf_eax (tf (ttable s ! t))))) (\<lambda>num.
     case syscalls sy num of
       Some f \<Rightarrow>
         kbind f (\<lambda>r.
         kmod (upd_thread t (\<lambda>k. k\<lparr>tf := (tf k)\<lparr>tf_eax := word_of_int r\<rparr>\<rparr>)))
     | None \<Rightarrow>
         kbind (deref p0) (\<lambda>p.
         kbind (kget (\<lambda>s. procs s ! p)) (\<lambda>k.
         kseq (cprintf (chars ''%d %s: unknown sys call %d'' @ [10]) [ANum (word_of_int (pid k)), AStr (pname k), ANum (word_of_int num)])
         (kmod (upd_thread t (\<lambda>k. k\<lparr>tf := (tf k)\<lparr>tf_eax := - 1\<rparr>\<rparr>)))))))))"

subsection \<open>Traps\<close>

definition T_SYSCALL :: uint where "T_SYSCALL = 64"
definition T_IRQ0 :: uint where "T_IRQ0 = 32"
definition DPL_USER :: uint where "DPL_USER = 3"

definition check_exit :: "('m kernel_scheme, unit) kop" where
  "check_exit =
     kbind mythread (\<lambda>t0. kbind (deref t0) (\<lambda>t.
     kbind (kget (\<lambda>s. exitRequest (ttable s ! t))) (\<lambda>e.
     kseq (if e then kthread_exit else kret ())
     (kbind my_killed (\<lambda>k.
     if k then exit else kret ())))))"

text \<open>The same check on the way out of an interrupt, which may have come when no thread was running.\<close>

definition check_exit_user :: "trapframe \<Rightarrow> ('m kernel_scheme, unit) kop" where
  "check_exit_user f =
     kbind mythread (\<lambda>t0.
     kbind (case t0 of None \<Rightarrow> kret False | Some t \<Rightarrow> kget (\<lambda>s. exitRequest (ttable s ! t))) (\<lambda>e.
     kseq (if e \<and> tf_cs f AND 3 = DPL_USER then kthread_exit else kret ())
     (kbind myproc (\<lambda>p0.
     kbind (case p0 of None \<Rightarrow> kret False | Some p \<Rightarrow> kget (\<lambda>s. killed (procs s ! p))) (\<lambda>k.
     if k \<and> tf_cs f AND 3 = DPL_USER then exit else kret ())))))"

definition clock_tick :: "('m kernel_scheme, unit) kop" where
  "clock_tick =
     kbind cpuid (\<lambda>c.
     if c = 0 then
       kseq (acquire LkTicks)
       (kseq (kmod (\<lambda>s. s\<lparr>ticks := ticks s + 1\<rparr>))
       (kseq (wakeup (Some ChTicks))
       (release LkTicks)))
     else kret ())"

definition wake_own :: "nat list \<Rightarrow> kthread list \<Rightarrow> kthread list" where
  "wake_own ts tt = fold (\<lambda>t tt. if tstate (tt ! t) = SLEEPING then tt[t := (tt ! t)\<lparr>tstate := RUNNABLE\<rparr>] else tt) ts tt"

definition trap_default :: "trapframe \<Rightarrow> uint \<Rightarrow> ('m kernel_scheme, unit) kop" where
  "trap_default f cr2 =
     kbind myproc (\<lambda>p0.
     case p0 of
       None \<Rightarrow> kpanic ''trap''
     | Some p \<Rightarrow>
         if tf_cs f AND 3 = 0 then kpanic ''trap''
         else
           kbind (kget (\<lambda>s. procs s ! p)) (\<lambda>k.
           kbind cpuid (\<lambda>c.
           kseq (cprintf (chars ''pid %d %s: trap %d err %d on cpu %d eip 0x%x addr 0x%x--kill proc'' @ [10])
             [ANum (word_of_int (pid k)), AStr (pname k), ANum (tf_trapno f), ANum (tf_err f), ANum (of_nat c), ANum (tf_eip f), ANum cr2])
           (kseq (kmod (upd_proc p (\<lambda>k. k\<lparr>killed := True\<rparr>)))
           (kmod (\<lambda>s. s\<lparr>ttable := wake_own (row (p_threads (procs s ! p))) (ttable s)\<rparr>))))))"

definition trap :: "symbols \<Rightarrow> trapframe \<Rightarrow> uint \<Rightarrow> ('m kernel_scheme, unit) kop" where
  "trap sy f cr2 =
     (if tf_trapno f = T_SYSCALL then
        kseq check_exit
        (kbind mythread (\<lambda>t0. kbind (deref t0) (\<lambda>t.
        kseq (kmod (upd_thread t (\<lambda>k. k\<lparr>tf := f\<rparr>)))
        (kseq (syscall sy)
        check_exit))))
      else
        kseq (if tf_trapno f = T_IRQ0 + 0 then clock_tick
          else if tf_trapno f = T_IRQ0 + 14 then kret ()
          else if tf_trapno f = T_IRQ0 + 14 + 1 then kret ()
          else if tf_trapno f = T_IRQ0 + 1 then kbdintr
          else if tf_trapno f = T_IRQ0 + 4 then uartintr
          else if tf_trapno f = T_IRQ0 + 7 \<or> tf_trapno f = T_IRQ0 + 31 then
            kbind cpuid (\<lambda>c.
            cprintf (chars ''cpu%d: spurious interrupt at %x:%x'' @ [10]) [ANum (of_nat c), ANum (tf_cs f), ANum (tf_eip f)])
          else trap_default f cr2)
        (kseq (check_exit_user f)
        (kbind mythread (\<lambda>t0.
        kbind (case t0 of None \<Rightarrow> kret False | Some t \<Rightarrow> kget (\<lambda>s. tstate (ttable s ! t) = RUNNING)) (\<lambda>r.
        if r \<and> tf_trapno f = T_IRQ0 + 0 then yield
        else check_exit_user f)))))"

text \<open>What follows when a thread that yielded to the clock runs again.\<close>

definition trap_resume :: "trapframe \<Rightarrow> ('m kernel_scheme, unit) kop" where
  "trap_resume f = kseq yield_resume (check_exit_user f)"

section \<open>Properties\<close>

subsection \<open>Arguments come from user memory\<close>

lemma settle_cr3 [simp]: "cr3 (settle s) = cr3 s"
  by (simp add: settle_def upd_cur_def upd_cpu_def)

lemma user_at_settle [simp]: "user_byte_at (settle s) a = user_byte_at s a" "user_word_at (settle s) a = user_word_at s a"
  by (simp_all add: user_byte_at_def user_word_at_def vaddr_def)

lemma my_sz_ok [kexec]: "caller p t s \<Longrightarrow> my_sz s = Ok (sz (procs s ! p)) (settle s)"
  by (simp add: caller_def my_sz_def kexec)

lemma caller_settle [simp]: "caller p t s \<Longrightarrow> caller p t (settle s)"
  by (auto simp: caller_def cpu_inv_this cur_ops)

lemma mythread_caller [kexec]: "caller p t s \<Longrightarrow> mythread s = Ok (Some t) (settle s)"
    "caller p t s \<Longrightarrow> myproc s = Ok (Some p) (settle s)"
  by (simp_all add: caller_def kexec)

definition arg_addr :: "nat \<Rightarrow> nat \<Rightarrow> 'm ptable_scheme \<Rightarrow> uint" where
  "arg_addr n t s = tf_esp (tf (ttable s ! t)) + 4 + 4 * of_nat n"

lemma arg_addr_settle [simp]: "arg_addr n t (settle s) = arg_addr n t s"
  by (simp add: arg_addr_def)

definition arg_word :: "nat \<Rightarrow> nat \<Rightarrow> nat \<Rightarrow> 'm kernel_scheme \<Rightarrow> uint option" where
  "arg_word n p t s = (if unat (arg_addr n t s) + 4 \<le> unat (sz (procs s ! p)) then Some (user_word_at s (arg_addr n t s)) else None)"

lemma block_below:
  assumes "z \<le> KERNBASE" and "0 \<le> n" and "n < 2 ^ 31"
  shows "(a \<ge> z \<or> a + word_of_int n > z) \<longleftrightarrow> \<not> (unat a < unat z \<and> unat a + nat n \<le> unat z)"
proof (cases "a \<ge> z")
  case True
  then show ?thesis by (simp add: word_le_nat_alt)
next
  case False
  have z: "unat z \<le> 2147483648" using assms(1) by (simp add: word_le_nat_alt KERNBASE_def)
  have a: "unat a < unat z" using False by (simp add: word_le_nat_alt)
  have n: "unat (word_of_int n :: uint) = nat n" using assms(2,3) by (simp add: unat_eq_nat_uint uint_word_of_int)
  have "unat a + nat n < 4294967296" using a z assms(2,3) by simp
  then have "unat (a + word_of_int n) = unat a + nat n" by (simp add: unat_word_ariths n)
  then show ?thesis using False a assms(2) by (auto simp: word_le_nat_alt word_less_nat_alt)
qed

lemma fetchint_ok [kexec]:
  assumes "caller p t s" and "sz (procs s ! p) \<le> KERNBASE"
  shows "fetchint a s = Ok (if unat a + 4 \<le> unat (sz (procs s ! p)) then Some (user_word_at s a) else None) (settle s)"
proof -
  have "(a \<ge> sz (procs s ! p) \<or> a + 4 > sz (procs s ! p)) \<longleftrightarrow> \<not> unat a + 4 \<le> unat (sz (procs s ! p))"
    using block_below [OF assms(2), of 4 a] by auto
  then show ?thesis using assms(1) by (auto simp: fetchint_def kexec)
qed

lemma argint_ok [kexec]:
  assumes "caller p t s" and "sz (procs s ! p) \<le> KERNBASE"
  shows "argint n s = Ok (arg_word n p t s) (settle s)"
  using assms fetchint_ok [of p t "settle s" "arg_addr n t s"] by (simp add: argint_def kexec arg_word_def arg_addr_def)

lemma argptr_ok:
  assumes c: "caller p t s" and z: "sz (procs s ! p) \<le> KERNBASE" and len: "len < 2 ^ 31"
  shows "argptr n len s = Ok (case arg_word n p t s of
        Some i \<Rightarrow> if 0 \<le> len \<and> unat i < unat (sz (procs s ! p)) \<and> unat i + nat len \<le> unat (sz (procs s ! p)) then Some i else None
      | None \<Rightarrow> None) (settle s)"
proof -
  have a: "argint n (settle s) = Ok (arg_word n p t s) (settle s)" using c z argint_ok [of p t "settle s" n] by (simp add: arg_word_def)
  show ?thesis
  proof (cases "arg_word n p t s")
    case (Some i)
    have "(len < 0 \<or> i \<ge> sz (procs s ! p) \<or> i + word_of_int len > sz (procs s ! p)) \<longleftrightarrow>
        \<not> (0 \<le> len \<and> unat i < unat (sz (procs s ! p)) \<and> unat i + nat len \<le> unat (sz (procs s ! p)))"
      using block_below [OF z _ len, of i] by auto
    then show ?thesis using c Some a by (auto simp: argptr_def my_sz_ok [OF c] kbind_apply)
  qed (use a in \<open>simp add: argptr_def my_sz_ok [OF c] kbind_apply\<close>)
qed

lemma argstr_ok:
  assumes c: "caller p t s" and z: "sz (procs s ! p) \<le> KERNBASE"
  shows "\<exists>r. argstr n s = Ok r (settle s) \<and>
      (case arg_word n p t s of
         None \<Rightarrow> r = None
       | Some a \<Rightarrow>
          (r = None \<longleftrightarrow> (\<forall>i. unat a + i < unat (sz (procs s ! p)) \<longrightarrow> user_byte_at s (a + of_nat i) \<noteq> 0)) \<and>
          (\<forall>bs. r = Some bs \<longrightarrow> unat a + length bs < unat (sz (procs s ! p)) \<and> 0 \<notin> set bs \<and>
             (\<forall>i \<le> length bs. user_byte_at s (a + of_nat i) = (bs @ [0]) ! i)))"
proof (cases "arg_word n p t s")
  case None
  then show ?thesis using argint_ok [OF c z, of n] by (simp add: argstr_def kexec)
next
  case (Some a)
  let ?z = "sz (procs s ! p)"
  let ?P = "\<lambda>i. user_byte_at s (a + of_nat i) = 0"
  have e: "argstr n s = fetchstr a (settle s)" using argint_ok [OF c z, of n] Some by (simp add: argstr_def kexec)
  show ?thesis
  proof (cases "a \<ge> ?z")
    case True
    then have "argstr n s = Ok None (settle s)" using e my_sz_ok [OF caller_settle [OF c]] by (simp add: fetchstr_def kexec)
    then show ?thesis using Some True by (auto simp: word_le_nat_alt)
  next
    case False
    then have d: "unat (?z - a) = unat ?z - unat a" by (intro unat_sub) simp
    have l: "unat a \<le> unat ?z" using False by (simp add: word_le_nat_alt)
    have f: "argstr n s = Ok (case find ?P [0 ..< unat ?z - unat a] of
        Some k \<Rightarrow> Some (map (\<lambda>i. user_byte_at s (a + of_nat i)) [0 ..< k]) | None \<Rightarrow> None) (settle s)"
      using e my_sz_ok [OF caller_settle [OF c]] False by (simp add: fetchstr_def kexec d cong: option.case_cong)
    show ?thesis
    proof (cases "find ?P [0 ..< unat ?z - unat a]")
      case None
      then have "\<forall>i. unat a + i < unat ?z \<longrightarrow> \<not> ?P i" by (auto simp: find_None_iff)
      then show ?thesis using f None Some by simp
    next
      case k: (Some k)
      then have "k < unat ?z - unat a" "?P k" "\<forall>j < k. \<not> ?P j"
        by (auto simp: find_Some_iff)
      then show ?thesis using f k Some l by (auto simp: nth_append intro!: exI [of _ k])
    qed
  qed
qed

text \<open>C32. Arguments of system calls stay inside the memory of the process. In a process whose size does not
  exceed the user part of the address space, \<open>argint\<close> reads a word if and only if its four bytes lie below
  the size, \<open>argptr\<close> yields a pointer if and only if the whole block behind it does (and the pointer is not
  the end of the memory itself), although the additions are modulo \<open>2 ^ 32\<close>, and \<open>argstr\<close> yields a string if
  and only if it is terminated below the size; it is then the bytes before the first zero. None of them
  changes anything else or panics.\<close>

theorem arguments_stay_in_user_memory:
  assumes c: "caller p t s" and z: "sz (procs s ! p) \<le> KERNBASE" and len: "len < 2 ^ 31"
  shows "argint n s = Ok (arg_word n p t s) (settle s) \<and>
    argptr n len s = Ok (case arg_word n p t s of
        Some i \<Rightarrow> if 0 \<le> len \<and> unat i < unat (sz (procs s ! p)) \<and> unat i + nat len \<le> unat (sz (procs s ! p)) then Some i else None
      | None \<Rightarrow> None) (settle s) \<and>
    (\<exists>r. argstr n s = Ok r (settle s) \<and>
      (case arg_word n p t s of
         None \<Rightarrow> r = None
       | Some a \<Rightarrow>
          (r = None \<longleftrightarrow> (\<forall>i. unat a + i < unat (sz (procs s ! p)) \<longrightarrow> user_byte_at s (a + of_nat i) \<noteq> 0)) \<and>
          (\<forall>bs. r = Some bs \<longrightarrow> unat a + length bs < unat (sz (procs s ! p)) \<and> 0 \<notin> set bs \<and>
             (\<forall>i \<le> length bs. user_byte_at s (a + of_nat i) = (bs @ [0]) ! i))))"
  using argint_ok [OF c z] argptr_ok [OF c z len] argstr_ok [OF c z] by (intro conjI)

subsection \<open>Descriptors\<close>

definition fd_file :: "nat option list \<Rightarrow> uint \<Rightarrow> nat option" where
  "fd_file os x = (if sint x < 0 \<or> int NOFILE \<le> sint x then None else os ! nat (sint x))"

lemma argfd_ok:
  assumes c: "caller p t s" and z: "sz (procs s ! p) \<le> KERNBASE" and "arg_word n p t s = Some x"
  shows "argfd n s = Ok (map_option (\<lambda>f. (nat (sint x), f)) (fd_file (ofile (procs s ! p)) x)) (settle s)"
  using assms argint_ok [OF c z, of n] mythread_caller(2) [OF caller_settle [OF c]]
  by (auto simp: argfd_def kexec fd_file_def split: option.split)

lemma fdalloc_ok:
  assumes c: "caller p t s"
  shows "fdalloc f s = (case find (\<lambda>fd. ofile (procs s ! p) ! fd = None) [0 ..< NOFILE] of
     None \<Rightarrow> Ok None (settle s)
   | Some fd \<Rightarrow> Ok (Some fd) (upd_proc p (\<lambda>k. k\<lparr>ofile := (ofile k)[fd := Some f]\<rparr>) (settle s)))"
  using mythread_caller(2) [OF c] by (simp add: fdalloc_def kexec split: option.split)

text \<open>C33. \<open>dup\<close> takes the lowest free descriptor. If the argument is not the number of an open descriptor, or all
  descriptors are in use, the call returns \<open>-1\<close> and changes nothing; otherwise it returns the least
  descriptor that is not in use, which then refers to the same open file, and the file has one more
  reference.\<close>

theorem dup_takes_lowest_descriptor:
  assumes c: "caller p t s" and z: "sz (procs s ! p) \<le> KERNBASE" and x: "arg_word 0 p t s = Some x" and l: "lock_free LkFtable s"
    and o: "length (ofile (procs s ! p)) = NOFILE"
      "\<forall>f. Some f \<in> set (ofile (procs s ! p)) \<longrightarrow> f < length (files s) \<and> 1 \<le> f_ref (files s ! f)"
  shows "(fd_file (ofile (procs s ! p)) x = None \<or> None \<notin> set (ofile (procs s ! p)) \<longrightarrow> sys_dup s = Ok (- 1) (settle s)) \<and>
    (\<forall>f fd. fd_file (ofile (procs s ! p)) x = Some f \<and> fd < NOFILE \<and> ofile (procs s ! p) ! fd = None \<and> (\<forall>j < fd. ofile (procs s ! p) ! j \<noteq> None) \<longrightarrow>
      (\<exists>u. sys_dup s = Ok (int fd) u \<and> ofile (procs u ! p) = (ofile (procs s ! p))[fd := Some f] \<and>
         files u = (files s)[f := (files s ! f)\<lparr>f_ref := f_ref (files s ! f) + 1\<rparr>]))"
proof (intro conjI impI allI)
  note a = argfd_ok [OF c z x]
  have fd: "fdalloc f (settle s) = (case find (\<lambda>fd. ofile (procs s ! p) ! fd = None) [0 ..< NOFILE] of
     None \<Rightarrow> Ok None (settle s)
   | Some fd \<Rightarrow> Ok (Some fd) (upd_proc p (\<lambda>k. k\<lparr>ofile := (ofile k)[fd := Some f]\<rparr>) (settle s)))" for f
    using fdalloc_ok [OF caller_settle [OF c], of f] by (simp cong: option.case_cong)
  show "sys_dup s = Ok (- 1) (settle s)" if h: "fd_file (ofile (procs s ! p)) x = None \<or> None \<notin> set (ofile (procs s ! p))"
  proof (cases "fd_file (ofile (procs s ! p)) x")
    case None
    then show ?thesis using a by (simp add: sys_dup_def kexec)
  next
    case (Some f)
    then have "None \<notin> set (ofile (procs s ! p))" using h by simp
    then have "find (\<lambda>fd. ofile (procs s ! p) ! fd = None) [0 ..< NOFILE] = None" using o(1) by (auto simp: find_None_iff in_set_conv_nth)
    then show ?thesis using a fd Some by (simp add: sys_dup_def kexec)
  qed
  fix f k
  assume k: "fd_file (ofile (procs s ! p)) x = Some f \<and> k < NOFILE \<and> ofile (procs s ! p) ! k = None \<and> (\<forall>j < k. ofile (procs s ! p) ! j \<noteq> None)"
  then have fnd: "find (\<lambda>fd. ofile (procs s ! p) ! fd = None) [0 ..< NOFILE] = Some k" unfolding find_Some_iff by (intro exI [of _ k]) simp
  have "Some f \<in> set (ofile (procs s ! p))" using k o(1) by (auto simp: fd_file_def split: if_splits) (metis nat_less_iff not_le nth_mem)
  then have f: "f < length (files s)" "1 \<le> f_ref (files s ! f)" using o(2) by blast+
  have "cpu_inv s" "p < length (procs s)" using c by (simp_all add: caller_def)
  then show "\<exists>u. sys_dup s = Ok (int k) u \<and> ofile (procs u ! p) = (ofile (procs s ! p))[k := Some f] \<and>
         files u = (files s)[f := (files s ! f)\<lparr>f_ref := f_ref (files s ! f) + 1\<rparr>]"
    using a fd fnd k f l by (simp add: sys_dup_def kexec filedup_def)
qed

subsection \<open>Concrete instances\<close>

definition kscene :: "nat \<Rightarrow> nat \<Rightarrow> proc list \<Rightarrow> kthread list \<Rightarrow> kernel" where
  "kscene p t ps tt = life.extend ((scene p t ps tt)\<lparr>mem := (\<lambda>_. 0), files := (replicate 100 file0)[7 := file0\<lparr>f_ref := 1\<rparr>]\<rparr>) \<lparr>ticks = 0\<rparr>"

lemma kscene_fields: "procs (kscene p t ps tt) = ps" "ttable (kscene p t ps tt) = tt" "mem (kscene p t ps tt) = (\<lambda>_. 0)"
    "files (kscene p t ps tt) = (replicate 100 file0)[7 := file0\<lparr>f_ref := 1\<rparr>]" "lock_free lk (kscene p t ps tt)"
  using scene_caller(2) [of lk p t ps tt]
  by (simp_all add: kscene_def life.extend_def scene_def lock_free_def)

lemma kscene_caller: "p < length ps \<Longrightarrow> t < length tt \<Longrightarrow> caller p t (kscene p t ps tt)"
  using scene_caller(1) [of p ps t tt]
  by (simp add: kscene_def life.extend_def scene_def caller_def cpu_inv_def this_cpu_def cur_def lock_free_def)

lemma kscene_word: "user_word_at (kscene p t ps tt) a = 0" "user_byte_at (kscene p t ps tt) a = 0"
  by (simp_all add: user_word_at_def user_byte_at_def kscene_fields word_rcat_def)

text \<open>A process of one page whose first descriptor is open on file 7.\<close>

definition dup_family :: "proc list" where
  "dup_family = family[1 := (family ! 1)\<lparr>sz := 4096, ofile := Some 7 # replicate 15 None\<rparr>]"

definition dup_scene :: kernel where
  "dup_scene = kscene 1 16 dup_family (family_threads (thread_in RUNNING 4 1) thread0 thread0)"

lemma dup_scene_ok: "caller 1 16 dup_scene" "sz (procs dup_scene ! 1) \<le> KERNBASE" "sz (procs dup_scene ! 1) = 4096"
    "ofile (procs dup_scene ! 1) = Some 7 # replicate 15 None" "arg_word 0 1 16 dup_scene = Some 0"
    "lock_free lk dup_scene" "files dup_scene = (replicate 100 file0)[7 := file0\<lparr>f_ref := 1\<rparr>]"
  unfolding dup_scene_def
  by (simp_all add: kscene_caller kscene_fields kscene_word dup_family_def family_simps NPROC_def KERNBASE_def arg_word_def arg_addr_def thread_in_def)
    (simp_all add: thread0_def tf0_def)

theorem arguments_stay_in_user_memory_witness:
  "argptr 0 4096 dup_scene = Ok (Some 0) (settle dup_scene) \<and> argptr 0 4097 dup_scene = Ok None (settle dup_scene)"
  using arguments_stay_in_user_memory [OF dup_scene_ok(1,2), of 4096 0] arguments_stay_in_user_memory [OF dup_scene_ok(1,2), of 4097 0]
  unfolding dup_scene_ok(3,5) by simp

theorem dup_takes_lowest_descriptor_witness:
  "\<exists>u. sys_dup dup_scene = Ok 1 u \<and> ofile (procs u ! 1) = Some 7 # Some 7 # replicate 14 None \<and> f_ref (files u ! 7) = 2"
proof -
  have o: "length (ofile (procs dup_scene ! 1)) = NOFILE"
      "\<forall>f. Some f \<in> set (ofile (procs dup_scene ! 1)) \<longrightarrow> f < length (files dup_scene) \<and> 1 \<le> f_ref (files dup_scene ! f)"
    unfolding dup_scene_ok(4) by (simp_all add: NOFILE_def dup_scene_ok(7))
  have "fd_file (ofile (procs dup_scene ! 1)) 0 = Some 7 \<and> 1 < NOFILE \<and> ofile (procs dup_scene ! 1) ! 1 = None \<and>
      (\<forall>j < 1. ofile (procs dup_scene ! 1) ! j \<noteq> None)"
    unfolding dup_scene_ok(4) by (simp add: fd_file_def NOFILE_def)
  with dup_takes_lowest_descriptor [OF dup_scene_ok(1,2,5) dup_scene_ok(6) o] obtain u where
    "sys_dup dup_scene = Ok (int 1) u" "ofile (procs u ! 1) = (ofile (procs dup_scene ! 1))[1 := Some 7]"
    "files u = (files dup_scene)[7 := (files dup_scene ! 7)\<lparr>f_ref := f_ref (files dup_scene ! 7) + 1\<rparr>]" by blast
  then show ?thesis unfolding dup_scene_ok(4) by (simp add: dup_scene_ok(7) numeral_eq_Suc)
qed

end
