(* ===== verification/Tables.thy ===== *)
theory Tables
  imports Syscall
begin

text \<open>
  The types of the kernel's tables. C arrays have a fixed size; the model's lists could change their
  length. This theory shows, for every operation of the kernel and whatever its outcome, that they do not:
  the tables of processors, processes, threads, mutexes, buffers, inodes and open files, the table of
  descriptors and the name of each process, and the disk keep their sizes.
\<close>

definition shape :: "'m ftab_scheme \<Rightarrow> nat list \<times> (nat \<times> nat) list" where
  "shape s = ([length (cpus s), length (ttable s), length (mutexes s), length (bufs s), length (disk s), length (inodes s), length (files s)],
     map (\<lambda>p. (length (ofile p), length (pname p))) (procs s))"

definition keeps :: "('m ftab_scheme, 'a) kop \<Rightarrow> bool" where
  "keeps m \<longleftrightarrow> (\<forall>s u. res_state (m s) = Some u \<longrightarrow> shape u = shape s)"

definition keeps_dev :: "('m ftab_scheme) devfun \<Rightarrow> bool" where
  "keeps_dev dv \<longleftrightarrow> (\<forall>d f i b n. dv d = Some f \<longrightarrow> keeps (f i b n))"

named_theorems keeps_intro \<open>composition of operations that keep the shape of the tables\<close>
named_theorems shape_rules \<open>updates that keep the shape of the tables\<close>

section \<open>Composition\<close>

lemma keeps_kret [keeps_intro]: "keeps (kret x)" "keeps (kpanic msg)" "keeps (kfault msg)" "keeps (kget f)" "keeps Spin" "keeps Swtch" "keeps (Ok x)"
  by (simp_all add: keeps_def)

lemma keeps_kmod [keeps_intro]: "(\<And>s. shape (f s) = shape s) \<Longrightarrow> keeps (kmod f)"
  by (simp add: keeps_def)

lemma keeps_Spin [keeps_intro]: "(\<And>s. shape (f s) = shape s) \<Longrightarrow> keeps (\<lambda>s. Spin (f s))"
  by (simp add: keeps_def)

lemma keeps_deref [keeps_intro]: "keeps (deref q)"
  by (cases q) (simp_all only: deref_simps keeps_kret)

lemma keeps_kbind [keeps_intro]: "keeps m \<Longrightarrow> (\<And>x. keeps (f x)) \<Longrightarrow> keeps (kbind m f)"
  unfolding keeps_def
proof (intro allI impI)
  fix s u assume m: "\<forall>s u. res_state (m s) = Some u \<longrightarrow> shape u = shape s" and f: "\<And>x. \<forall>s u. res_state (f x s) = Some u \<longrightarrow> shape u = shape s"
    and r: "res_state (kbind m f s) = Some u"
  have "shape t = shape s" if "m s = Ok x t \<or> m s = Swtch t \<or> m s = Spin t" for x t using m that by (metis res_state.simps(1-3))
  then show "shape u = shape s" using r f by (auto simp: kbind_def split: res.splits)
qed

lemma keeps_kseq [keeps_intro]: "keeps m \<Longrightarrow> keeps n \<Longrightarrow> keeps (kseq m n)"
  unfolding kseq_def by (rule keeps_kbind)

lemma keeps_if [keeps_intro]: "(b \<Longrightarrow> keeps m) \<Longrightarrow> (\<not> b \<Longrightarrow> keeps n) \<Longrightarrow> keeps (if b then m else n)"
  by simp

lemma keeps_case_option [keeps_intro]: "keeps m \<Longrightarrow> (\<And>x. q = Some x \<Longrightarrow> keeps (f x)) \<Longrightarrow> keeps (case q of None \<Rightarrow> m | Some x \<Rightarrow> f x)"
  by (cases q) simp_all

lemma keeps_case_list [keeps_intro]: "keeps m \<Longrightarrow> (\<And>x xs. keeps (f x xs)) \<Longrightarrow> keeps (case q of [] \<Rightarrow> m | x # xs \<Rightarrow> f x xs)"
  by (cases q) simp_all

lemma keeps_case_prod [keeps_intro]: "(\<And>x y. q = (x, y) \<Longrightarrow> keeps (f x y)) \<Longrightarrow> keeps (case q of (x, y) \<Rightarrow> f x y)"
  by (cases q) simp

lemma keeps_case_sum [keeps_intro]: "(\<And>x. keeps (f x)) \<Longrightarrow> (\<And>x. keeps (g x)) \<Longrightarrow> keeps (case q of Inl x \<Rightarrow> f x | Inr x \<Rightarrow> g x)"
  by (cases q) simp_all

lemma keeps_case_kbuf [keeps_intro]: "(\<And>x. keeps (f x)) \<Longrightarrow> (\<And>x. keeps (g x)) \<Longrightarrow> keeps (case q of KMem x \<Rightarrow> f x | KLocal x \<Rightarrow> g x)"
  by (cases q) simp_all

lemma keeps_case_carg [keeps_intro]: "(\<And>x. keeps (f x)) \<Longrightarrow> (\<And>x. keeps (g x)) \<Longrightarrow> keeps (case q of ANum x \<Rightarrow> f x | AStr x \<Rightarrow> g x)"
  by (cases q) simp_all

lemma keeps_Let [keeps_intro]: "(\<And>x. x = a \<Longrightarrow> keeps (f x)) \<Longrightarrow> keeps (let x = a in f x)"
  by (simp add: Let_def)

lemma keeps_each [keeps_intro]: "(\<And>i. keeps (f i)) \<Longrightarrow> keeps (each f xs)"
  by (induction xs) (simp_all only: each.simps keeps_kret keeps_kseq)

lemma keeps_dev_call: "keeps_dev dv \<Longrightarrow> dv d = Some f \<Longrightarrow> keeps (f i b n)"
  by (simp add: keeps_dev_def)

section \<open>Updates\<close>

lemma map_update_same: "(\<And>x. g (h x) = g x) \<Longrightarrow> map g (xs[i := h (xs ! i)]) = map g xs"
  by (cases "i < length xs") (simp_all add: map_update list_update_beyond, metis length_map list_update_id nth_map)

lemma shape_upd [shape_rules]:
  "shape (upd_cpu c f s) = shape s" "shape (upd_cur f s) = shape s" "shape (upd_lock lk h s) = shape s"
  "shape (upd_thread t k s) = shape s" "shape (upd_sl l e s) = shape s" "shape (upd_mutex mi mf s) = shape s" "shape (upd_buf b g s) = shape s" "shape (upd_inode i j s) = shape s" "shape (upd_file x y s) = shape s" "shape (upd_pipe pa pf s) = shape s"
  "(\<And>z. length (ofile (q z)) = length (ofile z)) \<Longrightarrow> (\<And>z. length (pname (q z)) = length (pname z)) \<Longrightarrow> shape (upd_proc p q s) = shape s"
  by (simp_all add: shape_def upd_cpu_def upd_cur_def upd_lock_def upd_thread_def upd_sl_def upd_mutex_def upd_buf_def upd_inode_def upd_file_def upd_pipe_def upd_proc_def map_update_same
      split: option.splits)

lemma shape_set [shape_rules]:
  "shape (s\<lparr>eflags_if := b\<rparr>) = shape s" "shape (s\<lparr>cr3 := a\<rparr>) = shape s" "shape (s\<lparr>mem := m\<rparr>) = shape s"
  "shape (s\<lparr>freelist := a\<rparr>) = shape s" "shape (s\<lparr>klog := lg\<rparr>) = shape s" "shape (s\<lparr>ksb := sb\<rparr>) = shape s" "shape (s\<lparr>lru := ls\<rparr>) = shape s"
  "shape (s\<lparr>use_lock := b\<rparr>) = shape s" "shape (s\<lparr>sleeplocks := sl\<rparr>) = shape s" "shape (s\<lparr>pipes := ps\<rparr>) = shape s"
  "shape (s\<lparr>nextpid := n\<rparr>) = shape s" "shape (s\<lparr>nexttid := n\<rparr>) = shape s" "shape (s\<lparr>initproc := q\<rparr>) = shape s" "shape (s\<lparr>kpgdir := a\<rparr>) = shape s"
  "shape (s\<lparr>disk_hist := dh\<rparr>) = shape s" "shape (upd_con cf k) = shape k" "shape (l\<lparr>forkret_first := b\<rparr>) = shape l" "shape (g\<lparr>ticks := w\<rparr>) = shape g"
  "length d = length (disk s) \<Longrightarrow> shape (s\<lparr>disk := d\<rparr>) = shape s"
  "length tt = length (ttable s) \<Longrightarrow> shape (s\<lparr>ttable := tt\<rparr>) = shape s"
  by (simp_all add: shape_def upd_con_def)

section \<open>Operations\<close>

subsection \<open>Spinlocks\<close>

lemma keeps_mycpu [keeps_intro]: "keeps mycpu"
  by (auto simp: keeps_def mycpu_def split: option.splits)

lemma keeps_cpuid [keeps_intro]: "keeps cpuid"
  unfolding cpuid_def by (intro keeps_intro; simp add: shape_rules)

lemma keeps_pushcli [keeps_intro]: "keeps pushcli"
  unfolding pushcli_def by (intro keeps_intro; simp add: shape_rules)

lemma keeps_popcli [keeps_intro]: "keeps popcli"
  unfolding popcli_def by (intro keeps_intro; simp add: shape_rules)

lemma keeps_initlock [keeps_intro]: "keeps (initlock a0 a1)"
  unfolding initlock_def by (intro keeps_intro; simp add: shape_rules)

lemma keeps_holding [keeps_intro]: "keeps (holding a0)"
  unfolding holding_def by (intro keeps_intro; simp add: shape_rules)

lemma keeps_acquire_enter [keeps_intro]: "keeps (acquire_enter a0)"
  unfolding acquire_enter_def by (intro keeps_intro; simp add: shape_rules)

lemma keeps_xchg [keeps_intro]: "keeps (xchg a0 a1)"
  unfolding xchg_def by (intro keeps_intro; simp add: shape_rules)

lemma keeps_acquire_xchg [keeps_intro]: "keeps (acquire_xchg a0)"
  unfolding acquire_xchg_def by (intro keeps_intro; simp add: shape_rules)

lemma keeps_acquire_record [keeps_intro]: "keeps (acquire_record a0)"
  unfolding acquire_record_def by (intro keeps_intro; simp add: shape_rules)

lemma keeps_acquire [keeps_intro]: "keeps (acquire a0)"
  unfolding acquire_def by (intro keeps_intro; simp add: shape_rules)

lemma keeps_release_enter [keeps_intro]: "keeps (release_enter a0)"
  unfolding release_enter_def by (intro keeps_intro; simp add: shape_rules)

lemma keeps_release_store [keeps_intro]: "keeps (release_store a0)"
  unfolding release_store_def by (intro keeps_intro; simp add: shape_rules)

lemma keeps_release [keeps_intro]: "keeps (release a0)"
  unfolding release_def by (intro keeps_intro; simp add: shape_rules)

lemma keeps_myproc [keeps_intro]: "keeps myproc"
  unfolding myproc_def by (intro keeps_intro; simp add: shape_rules)

lemma keeps_mythread [keeps_intro]: "keeps mythread"
  unfolding mythread_def by (intro keeps_intro; simp add: shape_rules)

subsection \<open>Processes and the scheduler\<close>

lemma keeps_switchkvm [keeps_intro]: "keeps switchkvm"
  unfolding switchkvm_def by (intro keeps_intro; simp add: shape_rules)

lemma keeps_switchuvm [keeps_intro]: "keeps (switchuvm a0)"
  unfolding switchuvm_def by (intro keeps_intro; simp add: shape_rules)

lemma keeps_sched [keeps_intro]: "keeps sched"
  unfolding sched_def by (intro keeps_intro; simp add: shape_rules)

lemma keeps_sched_resume [keeps_intro]: "keeps sched_resume"
  unfolding sched_resume_def by (intro keeps_intro; simp add: shape_rules)

lemma keeps_yield [keeps_intro]: "keeps yield"
  unfolding yield_def by (intro keeps_intro; simp add: shape_rules)

lemma keeps_yield_resume [keeps_intro]: "keeps yield_resume"
  unfolding yield_resume_def by (intro keeps_intro; simp add: shape_rules)

lemma keeps_sleep [keeps_intro]: "keeps (sleep a0 a1)"
  unfolding sleep_def by (intro keeps_intro; simp add: shape_rules)

lemma keeps_sleep_resume [keeps_intro]: "keeps (sleep_resume a0)"
  unfolding sleep_resume_def by (intro keeps_intro; simp add: shape_rules)

lemma keeps_wakeup1 [keeps_intro]: "keeps (wakeup1 a0)"
  unfolding wakeup1_def by (intro keeps_intro; simp add: shape_rules)

lemma keeps_wakeup [keeps_intro]: "keeps (wakeup a0)"
  unfolding wakeup_def by (intro keeps_intro; simp add: shape_rules)

lemma keeps_kill [keeps_intro]: "keeps (kill a0)"
  unfolding kill_def by (intro keeps_intro; simp add: shape_rules)

lemma keeps_dispatch [keeps_intro]: "keeps (dispatch a0)"
  unfolding dispatch_def by (intro keeps_intro; simp add: shape_rules)

lemma keeps_scheduler_begin [keeps_intro]: "keeps scheduler_begin"
  unfolding scheduler_begin_def by (intro keeps_intro; simp add: shape_rules)

lemma keeps_scheduler_continue [keeps_intro]: "keeps (scheduler_continue a0 a1)"
  unfolding scheduler_continue_def by (intro keeps_intro; simp add: shape_rules)

subsection \<open>Sleep locks\<close>

lemma keeps_initsleeplock [keeps_intro]: "keeps (initsleeplock a0)"
  unfolding initsleeplock_def by (intro keeps_intro; simp add: shape_rules)

lemma keeps_acquiresleep_loop [keeps_intro]: "keeps (acquiresleep_loop a0)"
  unfolding acquiresleep_loop_def by (intro keeps_intro; simp add: shape_rules)

lemma keeps_acquiresleep [keeps_intro]: "keeps (acquiresleep a0)"
  unfolding acquiresleep_def by (intro keeps_intro; simp add: shape_rules)

lemma keeps_acquiresleep_resume [keeps_intro]: "keeps (acquiresleep_resume a0)"
  unfolding acquiresleep_resume_def by (intro keeps_intro; simp add: shape_rules)

lemma keeps_releasesleep [keeps_intro]: "keeps (releasesleep a0)"
  unfolding releasesleep_def by (intro keeps_intro; simp add: shape_rules)

lemma keeps_holdingsleep [keeps_intro]: "keeps (holdingsleep a0)"
  unfolding holdingsleep_def by (intro keeps_intro; simp add: shape_rules)

subsection \<open>Mutexes\<close>

lemma keeps_kthread_mutex_alloc [keeps_intro]: "keeps kthread_mutex_alloc"
  unfolding kthread_mutex_alloc_def by (intro keeps_intro; simp add: shape_rules)

lemma keeps_kthread_mutex_dealloc [keeps_intro]: "keeps (kthread_mutex_dealloc a0)"
  unfolding kthread_mutex_dealloc_def by (intro keeps_intro; simp add: shape_rules)

lemma keeps_mutex_find [keeps_intro]: "keeps (mutex_find a0)"
  unfolding mutex_find_def by (intro keeps_intro; simp add: shape_rules)

lemma keeps_mutex_lock_loop [keeps_intro]: "keeps (mutex_lock_loop a0 a1)"
  unfolding mutex_lock_loop_def by (intro keeps_intro; simp add: shape_rules)

lemma keeps_mutex_lock_enter [keeps_intro]: "keeps (mutex_lock_enter a0 a1)"
  unfolding mutex_lock_enter_def by (intro keeps_intro; simp add: shape_rules)

lemma keeps_mutex_lock_resume [keeps_intro]: "keeps (mutex_lock_resume a0 a1)"
  unfolding mutex_lock_resume_def by (intro keeps_intro; simp add: shape_rules)

lemma keeps_kthread_mutex_lock [keeps_intro]: "keeps (kthread_mutex_lock a0)"
  unfolding kthread_mutex_lock_def by (intro keeps_intro; simp add: shape_rules)

lemma keeps_mutex_unlock_enter [keeps_intro]: "keeps (mutex_unlock_enter a0)"
  unfolding mutex_unlock_enter_def by (intro keeps_intro; simp add: shape_rules)

lemma keeps_kthread_mutex_unlock [keeps_intro]: "keeps (kthread_mutex_unlock a0)"
  unfolding kthread_mutex_unlock_def by (intro keeps_intro; simp add: shape_rules)

subsection \<open>The page allocator\<close>

lemma keeps_kmem_lock [keeps_intro]: "keeps kmem_lock"
  unfolding kmem_lock_def by (intro keeps_intro; simp add: shape_rules)

lemma keeps_kmem_unlock [keeps_intro]: "keeps kmem_unlock"
  unfolding kmem_unlock_def by (intro keeps_intro; simp add: shape_rules)

lemma keeps_kfree [keeps_intro]: "keeps (kfree a0)"
  unfolding kfree_def by (intro keeps_intro; simp add: shape_rules)

lemma keeps_kalloc [keeps_intro]: "keeps kalloc"
  unfolding kalloc_def by (intro keeps_intro; simp add: shape_rules)

lemma keeps_freerange_loop [keeps_intro]: "keeps (freerange_loop a0 a1 a2)"
  by (induction a0 a1 a2 rule: freerange_loop.induct) (subst freerange_loop.simps, intro keeps_intro; simp add: shape_rules)+

lemma keeps_freerange [keeps_intro]: "keeps (freerange a0 a1)"
  unfolding freerange_def by (intro keeps_intro; simp add: shape_rules)

lemma keeps_kinit1 [keeps_intro]: "keeps (kinit1 a0 a1)"
  unfolding kinit1_def by (intro keeps_intro; simp add: shape_rules)

lemma keeps_kinit2 [keeps_intro]: "keeps (kinit2 a0 a1)"
  unfolding kinit2_def by (intro keeps_intro; simp add: shape_rules)

subsection \<open>Virtual memory\<close>

lemma keeps_walkpgdir [keeps_intro]: "keeps (walkpgdir a0 a1 a2)"
  unfolding walkpgdir_def by (intro keeps_intro; simp add: shape_rules)

lemma keeps_mappages_loop [keeps_intro]: "keeps (mappages_loop a0 a1 a2 a3 a4 a5)"
  by (induction a0 a1 a2 a3 a4 a5 rule: mappages_loop.induct) (subst mappages_loop.simps, intro keeps_intro; simp add: shape_rules)+

lemma keeps_mappages [keeps_intro]: "keeps (mappages a0 a1 a2 a3 a4)"
  unfolding mappages_def by (intro keeps_intro; simp add: shape_rules)

lemma keeps_deallocuvm_loop [keeps_intro]: "keeps (deallocuvm_loop a0 a1 a2 a3)"
  by (induction a0 a1 a2 a3 rule: deallocuvm_loop.induct) (subst deallocuvm_loop.simps, intro keeps_intro; simp add: shape_rules)+

lemma keeps_deallocuvm [keeps_intro]: "keeps (deallocuvm a0 a1 a2)"
  unfolding deallocuvm_def by (intro keeps_intro; simp add: shape_rules)

lemma keeps_freevm_loop [keeps_intro]: "keeps (freevm_loop a0 a1 a2)"
  by (induction a0 a1 a2 rule: freevm_loop.induct) (subst freevm_loop.simps, intro keeps_intro; simp add: shape_rules)+

lemma keeps_freevm [keeps_intro]: "keeps (freevm a0)"
  unfolding freevm_def by (intro keeps_intro; simp add: shape_rules)

lemma keeps_allocuvm_loop [keeps_intro]: "keeps (allocuvm_loop a0 a1 a2 a3 a4)"
  by (induction a0 a1 a2 a3 a4 rule: allocuvm_loop.induct) (subst allocuvm_loop.simps, intro keeps_intro; simp add: shape_rules)+

lemma keeps_allocuvm [keeps_intro]: "keeps (allocuvm a0 a1 a2)"
  unfolding allocuvm_def by (intro keeps_intro; simp add: shape_rules)

lemma keeps_setupkvm_loop [keeps_intro]: "keeps (setupkvm_loop a0 a1)"
  by (induction a0 a1 rule: setupkvm_loop.induct) (subst setupkvm_loop.simps, intro keeps_intro; simp add: shape_rules)+

lemma keeps_setupkvm [keeps_intro]: "keeps (setupkvm a0)"
  unfolding setupkvm_def by (intro keeps_intro; simp add: shape_rules)

lemma keeps_kvmalloc [keeps_intro]: "keeps (kvmalloc a0)"
  unfolding kvmalloc_def by (intro keeps_intro; simp add: shape_rules)

lemma keeps_inituvm [keeps_intro]: "keeps (inituvm a0 a1 a2)"
  unfolding inituvm_def by (intro keeps_intro; simp add: shape_rules)

lemma keeps_clearpteu [keeps_intro]: "keeps (clearpteu a0 a1)"
  unfolding clearpteu_def by (intro keeps_intro; simp add: shape_rules)

lemma keeps_copyuvm_loop [keeps_intro]: "keeps (copyuvm_loop a0 a1 a2 a3 a4)"
  by (induction a0 a1 a2 a3 a4 rule: copyuvm_loop.induct) (subst copyuvm_loop.simps, intro keeps_intro; simp add: shape_rules)+

lemma keeps_copyuvm [keeps_intro]: "keeps (copyuvm a0 a1 a2)"
  unfolding copyuvm_def by (intro keeps_intro; simp add: shape_rules)

lemma keeps_uva2ka [keeps_intro]: "keeps (uva2ka a0 a1)"
  unfolding uva2ka_def by (intro keeps_intro; simp add: shape_rules)

lemma keeps_copyout_loop [keeps_intro]: "keeps (copyout_loop a0 a1 a2 a3)"
  by (induction a0 a1 a2 a3 rule: copyout_loop.induct) (subst copyout_loop.simps, intro keeps_intro; simp add: shape_rules)+

lemma keeps_copyout [keeps_intro]: "keeps (copyout a0 a1 a2)"
  unfolding copyout_def by (intro keeps_intro; simp add: shape_rules)

subsection \<open>The buffer cache\<close>

lemma keeps_binit_loop [keeps_intro]: "keeps (binit_loop a0)"
  by (induction a0 rule: binit_loop.induct) (subst binit_loop.simps, intro keeps_intro; simp add: shape_rules)+

lemma keeps_binit [keeps_intro]: "keeps binit"
  unfolding binit_def by (intro keeps_intro; simp add: shape_rules)

lemma keeps_iderw [keeps_intro]: "keeps (iderw a0)"
  unfolding iderw_def by (intro keeps_intro; simp add: shape_rules)

lemma keeps_bget [keeps_intro]: "keeps (bget a0 a1)"
  unfolding bget_def by (intro keeps_intro; simp add: shape_rules)

lemma keeps_bread [keeps_intro]: "keeps (bread a0 a1)"
  unfolding bread_def by (intro keeps_intro; simp add: shape_rules)

lemma keeps_bwrite [keeps_intro]: "keeps (bwrite a0)"
  unfolding bwrite_def by (intro keeps_intro; simp add: shape_rules)

lemma keeps_brelse [keeps_intro]: "keeps (brelse a0)"
  unfolding brelse_def by (intro keeps_intro; simp add: shape_rules)

subsection \<open>The log\<close>

lemma keeps_upd_log [keeps_intro]: "keeps (upd_log a0)"
  unfolding upd_log_def by (intro keeps_intro; simp add: shape_rules)

lemma keeps_readsb [keeps_intro]: "keeps (readsb a0)"
  unfolding readsb_def by (intro keeps_intro; simp add: shape_rules)

lemma keeps_install_one [keeps_intro]: "keeps (install_one a0)"
  unfolding install_one_def by (intro keeps_intro; simp add: shape_rules)

lemma keeps_install_trans [keeps_intro]: "keeps install_trans"
  unfolding install_trans_def by (intro keeps_intro; simp add: shape_rules)

lemma keeps_read_head_entry [keeps_intro]: "keeps (read_head_entry a0 a1)"
  unfolding read_head_entry_def by (intro keeps_intro; simp add: shape_rules)

lemma keeps_read_head [keeps_intro]: "keeps read_head"
  unfolding read_head_def by (intro keeps_intro; simp add: shape_rules)

lemma keeps_write_head [keeps_intro]: "keeps write_head"
  unfolding write_head_def by (intro keeps_intro; simp add: shape_rules)

lemma keeps_recover_from_log [keeps_intro]: "keeps recover_from_log"
  unfolding recover_from_log_def by (intro keeps_intro; simp add: shape_rules)

lemma keeps_initlog [keeps_intro]: "keeps (initlog a0)"
  unfolding initlog_def by (intro keeps_intro; simp add: shape_rules)

lemma keeps_begin_op_loop [keeps_intro]: "keeps begin_op_loop"
  unfolding begin_op_loop_def by (intro keeps_intro; simp add: shape_rules)

lemma keeps_begin_op [keeps_intro]: "keeps begin_op"
  unfolding begin_op_def by (intro keeps_intro; simp add: shape_rules)

lemma keeps_begin_op_resume [keeps_intro]: "keeps begin_op_resume"
  unfolding begin_op_resume_def by (intro keeps_intro; simp add: shape_rules)

lemma keeps_write_log_one [keeps_intro]: "keeps (write_log_one a0)"
  unfolding write_log_one_def by (intro keeps_intro; simp add: shape_rules)

lemma keeps_write_log [keeps_intro]: "keeps write_log"
  unfolding write_log_def by (intro keeps_intro; simp add: shape_rules)

lemma keeps_commit [keeps_intro]: "keeps commit"
  unfolding commit_def by (intro keeps_intro; simp add: shape_rules)

lemma keeps_end_op [keeps_intro]: "keeps end_op"
  unfolding end_op_def by (intro keeps_intro; simp add: shape_rules)

lemma keeps_log_write [keeps_intro]: "keeps (log_write a0)"
  unfolding log_write_def by (intro keeps_intro; simp add: shape_rules)

subsection \<open>The file system\<close>

lemma keeps_store_bytes [keeps_intro]: "keeps (store_bytes a0 a1 a2)"
  unfolding store_bytes_def by (intro keeps_intro; simp add: shape_rules)

lemma keeps_bzero [keeps_intro]: "keeps (bzero a0 a1)"
  unfolding bzero_def by (intro keeps_intro; simp add: shape_rules)

lemma keeps_balloc_loop [keeps_intro]: "keeps (balloc_loop a0 a1 a2)"
  by (induction a0 a1 a2 rule: balloc_loop.induct) (subst balloc_loop.simps, intro keeps_intro; simp add: shape_rules)+

lemma keeps_balloc [keeps_intro]: "keeps (balloc a0)"
  unfolding balloc_def by (intro keeps_intro; simp add: shape_rules)

lemma keeps_bfree [keeps_intro]: "keeps (bfree a0 a1)"
  unfolding bfree_def by (intro keeps_intro; simp add: shape_rules)

lemma keeps_iinit [keeps_intro]: "keeps (iinit a0)"
  unfolding iinit_def by (intro keeps_intro; simp add: shape_rules)

lemma keeps_iget [keeps_intro]: "keeps (iget a0 a1)"
  unfolding iget_def by (intro keeps_intro; simp add: shape_rules)

lemma keeps_ialloc_loop [keeps_intro]: "keeps (ialloc_loop a0 a1 a2)"
  by (induction a0 a1 a2 rule: ialloc_loop.induct) (subst ialloc_loop.simps, intro keeps_intro; simp add: shape_rules)+

lemma keeps_ialloc [keeps_intro]: "keeps (ialloc a0 a1)"
  unfolding ialloc_def by (intro keeps_intro; simp add: shape_rules)

lemma keeps_iupdate [keeps_intro]: "keeps (iupdate a0)"
  unfolding iupdate_def by (intro keeps_intro; simp add: shape_rules)

lemma keeps_idup [keeps_intro]: "keeps (idup a0)"
  unfolding idup_def by (intro keeps_intro; simp add: shape_rules)

lemma keeps_ilock [keeps_intro]: "keeps (ilock a0)"
  unfolding ilock_def by (intro keeps_intro; simp add: shape_rules)

lemma keeps_iunlock [keeps_intro]: "keeps (iunlock a0)"
  unfolding iunlock_def by (intro keeps_intro; simp add: shape_rules)

lemma keeps_itrunc_direct [keeps_intro]: "keeps (itrunc_direct a0 a1)"
  unfolding itrunc_direct_def by (intro keeps_intro; simp add: shape_rules)

lemma keeps_itrunc_indirect [keeps_intro]: "keeps (itrunc_indirect a0 a1 a2)"
  unfolding itrunc_indirect_def by (intro keeps_intro; simp add: shape_rules)

lemma keeps_itrunc [keeps_intro]: "keeps (itrunc a0)"
  unfolding itrunc_def by (intro keeps_intro; simp add: shape_rules)

lemma keeps_iput [keeps_intro]: "keeps (iput a0)"
  unfolding iput_def by (intro keeps_intro; simp add: shape_rules)

lemma keeps_iunlockput [keeps_intro]: "keeps (iunlockput a0)"
  unfolding iunlockput_def by (intro keeps_intro; simp add: shape_rules)

lemma keeps_bmap [keeps_intro]: "keeps (bmap a0 a1)"
  unfolding bmap_def by (intro keeps_intro; simp add: shape_rules)

lemma keeps_stati [keeps_intro]: "keeps (stati a0)"
  unfolding stati_def by (intro keeps_intro; simp add: shape_rules)

lemma keeps_readi_loop [keeps_intro]: "keeps (readi_loop a0 a1 a2 a3 a4)"
  by (induction a0 a1 a2 a3 a4 rule: readi_loop.induct) (subst readi_loop.simps, intro keeps_intro; simp add: shape_rules)+

lemma keeps_readi [keeps_intro]: "keeps_dev a0 \<Longrightarrow> keeps (readi a0 a1 a2 a3 a4)"
  unfolding readi_def by (intro keeps_intro; (erule keeps_dev_call, assumption | simp add: shape_rules))

lemma keeps_writei_loop [keeps_intro]: "keeps (writei_loop a0 a1 a2 a3 a4)"
  by (induction a0 a1 a2 a3 a4 rule: writei_loop.induct) (subst writei_loop.simps, intro keeps_intro; simp add: shape_rules)+

lemma keeps_writei [keeps_intro]: "keeps_dev a0 \<Longrightarrow> keeps (writei a0 a1 a2 a3 a4)"
  unfolding writei_def by (intro keeps_intro; (erule keeps_dev_call, assumption | simp add: shape_rules))

lemma keeps_dirlookup_loop [keeps_intro]: "keeps_dev a0 \<Longrightarrow> keeps (dirlookup_loop a0 a1 a2 a3)"
  by (induction a0 a1 a2 a3 rule: dirlookup_loop.induct) (subst dirlookup_loop.simps, intro keeps_intro; simp add: shape_rules)+

lemma keeps_dirlookup [keeps_intro]: "keeps_dev a0 \<Longrightarrow> keeps (dirlookup a0 a1 a2)"
  unfolding dirlookup_def by (intro keeps_intro; simp add: shape_rules)

lemma keeps_dirlink_slot [keeps_intro]: "keeps_dev a0 \<Longrightarrow> keeps (dirlink_slot a0 a1 a2 a3)"
  by (induction a0 a1 a2 a3 rule: dirlink_slot.induct) (subst dirlink_slot.simps, intro keeps_intro; simp add: shape_rules)+

lemma keeps_dirlink [keeps_intro]: "keeps_dev a0 \<Longrightarrow> keeps_dev a1 \<Longrightarrow> keeps (dirlink a0 a1 a2 a3 a4)"
  unfolding dirlink_def by (intro keeps_intro; simp add: shape_rules)

lemma keeps_namex_loop [keeps_intro]: "keeps_dev a0 \<Longrightarrow> keeps (namex_loop a0 a1 a2 a3 a4)"
  proof (induction a0 a1 a2 a3 a4 rule: namex_loop.induct)
  case (1 dv par ip path name)
  have "keeps (namex_loop dv par nxt rest elem)" if "skipelem path name = Some (rest, elem)" "\<not> (par \<and> rest = [])" for nxt rest elem
    using 1 that by fastforce
  then show ?case using "1.prems" by (subst namex_loop.simps) (intro keeps_intro; simp)
qed

lemma keeps_namex [keeps_intro]: "keeps_dev a0 \<Longrightarrow> keeps (namex a0 a1 a2 a3)"
  unfolding namex_def by (intro keeps_intro; simp add: shape_rules)

lemma keeps_namei [keeps_intro]: "keeps_dev a0 \<Longrightarrow> keeps (namei a0 a1)"
  unfolding namei_def by (intro keeps_intro; simp add: shape_rules)

lemma keeps_nameiparent [keeps_intro]: "keeps_dev a0 \<Longrightarrow> keeps (nameiparent a0 a1 a2)"
  unfolding nameiparent_def by (intro keeps_intro; simp add: shape_rules)

subsection \<open>Files and pipes\<close>

lemma keeps_pipeclose [keeps_intro]: "keeps (pipeclose a0 a1)"
  unfolding pipeclose_def by (intro keeps_intro; simp add: shape_rules)

lemma keeps_my_killed [keeps_intro]: "keeps my_killed"
  unfolding my_killed_def by (intro keeps_intro; simp add: shape_rules)

lemma keeps_pipewrite_loop [keeps_intro]: "keeps (pipewrite_loop a0 a1 a2 a3 a4)"
  by (induction a0 a1 a2 a3 a4 rule: pipewrite_loop.induct) (subst pipewrite_loop.simps, intro keeps_intro; simp add: shape_rules)+

lemma keeps_pipewrite [keeps_intro]: "keeps (pipewrite a0 a1 a2)"
  unfolding pipewrite_def by (intro keeps_intro; simp add: shape_rules)

lemma keeps_pipewrite_resume [keeps_intro]: "keeps (pipewrite_resume a0 a1 a2 a3)"
  unfolding pipewrite_resume_def by (intro keeps_intro; simp add: shape_rules)

lemma keeps_piperead_copy [keeps_intro]: "keeps (piperead_copy a0 a1 a2 a3)"
  by (induction a0 a1 a2 a3 rule: piperead_copy.induct) (subst piperead_copy.simps, intro keeps_intro; simp add: shape_rules)+

lemma keeps_piperead_loop [keeps_intro]: "keeps (piperead_loop a0 a1 a2)"
  unfolding piperead_loop_def by (intro keeps_intro; simp add: shape_rules)

lemma keeps_piperead [keeps_intro]: "keeps (piperead a0 a1 a2)"
  unfolding piperead_def by (intro keeps_intro; simp add: shape_rules)

lemma keeps_piperead_resume [keeps_intro]: "keeps (piperead_resume a0 a1 a2)"
  unfolding piperead_resume_def by (intro keeps_intro; simp add: shape_rules)

lemma keeps_fileinit [keeps_intro]: "keeps fileinit"
  unfolding fileinit_def by (intro keeps_intro; simp add: shape_rules)

lemma keeps_filealloc [keeps_intro]: "keeps filealloc"
  unfolding filealloc_def by (intro keeps_intro; simp add: shape_rules)

lemma keeps_filedup [keeps_intro]: "keeps (filedup a0)"
  unfolding filedup_def by (intro keeps_intro; simp add: shape_rules)

lemma keeps_fileclose [keeps_intro]: "keeps (fileclose a0)"
  unfolding fileclose_def by (intro keeps_intro; simp add: shape_rules)

lemma keeps_filestat [keeps_intro]: "keeps (filestat a0)"
  unfolding filestat_def by (intro keeps_intro; simp add: shape_rules)

lemma keeps_fileread [keeps_intro]: "keeps_dev a0 \<Longrightarrow> keeps (fileread a0 a1 a2 a3)"
  unfolding fileread_def by (intro keeps_intro; simp add: shape_rules)

lemma keeps_filewrite_loop [keeps_intro]: "keeps_dev a0 \<Longrightarrow> keeps (filewrite_loop a0 a1 a2 a3 a4)"
  by (induction a0 a1 a2 a3 a4 rule: filewrite_loop.induct) (subst filewrite_loop.simps, intro keeps_intro; simp add: shape_rules)+

lemma keeps_filewrite [keeps_intro]: "keeps_dev a0 \<Longrightarrow> keeps (filewrite a0 a1 a2 a3)"
  unfolding filewrite_def by (intro keeps_intro; simp add: shape_rules)

lemma keeps_pipealloc_bad [keeps_intro]: "keeps (pipealloc_bad a0 a1 a2)"
  unfolding pipealloc_bad_def by (intro keeps_intro; simp add: shape_rules)

lemma keeps_pipealloc [keeps_intro]: "keeps pipealloc"
  unfolding pipealloc_def by (intro keeps_intro; simp add: shape_rules)

subsection \<open>The console\<close>

lemma keeps_uartputc [keeps_intro]: "keeps (uartputc a0)"
  unfolding uartputc_def by (intro keeps_intro; simp add: shape_rules)

lemma keeps_uartinit [keeps_intro]: "keeps (uartinit a0)"
  unfolding uartinit_def by (intro keeps_intro; simp add: shape_rules)

lemma keeps_uartgetc [keeps_intro]: "keeps uartgetc"
  unfolding uartgetc_def by (intro keeps_intro; simp add: shape_rules)

lemma keeps_cgaputc [keeps_intro]: "keeps (cgaputc a0)"
  unfolding cgaputc_def by (intro keeps_intro; simp add: shape_rules)

lemma keeps_consputc [keeps_intro]: "keeps (consputc a0)"
  unfolding consputc_def by (intro keeps_intro; simp add: shape_rules)

lemma keeps_printint [keeps_intro]: "keeps (printint a0 a1 a2)"
  unfolding printint_def by (intro keeps_intro; simp add: shape_rules)

lemma keeps_cprintf_loop [keeps_intro]: "keeps (cprintf_loop a0 a1)"
  proof (induction a0 arbitrary: a1 rule: length_induct)
  case (1 fmt)
  note IH = 1 [rule_format]
  show ?case using IH
    by (cases "(fmt, a1)" rule: cprintf_loop.cases) (simp_all only: prod.inject cprintf_loop.simps simp_thms, (intro keeps_intro; simp)+)
qed

lemma keeps_cprintf [keeps_intro]: "keeps (cprintf a0 a1)"
  unfolding cprintf_def by (intro keeps_intro; simp add: shape_rules)

lemma keeps_procdump_thread [keeps_intro]: "keeps (procdump_thread a0 a1)"
  unfolding procdump_thread_def by (intro keeps_intro; simp add: shape_rules)

lemma keeps_procdump_proc [keeps_intro]: "keeps (procdump_proc a0)"
  unfolding procdump_proc_def by (intro keeps_intro; simp add: shape_rules)

lemma keeps_procdump [keeps_intro]: "keeps procdump"
  unfolding procdump_def by (intro keeps_intro; simp add: shape_rules)

lemma keeps_kill_line [keeps_intro]: "keeps (kill_line a0)"
  by (induction a0 rule: kill_line.induct) (subst kill_line.simps, intro keeps_intro; simp add: shape_rules)+

lemma keeps_cons_key [keeps_intro]: "keeps (cons_key a0)"
  unfolding cons_key_def by (intro keeps_intro; simp add: shape_rules)

lemma keeps_consoleintr_loop [keeps_intro]: "keeps a1 \<Longrightarrow> keeps (consoleintr_loop a0 a1 a2)"
  by (induction a0 a1 a2 rule: consoleintr_loop.induct) (subst consoleintr_loop.simps, intro keeps_intro; simp add: shape_rules)+

lemma keeps_consoleintr [keeps_intro]: "keeps a0 \<Longrightarrow> keeps (consoleintr a0)"
  unfolding consoleintr_def by (intro keeps_intro; simp add: shape_rules)

lemma keeps_consoleread_loop [keeps_intro]: "keeps (consoleread_loop a0 a1 a2 a3 a4)"
  by (induction a0 a1 a2 a3 a4 rule: consoleread_loop.induct) (subst consoleread_loop.simps, intro keeps_intro; simp add: shape_rules)+

lemma keeps_consoleread [keeps_intro]: "keeps (consoleread a0 a1 a2)"
  unfolding consoleread_def by (intro keeps_intro; simp add: shape_rules)

lemma keeps_consoleread_resume [keeps_intro]: "keeps (consoleread_resume a0 a1 a2 a3)"
  unfolding consoleread_resume_def by (intro keeps_intro; simp add: shape_rules)

lemma keeps_consolewrite [keeps_intro]: "keeps (consolewrite a0 a1 a2)"
  unfolding consolewrite_def by (intro keeps_intro; simp add: shape_rules)

lemma keeps_consoleinit [keeps_intro]: "keeps consoleinit"
  unfolding consoleinit_def by (intro keeps_intro; simp add: shape_rules)

lemma keeps_kbdgetc [keeps_intro]: "keeps kbdgetc"
  unfolding kbdgetc_def by (intro keeps_intro; simp add: shape_rules)

lemma keeps_kbdintr [keeps_intro]: "keeps kbdintr"
  unfolding kbdintr_def by (intro keeps_intro; simp add: shape_rules)

lemma keeps_uartintr [keeps_intro]: "keeps uartintr"
  unfolding uartintr_def by (intro keeps_intro; simp add: shape_rules)

lemma keeps_dev_devsw [keeps_intro]: "keeps_dev devsw_read" "keeps_dev devsw_write"
  by (auto simp: keeps_dev_def devsw_read_def devsw_write_def keeps_consoleread keeps_consolewrite split: if_splits)

lemma length_name_copy: "length (name_copy dst i src n) = length dst"
  by (induction dst i src n rule: name_copy.induct) simp_all

lemma length_set_name [shape_rules]: "length (set_name dst src) = length dst"
  by (simp add: set_name_def length_name_copy)

lemma length_wake_own [shape_rules]: "length (wake_own ts tt) = length tt"
  by (induction ts arbitrary: tt) (simp_all add: wake_own_def Let_def)

subsection \<open>Process and thread lifecycle\<close>

lemma keeps_init_kstack [keeps_intro]: "keeps (init_kstack a0 a1 a2)"
  unfolding init_kstack_def by (intro keeps_intro; simp add: shape_rules)

lemma keeps_allocproc [keeps_intro]: "keeps (allocproc a0)"
  unfolding allocproc_def by (intro keeps_intro; simp add: shape_rules)

lemma keeps_userinit [keeps_intro]: "keeps_dev a1 \<Longrightarrow> keeps (userinit a0 a1)"
  unfolding userinit_def by (intro keeps_intro; simp add: shape_rules)

lemma keeps_growproc [keeps_intro]: "keeps (growproc a0)"
  unfolding growproc_def by (intro keeps_intro; simp add: shape_rules)

lemma keeps_fork_file [keeps_intro]: "keeps (fork_file a0 a1 a2)"
  unfolding fork_file_def by (intro keeps_intro; simp add: shape_rules)

lemma keeps_fork_finish [keeps_intro]: "keeps (fork_finish a0 a1 a2 a3)"
  unfolding fork_finish_def by (intro keeps_intro; simp add: shape_rules)

lemma keeps_fork [keeps_intro]: "keeps (fork a0)"
  unfolding fork_def by (intro keeps_intro; simp add: shape_rules)

lemma keeps_forkret [keeps_intro]: "keeps forkret"
  unfolding forkret_def by (intro keeps_intro; simp add: shape_rules)

lemma keeps_request_exits [keeps_intro]: "keeps (request_exits a0 a1)"
  by (induction a1) (simp_all only: request_exits.simps, (intro keeps_intro; simp add: shape_rules)+)

lemma keeps_exit_close [keeps_intro]: "keeps (exit_close a0 a1)"
  unfolding exit_close_def by (intro keeps_intro; simp add: shape_rules)

lemma keeps_exit_orphan [keeps_intro]: "keeps (exit_orphan a0 a1)"
  unfolding exit_orphan_def by (intro keeps_intro; simp add: shape_rules)

lemma keeps_exit_tail [keeps_intro]: "keeps (exit_tail a0 a1)"
  unfolding exit_tail_def by (intro keeps_intro; simp add: shape_rules)

lemma keeps_exit [keeps_intro]: "keeps exit"
  unfolding exit_def by (intro keeps_intro; simp add: shape_rules)

lemma keeps_reap_threads [keeps_intro]: "keeps (reap_threads a0)"
  by (induction a0 rule: reap_threads.induct) (subst reap_threads.simps, intro keeps_intro; simp add: shape_rules)+

lemma keeps_reap [keeps_intro]: "keeps (reap a0)"
  unfolding reap_def by (intro keeps_intro; simp add: shape_rules)

lemma keeps_wait_scan [keeps_intro]: "keeps (wait_scan a0 a1 a2)"
  by (induction a0 a1 a2 rule: wait_scan.induct) (subst wait_scan.simps, intro keeps_intro; simp add: shape_rules)+

lemma keeps_wait_loop [keeps_intro]: "keeps (wait_loop a0)"
  unfolding wait_loop_def by (intro keeps_intro; simp add: shape_rules)

lemma keeps_wait [keeps_intro]: "keeps wait"
  unfolding wait_def by (intro keeps_intro; simp add: shape_rules)

lemma keeps_wait_resume [keeps_intro]: "keeps (wait_resume a0)"
  unfolding wait_resume_def by (intro keeps_intro; simp add: shape_rules)

lemma keeps_wakeupThreads [keeps_intro]: "keeps (wakeupThreads a0)"
  unfolding wakeupThreads_def by (intro keeps_intro; simp add: shape_rules)

lemma keeps_kthread_create [keeps_intro]: "keeps (kthread_create a0 a1 a2)"
  unfolding kthread_create_def by (intro keeps_intro; simp add: shape_rules)

lemma keeps_kthread_id [keeps_intro]: "keeps kthread_id"
  unfolding kthread_id_def by (intro keeps_intro; simp add: shape_rules)

lemma keeps_kthread_exit [keeps_intro]: "keeps kthread_exit"
  unfolding kthread_exit_def by (intro keeps_intro; simp add: shape_rules)

lemma keeps_join_loop [keeps_intro]: "keeps (join_loop a0)"
  unfolding join_loop_def by (intro keeps_intro; simp add: shape_rules)

lemma keeps_kthread_join [keeps_intro]: "keeps (kthread_join a0)"
  unfolding kthread_join_def by (intro keeps_intro; simp add: shape_rules)

lemma keeps_kthread_join_resume [keeps_intro]: "keeps (kthread_join_resume a0)"
  unfolding kthread_join_resume_def by (intro keeps_intro; simp add: shape_rules)

subsection \<open>Program loading\<close>

lemma keeps_loaduvm_loop [keeps_intro]: "keeps (loaduvm_loop a0 a1 a2 a3 a4 a5 a6)"
  by (induction a0 a1 a2 a3 a4 a5 a6 rule: loaduvm_loop.induct) (subst loaduvm_loop.simps, intro keeps_intro; simp add: shape_rules)+

lemma keeps_loaduvm [keeps_intro]: "keeps (loaduvm a0 a1 a2 a3 a4)"
  unfolding loaduvm_def by (intro keeps_intro; simp add: shape_rules)

lemma keeps_exec_load [keeps_intro]: "keeps (exec_load a0 a1 a2 a3 a4)"
  by (induction a0 a1 a2 a3 a4 rule: exec_load.induct) (subst exec_load.simps, intro keeps_intro; simp add: shape_rules)+

lemma keeps_exec_args [keeps_intro]: "keeps (exec_args a0 a1 a2 a3)"
  by (induction a0 a1 a2 a3 rule: exec_args.induct) (subst exec_args.simps, intro keeps_intro; simp add: shape_rules)+

lemma keeps_exec_bad [keeps_intro]: "keeps (exec_bad a0 a1)"
  unfolding exec_bad_def by (intro keeps_intro; simp add: shape_rules)

lemma keeps_exec_finish [keeps_intro]: "keeps (exec_finish a0 a1 a2 a3 a4 a5 a6)"
  unfolding exec_finish_def by (intro keeps_intro; simp add: shape_rules)

lemma keeps_exec [keeps_intro]: "keeps (exec a0 a1 a2)"
  unfolding exec_def by (intro keeps_intro; simp add: shape_rules)

subsection \<open>System calls and traps\<close>

lemma keeps_my_sz [keeps_intro]: "keeps my_sz"
  unfolding my_sz_def by (intro keeps_intro; simp add: shape_rules)

lemma keeps_fetchint [keeps_intro]: "keeps (fetchint a0)"
  unfolding fetchint_def by (intro keeps_intro; simp add: shape_rules)

lemma keeps_fetchstr [keeps_intro]: "keeps (fetchstr a0)"
  unfolding fetchstr_def by (intro keeps_intro; simp add: shape_rules)

lemma keeps_argint [keeps_intro]: "keeps (argint a0)"
  unfolding argint_def by (intro keeps_intro; simp add: shape_rules)

lemma keeps_argptr [keeps_intro]: "keeps (argptr a0 a1)"
  unfolding argptr_def by (intro keeps_intro; simp add: shape_rules)

lemma keeps_argstr [keeps_intro]: "keeps (argstr a0)"
  unfolding argstr_def by (intro keeps_intro; simp add: shape_rules)

lemma keeps_sys_fork [keeps_intro]: "keeps (sys_fork a0)"
  unfolding sys_fork_def by (intro keeps_intro; simp add: shape_rules)

lemma keeps_sys_exit [keeps_intro]: "keeps sys_exit"
  unfolding sys_exit_def by (intro keeps_intro; simp add: shape_rules)

lemma keeps_sys_wait [keeps_intro]: "keeps sys_wait"
  unfolding sys_wait_def by (intro keeps_intro; simp add: shape_rules)

lemma keeps_with_int [keeps_intro]: "(\<And>n. keeps (a1 n)) \<Longrightarrow> keeps (with_int a0 a1)"
  unfolding with_int_def by (intro keeps_intro; simp add: shape_rules)

lemma keeps_sys_kill [keeps_intro]: "keeps sys_kill"
  unfolding sys_kill_def by (intro keeps_intro; simp add: shape_rules)

lemma keeps_sys_getpid [keeps_intro]: "keeps sys_getpid"
  unfolding sys_getpid_def by (intro keeps_intro; simp add: shape_rules)

lemma keeps_sys_sbrk [keeps_intro]: "keeps sys_sbrk"
  unfolding sys_sbrk_def by (intro keeps_intro; simp add: shape_rules)

lemma keeps_sleep_ticks_loop [keeps_intro]: "keeps (sleep_ticks_loop a0 a1)"
  unfolding sleep_ticks_loop_def by (intro keeps_intro; simp add: shape_rules)

lemma keeps_sys_sleep [keeps_intro]: "keeps sys_sleep"
  unfolding sys_sleep_def by (intro keeps_intro; simp add: shape_rules)

lemma keeps_sys_sleep_resume [keeps_intro]: "keeps (sys_sleep_resume a0 a1)"
  unfolding sys_sleep_resume_def by (intro keeps_intro; simp add: shape_rules)

lemma keeps_sys_uptime [keeps_intro]: "keeps sys_uptime"
  unfolding sys_uptime_def by (intro keeps_intro; simp add: shape_rules)

lemma keeps_sys_kthread_exit [keeps_intro]: "keeps sys_kthread_exit"
  unfolding sys_kthread_exit_def by (intro keeps_intro; simp add: shape_rules)

lemma keeps_sys_kthread_create [keeps_intro]: "keeps (sys_kthread_create a0)"
  unfolding sys_kthread_create_def by (intro keeps_intro; simp add: shape_rules)

lemma keeps_sys_kthread_id [keeps_intro]: "keeps sys_kthread_id"
  unfolding sys_kthread_id_def by (intro keeps_intro; simp add: shape_rules)

lemma keeps_sys_kthread_join [keeps_intro]: "keeps sys_kthread_join"
  unfolding sys_kthread_join_def by (intro keeps_intro; simp add: shape_rules)

lemma keeps_sys_kthread_mutex_alloc [keeps_intro]: "keeps sys_kthread_mutex_alloc"
  unfolding sys_kthread_mutex_alloc_def by (intro keeps_intro; simp add: shape_rules)

lemma keeps_sys_kthread_mutex_dealloc [keeps_intro]: "keeps sys_kthread_mutex_dealloc"
  unfolding sys_kthread_mutex_dealloc_def by (intro keeps_intro; simp add: shape_rules)

lemma keeps_sys_kthread_mutex_lock [keeps_intro]: "keeps sys_kthread_mutex_lock"
  unfolding sys_kthread_mutex_lock_def by (intro keeps_intro; simp add: shape_rules)

lemma keeps_sys_kthread_mutex_unlock [keeps_intro]: "keeps sys_kthread_mutex_unlock"
  unfolding sys_kthread_mutex_unlock_def by (intro keeps_intro; simp add: shape_rules)

lemma keeps_argfd [keeps_intro]: "keeps (argfd a0)"
  unfolding argfd_def by (intro keeps_intro; simp add: shape_rules)

lemma keeps_fdalloc [keeps_intro]: "keeps (fdalloc a0)"
  unfolding fdalloc_def by (intro keeps_intro; simp add: shape_rules)

lemma keeps_clear_fd [keeps_intro]: "keeps (clear_fd a0)"
  unfolding clear_fd_def by (intro keeps_intro; simp add: shape_rules)

lemma keeps_sys_dup [keeps_intro]: "keeps sys_dup"
  unfolding sys_dup_def by (intro keeps_intro; simp add: shape_rules)

lemma keeps_with_buf [keeps_intro]: "(\<And>f b n. keeps (a0 f b n)) \<Longrightarrow> keeps (with_buf a0)"
  unfolding with_buf_def by (intro keeps_intro; simp add: shape_rules)

lemma keeps_sys_read [keeps_intro]: "keeps sys_read"
  unfolding sys_read_def by (intro keeps_intro; simp add: shape_rules)

lemma keeps_sys_write [keeps_intro]: "keeps sys_write"
  unfolding sys_write_def by (intro keeps_intro; simp add: shape_rules)

lemma keeps_sys_close [keeps_intro]: "keeps sys_close"
  unfolding sys_close_def by (intro keeps_intro; simp add: shape_rules)

lemma keeps_store_stat [keeps_intro]: "keeps (store_stat a0 a1)"
  unfolding store_stat_def by (intro keeps_intro; simp add: shape_rules)

lemma keeps_sys_fstat [keeps_intro]: "keeps sys_fstat"
  unfolding sys_fstat_def by (intro keeps_intro; simp add: shape_rules)

lemma keeps_sys_link_bad [keeps_intro]: "keeps (sys_link_bad a0)"
  unfolding sys_link_bad_def by (intro keeps_intro; simp add: shape_rules)

lemma keeps_sys_link [keeps_intro]: "keeps sys_link"
  unfolding sys_link_def by (intro keeps_intro; simp add: shape_rules)

lemma keeps_isdirempty_loop [keeps_intro]: "keeps (isdirempty_loop a0 a1)"
  by (induction a0 a1 rule: isdirempty_loop.induct) (subst isdirempty_loop.simps, intro keeps_intro; simp add: shape_rules)+

lemma keeps_isdirempty [keeps_intro]: "keeps (isdirempty a0)"
  unfolding isdirempty_def by (intro keeps_intro; simp add: shape_rules)

lemma keeps_sys_unlink_bad [keeps_intro]: "keeps (sys_unlink_bad a0)"
  unfolding sys_unlink_bad_def by (intro keeps_intro; simp add: shape_rules)

lemma keeps_sys_unlink [keeps_intro]: "keeps sys_unlink"
  unfolding sys_unlink_def by (intro keeps_intro; simp add: shape_rules)

lemma keeps_create [keeps_intro]: "keeps (create a0 a1 a2 a3)"
  unfolding create_def by (intro keeps_intro; simp add: shape_rules)

lemma keeps_open_inode [keeps_intro]: "keeps (open_inode a0 a1)"
  unfolding open_inode_def by (intro keeps_intro; simp add: shape_rules)

lemma keeps_open_file [keeps_intro]: "keeps (open_file a0 a1)"
  unfolding open_file_def by (intro keeps_intro; simp add: shape_rules)

lemma keeps_sys_open [keeps_intro]: "keeps sys_open"
  unfolding sys_open_def by (intro keeps_intro; simp add: shape_rules)

lemma keeps_make_node [keeps_intro]: "keeps (make_node a0 a1 a2 a3)"
  unfolding make_node_def by (intro keeps_intro; simp add: shape_rules)

lemma keeps_sys_mkdir [keeps_intro]: "keeps sys_mkdir"
  unfolding sys_mkdir_def by (intro keeps_intro; simp add: shape_rules)

lemma keeps_sys_mknod [keeps_intro]: "keeps sys_mknod"
  unfolding sys_mknod_def by (intro keeps_intro; simp add: shape_rules)

lemma keeps_sys_chdir [keeps_intro]: "keeps sys_chdir"
  unfolding sys_chdir_def by (intro keeps_intro; simp add: shape_rules)

lemma keeps_fetch_argv [keeps_intro]: "keeps (fetch_argv a0 a1)"
  by (induction a0 a1 rule: fetch_argv.induct) (subst fetch_argv.simps, intro keeps_intro; simp add: shape_rules)+

lemma keeps_sys_exec [keeps_intro]: "keeps (sys_exec a0)"
  unfolding sys_exec_def by (intro keeps_intro; simp add: shape_rules)

lemma keeps_sys_pipe [keeps_intro]: "keeps sys_pipe"
  unfolding sys_pipe_def by (intro keeps_intro; simp add: shape_rules)

lemma keeps_syscalls: "syscalls sy num = Some f \<Longrightarrow> keeps f"
  unfolding syscalls_def by (drule map_of_SomeD) (auto intro: keeps_intro)

lemma keeps_syscall [keeps_intro]: "keeps (syscall a0)"
  unfolding syscall_def by (intro keeps_intro; (erule keeps_syscalls | simp add: shape_rules))

lemma keeps_check_exit [keeps_intro]: "keeps check_exit"
  unfolding check_exit_def by (intro keeps_intro; simp add: shape_rules)

lemma keeps_check_exit_user [keeps_intro]: "keeps (check_exit_user a0)"
  unfolding check_exit_user_def by (intro keeps_intro; simp add: shape_rules)

lemma keeps_clock_tick [keeps_intro]: "keeps clock_tick"
  unfolding clock_tick_def by (intro keeps_intro; simp add: shape_rules)

lemma keeps_trap_default [keeps_intro]: "keeps (trap_default a0 a1)"
  unfolding trap_default_def by (intro keeps_intro; simp add: shape_rules)

lemma keeps_trap [keeps_intro]: "keeps (trap a0 a1 a2)"
  unfolding trap_def by (intro keeps_intro; simp add: shape_rules)

lemma keeps_trap_resume [keeps_intro]: "keeps (trap_resume a0)"
  unfolding trap_resume_def by (intro keeps_intro; simp add: shape_rules)

section \<open>The kernel as a whole\<close>

text \<open>
  What the machine does between two states of the kernel: a processor takes a trap, a thread that had
  given the processor away goes on, a scheduler picks a thread, user code writes its memory, or
  another processor makes the next step. A step ends where the operation returns, gives the
  processor away or spins.
\<close>

inductive kernel_step :: "symbols \<Rightarrow> kernel \<Rightarrow> kernel \<Rightarrow> bool" for sy :: symbols where
  trapped: "res_state (trap sy f cr2 s) = Some u \<Longrightarrow> kernel_step sy s u"
| preempted: "res_state (trap_resume f s) = Some u \<Longrightarrow> kernel_step sy s u"
| first_run: "res_state (forkret s) = Some u \<Longrightarrow> kernel_step sy s u"
| woken: "res_state (sleep_resume lk s) = Some u \<Longrightarrow> kernel_step sy s u"
| woken_waiting: "res_state (wait_resume p s) = Some u \<Longrightarrow> kernel_step sy s u"
| woken_joining: "res_state (kthread_join_resume j s) = Some u \<Longrightarrow> kernel_step sy s u"
| woken_sleeping: "res_state (sys_sleep_resume n t0 s) = Some u \<Longrightarrow> kernel_step sy s u"
| woken_mutex: "res_state (mutex_lock_resume mx th s) = Some u \<Longrightarrow> kernel_step sy s u"
| woken_sleeplock: "res_state (acquiresleep_resume l s) = Some u \<Longrightarrow> kernel_step sy s u"
| woken_log: "res_state (begin_op_resume s) = Some u \<Longrightarrow> kernel_step sy s u"
| woken_reader: "res_state (piperead_resume a ua n s) = Some u \<Longrightarrow> kernel_step sy s u"
| woken_writer: "res_state (pipewrite_resume a ua n i s) = Some u \<Longrightarrow> kernel_step sy s u"
| woken_console: "res_state (consoleread_resume ip dst n got s) = Some u \<Longrightarrow> kernel_step sy s u"
| picked: "res_state (scheduler_begin s) = Some u \<Longrightarrow> kernel_step sy s u"
| switched_back: "res_state (scheduler_continue p t s) = Some u \<Longrightarrow> kernel_step sy s u"
| user_code: "kernel_step sy s (s\<lparr>mem := m\<rparr>)"
| other_cpu: "kernel_step sy s (run_on c s)"

definition typed :: "kernel \<Rightarrow> bool" where
  "typed s \<longleftrightarrow> length (procs s) = NPROC \<and> (\<forall>p \<in> set (procs s). length (ofile p) = NOFILE \<and> length (pname p) = 16) \<and>
     NPROC * NTHREAD \<le> length (ttable s) \<and> MAX_MUTEXES \<le> length (mutexes s) \<and> length (bufs s) = NBUF \<and>
     length (inodes s) = NINODE \<and> length (files s) = NFILE"

lemma keepsD: "keeps m \<Longrightarrow> res_state (m s) = Some u \<Longrightarrow> shape u = shape s"
  by (simp add: keeps_def)

lemma shape_run_on: "shape (run_on c s) = shape s"
  by (simp add: run_on_def shape_def)

lemma typed_of_shape:
  "typed s = (case shape s of (ns, ps) \<Rightarrow> length ps = NPROC \<and> set ps \<subseteq> {(NOFILE, 16)} \<and> NPROC * NTHREAD \<le> ns ! 1 \<and>
     MAX_MUTEXES \<le> ns ! 2 \<and> ns ! 3 = NBUF \<and> ns ! 5 = NINODE \<and> ns ! 6 = NFILE)"
  by (auto simp: typed_def shape_def)

lemma typed_shape: "shape u = shape s \<Longrightarrow> typed u = typed s"
  by (simp only: typed_of_shape)

lemma kernel_step_shape: "kernel_step sy s u \<Longrightarrow> shape u = shape s"
  by (induction rule: kernel_step.induct) ((erule keepsD [rotated], intro keeps_intro) | simp add: shape_rules shape_run_on)+

interpretation kernel_types: step_invariant typed "kernel_step sy" typed for sy
  by unfold_locales (simp_all add: kernel_step_shape [THEN typed_shape])


lemma check_exit_user_kernel:
  assumes c: "caller p t s" and f: "tf_cs f AND 3 \<noteq> DPL_USER"
  shows "check_exit_user f s = Ok () (settle s)"
  using f mythread_caller(1) [OF c] mythread_caller(2) [OF caller_settle [OF c]] by (simp add: check_exit_user_def kexec)

lemma disk_interrupt:
  assumes c: "caller p t s" and f: "tf_trapno f = 46" "tf_cs f = 0"
  shows "trap sy f cr2 s = Ok () (settle s)"
proof -
  have u: "tf_cs f AND 3 \<noteq> DPL_USER" using f by (simp add: DPL_USER_def)
  have "trap sy f cr2 s = kseq (kret ()) (kseq (check_exit_user f) (kbind mythread (\<lambda>t0.
        kbind (case t0 of None \<Rightarrow> kret False | Some t \<Rightarrow> kget (\<lambda>s. tstate (ttable s ! t) = RUNNING)) (\<lambda>r. check_exit_user f)))) s"
    unfolding trap_def f(1) by (simp add: T_SYSCALL_def T_IRQ0_def)
  also have "\<dots> = Ok () (settle s)"
    using check_exit_user_kernel [OF c u] check_exit_user_kernel [OF caller_settle [OF c] u] mythread_caller(1) [OF caller_settle [OF c]]
    by (simp add: kexec)
  finally show ?thesis .
qed

definition typed_scene :: kernel where
  "typed_scene = kscene 1 16 (replicate 64 (proc0\<lparr>pname := replicate 16 0\<rparr>)) (family_threads (thread_in RUNNING 4 1) thread0 thread0)"

lemma typed_scene_ok: "typed typed_scene" "caller 1 16 typed_scene"
proof -
  have "length (bufs typed_scene) = NBUF" "length (mutexes typed_scene) = 65" "length (inodes typed_scene) = 50"
    by (simp_all add: typed_scene_def kscene_def life.extend_def scene_def life0_def parked_c_def parked_p_def parked_f_def parked_l_def
        parked_b_def parked_k_def parked_m_def parked_sl_def ptable.extend_def sltable.extend_def mtable.extend_def kmem.extend_def
        bcache.extend_def logged.extend_def fsys.extend_def ftab.extend_def cons_state.extend_def MAX_MUTEXES_def NBUF_def)
  then show "typed typed_scene"
    by (simp add: typed_def) (simp add: typed_scene_def kscene_fields family_simps proc0_def NPROC_def NTHREAD_def NOFILE_def NINODE_def NFILE_def MAX_MUTEXES_def)
  show "caller 1 16 typed_scene" unfolding typed_scene_def by (rule kscene_caller) (simp_all add: family_simps)
qed


end
