(* ===== verification/Ulib.thy ===== *)
theory Ulib
  imports Mem
begin

text \<open>
  The user library: strings and memory (\<open>ulib.c\<close>) and formatted output (\<open>printf.c\<close>), over the memory of
  the process. A loop that looks for a terminator is a partial function: it is undefined where the
  loop does not end. Output is the list of bytes written, each by a \<open>write\<close> of one byte.
\<close>

subsection \<open>Strings\<close>

partial_function (option) u_strcpy :: "uint \<Rightarrow> uint \<Rightarrow> memory \<Rightarrow> memory option" where
  "u_strcpy s t m = (if m t \<noteq> 0 then u_strcpy (s + 1) (t + 1) (m(s := m t)) else Some (m(s := m t)))"

partial_function (option) u_strcmp :: "memory \<Rightarrow> uint \<Rightarrow> uint \<Rightarrow> int option" where
  "u_strcmp m p q = (if m p \<noteq> 0 \<and> m p = m q then u_strcmp m (p + 1) (q + 1) else Some (uint (m p) - uint (m q)))"

partial_function (option) u_strlen_from :: "memory \<Rightarrow> uint \<Rightarrow> nat \<Rightarrow> nat option" where
  "u_strlen_from m s n = (if m (s + of_nat n) \<noteq> 0 then u_strlen_from m s (Suc n) else Some n)"

definition u_strlen :: "memory \<Rightarrow> uint \<Rightarrow> nat option" where
  "u_strlen m s = u_strlen_from m s 0"

definition u_memset :: "uint \<Rightarrow> uint \<Rightarrow> uint \<Rightarrow> memory \<Rightarrow> memory" where
  "u_memset dst c n m = stosb dst (ucast c) (unat n) m"

partial_function (option) u_strchr :: "memory \<Rightarrow> uint \<Rightarrow> uchar \<Rightarrow> uint option" where
  "u_strchr m s c = (if m s = 0 then Some 0 else if m s = c then Some s else u_strchr m (s + 1) c)"

text \<open>
  Standard input is the list of bytes to come; \<open>read\<close> of one byte takes the first or reports the
  end. The result is the memory and the input left.
\<close>

fun gets_loop :: "uint \<Rightarrow> nat \<Rightarrow> uchar list \<Rightarrow> memory \<Rightarrow> memory \<times> uchar list" where
  "gets_loop a 0 inp m = (m(a := 0), inp)"
| "gets_loop a (Suc n) [] m = (m(a := 0), [])"
| "gets_loop a (Suc n) (c # inp) m =
     (if c = 10 \<or> c = 13 then (m(a := c, a + 1 := 0), inp) else gets_loop (a + 1) n inp (m(a := c)))"

definition gets :: "uint \<Rightarrow> int \<Rightarrow> uchar list \<Rightarrow> memory \<Rightarrow> memory \<times> uchar list" where
  "gets buf mx inp m = gets_loop buf (nat (mx - 1)) inp m"

partial_function (option) atoi_loop :: "memory \<Rightarrow> uint \<Rightarrow> uint \<Rightarrow> uint option" where
  "atoi_loop m s n = (if 48 \<le> m s \<and> m s \<le> 57 then atoi_loop m (s + 1) (n * 10 + ucast (m s) - 48) else Some n)"

definition atoi :: "memory \<Rightarrow> uint \<Rightarrow> uint option" where
  "atoi m s = atoi_loop m s 0"

definition u_memmove :: "uint \<Rightarrow> uint \<Rightarrow> int \<Rightarrow> memory \<Rightarrow> memory" where
  "u_memmove vdst vsrc n m = copy_up vdst vsrc (nat n) m"

subsection \<open>Formatted output\<close>

text \<open>
  A string argument of \<open>printf\<close> carries its bytes; a number where a string is expected is only
  allowed as the null pointer. The digits of a number go into a buffer of 16 bytes.
\<close>

datatype uarg = UNum uint | UStr "uchar list"

definition u_digit :: "uint \<Rightarrow> uchar" where
  "u_digit d = of_char (''0123456789ABCDEF'' ! unat d)"

fun u_print_buf :: "nat \<Rightarrow> uint \<Rightarrow> uint \<Rightarrow> uchar list option" where
  "u_print_buf 0 base x = None"
| "u_print_buf (Suc n) base x =
     (let d = u_digit (x mod base); x' = x div base
      in if x' \<noteq> 0 then map_option ((#) d) (u_print_buf n base x') else Some [d])"

definition u_printint :: "uint \<Rightarrow> uint \<Rightarrow> bool \<Rightarrow> uchar list option" where
  "u_printint xx base sign =
     (let neg = sign \<and> sint xx < 0; x = (if neg then - xx else xx)
      in case u_print_buf 16 base x of
           None \<Rightarrow> None
         | Some buf \<Rightarrow>
             (let buf = buf @ (if neg then [of_char CHR ''-''] else [])
              in if length buf > 16 then None else Some (rev buf)))"

definition out_app :: "uchar list option \<Rightarrow> uchar list option \<Rightarrow> uchar list option" where
  "out_app a b = (case a of None \<Rightarrow> None | Some x \<Rightarrow> map_option ((@) x) b)"

fun printf :: "uchar list \<Rightarrow> uarg list \<Rightarrow> uchar list option" where
  "printf [] args = Some []"
| "printf [c] args = (if c \<noteq> of_char CHR ''%'' then Some [c] else Some [])"
| "printf (c # d # fmt) args =
     (if c \<noteq> of_char CHR ''%'' then out_app (Some [c]) (printf (d # fmt) args)
      else if d = of_char CHR ''d'' then
        (case args of UNum x # rest \<Rightarrow> out_app (u_printint x 10 True) (printf fmt rest) | _ \<Rightarrow> None)
      else if d = of_char CHR ''x'' \<or> d = of_char CHR ''p'' then
        (case args of UNum x # rest \<Rightarrow> out_app (u_printint x 16 False) (printf fmt rest) | _ \<Rightarrow> None)
      else if d = of_char CHR ''s'' then
        (case args of
           UStr bs # rest \<Rightarrow> out_app (Some (takeWhile (\<lambda>b. b \<noteq> 0) bs)) (printf fmt rest)
         | UNum x # rest \<Rightarrow> if x = 0 then out_app (Some (map of_char ''(null)'')) (printf fmt rest) else None
         | _ \<Rightarrow> None)
      else if d = of_char CHR ''c'' then
        (case args of UNum x # rest \<Rightarrow> out_app (Some [ucast x]) (printf fmt rest) | _ \<Rightarrow> None)
      else if d = of_char CHR ''%'' then out_app (Some [d]) (printf fmt args)
      else out_app (Some [of_char CHR ''%'', d]) (printf fmt args))"

subsection \<open>Strings in memory\<close>

definition cstr :: "memory \<Rightarrow> uint \<Rightarrow> uchar list \<Rightarrow> bool" where
  "cstr m a bs \<longleftrightarrow> length bs < 2 ^ 32 \<and> 0 \<notin> set bs \<and> (\<forall>i < length bs. m (a + of_nat i) = bs ! i) \<and> m (a + of_nat (length bs)) = 0"

lemma cstr_Nil: "cstr m a [] \<longleftrightarrow> m a = 0"
  by (simp add: cstr_def)

lemma cstr_Cons: "cstr m a (b # bs) \<longleftrightarrow> m a = b \<and> b \<noteq> 0 \<and> cstr m (a + 1) bs \<and> Suc (length bs) < 2 ^ 32"
  unfolding cstr_def by (auto simp: All_less_Suc2 add_ac)

lemma u_strlen_from_ok: "cstr m (a + of_nat n) bs \<Longrightarrow> u_strlen_from m a n = Some (n + length bs)"
proof (induction bs arbitrary: n)
  case Nil
  then show ?case by (subst u_strlen_from.simps) (simp add: cstr_Nil)
next
  case (Cons b bs)
  then have "u_strlen_from m a (Suc n) = Some (Suc n + length bs)" by (intro Cons.IH) (simp add: cstr_Cons add_ac)
  with Cons.prems show ?case by (subst u_strlen_from.simps) (simp add: cstr_Cons)
qed

lemma u_strlen_ok: "cstr m a bs \<Longrightarrow> u_strlen m a = Some (length bs)"
  using u_strlen_from_ok [of m a 0 bs] by (simp add: u_strlen_def)

lemma u_strcmp_ok:
  assumes "cstr m p xs" and "cstr m q ys"
  shows "\<exists>d. u_strcmp m p q = Some d \<and> (d = 0 \<longleftrightarrow> xs = ys)"
  using assms
proof (induction xs arbitrary: p q ys)
  case Nil
  then show ?case by (subst u_strcmp.simps) (cases ys; simp add: cstr_Nil cstr_Cons uint_0_iff)
next
  case (Cons x xs)
  show ?case
  proof (cases "m q = x")
    case True
    with Cons.prems obtain y zs where "ys = y # zs" by (cases ys) (auto simp: cstr_Nil cstr_Cons)
    with Cons.prems Cons.IH [of "p + 1" "q + 1" zs] True show ?thesis by (subst u_strcmp.simps) (auto simp: cstr_Cons)
  next
    case False
    with Cons.prems show ?thesis by (subst u_strcmp.simps) (cases ys; auto simp: cstr_Nil cstr_Cons uint_0_iff dest: unsigned_word_eqI)
  qed
qed

lemma u_strchr_ok:
  "cstr m a bs \<Longrightarrow> u_strchr m a c = Some (if c \<in> set bs then a + of_nat (length (takeWhile (\<lambda>b. b \<noteq> c) bs)) else 0)"
proof (induction bs arbitrary: a)
  case Nil
  then show ?case by (subst u_strchr.simps) (simp add: cstr_Nil)
next
  case (Cons b bs)
  then show ?case using Cons.IH [of "a + 1"] by (subst u_strchr.simps) (auto simp: cstr_Cons add_ac)
qed


text \<open>The copy is the string, everything outside it is as before, as long as source and copy do not overlap.\<close>

lemma u_strcpy_ok:
  assumes "cstr m t bs" and "\<And>i j. i \<le> length bs \<Longrightarrow> j \<le> length bs \<Longrightarrow> s + of_nat i \<noteq> t + of_nat j"
  shows "\<exists>m'. u_strcpy s t m = Some m' \<and> cstr m' s bs \<and> (\<forall>a. length bs < unat (a - s) \<longrightarrow> m' a = m a)"
  using assms
proof (induction bs arbitrary: s t m)
  case Nil
  then have "u_strcpy s t m = Some (m(s := 0))" by (subst u_strcpy.simps) (simp add: cstr_Nil)
  then show ?case by (auto simp: cstr_Nil)
next
  case (Cons b bs)
  let ?m = "m(s := b)"
  have far: "s + 1 + of_nat i \<noteq> t + 1 + of_nat j" if "i \<le> length bs" "j \<le> length bs" for i j
    using Cons.prems(2) [of "Suc i" "Suc j"] that by (simp add: add_ac)
  have c: "cstr m (t + 1) bs" "m t = b" "b \<noteq> 0" "Suc (length bs) < 2 ^ 32" using Cons.prems(1) by (simp_all add: cstr_Cons)
  have "?m (t + 1 + of_nat j) = m (t + 1 + of_nat j)" if "j \<le> length bs" for j
    using Cons.prems(2) [of 0 "Suc j"] that by (auto simp: add_ac)
  then have "cstr ?m (t + 1) bs" using c(1) by (simp add: cstr_def)
  from Cons.IH [OF this far] obtain m' where m': "u_strcpy (s + 1) (t + 1) ?m = Some m'" "cstr m' (s + 1) bs"
    "\<And>a. length bs < unat (a - (s + 1)) \<Longrightarrow> m' a = ?m a" by blast
  have w: "unat (s - (s + 1)) = 2 ^ 32 - 1" by (simp add: unat_max)
  have "m' s = b" using m'(3) [of s] c(4) w by simp
  moreover have "m' a = m a" if a: "Suc (length bs) < unat (a - s)" for a
  proof -
    have "a - s \<noteq> 0" using a by auto
    then have "unat (a - (s + 1)) = unat (a - s) - 1" using unat_pred [of "a - s"] by (simp add: diff_diff_eq)
    with a m'(3) [of a] show ?thesis by auto
  qed
  moreover have "u_strcpy s t m = Some m'" using c m'(1) by (subst u_strcpy.simps) simp
  ultimately show ?case using m'(2) c by (auto simp: cstr_Cons)
qed

subsection \<open>Numbers\<close>

definition atoi_step :: "uchar \<Rightarrow> uint \<Rightarrow> uint" where
  "atoi_step b n = n * 10 + ucast b - 48"

definition decimal :: "uchar list \<Rightarrow> bool" where
  "decimal bs \<longleftrightarrow> (\<forall>b \<in> set bs. 48 \<le> b \<and> b \<le> 57)"

lemma atoi_loop_ok:
  "cstr m a bs \<Longrightarrow> decimal bs \<Longrightarrow> atoi_loop m a n = Some (fold atoi_step bs n)"
proof (induction bs arbitrary: a n)
  case Nil
  then show ?case by (subst atoi_loop.simps) (simp add: cstr_Nil)
next
  case (Cons b bs)
  then have "atoi_loop m (a + 1) (atoi_step b n) = Some (fold atoi_step bs (atoi_step b n))"
    by (intro Cons.IH) (simp_all add: cstr_Cons decimal_def)
  with Cons.prems show ?case by (subst atoi_loop.simps) (simp add: cstr_Cons decimal_def atoi_step_def)
qed

lemma u_digit_decimal:
  assumes "unat d < 10"
  shows "48 \<le> u_digit d \<and> u_digit d \<le> 57 \<and> ucast (u_digit d) = d + 48"
proof -
  from assms have "unat d \<in> {0, 1, 2, 3, 4, 5, 6, 7, 8, 9}" by auto
  then have "of_nat (unat d) \<in> (of_nat :: nat \<Rightarrow> uint) ` {0, 1, 2, 3, 4, 5, 6, 7, 8, 9}" by (rule imageI)
  then have "d \<in> {0, 1, 2, 3, 4, 5, 6, 7, 8, 9}" by simp
  then show ?thesis by (auto simp: u_digit_def)
qed

lemma u_print_buf_ok:
  "u_print_buf n 10 x = Some ds \<Longrightarrow> decimal ds \<and> ds \<noteq> [] \<and> foldr atoi_step ds 0 = x"
proof (induction n arbitrary: x ds)
  case (Suc n)
  let ?d = "x mod 10"
  have "unat ?d < 10" by (simp add: unat_mod)
  note d = u_digit_decimal [OF this]
  have x: "x div 10 * 10 + ?d = x" by (rule div_mult_mod_eq)
  show ?case
  proof (cases "x div 10 = 0")
    case True
    then have "ds = [u_digit ?d]" using Suc.prems by (simp add: Let_def)
    with d x True show ?thesis by (simp add: decimal_def atoi_step_def)
  next
    case False
    with Suc.prems obtain es where e: "u_print_buf n 10 (x div 10) = Some es" "ds = u_digit ?d # es" by (auto simp: Let_def)
    from Suc.IH [OF e(1)] d x e(2) show ?thesis by (simp add: decimal_def atoi_step_def)
  qed
qed simp

lemma u_print_buf_fits: "unat x < 10 ^ n \<Longrightarrow> 0 < n \<Longrightarrow> \<exists>ds. u_print_buf n 10 x = Some ds \<and> length ds \<le> n"
proof (induction n arbitrary: x)
  case (Suc n)
  show ?case
  proof (cases "x div 10 = 0")
    case False
    then have p: "0 < unat (x div 10)" by (simp add: unat_gt_0)
    have l: "unat (x div 10) < 10 ^ n" using Suc.prems(1) by (simp add: unat_div)
    with p have "0 < n" by (cases n) auto
    from Suc.IH [OF l this] False show ?thesis by (auto simp: Let_def)
  qed (simp add: Let_def)
qed simp

text \<open>C40. Numbers survive printing and reading: for every number that fits an \<open>int\<close> and is not negative,
  \<open>printf\<close> with \<open>%d\<close> succeeds within its buffer, and \<open>atoi\<close> on the printed string, wherever it lies in
  memory, returns the number.\<close>

theorem printf_atoi_roundtrip:
  assumes "0 \<le> sint x"
  shows "\<exists>bs. printf (map of_char ''%d'') [UNum x] = Some bs \<and> (\<forall>m a. cstr m a bs \<longrightarrow> atoi m a = Some x)"
proof -
  have "unat x < 10 ^ 16" using unat_lt32 [of x] by simp
  then obtain ds where ds: "u_print_buf 16 10 x = Some ds" "length ds \<le> 16" using u_print_buf_fits [of x 16] by auto
  then have p: "printf (map of_char ''%d'') [UNum x] = Some (rev ds)" using assms by (simp add: u_printint_def out_app_def)
  have "atoi m a = Some x" if "cstr m a (rev ds)" for m a
    using atoi_loop_ok [OF that, of 0] u_print_buf_ok [OF ds(1)] by (simp add: atoi_def decimal_def foldr_conv_fold)
  with p show ?thesis by blast
qed

text \<open>The string routines of the user library return on terminated strings, with the right answer:
  the length, whether two strings are equal, the first occurrence of a byte or the null pointer, and
  the copy, which is written without disturbing any other memory as long as it does not overlap its source.\<close>

lemma ulib_strings_return:
  assumes "cstr m p xs" and "cstr m q ys"
  shows "u_strlen m p = Some (length xs) \<and>
    (\<exists>d. u_strcmp m p q = Some d \<and> (d = 0 \<longleftrightarrow> xs = ys)) \<and>
    (\<exists>r. u_strchr m p c = Some r \<and> (c \<notin> set xs \<longrightarrow> r = 0) \<and>
       (c \<in> set xs \<longrightarrow> (\<exists>i < length xs. r = p + of_nat i \<and> xs ! i = c \<and> (\<forall>j < i. xs ! j \<noteq> c)))) \<and>
    ((\<forall>i j. i \<le> length xs \<longrightarrow> j \<le> length xs \<longrightarrow> s + of_nat i \<noteq> p + of_nat j) \<longrightarrow>
       (\<exists>m'. u_strcpy s p m = Some m' \<and> cstr m' s xs \<and> (\<forall>a. length xs < unat (a - s) \<longrightarrow> m' a = m a)))"
proof (intro conjI impI)
  let ?k = "length (takeWhile (\<lambda>b. b \<noteq> c) xs)"
  have "?k < length xs \<and> xs ! ?k = c \<and> (\<forall>j < ?k. xs ! j \<noteq> c)" if "c \<in> set xs"
    using that nth_length_takeWhile [of "\<lambda>b. b \<noteq> c" xs] length_takeWhile_le [of "\<lambda>b. b \<noteq> c" xs]
      takeWhile_nth [of _ "\<lambda>b. b \<noteq> c" xs] set_takeWhileD [of _ "\<lambda>b. b \<noteq> c" xs]
    by (metis (mono_tags, lifting) le_neq_implies_less nth_mem takeWhile_eq_all_conv takeWhile_eq_take take_all_iff order_refl)
  then show "\<exists>r. u_strchr m p c = Some r \<and> (c \<notin> set xs \<longrightarrow> r = 0) \<and>
       (c \<in> set xs \<longrightarrow> (\<exists>i < length xs. r = p + of_nat i \<and> xs ! i = c \<and> (\<forall>j < i. xs ! j \<noteq> c)))"
    using u_strchr_ok [OF assms(1), of c] by auto
qed (use assms in \<open>auto intro: u_strlen_ok u_strcmp_ok u_strcpy_ok\<close>)

theorem printf_atoi_roundtrip_witness:
  "\<exists>bs. printf (map of_char ''%d'') [UNum 42] = Some bs \<and> bs = [52, 50] \<and> atoi ((\<lambda>_. 0)(0 := 52, 1 := 50)) 0 = Some 42"
proof -
  from printf_atoi_roundtrip [of 42] obtain bs where
    bs: "printf (map of_char ''%d'') [UNum 42] = Some bs" "\<And>m a. cstr m a bs \<Longrightarrow> atoi m a = Some 42" by auto
  have "printf (map of_char ''%d'') [UNum 42] = Some [52, 50]"
    by code_simp
  with bs(1) have e: "bs = [52, 50]" by simp
  have "cstr ((\<lambda>_. 0)(0 := 52, 1 := 50)) 0 bs" unfolding e by (simp add: cstr_Cons cstr_Nil)
  with bs e show ?thesis by blast
qed

end
