(* ===== verification/Tournament.thy ===== *)
theory Tournament
  imports Mutex Ulib
begin

text \<open>
  The tournament tree (\<open>tree.c\<close>, \<open>tournament_tree.h\<close>): a complete binary tree in the memory of a
  process whose inner nodes own a mutex each. A thread that wants the critical section takes the
  mutexes on the way from its leaf to the root.

  The process' memory is a store of nodes and of lock paths, indexed by their addresses; the address 0
  is the null pointer. What \<open>malloc\<close> returns is up to the parameter \<open>am\<close>, which sees the addresses in use:
  0 when it fails. (The theory \<open>Umalloc\<close> shows that the library's allocator behaves so.) Fresh memory holds whatever the store holds there. The calls of the thread
  package are the kernel's operations of the theory \<open>Mutex\<close>.
\<close>

subsection \<open>State\<close>

type_synonym ptr = nat

record tree_node =
  left_child :: ptr
  right_child :: ptr
  nparent :: ptr
  mutex_id :: int
  nindex :: int
  nlevel :: int
  lockPath :: ptr

record trnmnt_tree =
  root :: ptr
  tdepth :: int

text \<open>
  The stores, the addresses in use, and the globals of the library. A lock path is an array of
  \<open>plen\<close> entries.
\<close>

record utree =
  trees :: "ptr \<Rightarrow> trnmnt_tree"
  nodes :: "ptr \<Rightarrow> tree_node"
  paths :: "ptr \<Rightarrow> int \<Rightarrow> int"
  plen :: "ptr \<Rightarrow> int"
  live :: "ptr list"
  level_index :: "int list"
  treeDepth :: int
  gindex :: int
  curLevel :: int

record tnt = mtable +
  tr :: utree

lemma tr_frame [simp]:
  "tr (push s) = tr s"
  "tr (pop s) = tr s"
  "tr (settle s) = tr s"
  "tr (acq lk s) = tr s"
  "tr (rel lk s) = tr s"
  "tr (upd_cpu c g s) = tr s"
  "tr (upd_cur g s) = tr s"
  "tr (upd_lock lk h s) = tr s"
  "tr (upd_thread t k s) = tr s"
  "tr (upd_proc p q s) = tr s"
  "tr (run_on c s) = tr s"
  "settle (s\<lparr>tr := x\<rparr>) = (settle s)\<lparr>tr := x\<rparr>"
  "acq lk (s\<lparr>tr := x\<rparr>) = (acq lk s)\<lparr>tr := x\<rparr>"
  "rel lk (s\<lparr>tr := x\<rparr>) = (rel lk s)\<lparr>tr := x\<rparr>"
  "upd_cpu c g (s\<lparr>tr := x\<rparr>) = (upd_cpu c g s)\<lparr>tr := x\<rparr>"
  "upd_cur g (s\<lparr>tr := x\<rparr>) = (upd_cur g s)\<lparr>tr := x\<rparr>"
  "upd_lock lk h (s\<lparr>tr := x\<rparr>) = (upd_lock lk h s)\<lparr>tr := x\<rparr>"
  "upd_thread t k (s\<lparr>tr := x\<rparr>) = (upd_thread t k s)\<lparr>tr := x\<rparr>"
  "upd_proc p q (s\<lparr>tr := x\<rparr>) = (upd_proc p q s)\<lparr>tr := x\<rparr>"
  "run_on c (s\<lparr>tr := x\<rparr>) = (run_on c s)\<lparr>tr := x\<rparr>"
  "this_cpu (s\<lparr>tr := x\<rparr>) = this_cpu s"
  "cur (s\<lparr>tr := x\<rparr>) = cur s"
  "cpu_inv (s\<lparr>tr := x\<rparr>) = cpu_inv s"
  "in_cs (s\<lparr>tr := x\<rparr>) = in_cs s"
  "lock_free lk (s\<lparr>tr := x\<rparr>) = lock_free lk s"
  "lock_held lk (s\<lparr>tr := x\<rparr>) = lock_held lk s"
  "calm (s\<lparr>tr := x\<rparr>) = calm s"
  "runs (s\<lparr>tr := x\<rparr>) = runs s"
  by (simp_all add: frame_ext_defs)


lemma tr_mutex [simp]: "tr (upd_mutex m f s) = tr s" "mutexes (s\<lparr>tr := x\<rparr>) = mutexes s" "upd_mutex m f (s\<lparr>tr := x\<rparr>) = (upd_mutex m f s)\<lparr>tr := x\<rparr>"
    "tr (sleeping t ch s) = tr s"
  by (simp_all add: upd_mutex_def sleeping_def)

definition upd_tr :: "(utree \<Rightarrow> utree) \<Rightarrow> ('m tnt_scheme, unit) kop" where
  "upd_tr f = kmod (\<lambda>s. s\<lparr>tr := f (tr s)\<rparr>)"

subsection \<open>Operations\<close>

definition tmalloc :: "(ptr list \<Rightarrow> ptr) \<Rightarrow> ('m tnt_scheme, ptr) kop" where
  "tmalloc am =
     kbind (kget (\<lambda>s. am (live (tr s)))) (\<lambda>p.
     kseq (upd_tr (\<lambda>u. if p = 0 then u else u\<lparr>live := p # live u\<rparr>))
     (kret p))"

definition tfree :: "ptr \<Rightarrow> ('m tnt_scheme, unit) kop" where
  "tfree p = upd_tr (\<lambda>u. u\<lparr>live := removeAll p (live u)\<rparr>)"

definition node_at :: "ptr \<Rightarrow> ('m tnt_scheme, tree_node) kop" where
  "node_at p = (if p = 0 then kfault ''null pointer'' else kget (\<lambda>s. nodes (tr s) p))"

definition set_node :: "ptr \<Rightarrow> (tree_node \<Rightarrow> tree_node) \<Rightarrow> ('m tnt_scheme, unit) kop" where
  "set_node p f = (if p = 0 then kfault ''null pointer'' else upd_tr (\<lambda>u. u\<lparr>nodes := (nodes u)(p := f (nodes u p))\<rparr>))"

text \<open>The running index of the level of the node, kept in globals.\<close>

definition number_node :: "ptr \<Rightarrow> nat \<Rightarrow> ('m tnt_scheme, unit) kop" where
  "number_node node k =
     kseq (upd_tr (\<lambda>u. if curLevel u \<noteq> int k - 1 then u\<lparr>gindex := level_index u ! k, curLevel := int k - 1\<rparr> else u))
     (kbind (kget tr) (\<lambda>u.
     kseq (set_node node (\<lambda>n. n\<lparr>nlevel := curLevel u, nindex := gindex u\<rparr>))
     (upd_tr (\<lambda>u. u\<lparr>gindex := gindex u + 1, level_index := (level_index u)[k := gindex u + 1]\<rparr>))))"

fun create_tree :: "(ptr list \<Rightarrow> ptr) \<Rightarrow> ptr \<Rightarrow> nat \<Rightarrow> ('m tnt_scheme, unit) kop" where
  "create_tree am node 0 = kret ()"
| "create_tree am node (Suc k) =
     kseq (number_node node k)
     (if k = 0 then
        kseq (set_node node (\<lambda>n. n\<lparr>left_child := 0\<rparr>))
        (kseq (set_node node (\<lambda>n. n\<lparr>right_child := 0\<rparr>))
        (kbind (tmalloc am) (\<lambda>a.
        kseq (set_node node (\<lambda>n. n\<lparr>lockPath := a\<rparr>))
        (upd_tr (\<lambda>u. u\<lparr>plen := (plen u)(a := treeDepth u)\<rparr>)))))
      else
        kbind (tmalloc am) (\<lambda>l.
        kbind (tmalloc am) (\<lambda>r.
        kseq (set_node l (\<lambda>n. n\<lparr>nparent := node\<rparr>))
        (kseq (set_node r (\<lambda>n. n\<lparr>nparent := node\<rparr>))
        (kseq (set_node node (\<lambda>n. n\<lparr>left_child := l\<rparr>))
        (kseq (set_node node (\<lambda>n. n\<lparr>right_child := r\<rparr>))
        (kbind kthread_mutex_alloc (\<lambda>m.
        kseq (set_node node (\<lambda>n. n\<lparr>mutex_id := m\<rparr>))
        (kseq (create_tree am l k)
        (create_tree am r k))))))))))"

definition trnmnt_tree_alloc :: "(ptr list \<Rightarrow> ptr) \<Rightarrow> int \<Rightarrow> ('m tnt_scheme, ptr) kop" where
  "trnmnt_tree_alloc am depth =
     (if depth < 1 then kret 0
      else
        kbind (tmalloc am) (\<lambda>t.
        kbind (tmalloc am) (\<lambda>r.
        kseq (upd_tr (\<lambda>u. u\<lparr>treeDepth := depth\<rparr>))
        (if t = 0 then kfault ''null pointer''
        else
          kseq (upd_tr (\<lambda>u. u\<lparr>trees := (trees u)(t := \<lparr>root = r, tdepth = depth\<rparr>)\<rparr>))
          (kseq (set_node r (\<lambda>n. n\<lparr>nparent := 0\<rparr>))
          (kseq (upd_tr (\<lambda>u. u\<lparr>level_index := replicate (nat depth + 1) 0\<rparr>))
          (kseq (create_tree am r (nat depth + 1))
          (kret t))))))))"

text \<open>
  The recursions over the tree carry fuel, since nothing in the memory rules out a cycle; without
  fuel left the call does not return. There is fuel for every node in use, more than any path of a tree has.
\<close>

fun find_leaf :: "nat \<Rightarrow> ptr \<Rightarrow> int \<Rightarrow> ('m tnt_scheme, ptr) kop" where
  "find_leaf 0 node ID = Spin"
| "find_leaf (Suc n) node ID =
     kbind (node_at node) (\<lambda>nd.
     if right_child nd = 0 \<and> left_child nd = 0 then kret (if ID = nindex nd then node else 0)
     else
       kbind (find_leaf n (left_child nd) ID) (\<lambda>leaf1.
       kbind (find_leaf n (right_child nd) ID) (\<lambda>leaf2.
       kret (if leaf1 \<noteq> 0 then leaf1 else leaf2))))"

definition get_path :: "ptr \<Rightarrow> int \<Rightarrow> ('m tnt_scheme, int) kop" where
  "get_path leaf i =
     kbind (node_at leaf) (\<lambda>nd.
     kbind (kget tr) (\<lambda>u.
     if lockPath nd = 0 \<or> i < 0 \<or> plen u (lockPath nd) \<le> i then kfault ''lock path''
     else kret (paths u (lockPath nd) i)))"

definition set_path :: "ptr \<Rightarrow> int \<Rightarrow> int \<Rightarrow> ('m tnt_scheme, unit) kop" where
  "set_path leaf i v =
     kbind (node_at leaf) (\<lambda>nd.
     kbind (kget tr) (\<lambda>u.
     if lockPath nd = 0 \<or> i < 0 \<or> plen u (lockPath nd) \<le> i then kfault ''lock path''
     else upd_tr (\<lambda>u. u\<lparr>paths := (paths u)(lockPath nd := (paths u (lockPath nd))(i := v))\<rparr>)))"

text \<open>
  The loop of \<open>trnmnt_tree_acquire\<close>. A thread that sleeps in \<open>kthread_mutex_lock\<close> goes on with
  \<open>climb_resume\<close>; \<open>climb_locked\<close> is what follows the lock.
\<close>

fun climb :: "nat \<Rightarrow> ptr \<Rightarrow> ptr \<Rightarrow> ('m tnt_scheme, int) kop"
and climb_locked :: "nat \<Rightarrow> ptr \<Rightarrow> ptr \<Rightarrow> int \<Rightarrow> ('m tnt_scheme, int) kop" where
  "climb n leaf here =
     kbind (node_at here) (\<lambda>c.
     if nparent c = 0 then kret 0
     else
       kbind (node_at (nparent c)) (\<lambda>p.
       kbind (kthread_mutex_lock (mutex_id p))
       (climb_locked n leaf here)))"
| "climb_locked 0 leaf here r = Spin"
| "climb_locked (Suc n) leaf here r =
     kbind (node_at here) (\<lambda>c.
     kbind (node_at (nparent c)) (\<lambda>p.
     kseq (set_path leaf (nlevel p) (mutex_id p))
     (if r = - 1 then kret (- 1)
      else if r = 0 then climb n leaf (nparent c)
      else climb n leaf here)))"

definition climb_resume :: "nat \<Rightarrow> ptr \<Rightarrow> ptr \<Rightarrow> nat \<Rightarrow> nat \<Rightarrow> ('m tnt_scheme, int) kop" where
  "climb_resume n leaf here m t = kbind (mutex_lock_resume m t) (climb_locked n leaf here)"

definition trnmnt_tree_acquire :: "ptr \<Rightarrow> int \<Rightarrow> ('m tnt_scheme, int) kop" where
  "trnmnt_tree_acquire t ID =
     kbind (kget (\<lambda>s. (root (trees (tr s) t), length (live (tr s))))) (\<lambda>(r, n).
     kbind (find_leaf n r ID) (\<lambda>leaf.
     climb n leaf leaf))"

fun unlock_path :: "ptr \<Rightarrow> nat \<Rightarrow> ('m tnt_scheme, int) kop" where
  "unlock_path leaf 0 = kret 0"
| "unlock_path leaf (Suc i) =
     kbind (get_path leaf (int i)) (\<lambda>m.
     kbind (kthread_mutex_unlock m) (\<lambda>res.
     if res = - 1 then kret (- 1)
     else kseq (set_path leaf (int i) 0) (unlock_path leaf i)))"

definition trnmnt_tree_release :: "ptr \<Rightarrow> int \<Rightarrow> ('m tnt_scheme, int) kop" where
  "trnmnt_tree_release t ID =
     kbind (kget (\<lambda>s. (root (trees (tr s) t), length (live (tr s))))) (\<lambda>(r, n).
     kbind (find_leaf n r ID) (\<lambda>leaf.
     kbind (kget (\<lambda>s. treeDepth (tr s))) (\<lambda>d.
     unlock_path leaf (nat d))))"

fun delete_node :: "nat \<Rightarrow> ptr \<Rightarrow> ('m tnt_scheme, int) kop" where
  "delete_node 0 node = Spin"
| "delete_node (Suc n) node =
     (if node = 0 then kret 0
      else
        kbind (node_at node) (\<lambda>nd.
        kbind (kthread_mutex_dealloc (mutex_id nd)) (\<lambda>r.
        if r = - 1 then kret (- 1)
        else
          kbind (delete_node n (left_child nd)) (\<lambda>_.
          kbind (node_at node) (\<lambda>nd.
          kbind (delete_node n (right_child nd)) (\<lambda>_.
          kseq (set_node node (\<lambda>n. n\<lparr>left_child := 0, right_child := 0\<rparr>))
          (kbind (node_at node) (\<lambda>nd.
          kseq (if lockPath nd \<noteq> 0 then kseq (tfree (lockPath nd)) (set_node node (\<lambda>n. n\<lparr>lockPath := 0\<rparr>)) else kret ())
          (kseq (tfree node)
          (kret 0))))))))))"

definition trnmnt_tree_dealloc :: "ptr \<Rightarrow> ('m tnt_scheme, int) kop" where
  "trnmnt_tree_dealloc t =
     kbind (kget (\<lambda>s. (root (trees (tr s) t), length (live (tr s))))) (\<lambda>(r, n).
     kbind (delete_node n r) (\<lambda>res.
     if res = 0 then
       kseq (upd_tr (\<lambda>u. u\<lparr>trees := (trees u)(t := (trees u t)\<lparr>root := 0\<rparr>)\<rparr>))
       (kseq (tfree t)
       (kret 0))
     else kret (- 1)))"

text \<open>What \<open>print_node\<close> writes.\<close>

fun print_node :: "nat \<Rightarrow> ptr \<Rightarrow> nat \<Rightarrow> ('m tnt_scheme, uchar list) kop" where
  "print_node 0 p l = Spin"
| "print_node (Suc n) p l =
     (if p = 0 then kret []
      else
        kbind (node_at p) (\<lambda>nd.
        kbind (print_node n (right_child nd) (l + 1)) (\<lambda>a.
        kbind (deref (printf (map of_char ''%d,%d,%d'' @ [10])
          [UNum (word_of_int (nlevel nd)), UNum (word_of_int (nindex nd)), UNum (word_of_int (mutex_id nd))])) (\<lambda>b.
        kbind (print_node n (left_child nd) (l + 1)) (\<lambda>c.
        kret (a @ replicate (4 * l) 32 @ b @ c))))))"

definition print_tree :: "ptr \<Rightarrow> ('m tnt_scheme, uchar list) kop" where
  "print_tree t = (if t = 0 then kret [] else kbind (kget (\<lambda>s. (root (trees (tr s) t), length (live (tr s))))) (\<lambda>(r, n). print_node n r 0))"

subsection \<open>Symbolic execution\<close>

definition fresh_alloc :: "(ptr list \<Rightarrow> ptr) \<Rightarrow> bool" where
  "fresh_alloc am \<longleftrightarrow> (\<forall>l. am l \<noteq> 0 \<and> am l \<notin> set l)"

lemma upd_tr_ok [kexec]: "upd_tr f s = Ok () (s\<lparr>tr := f (tr s)\<rparr>)"
  by (simp add: upd_tr_def kexec)

lemma tmalloc_ok [kexec]: "fresh_alloc am \<Longrightarrow> tmalloc am s = Ok (am (live (tr s))) (s\<lparr>tr := (tr s)\<lparr>live := am (live (tr s)) # live (tr s)\<rparr>\<rparr>)"
  by (simp add: tmalloc_def kexec fresh_alloc_def)

lemma node_at_ok [kexec]: "p \<noteq> 0 \<Longrightarrow> node_at p s = Ok (nodes (tr s) p) s"
  by (simp add: node_at_def kexec)

lemma set_node_ok [kexec]:
  "p \<noteq> 0 \<Longrightarrow> set_node p f s = Ok () (s\<lparr>tr := (tr s)\<lparr>nodes := (nodes (tr s))(p := f (nodes (tr s) p))\<rparr>\<rparr>)"
  by (simp add: set_node_def kexec)

definition numbered :: "ptr \<Rightarrow> nat \<Rightarrow> int \<Rightarrow> utree \<Rightarrow> utree" where
  "numbered node k i u = u\<lparr>curLevel := int k - 1, gindex := i + 1, level_index := (level_index u)[k := i + 1],
     nodes := (nodes u)(node := (nodes u node)\<lparr>nlevel := int k - 1, nindex := i\<rparr>)\<rparr>"

lemma number_node_ok [kexec]:
  assumes "node \<noteq> 0" and "curLevel (tr s) = int k - 1 \<longrightarrow> gindex (tr s) = i" and "level_index (tr s) ! k = i"
  shows "number_node node k s = Ok () (s\<lparr>tr := numbered node k i (tr s)\<rparr>)"
  using assms by (cases "curLevel (tr s) = int k - 1") (simp_all add: number_node_def kexec numbered_def)

text \<open>A thread that runs outside the kernel on this processor, with no lock of the kernel held.\<close>

definition tnt_ok :: "nat \<Rightarrow> 'm tnt_scheme \<Rightarrow> bool" where
  "tnt_ok t s \<longleftrightarrow> cpu_inv s \<and> (\<forall>lk. lock_free lk s) \<and> ncli (cur s) = 0 \<and> cpu_thread (cur s) = Some t \<and> t < length (ttable s) \<and>
     MAX_MUTEXES < length (mutexes s)"

lemma tnt_ok_settle: "tnt_ok t s \<Longrightarrow> tnt_ok t (settle s)"
  by (simp add: tnt_ok_def)

lemma tnt_ok_tr [simp]: "tnt_ok t (s\<lparr>tr := x\<rparr>) = tnt_ok t s"
  by (simp add: tnt_ok_def)

lemma tnt_ok_mutexes: "tnt_ok t s \<Longrightarrow> length ms = length (mutexes s) \<Longrightarrow> tnt_ok t ((settle s)\<lparr>mutexes := ms\<rparr>)"
  by (simp add: tnt_ok_def)

subsection \<open>The shape of the tree\<close>

text \<open>
  A complete tree of height \<open>k\<close>: node \<open>p\<close> is number \<open>i\<close> of its level, the children of number \<open>i\<close> are the
  numbers \<open>2 * i\<close> and \<open>2 * i + 1\<close> of theirs, and every child knows its parent.
\<close>

fun complete :: "(ptr \<Rightarrow> tree_node) \<Rightarrow> nat \<Rightarrow> ptr \<Rightarrow> ptr \<Rightarrow> nat \<Rightarrow> bool" where
  "complete h 0 p par i \<longleftrightarrow> p \<noteq> 0 \<and> nparent (h p) = par \<and> nlevel (h p) = - 1 \<and> nindex (h p) = int i \<and> left_child (h p) = 0 \<and> right_child (h p) = 0"
| "complete h (Suc k) p par i \<longleftrightarrow> p \<noteq> 0 \<and> nparent (h p) = par \<and> nlevel (h p) = int k \<and> nindex (h p) = int i \<and>
     complete h k (left_child (h p)) p (2 * i) \<and> complete h k (right_child (h p)) p (2 * i + 1)"

fun cells :: "(ptr \<Rightarrow> tree_node) \<Rightarrow> nat \<Rightarrow> ptr \<Rightarrow> ptr list" where
  "cells h 0 p = [p]"
| "cells h (Suc k) p = p # cells h k (left_child (h p)) @ cells h k (right_child (h p))"

fun mids :: "(ptr \<Rightarrow> tree_node) \<Rightarrow> nat \<Rightarrow> ptr \<Rightarrow> int list" where
  "mids h 0 p = []"
| "mids h (Suc k) p = mutex_id (h p) # mids h k (left_child (h p)) @ mids h k (right_child (h p))"

lemma tree_cong:
  assumes "\<And>q. q \<in> set (cells h k p) \<Longrightarrow> h' q = h q"
  shows "complete h' k p par i = complete h k p par i" and "cells h' k p = cells h k p" and "mids h' k p = mids h k p"
  using assms
proof (induction k arbitrary: p par i)
  case 0
  { case 1 then show ?case by simp next case 2 then show ?case by simp next case 3 then show ?case by simp }
next
  case (Suc k)
  { case 1 then show ?case using Suc.IH(1) by simp
  next case 2 then show ?case using Suc.IH(2) by simp
  next case 3 then show ?case using Suc.IH(3) by simp }
qed

lemma cells_root: "p \<in> set (cells h k p)"
  by (cases k) simp_all

text \<open>The mutexes that the tree has claimed, and the others, which are untouched.\<close>

definition claims :: "int list \<Rightarrow> mutex list \<Rightarrow> mutex list \<Rightarrow> bool" where
  "claims is ms ms' \<longleftrightarrow> length ms' = length ms \<and> distinct is \<and>
     (\<forall>i \<in> set is. 0 \<le> i \<and> nat i < MAX_MUTEXES \<and> \<not> mused (ms ! nat i)) \<and>
     (\<forall>j < length ms. ms' ! j = (if int j \<in> set is then mutex_claim j (ms ! j) else ms ! j))"

definition idle_mutex :: "int \<Rightarrow> mutex list \<Rightarrow> bool" where
  "idle_mutex i ms \<longleftrightarrow> 0 \<le> i \<and> nat i < MAX_MUTEXES \<and> mused (ms ! nat i) \<and> mlocked (ms ! nat i) = 0 \<and> mwaiting (ms ! nat i) = 0"

definition spare :: "mutex list \<Rightarrow> nat" where
  "spare ms = length (filter (\<lambda>m. \<not> mused m) (take MAX_MUTEXES ms))"

lemma claims_Nil: "claims [] ms ms"
  by (simp add: claims_def)

lemma claims_used: "claims is ms ms' \<Longrightarrow> j < length ms \<Longrightarrow> mused (ms' ! j) \<longleftrightarrow> mused (ms ! j) \<or> int j \<in> set is"
  by (auto simp: claims_def mutex_claim_def)

lemma claims_append:
  assumes c: "claims is ms ms'" "claims js ms' ms''" and l: "MAX_MUTEXES \<le> length ms"
  shows "claims (is @ js) ms ms''"
proof -
  have n: "\<not> mused (ms ! nat i) \<and> i \<notin> set is \<and> 0 \<le> i \<and> nat i < MAX_MUTEXES" if i: "i \<in> set js" for i
  proof -
    from i c(2) have j: "0 \<le> i" "nat i < MAX_MUTEXES" "\<not> mused (ms' ! nat i)" by (auto simp: claims_def)
    with claims_used [OF c(1), of "nat i"] l show ?thesis by auto
  qed
  with c have d: "distinct (is @ js)" "\<forall>i \<in> set (is @ js). 0 \<le> i \<and> nat i < MAX_MUTEXES \<and> \<not> mused (ms ! nat i)"
    by (auto simp: claims_def)
  moreover have "ms'' ! j = (if int j \<in> set (is @ js) then mutex_claim j (ms ! j) else ms ! j)" if "j < length ms" for j
    using c n that by (auto simp: claims_def)
  ultimately show ?thesis using c by (simp add: claims_def)
qed

lemma claims_one:
  assumes "scan (\<lambda>m. \<not> mused m) (take MAX_MUTEXES ms) = Some i"
  shows "claims [int i] ms (ms[i := mutex_claim i (ms ! i)])" and "Suc (spare (ms[i := mutex_claim i (ms ! i)])) = spare ms"
proof -
  note i = scan_take [OF assms]
  then show "claims [int i] ms (ms[i := mutex_claim i (ms ! i)])" by (auto simp: claims_def nth_list_update)
  from i mutex_slots.alloc_free_count [OF assms] show "Suc (spare (ms[i := mutex_claim i (ms ! i)])) = spare ms"
    by (simp add: spare_def take_update_swap)
qed

lemma spare_scan: "0 < spare ms \<Longrightarrow> \<exists>i. scan (\<lambda>m. \<not> mused m) (take MAX_MUTEXES ms) = Some i"
  by (cases "scan (\<lambda>m. \<not> mused m) (take MAX_MUTEXES ms)") (auto simp: spare_def scan_None_iff filter_empty_conv)

lemma claims_idle: "claims is ms ms' \<Longrightarrow> MAX_MUTEXES < length ms \<Longrightarrow> i \<in> set is \<Longrightarrow> idle_mutex i ms'"
  by (auto simp: claims_def idle_mutex_def mutex_claim_def)

lemma claims_wf: "claims is ms ms' \<Longrightarrow> mutex_wf ms \<Longrightarrow> mutex_wf ms'"
  by (auto simp: claims_def mutex_wf_def mutex_claim_def)

lemma alloc_mutex:
  assumes "tnt_ok t s" and "0 < spare (mutexes s)"
  shows "\<exists>i ms. kthread_mutex_alloc s = Ok (int i) ((settle s)\<lparr>mutexes := ms\<rparr>) \<and> claims [int i] (mutexes s) ms \<and> Suc (spare ms) = spare (mutexes s)"
proof -
  from spare_scan [OF assms(2)] obtain i where i: "scan (\<lambda>m. \<not> mused m) (take MAX_MUTEXES (mutexes s)) = Some i" ..
  have "kthread_mutex_alloc s = Ok (int i) ((settle s)\<lparr>mutexes := (mutexes s)[i := mutex_claim i (mutexes s ! i)]\<rparr>)"
    using assms(1) i by (simp add: tnt_ok_def kthread_mutex_alloc_ok upd_mutex_def mutex_claim_def)
  with claims_one [OF i] show ?thesis by blast
qed

subsection \<open>Building the tree\<close>

declare create_tree.simps [simp del]

lemma complete_nonzero: "complete h k p par i \<Longrightarrow> p \<noteq> 0"
  by (cases k) simp_all

definition ready_at :: "utree \<Rightarrow> nat \<Rightarrow> nat \<Rightarrow> bool" where
  "ready_at u k i \<longleftrightarrow> k < length (level_index u) \<and> (\<forall>j \<le> k. level_index u ! j = int (i * 2 ^ (k - j))) \<and>
     (curLevel u = int k - 1 \<longrightarrow> gindex u = level_index u ! k)"

text \<open>Every leaf has its lock path, with an entry for every level of the tree.\<close>

definition with_paths :: "utree \<Rightarrow> nat \<Rightarrow> ptr \<Rightarrow> bool" where
  "with_paths u k p \<longleftrightarrow> (\<forall>q \<in> set (cells (nodes u) k p). left_child (nodes u q) = 0 \<longrightarrow>
     lockPath (nodes u q) \<noteq> 0 \<and> lockPath (nodes u q) \<in> set (live u) \<and> plen u (lockPath (nodes u q)) = treeDepth u)"

text \<open>What building a subtree of height \<open>k\<close> with number \<open>i\<close> leaves behind in the globals and the store.\<close>

definition grown :: "utree \<Rightarrow> ptr \<Rightarrow> nat \<Rightarrow> nat \<Rightarrow> utree \<Rightarrow> bool" where
  "grown u node k i v \<longleftrightarrow> length (level_index v) = length (level_index u) \<and>
     (\<forall>j. level_index v ! j = (if j \<le> k then int (Suc i * 2 ^ (k - j)) else level_index u ! j)) \<and>
     curLevel v = - 1 \<and> gindex v = level_index v ! 0 \<and> treeDepth v = treeDepth u \<and> trees v = trees u \<and>
     set (live u) \<subseteq> set (live v) \<and> (\<forall>q \<in> set (live u) - {node}. nodes v q = nodes u q) \<and>
     (\<forall>a \<in> set (live u). plen v a = plen u a) \<and> with_paths v k node \<and>
     complete (nodes v) k node (nparent (nodes u node)) i \<and> distinct (cells (nodes v) k node) \<and>
     set (cells (nodes v) k node) \<subseteq> insert node (set (live v) - set (live u))"

definition built :: "nat \<Rightarrow> 'm tnt_scheme \<Rightarrow> ptr \<Rightarrow> nat \<Rightarrow> nat \<Rightarrow> 'm tnt_scheme \<Rightarrow> bool" where
  "built t s node k i u \<longleftrightarrow> tnt_ok t u \<and> grown (tr s) node k i (tr u) \<and>
     claims (mids (nodes (tr u)) k node) (mutexes s) (mutexes u) \<and> spare (mutexes u) + (2 ^ k - 1) = spare (mutexes s)"

lemma create_leaf:
  assumes "fresh_alloc am" and "tnt_ok t s" and "node \<noteq> 0" and "ready_at (tr s) 0 i"
  shows "\<exists>u. create_tree am node (Suc 0) s = Ok () u \<and> built t s node 0 i u"
proof -
  have n: "curLevel (tr s) = int 0 - 1 \<longrightarrow> gindex (tr s) = int i" "level_index (tr s) ! 0 = int i" "0 < length (level_index (tr s))"
    using assms(4) by (auto simp: ready_at_def)
  have a: "am (live (tr s)) \<noteq> 0" "am (live (tr s)) \<notin> set (live (tr s))" using assms(1) by (auto simp: fresh_alloc_def)
  show ?thesis
    using assms(1-3) number_node_ok [OF assms(3) n(1,2)] n(3) a
    by (auto simp: create_tree.simps kexec built_def grown_def numbered_def claims_Nil nth_list_update with_paths_def)
qed

lemma create_node:
  assumes fr: "fresh_alloc am" and c: "tnt_ok t s" and n: "node \<noteq> 0" "node \<in> set (live (tr s))"
    and r: "ready_at (tr s) (Suc k) i" and m: "0 < spare (mutexes s)"
  shows "\<exists>l r v j. create_tree am node (Suc (Suc k)) s = kseq (create_tree am l (Suc k)) (create_tree am r (Suc k)) v \<and>
     tnt_ok t v \<and> l \<noteq> 0 \<and> r \<noteq> 0 \<and> l \<notin> set (live (tr s)) \<and> r \<notin> set (live (tr s)) \<and> l \<noteq> r \<and>
     live (tr v) = r # l # live (tr s) \<and> ready_at (tr v) k (2 * i) \<and> trees (tr v) = trees (tr s) \<and> treeDepth (tr v) = treeDepth (tr s) \<and>
     level_index (tr v) = (level_index (tr s))[Suc k := int i + 1] \<and>
     nodes (tr v) node = (nodes (tr s) node)\<lparr>nlevel := int k, nindex := int i, left_child := l, right_child := r, mutex_id := int j\<rparr> \<and>
     nparent (nodes (tr v) l) = node \<and> nparent (nodes (tr v) r) = node \<and>
     (\<forall>q \<in> set (live (tr s)) - {node}. nodes (tr v) q = nodes (tr s) q) \<and> plen (tr v) = plen (tr s) \<and>
     claims [int j] (mutexes s) (mutexes v) \<and> Suc (spare (mutexes v)) = spare (mutexes s)"
proof -
  let ?u = "numbered node (Suc k) (int i) (tr s)"
  define l where "l = am (live (tr s))"
  define rr where "rr = am (l # live (tr s))"
  have lr: "l \<noteq> 0" "rr \<noteq> 0" "l \<notin> set (live (tr s))" "rr \<notin> set (live (tr s))" "l \<noteq> rr" "node \<noteq> l" "node \<noteq> rr"
    using fr n(2) unfolding l_def rr_def fresh_alloc_def by (metis, metis, metis, (metis list.set_intros)+)
  have i: "curLevel (tr s) = int (Suc k) - 1 \<longrightarrow> gindex (tr s) = int i" "level_index (tr s) ! Suc k = int i" "Suc k < length (level_index (tr s))"
    using r by (auto simp: ready_at_def)
  let ?h = "(nodes ?u)(l := (nodes ?u l)\<lparr>nparent := node\<rparr>, rr := (nodes ?u rr)\<lparr>nparent := node\<rparr>,
      node := (nodes ?u node)\<lparr>left_child := l, right_child := rr\<rparr>)"
  let ?s = "s\<lparr>tr := ?u\<lparr>live := rr # l # live (tr s), nodes := ?h\<rparr>\<rparr>"
  have "tnt_ok t ?s" "0 < spare (mutexes ?s)" using c m by simp_all
  from alloc_mutex [OF this] obtain j ms where
    j: "kthread_mutex_alloc ?s = Ok (int j) ((settle ?s)\<lparr>mutexes := ms\<rparr>)" "claims [int j] (mutexes s) ms" "Suc (spare ms) = spare (mutexes s)"
    by auto
  let ?v = "((settle s)\<lparr>mutexes := ms\<rparr>)\<lparr>tr := ?u\<lparr>live := rr # l # live (tr s), nodes := ?h(node := (?h node)\<lparr>mutex_id := int j\<rparr>)\<rparr>\<rparr>"
  have e: "create_tree am node (Suc (Suc k)) s = kseq (create_tree am l (Suc k)) (create_tree am rr (Suc k)) ?v"
    using number_node_ok [OF n(1) i(1,2)] fr n(1) lr j(1)
    by (subst create_tree.simps(2)) (simp add: kexec l_def [symmetric] rr_def [symmetric] numbered_def)
  have tv: "tnt_ok t ((settle s)\<lparr>mutexes := ms\<rparr>)" using j(2) by (intro tnt_ok_mutexes [OF c]) (simp add: claims_def)
  show ?thesis
    by (rule exI [of _ l], rule exI [of _ rr], rule exI [of _ ?v], rule exI [of _ j], rule conjI [OF e])
      (use tv lr i r j(2,3) n in \<open>auto simp: ready_at_def numbered_def nth_list_update Suc_diff_le\<close>)
qed


lemma grown_node:
  assumes l: "grown u l k (2 * i) v" and r: "grown v r k (2 * i + 1) w"
    and u: "live u = r # l # live s" "l \<notin> set (live s)" "r \<notin> set (live s)" "l \<noteq> r" "node \<in> set (live s)" "node \<noteq> 0"
      "nparent (nodes u l) = node" "nparent (nodes u r) = node" "\<And>q. q \<in> set (live s) - {node} \<Longrightarrow> nodes u q = nodes s q"
      "nodes u node = (nodes s node)\<lparr>nlevel := int k, nindex := int i, left_child := l, right_child := r, mutex_id := j\<rparr>"
      "level_index u = (level_index s)[Suc k := int i + 1]" "Suc k < length (level_index s)" "trees u = trees s" "treeDepth u = treeDepth s" "plen u = plen s"
  shows "grown s node (Suc k) i w" and "mids (nodes w) (Suc k) node = j # mids (nodes v) k l @ mids (nodes w) k r"
proof -
  note lg = l [unfolded grown_def] and rg = r [unfolded grown_def]
  let ?L = "set (cells (nodes v) k l)" and ?R = "set (cells (nodes w) k r)"
  have live: "set (live s) \<subseteq> set (live u)" "set (live u) \<subseteq> set (live v)" "set (live v) \<subseteq> set (live w)" "r \<in> set (live u)"
    using lg rg u(1) by auto
  have L: "?L \<subseteq> insert l (set (live v) - set (live u))" and R: "?R \<subseteq> insert r (set (live w) - set (live v))"
    using lg rg by simp_all
  have Lr: "r \<notin> ?L" "?L \<subseteq> set (live v)" using L live u(1,4) by auto
  have wL: "nodes w q = nodes v q" if "q \<in> ?L" for q using rg that Lr by blast
  have sub: "cells (nodes w) k l = cells (nodes v) k l" "mids (nodes w) k l = mids (nodes v) k l"
      "complete (nodes w) k l node (2 * i) = complete (nodes v) k l node (2 * i)"
    by (rule tree_cong; fact wL)+
  have nd: "nodes w node = nodes u node" "node \<noteq> l" "node \<noteq> r" using lg rg u(2-5) live by (metis DiffI singletonD subsetD)+
  then have ch: "left_child (nodes w node) = l" "right_child (nodes w node) = r" "mutex_id (nodes w node) = j" by (simp_all add: u(10))
  then show "mids (nodes w) (Suc k) node = j # mids (nodes v) k l @ mids (nodes w) k r" by (simp add: sub)
  have vr: "nparent (nodes v r) = node" using lg u(4,8) live(4) by (metis DiffI singletonD)
  have cp: "complete (nodes w) (Suc k) node (nparent (nodes s node)) i"
    using lg rg u(7) vr nd ch by (simp add: sub u(6) u(10))
  have dj: "?L \<inter> ?R = {}" "node \<notin> ?L" "node \<notin> ?R" using L R Lr live u(5) nd(2,3) by auto
  have ds: "distinct (cells (nodes w) (Suc k) node)" using lg rg dj by (simp add: sub ch)
  have cs: "set (cells (nodes w) (Suc k) node) \<subseteq> insert node (set (live w) - set (live s))"
    using L R live u(1-4) by (auto simp: sub ch)
  have fr: "nodes w q = nodes s q" if q: "q \<in> set (live s) - {node}" for q
  proof -
    from q u(2,3) live have "q \<in> set (live u) - {l}" "q \<in> set (live v) - {r}" by auto
    with lg rg u(9) [OF q] show ?thesis by simp
  qed
  have li: "level_index w ! j = (if j \<le> Suc k then int (Suc i * 2 ^ (Suc k - j)) else level_index s ! j)" for j
  proof -
    consider "j \<le> k" | "j = Suc k" | "Suc k < j" by linarith
    then show ?thesis
    proof cases
      case 1
      with rg show ?thesis by (simp add: Suc_diff_le algebra_simps)
    qed (use lg rg u(11,12) in simp_all)
  qed
  have pl: "plen w a = plen v a" if "a \<in> set (live v)" for a using rg that by simp
  have wp: "with_paths w (Suc k) node" unfolding with_paths_def
  proof (intro ballI impI)
    fix q assume q: "q \<in> set (cells (nodes w) (Suc k) node)" "left_child (nodes w q) = 0"
    have "l \<noteq> 0" using lg complete_nonzero by blast
    with q ch consider "q \<in> ?L" | "q \<in> ?R" by (auto simp: sub)
    then show "lockPath (nodes w q) \<noteq> 0 \<and> lockPath (nodes w q) \<in> set (live w) \<and> plen w (lockPath (nodes w q)) = treeDepth w"
    proof cases
      case 1
      with lg rg q(2) wL [OF 1] pl live(3) show ?thesis unfolding with_paths_def by auto
    next
      case 2
      with rg q(2) show ?thesis unfolding with_paths_def by auto
    qed
  qed
  have "plen w a = plen s a" if "a \<in> set (live s)" for a
  proof -
    from that live have "a \<in> set (live u)" "a \<in> set (live v)" by auto
    with lg pl u(15) show ?thesis by simp
  qed
  then show "grown s node (Suc k) i w" unfolding grown_def
    using lg rg cp ds cs fr li live u(11,13,14) wp by auto
qed

lemma create_tree_ok:
  assumes fr: "fresh_alloc am"
  shows "tnt_ok t s \<Longrightarrow> node \<noteq> 0 \<Longrightarrow> node \<in> set (live (tr s)) \<Longrightarrow> ready_at (tr s) k i \<Longrightarrow>
    2 ^ k - 1 \<le> spare (mutexes s) \<Longrightarrow> \<exists>u. create_tree am node (Suc k) s = Ok () u \<and> built t s node k i u"
proof (induction k arbitrary: node s i)
  case 0
  then show ?case by (intro create_leaf [OF fr])
next
  case (Suc k)
  have "1 \<le> (2 :: nat) ^ k" by simp
  then have p2: "(0 :: nat) < 2 ^ Suc k - 1" "2 ^ Suc k - 1 = Suc (2 * (2 ^ k - 1) :: nat)" unfolding power_Suc by linarith+
  with Suc.prems(5) have sp: "0 < spare (mutexes s)" by linarith
  from create_node [OF fr Suc.prems(1-4) sp] obtain l r v j where
    e: "create_tree am node (Suc (Suc k)) s = kseq (create_tree am l (Suc k)) (create_tree am r (Suc k)) v" and
    v: "tnt_ok t v" "l \<noteq> 0" "r \<noteq> 0" "l \<notin> set (live (tr s))" "r \<notin> set (live (tr s))" "l \<noteq> r"
      "live (tr v) = r # l # live (tr s)" "ready_at (tr v) k (2 * i)" "trees (tr v) = trees (tr s)" "treeDepth (tr v) = treeDepth (tr s)"
      "level_index (tr v) = (level_index (tr s))[Suc k := int i + 1]"
      "nodes (tr v) node = (nodes (tr s) node)\<lparr>nlevel := int k, nindex := int i, left_child := l, right_child := r, mutex_id := int j\<rparr>"
      "nparent (nodes (tr v) l) = node" "nparent (nodes (tr v) r) = node"
      "\<And>q. q \<in> set (live (tr s)) - {node} \<Longrightarrow> nodes (tr v) q = nodes (tr s) q"
      "claims [int j] (mutexes s) (mutexes v)" "Suc (spare (mutexes v)) = spare (mutexes s)" "plen (tr v) = plen (tr s)"
    by blast
  have len: "MAX_MUTEXES \<le> length (mutexes s)" "MAX_MUTEXES \<le> length (mutexes v)" using Suc.prems(1) v(1) by (simp_all add: tnt_ok_def)
  have "2 ^ k - 1 \<le> spare (mutexes v)" "l \<in> set (live (tr v))" using v(7,17) Suc.prems(5) by auto
  from Suc.IH [OF v(1,2) this(2) v(8) this(1)] obtain w where
    w: "create_tree am l (Suc k) v = Ok () w" "built t v l k (2 * i) w" by blast
  note wb = w(2) [unfolded built_def]
  have sw: "2 ^ k - 1 \<le> spare (mutexes w)" using wb v(17) Suc.prems(5) by auto
  have rw: "r \<in> set (live (tr w))" using wb v(7) by (auto simp: grown_def)
  have ra: "ready_at (tr w) k (2 * i + 1)"
    using wb v(8) by (auto simp: grown_def ready_at_def algebra_simps)
  from Suc.IH [OF _ v(3) rw ra sw] wb obtain x where
    x: "create_tree am r (Suc k) w = Ok () x" "built t w r k (2 * i + 1) x" by blast
  note xb = x(2) [unfolded built_def]
  have sk: "Suc k < length (level_index (tr s))" using Suc.prems(4) by (simp add: ready_at_def)
  note g = grown_node [OF conjunct1 [OF conjunct2 [OF wb]] conjunct1 [OF conjunct2 [OF xb]]
      v(7,4,5,6) Suc.prems(3,2) v(13,14) v(15) v(12) v(11) sk v(9,10,18)]
  have "claims (int j # mids (nodes (tr w)) k l @ mids (nodes (tr x)) k r) (mutexes s) (mutexes x)"
    using claims_append [OF v(16) claims_append [of "mids (nodes (tr w)) k l" "mutexes v" "mutexes w" "mids (nodes (tr x)) k r" "mutexes x"]]
      wb xb len by simp
  then have cl: "claims (mids (nodes (tr x)) (Suc k) node) (mutexes s) (mutexes x)" by (simp only: g(2))
  have "spare (mutexes x) + (2 ^ Suc k - 1) = spare (mutexes s)" unfolding p2(2) using wb xb v(17) by linarith
  with g(1) cl xb have "built t s node (Suc k) i x" by (simp add: built_def)
  moreover have "create_tree am node (Suc (Suc k)) s = Ok () x" using e w(1) x(1) by (simp add: kexec)
  ultimately show ?case by blast
qed


subsection \<open>Finding a leaf\<close>

fun leaf_at :: "(ptr \<Rightarrow> tree_node) \<Rightarrow> nat \<Rightarrow> ptr \<Rightarrow> nat \<Rightarrow> ptr" where
  "leaf_at h 0 p i = p"
| "leaf_at h (Suc k) p i = (if i < 2 ^ k then leaf_at h k (left_child (h p)) i else leaf_at h k (right_child (h p)) (i - 2 ^ k))"

lemma leaf_at_ok:
  "complete h k p par i \<Longrightarrow> j < 2 ^ k \<Longrightarrow>
     leaf_at h k p j \<noteq> 0 \<and> leaf_at h k p j \<in> set (cells h k p) \<and> nindex (h (leaf_at h k p j)) = int (i * 2 ^ k + j) \<and>
     left_child (h (leaf_at h k p j)) = 0"
proof (induction k arbitrary: p par i j)
  case (Suc k)
  show ?case
  proof (cases "j < 2 ^ k")
    case True
    with Suc.prems Suc.IH [of "left_child (h p)" p "2 * i" j] show ?thesis by (simp add: algebra_simps)
  next
    case False
    with Suc.prems Suc.IH [of "right_child (h p)" p "2 * i + 1" "j - 2 ^ k"] show ?thesis by (simp add: algebra_simps)
  qed
qed simp

lemma find_leaf_ok:
  "complete (nodes (tr s)) k p par i \<Longrightarrow> k < n \<Longrightarrow> b = int (i * 2 ^ k) \<Longrightarrow>
     find_leaf n p ID s = Ok (if b \<le> ID \<and> ID < b + 2 ^ k then leaf_at (nodes (tr s)) k p (nat (ID - b)) else 0) s"
proof (induction k arbitrary: n p par i b)
  case 0
  then obtain n' where "n = Suc n'" by (cases n) auto
  with 0 show ?case by (auto simp: kexec)
next
  case (Suc k)
  let ?h = "nodes (tr s)"
  let ?l = "left_child (?h p)" and ?r = "right_child (?h p)"
  from Suc.prems obtain n' where n: "n = Suc n'" "k < n'" by (cases n) auto
  have c: "complete ?h k ?l p (2 * i)" "complete ?h k ?r p (2 * i + 1)" "p \<noteq> 0" using Suc.prems by simp_all
  have nz: "?l \<noteq> 0" using complete_nonzero [OF c(1)] .
  have b: "b = int (2 * i * 2 ^ k)" "b + 2 ^ k = int ((2 * i + 1) * 2 ^ k)" using Suc.prems(3) by (simp_all add: algebra_simps)
  note L = Suc.IH [OF c(1) n(2) b(1)] and R = Suc.IH [OF c(2) n(2) b(2)]
  have lz: "leaf_at ?h k ?l (nat (ID - b)) \<noteq> 0" if "b \<le> ID" "ID < b + 2 ^ k"
    using leaf_at_ok [OF c(1), of "nat (ID - b)"] that by (simp add: nat_less_iff)
  show ?case
  proof (cases "b \<le> ID \<and> ID < b + 2 ^ k")
    case True
    then have "nat (ID - b) < 2 ^ k" by (simp add: nat_less_iff)
    with True lz L R nz c(3) show ?thesis by (simp add: n kexec)
  next
    case False
    have "nat (ID - b) - 2 ^ k = nat (ID - (b + 2 ^ k))" "\<not> nat (ID - b) < 2 ^ k" if "b + 2 ^ k \<le> ID"
      using that nat_diff_distrib [of "2 ^ k" "ID - b"] by (simp_all add: nat_less_iff diff_diff_eq nat_power_eq)
    with False L R nz c(3) show ?thesis by (auto simp: n kexec)
  qed
qed


lemma length_cells: "k < length (cells h k p)"
proof (induction k arbitrary: p)
  case (Suc k)
  then have "k < length (cells h k (left_child (h p)))" "k < length (cells h k (right_child (h p)))" by blast+
  then show ?case by simp
qed simp

section \<open>Taking the tree\<close>

definition locked_id :: "int \<Rightarrow> mutex list \<Rightarrow> bool" where
  "locked_id i ms \<longleftrightarrow> (let x = ms ! mutex_index i ms in mid x = i \<and> mused x \<and> mlocked x \<noteq> 0)"

lemma mutex_index_le: "mutex_index i ms \<le> MAX_MUTEXES"
  using scan_less [of "\<lambda>m. mid m = i" "take MAX_MUTEXES ms"] by (auto simp: mutex_index_def split: option.split)

lemma mutex_index_update: "mid x = mid (ms ! m) \<Longrightarrow> mutex_index i (ms[m := x]) = mutex_index i ms"
  unfolding mutex_index_def by (cases "m < MAX_MUTEXES") (simp_all add: take_update_swap scan_list_update_same list_update_beyond)

lemma lock_locked:
  assumes "tnt_ok t s" and "locked_id i (mutexes s)"
  shows "\<exists>v. kthread_mutex_lock i s = Swtch v"
proof -
  note o = assms(1) [unfolded tnt_ok_def] and p = tnt_ok_settle [OF assms(1), unfolded tnt_ok_def]
  have "kthread_mutex_lock i s = mutex_lock_enter (mutex_index i (mutexes s)) t (settle s)"
    using o assms(2) by (simp add: kthread_mutex_lock_eq [of s t] locked_id_def Let_def)
  moreover have "mutex_index i (mutexes s) < length (mutexes s)" using o mutex_index_le [of i "mutexes s"] by linarith
  ultimately show ?thesis
    using p o assms(2) mutex_lock_enter_blocks [of "settle s" "mutex_index i (mutexes s)" t] by (simp add: locked_id_def Let_def)
qed

lemma lock_keeps:
  assumes k: "tnt_ok t s" and r: "kthread_mutex_lock i s = Ok r v"
  shows "tnt_ok t v" and "tr v = tr s" and "locked_id j (mutexes s) \<Longrightarrow> locked_id j (mutexes v)" and "r = 0 \<or> r = - 1"
proof -
  note o = k [unfolded tnt_ok_def] and p = tnt_ok_settle [OF k, unfolded tnt_ok_def]
  let ?m = "mutex_index i (mutexes s)" and ?i = "tid (ttable s ! t)"
  have m: "?m < length (mutexes s)" using o mutex_index_le [of i "mutexes s"] by linarith
  have "r = - 1 \<and> v = settle s \<or> r = 0 \<and> v = upd_mutex ?m (\<lambda>x. mtx_grab ?i (mtx_enter ?i x)) (settle s) \<and> mlocked (mutexes s ! ?m) = 0"
  proof (cases "mid (mutexes s ! ?m) \<noteq> i \<or> \<not> mused (mutexes s ! ?m)")
    case True
    with r o show ?thesis by (simp add: kthread_mutex_lock_eq [of s t] Let_def)
  next
    case False
    then have e: "mutex_lock_enter ?m t (settle s) = Ok r v" using r o by (simp add: kthread_mutex_lock_eq [of s t] Let_def)
    with lock_locked [OF k, of i] r False have z: "mlocked (mutexes s ! ?m) = 0" by (auto simp: locked_id_def Let_def)
    with e m p mutex_lock_enter_ok [of "settle s" ?m t] show ?thesis by simp
  qed
  then show "r = 0 \<or> r = - 1" "tr v = tr s" "tnt_ok t v" "locked_id j (mutexes s) \<Longrightarrow> locked_id j (mutexes v)"
    using o m by (auto simp: tnt_ok_def locked_id_def Let_def mutex_index_update nth_list_update split: if_splits)
qed

lemma cells_parent:
  assumes "complete h k p par i" and "q \<in> set (cells h k p)" and "q \<noteq> p"
  shows "nparent (h q) \<in> set (cells h k p) \<and> nparent (h q) \<noteq> 0"
  using assms
proof (induction k arbitrary: p par i)
  case (Suc k)
  let ?l = "left_child (h p)" and ?r = "right_child (h p)"
  have c: "complete h k ?l p (2 * i)" "complete h k ?r p (2 * i + 1)" "p \<noteq> 0" using Suc.prems(1) by simp_all
  have top: "nparent (h ?l) = p" "nparent (h ?r) = p" using c by (cases k; simp)+
  from Suc.prems(2,3) consider "q = ?l" | "q = ?r" | "q \<in> set (cells h k ?l)" "q \<noteq> ?l" | "q \<in> set (cells h k ?r)" "q \<noteq> ?r" by auto
  then show ?case using Suc.IH [OF c(1)] Suc.IH [OF c(2)] top c(3) by cases auto
qed simp

lemma set_path_tr: "set_path leaf i v s = Ok x u \<Longrightarrow> \<exists>ps. u = s\<lparr>tr := (tr s)\<lparr>paths := ps\<rparr>\<rparr>"
  by (auto simp: set_path_def node_at_def kexec split: if_splits)

lemma set_path_result: "(\<exists>msg. set_path leaf i v s = Fault msg) \<or> (\<exists>u. set_path leaf i v s = Ok () u)"
  by (simp add: set_path_def node_at_def kexec)

lemma cells_nonzero: "complete h k p par i \<Longrightarrow> q \<in> set (cells h k p) \<Longrightarrow> q \<noteq> 0"
  by (induction k arbitrary: p par i) auto

lemma climb_unfold:
  assumes "complete (nodes (tr s)) k p par i" and "q \<in> set (cells (nodes (tr s)) k p)" and "q \<noteq> p"
  shows "climb n leaf q s = kbind (kthread_mutex_lock (mutex_id (nodes (tr s) (nparent (nodes (tr s) q))))) (climb_locked n leaf q) s"
  using cells_parent [OF assms] cells_nonzero [OF assms(1,2)] by (simp add: kexec)

declare climb.simps [simp del]

text \<open>While the mutex of the root is locked nobody gets past it.\<close>

lemma climb_stops:
  assumes "complete (nodes (tr s)) k p 0 i" and "tnt_ok t s" and "locked_id (mutex_id (nodes (tr s) p)) (mutexes s)"
    and "q \<in> set (cells (nodes (tr s)) k p)" and "q \<noteq> p"
  shows "climb n leaf q s \<noteq> Ok 0 u"
  using assms
proof (induction n arbitrary: q s)
  case (0 q s)
  note c = climb_unfold [OF 0(1,4,5)]
  show ?case
  proof (cases "nparent (nodes (tr s) q) = p")
    case True
    with c lock_locked [OF 0(2,3)] show ?thesis by (auto simp: kexec)
  next
    case False
    show ?thesis unfolding c by (cases "kthread_mutex_lock (mutex_id (nodes (tr s) (nparent (nodes (tr s) q)))) s") (simp_all add: kexec)
  qed
next
  case (Suc n q s)
  let ?h = "nodes (tr s)"
  let ?par = "nparent (?h q)"
  note c = climb_unfold [OF Suc(2,5,6)] and par = cells_parent [OF Suc(2,5,6)] and q = cells_nonzero [OF Suc(2,5)]
  show ?case
  proof (cases "?par = p")
    case True
    with c lock_locked [OF Suc(3,4)] show ?thesis by (auto simp: kexec)
  next
    case False
    show ?thesis
    proof (cases "kthread_mutex_lock (mutex_id (?h ?par)) s")
      case (Ok r v)
      note v = lock_keeps [OF Suc(3) Ok]
      consider msg where "set_path leaf (nlevel (?h ?par)) (mutex_id (?h ?par)) v = Fault msg"
        | ps where "set_path leaf (nlevel (?h ?par)) (mutex_id (?h ?par)) v = Ok () (v\<lparr>tr := (tr v)\<lparr>paths := ps\<rparr>\<rparr>)"
        using set_path_result set_path_tr by metis
      then show ?thesis
      proof cases
        case 1
        with Ok c par q v(2) show ?thesis by (simp add: kexec)
      next
        case 2
        have "climb n leaf ?par (v\<lparr>tr := (tr v)\<lparr>paths := ps\<rparr>\<rparr>) \<noteq> Ok 0 u"
          by (rule Suc.IH) (use Suc.prems v par False in \<open>simp_all add: tnt_ok_def\<close>)
        with 2 Ok c par q v(2,4) show ?thesis by (auto simp: kexec)
      qed
    qed (simp_all add: c kexec)
  qed
qed

definition taken :: "int \<Rightarrow> int \<Rightarrow> mutex list \<Rightarrow> mutex list" where
  "taken i n ms = ms[nat i := (ms ! nat i)\<lparr>mlocked := 1, mtid := n\<rparr>]"

lemma lock_idle:
  assumes k: "tnt_ok t s" and "mutex_wf (mutexes s)" and i: "idle_mutex i (mutexes s)"
  shows "kthread_mutex_lock i s = Ok 0 ((settle s)\<lparr>mutexes := taken i (tid (ttable s ! t)) (mutexes s)\<rparr>)"
proof -
  note o = k [unfolded tnt_ok_def] and p = tnt_ok_settle [OF k, unfolded tnt_ok_def]
  let ?x = "mutexes s ! nat i" and ?n = "tid (ttable s ! t)"
  have x: "mutex_index i (mutexes s) = nat i" "mid ?x = i" "mused ?x" "mlocked ?x = 0" "nat i < length (mutexes s)"
    using mutex_index_used [of "mutexes s" "nat i"] assms by (auto simp: idle_mutex_def mutex_wf_def)
  have "mtx_grab ?n (mtx_enter ?n ?x) = ?x\<lparr>mlocked := 1, mtid := ?n\<rparr>"
    using i by (cases ?x) (simp add: idle_mutex_def mtx_grab_def mtx_enter_def Let_def)
  then show ?thesis
    using o p x mutex_lock_enter_ok [of "settle s" "nat i" t]
    by (simp add: kthread_mutex_lock_eq [of s t] Let_def upd_mutex_def taken_def)
qed

lemma taken_wf: "mutex_wf ms \<Longrightarrow> mutex_wf (taken i n ms)"
  unfolding taken_def by (rule mutex_wf_same) simp_all

lemma tnt_ok_taken: "tnt_ok t s \<Longrightarrow> tnt_ok t ((settle s)\<lparr>mutexes := taken i n (mutexes s)\<rparr>)"
  by (rule tnt_ok_mutexes) (simp_all add: taken_def)

text \<open>A thread alone in the tree climbs from its leaf to the top of a subtree and holds all mutexes on its way.\<close>

definition climbed :: "nat \<Rightarrow> 'm tnt_scheme \<Rightarrow> nat \<Rightarrow> ptr \<Rightarrow> 'm tnt_scheme \<Rightarrow> bool" where
  "climbed t s k p u \<longleftrightarrow> tnt_ok t u \<and> mutex_wf (mutexes u) \<and> (\<exists>ps. tr u = (tr s)\<lparr>paths := ps\<rparr>) \<and> ttable u = ttable s \<and>
     (\<forall>j. int j \<notin> set (mids (nodes (tr s)) k p) \<longrightarrow> mutexes u ! j = mutexes s ! j) \<and>
     (0 < k \<longrightarrow> (let x = mutexes u ! nat (mutex_id (nodes (tr s) p)) in mused x \<and> mlocked x = 1 \<and> mtid x = tid (ttable s ! t)))"

lemma climb_step:
  assumes c: "complete (nodes (tr s)) (Suc k) p par i" and ch: "ch = left_child (nodes (tr s) p) \<or> ch = right_child (nodes (tr s) p)"
    and b: "climbed t s k ch u" and l: "leaf \<noteq> 0" "lockPath (nodes (tr s) leaf) \<noteq> 0" "int k < plen (tr s) (lockPath (nodes (tr s) leaf))"
    and m: "mutex_id (nodes (tr s) p) \<notin> set (mids (nodes (tr s)) k ch)" "idle_mutex (mutex_id (nodes (tr s) p)) (mutexes s)" "mutex_wf (mutexes s)"
  shows "\<exists>v. (\<forall>n. climb (Suc n) leaf ch u = climb n leaf p v) \<and> climbed t s (Suc k) p v"
proof -
  let ?h = "nodes (tr s)" and ?m = "mutex_id (nodes (tr s) p)"
  from ch c obtain j where j: "complete ?h k ch p j" by auto
  then have cp: "nparent (?h ch) = p" "nlevel (?h ch) = int k - 1" "ch \<noteq> 0" by (cases k; simp)+
  have pl: "nlevel (?h p) = int k" "p \<noteq> 0" using c by simp_all
  from b obtain ps where u: "tnt_ok t u" "mutex_wf (mutexes u)" "tr u = (tr s)\<lparr>paths := ps\<rparr>" "ttable u = ttable s"
    "\<And>j. int j \<notin> set (mids ?h k ch) \<Longrightarrow> mutexes u ! j = mutexes s ! j" by (auto simp: climbed_def)
  have i: "idle_mutex ?m (mutexes u)" using m u(5) [of "nat ?m"] by (simp add: idle_mutex_def)
  let ?v = "((settle u)\<lparr>mutexes := taken ?m (tid (ttable s ! t)) (mutexes u)\<rparr>)
    \<lparr>tr := (tr s)\<lparr>paths := ps(lockPath (?h leaf) := (ps (lockPath (?h leaf)))(int k := ?m))\<rparr>\<rparr>"
  have "climb (Suc n) leaf ch u = climb n leaf p ?v" for n
    using lock_idle [OF u(1,2) i] cp pl l u(3,4) by (simp add: climb.simps [of "Suc n"] set_path_def kexec)
  moreover have "climbed t s (Suc k) p ?v"
  proof -
    have "nat ?m < length (mutexes u)" using i u(2) by (auto simp: idle_mutex_def mutex_wf_def)
    moreover have "mutexes ?v ! j = mutexes s ! j" if "int j \<notin> set (mids ?h (Suc k) p)" for j
    proof -
      from that ch have "int j \<noteq> ?m" "int j \<notin> set (mids ?h k ch)" by auto
      with u(5) m(2) show ?thesis by (auto simp: taken_def idle_mutex_def nth_list_update)
    qed
    ultimately show ?thesis
      using tnt_ok_taken [OF u(1)] taken_wf [OF u(2)] u(4) i by (auto simp: climbed_def Let_def taken_def idle_mutex_def)
  qed
  ultimately show ?thesis by blast
qed

lemma climb_up:
  assumes "tnt_ok t s" and "mutex_wf (mutexes s)" and "lockPath (nodes (tr s) q) \<noteq> 0" and "left_child (nodes (tr s) q) = 0"
  shows "complete (nodes (tr s)) k p par i \<Longrightarrow> q \<in> set (cells (nodes (tr s)) k p) \<Longrightarrow> int k \<le> plen (tr s) (lockPath (nodes (tr s) q)) \<Longrightarrow>
    distinct (mids (nodes (tr s)) k p) \<Longrightarrow> (\<And>j. j \<in> set (mids (nodes (tr s)) k p) \<Longrightarrow> idle_mutex j (mutexes s)) \<Longrightarrow>
    \<exists>u. (\<forall>n. climb (n + k) q q s = climb n q p u) \<and> climbed t s k p u"
proof (induction k arbitrary: p par i)
  case 0
  with assms show ?case by (intro exI [of _ s]) (auto simp: climbed_def intro: exI [of _ "paths (tr s)"])
next
  case (Suc k)
  let ?h = "nodes (tr s)"
  let ?l = "left_child (?h p)" and ?r = "right_child (?h p)"
  have c: "complete ?h k ?l p (2 * i)" "complete ?h k ?r p (2 * i + 1)" using Suc.prems(1) by simp_all
  have "q \<noteq> p" using complete_nonzero [OF c(1)] assms(4) by auto
  with Suc.prems(2) consider "q \<in> set (cells ?h k ?l)" | "q \<in> set (cells ?h k ?r)" by auto
  then have "\<exists>ch u. (ch = ?l \<or> ch = ?r) \<and> (\<forall>n. climb (n + k) q q s = climb n q ch u) \<and> climbed t s k ch u"
  proof cases
    case 1
    have "\<exists>u. (\<forall>n. climb (n + k) q q s = climb n q ?l u) \<and> climbed t s k ?l u"
      by (rule Suc.IH [OF c(1) 1]) (use Suc.prems(3-5) in auto)
    then show ?thesis by blast
  next
    case 2
    have "\<exists>u. (\<forall>n. climb (n + k) q q s = climb n q ?r u) \<and> climbed t s k ?r u"
      by (rule Suc.IH [OF c(2) 2]) (use Suc.prems(3-5) in auto)
    then show ?thesis by blast
  qed
  then obtain ch u where u: "ch = ?l \<or> ch = ?r" "\<And>n. climb (n + k) q q s = climb n q ch u" "climbed t s k ch u" by blast
  have "mutex_id (?h p) \<notin> set (mids ?h k ch)" "idle_mutex (mutex_id (?h p)) (mutexes s)" using u(1) Suc.prems(4,5) by auto
  from climb_step [OF Suc.prems(1) u(1,3) cells_nonzero [OF Suc.prems(1,2)] assms(3) _ this assms(2)] Suc.prems(3)
  obtain v where v: "\<And>n. climb (Suc n) q ch u = climb n q p v" "climbed t s (Suc k) p v" by auto
  have "climb (n + Suc k) q q s = climb n q p v" for n using u(2) [of "Suc n"] v(1) by simp
  with v(2) show ?case by blast
qed

section \<open>Properties\<close>

text \<open>A tournament tree of depth \<open>d\<close> in the memory of the process.\<close>

definition tournament :: "'m tnt_scheme \<Rightarrow> ptr \<Rightarrow> nat \<Rightarrow> bool" where
  "tournament s t d \<longleftrightarrow> (let p = root (trees (tr s) t); h = nodes (tr s)
     in 1 \<le> d \<and> treeDepth (tr s) = int d \<and> complete h d p 0 0 \<and> distinct (cells h d p) \<and> set (cells h d p) \<subseteq> set (live (tr s)) \<and>
        distinct (mids h d p) \<and> with_paths (tr s) d p)"

lemma tournament_find_leaf:
  assumes "tournament s t d"
  shows "\<exists>q. find_leaf (length (live (tr s))) (root (trees (tr s) t)) ID s = Ok q s \<and>
     (if 0 \<le> ID \<and> ID < 2 ^ d then q \<in> set (cells (nodes (tr s)) d (root (trees (tr s) t))) \<and> nindex (nodes (tr s) q) = ID \<and> left_child (nodes (tr s) q) = 0
      else q = 0)"
    and "d < length (live (tr s))"
proof -
  let ?h = "nodes (tr s)" and ?p = "root (trees (tr s) t)"
  have h: "complete ?h d ?p 0 0" "distinct (cells ?h d ?p)" "set (cells ?h d ?p) \<subseteq> set (live (tr s))"
    using assms by (simp_all add: tournament_def Let_def)
  show l: "d < length (live (tr s))"
    using length_cells [of d ?h ?p] distinct_card [OF h(2)] card_mono [OF _ h(3)] card_length [of "live (tr s)"] by simp
  have "leaf_at ?h d ?p (nat ID) \<in> set (cells ?h d ?p) \<and> nindex (?h (leaf_at ?h d ?p (nat ID))) = ID \<and> left_child (?h (leaf_at ?h d ?p (nat ID))) = 0"
    if "0 \<le> ID" "ID < 2 ^ d"
    using leaf_at_ok [OF h(1), of "nat ID"] that by (simp add: nat_less_iff)
  with l find_leaf_ok [OF h(1), where b = 0 and ID = ID]
  show "\<exists>q. find_leaf (length (live (tr s))) ?p ID s = Ok q s \<and>
     (if 0 \<le> ID \<and> ID < 2 ^ d then q \<in> set (cells ?h d ?p) \<and> nindex (?h q) = ID \<and> left_child (?h q) = 0 else q = 0)" by simp
qed

lemma tree_alloc_ok:
  assumes "fresh_alloc am" and "tnt_ok th s" and "curLevel (tr s) < 0" and "1 \<le> d" and "2 ^ d - 1 \<le> spare (mutexes s)"
  shows "\<exists>t u. trnmnt_tree_alloc am (int d) s = Ok t u \<and> tnt_ok th u \<and> curLevel (tr u) = - 1 \<and> tournament u t d \<and>
     t \<noteq> 0 \<and> set (t # cells (nodes (tr u)) d (root (trees (tr u) t))) \<inter> set (live (tr s)) = {} \<and>
     claims (mids (nodes (tr u)) d (root (trees (tr u) t))) (mutexes s) (mutexes u)"
proof -
  define t r where "t = am (live (tr s))" and "r = am (t # live (tr s))"
  have tr: "t \<noteq> 0" "r \<noteq> 0" "t \<notin> set (live (tr s))" "r \<notin> set (live (tr s))" "t \<noteq> r"
    using assms(1) unfolding t_def r_def fresh_alloc_def by (metis, metis, metis, (metis list.set_intros)+)
  let ?v = "s\<lparr>tr := (tr s)\<lparr>live := r # t # live (tr s), treeDepth := int d, trees := (trees (tr s))(t := \<lparr>root = r, tdepth = int d\<rparr>),
      nodes := (nodes (tr s))(r := (nodes (tr s) r)\<lparr>nparent := 0\<rparr>), level_index := replicate (Suc d) 0\<rparr>\<rparr>"
  have e: "trnmnt_tree_alloc am (int d) s = kseq (create_tree am r (Suc d)) (kret t) ?v"
    using assms(1,4) tr(1,2) by (simp add: trnmnt_tree_alloc_def kexec t_def [symmetric] r_def [symmetric])
  have v: "tnt_ok th ?v" "r \<in> set (live (tr ?v))" "2 ^ d - 1 \<le> spare (mutexes ?v)" using assms by simp_all
  have "level_index (tr ?v) ! j = 0" if "j \<le> d" for j using that by (simp del: replicate.simps)
  then have rd: "ready_at (tr ?v) d 0" using assms(3,4) by (simp add: ready_at_def)
  from create_tree_ok [OF assms(1) v(1) tr(2) v(2) rd v(3)] obtain u where
    u: "create_tree am r (Suc d) ?v = Ok () u" "built th ?v r d 0 u" by blast
  have g: "grown (tr ?v) r d 0 (tr u)" "claims (mids (nodes (tr u)) d r) (mutexes s) (mutexes u)" "tnt_ok th u"
    using u(2) by (simp_all add: built_def)
  let ?h = "nodes (tr u)"
  have h: "complete ?h d r 0 0" "distinct (cells ?h d r)" "set (cells ?h d r) \<subseteq> insert r (set (live (tr u)) - set (live (tr ?v)))"
      "set (live (tr ?v)) \<subseteq> set (live (tr u))" "trees (tr u) t = \<lparr>root = r, tdepth = int d\<rparr>" "curLevel (tr u) = - 1"
      "with_paths (tr u) d r" "treeDepth (tr u) = int d" "distinct (mids ?h d r)"
    using g(1,2) by (simp_all add: grown_def claims_def)
  have cs: "t \<notin> set (cells ?h d r)" "set (cells ?h d r) \<inter> set (live (tr s)) = {}" "set (cells ?h d r) \<subseteq> set (live (tr u))"
    using h(3,4) tr by auto
  have T: "tournament u t d" using h cs(3) assms(4) by (simp add: tournament_def Let_def)
  have "trnmnt_tree_alloc am (int d) s = Ok t u" using e u(1) by (simp add: kexec)
  then show ?thesis
    using T tr(1,3) h(6) cs g(2,3) by (intro exI [of _ t] exI [of _ u]) (simp add: h(5))
qed

text \<open>C35. \<open>trnmnt_tree_alloc\<close> builds a tournament: for a depth of at least 1, enough free mutexes and a
  \<open>malloc\<close> that succeeds, it returns a complete binary tree of that depth with nodes of its own, every child
  linked to its parent, the nodes of each level numbered from left to right, one newly
  claimed mutex for each inner node, no other mutex touched, and a lock path of the right length for each
  leaf. \<open>find_leaf\<close> returns the leaf with the number it is asked for, and the null pointer exactly
  for the numbers there is no leaf for.\<close>

theorem tree_alloc_builds_a_tournament:
  assumes "fresh_alloc am" and "tnt_ok th s" and "curLevel (tr s) < 0" and "1 \<le> d" and "2 ^ d - 1 \<le> spare (mutexes s)"
  shows "\<exists>t u. trnmnt_tree_alloc am (int d) s = Ok t u \<and> curLevel (tr u) = - 1 \<and> tournament u t d \<and>
     (let p = root (trees (tr u) t); h = nodes (tr u)
      in t \<noteq> 0 \<and> set (t # cells h d p) \<inter> set (live (tr s)) = {} \<and> claims (mids h d p) (mutexes s) (mutexes u) \<and>
         (\<forall>ID. \<exists>q. find_leaf (length (live (tr u))) p ID u = Ok q u \<and>
            (if 0 \<le> ID \<and> ID < 2 ^ d then q \<in> set (cells h d p) \<and> nindex (h q) = ID \<and> left_child (h q) = 0 else q = 0)))"
proof -
  from tree_alloc_ok [OF assms] obtain t u where
    u: "trnmnt_tree_alloc am (int d) s = Ok t u" "curLevel (tr u) = - 1" "tournament u t d" "t \<noteq> 0"
      "set (t # cells (nodes (tr u)) d (root (trees (tr u) t))) \<inter> set (live (tr s)) = {}"
      "claims (mids (nodes (tr u)) d (root (trees (tr u) t))) (mutexes s) (mutexes u)" by blast
  with tournament_find_leaf(1) [OF u(3)] show ?thesis unfolding Let_def by blast
qed


subsection \<open>A concrete process\<close>

definition node0 :: tree_node where
  "node0 = \<lparr>left_child = 0, right_child = 0, nparent = 0, mutex_id = 0, nindex = 0, nlevel = 0, lockPath = 0\<rparr>"

definition tnt0 :: tnt where
  "tnt0 = mtable.extend (run_on 0 (parked_m mutex0)) \<lparr>tr = \<lparr>trees = (\<lambda>_. \<lparr>root = 0, tdepth = 0\<rparr>), nodes = (\<lambda>_. node0), paths = (\<lambda>_ _. 0),
     plen = (\<lambda>_. 0), live = [], level_index = [], treeDepth = 0, gindex = 0, curLevel = - 2\<rparr>\<rparr>"

definition bump :: "ptr list \<Rightarrow> ptr" where
  "bump l = Suc (sum_list l)"

lemma bump_fresh: "fresh_alloc bump"
  unfolding fresh_alloc_def bump_def by (auto dest: member_le_sum_list)

lemma tnt0_ok: "tnt_ok 0 tnt0" "curLevel (tr tnt0) < 0" "2 ^ 2 - 1 \<le> spare (mutexes tnt0)" "mutex_wf (mutexes tnt0)" "tid (ttable tnt0 ! 0) = 1"
proof -
  have m: "mutexes tnt0 = mutex0 # replicate MAX_MUTEXES mutex0" by (simp add: tnt0_def mtable.extend_def run_on_def parked_m_ok)
  then show "mutex_wf (mutexes tnt0)" "2 ^ 2 - 1 \<le> spare (mutexes tnt0)"
    using parked_m_wf [of mutex0] by (simp_all add: parked_m_ok mutex0_def spare_def MAX_MUTEXES_def)
  show "curLevel (tr tnt0) < 0" "tid (ttable tnt0 ! 0) = 1" by (simp_all add: tnt0_def mtable.extend_def run_on_def parked_m_ok)
  have "cpu_inv tnt0 = cpu_inv (run_on 0 (parked_m mutex0))" "lock_free lk tnt0 = lock_free lk (run_on 0 (parked_m mutex0))"
      "cur tnt0 = cur (run_on 0 (parked_m mutex0))" "ttable tnt0 = ttable (parked_m mutex0)" for lk
    by (simp_all add: tnt0_def mtable.extend_def cpu_inv_def lock_free_def cur_def this_cpu_def run_on_def)
  then show "tnt_ok 0 tnt0" using parked_m_run parked_m_ok(2) m by (simp add: tnt_ok_def)
qed

theorem tree_alloc_builds_a_tournament_witness:
  "\<exists>t u. trnmnt_tree_alloc bump 2 tnt0 = Ok t u \<and> tournament u t 2 \<and> (\<exists>q. find_leaf (length (live (tr u))) (root (trees (tr u) t)) 3 u = Ok q u \<and> q \<noteq> 0)"
proof -
  from tree_alloc_builds_a_tournament [OF bump_fresh tnt0_ok(1,2) _ tnt0_ok(3)] obtain t u where
    u: "trnmnt_tree_alloc bump (int 2) tnt0 = Ok t u" "tournament u t 2"
    and f: "\<forall>ID. \<exists>q. find_leaf (length (live (tr u))) (root (trees (tr u) t)) ID u = Ok q u \<and>
        (if 0 \<le> ID \<and> ID < 2 ^ 2 then q \<in> set (cells (nodes (tr u)) 2 (root (trees (tr u) t))) \<and> nindex (nodes (tr u) q) = ID \<and> left_child (nodes (tr u) q) = 0 else q = 0)"
    unfolding Let_def by auto
  from f [rule_format, of 3] obtain q where
    q: "find_leaf (length (live (tr u))) (root (trees (tr u) t)) 3 u = Ok q u" "q \<in> set (cells (nodes (tr u)) 2 (root (trees (tr u) t)))" by auto
  moreover have "q \<noteq> 0" using u(2) q(2) by (auto simp: tournament_def Let_def dest: cells_nonzero)
  ultimately show ?thesis using u by auto
qed


end
