(* ===== verification/Grep.thy ===== *)
theory Grep
  imports Mem
begin

text \<open>
  The \<open>grep\<close> program (\<open>grep.c\<close>): the matcher for patterns with \<open>^ . * $\<close>, and the loop that reads the
  input through a buffer of 1024 bytes and prints the lines that match.

  A C string is the list of its bytes before the terminator. Each \<open>read\<close> returns at most the bytes the
  buffer has room for; how many it returns is up to the system, so the list of these numbers is a
  parameter. Output is the list of bytes written.
\<close>

subsection \<open>The matcher\<close>

definition chr :: "char \<Rightarrow> uchar" where
  "chr c = of_char c"

definition okc :: "uchar \<Rightarrow> uchar \<Rightarrow> bool" where
  "okc c x \<longleftrightarrow> c = chr CHR ''.'' \<or> c = x"

fun matchhere :: "uchar list \<Rightarrow> uchar list \<Rightarrow> bool"
and matchstar :: "uchar \<Rightarrow> uchar list \<Rightarrow> uchar list \<Rightarrow> bool" where
  "matchhere [] tx = True"
| "matchhere [r] tx =
     (if r = chr CHR ''$'' then tx = []
      else if tx \<noteq> [] \<and> okc r (hd tx) then matchhere [] (tl tx)
      else False)"
| "matchhere (r # s # re) tx =
     (if s = chr CHR ''*'' then matchstar r re tx
      else if tx \<noteq> [] \<and> okc r (hd tx) then matchhere (s # re) (tl tx)
      else False)"
| "matchstar c re tx =
     (if matchhere re tx then True
      else case tx of [] \<Rightarrow> False | x # xs \<Rightarrow> if x = c \<or> c = chr CHR ''.'' then matchstar c re xs else False)"

fun match_from :: "uchar list \<Rightarrow> uchar list \<Rightarrow> bool" where
  "match_from re tx = (if matchhere re tx then True else case tx of [] \<Rightarrow> False | x # xs \<Rightarrow> match_from re xs)"

declare match_from.simps [simp del] matchstar.simps [simp del]

definition match :: "uchar list \<Rightarrow> uchar list \<Rightarrow> bool" where
  "match re tx = (case re of r # re' \<Rightarrow> if r = chr CHR ''^'' then matchhere re' tx else match_from re tx | [] \<Rightarrow> match_from re tx)"

subsection \<open>The loop over the input\<close>

text \<open>
  The lines of the buffer, one after the other: the search for the end of a line stops at a null byte.
  The result is what is printed, what is left of the buffer, and whether there was a line at all.
\<close>

function grep_lines :: "uchar list \<Rightarrow> uchar list \<Rightarrow> uchar list \<times> uchar list" where
  "grep_lines re p =
     (let s = takeWhile (\<lambda>b. b \<noteq> 0) p; l = takeWhile (\<lambda>b. b \<noteq> 10) s
      in if 10 \<in> set s then
           (let (out, rest) = grep_lines re (drop (Suc (length l)) p)
            in ((if match re l then l @ [10] else []) @ out, rest))
         else ([], p))"
  by pat_completeness (simp only: prod.inject)

termination
proof (relation "measure (\<lambda>(re, p). length p)")
  fix re p :: "uchar list" and s l
  assume s: "s = takeWhile (\<lambda>b. b \<noteq> 0) p" and "10 \<in> set s"
  then have "p \<noteq> []" by auto
  then show "((re, drop (Suc (length l)) p), re, p) \<in> measure (\<lambda>(re, p). length p)" by simp
qed simp

declare grep_lines.simps [simp del]

text \<open>
  \<open>buf\<close> is the first part of a line that the last pass left in the buffer. A pass that found no
  line at all starts again with an empty buffer.
\<close>

fun grep :: "uchar list \<Rightarrow> uchar list \<Rightarrow> nat list \<Rightarrow> uchar list \<Rightarrow> uchar list" where
  "grep re buf [] inp = []"
| "grep re buf (k # ks) inp =
     (let n = min k (1024 - length buf - 1); chunk = take n inp
      in if chunk = [] then []
         else
           (let p = buf @ chunk; (out, rest) = grep_lines re p
            in out @ grep re (if length rest = length p then [] else rest) ks (drop n inp)))"

subsection \<open>What a pattern means\<close>

datatype atom = One uchar | Star uchar | End

fun atoms :: "uchar list \<Rightarrow> atom list" where
  "atoms [] = []"
| "atoms [r] = [if r = chr CHR ''$'' then End else One r]"
| "atoms (r # s # re) = (if s = chr CHR ''*'' then Star r # atoms re else One r # atoms (s # re))"

text \<open>The strings a pattern stands for; \<open>$\<close> stands for the empty string at the end of the text.\<close>

fun lang :: "atom list \<Rightarrow> uchar list set" where
  "lang [] = {[]}"
| "lang (One c # as) = {x # w | x w. okc c x \<and> w \<in> lang as}"
| "lang (Star c # as) = {u @ w | u w. (\<forall>x \<in> set u. okc c x) \<and> w \<in> lang as}"
| "lang (End # as) = lang as"

definition anchored :: "atom list \<Rightarrow> bool" where
  "anchored as \<longleftrightarrow> as \<noteq> [] \<and> last as = End"

definition occurs :: "uchar list \<Rightarrow> uchar list \<Rightarrow> bool" where
  "occurs re tx \<longleftrightarrow>
     (let caret = re \<noteq> [] \<and> hd re = chr CHR ''^''; as = atoms (if caret then tl re else re)
      in \<exists>pre mid post. tx = pre @ mid @ post \<and> mid \<in> lang as \<and> (caret \<longrightarrow> pre = []) \<and> (anchored as \<longrightarrow> post = []))"

definition here :: "atom list \<Rightarrow> uchar list \<Rightarrow> bool" where
  "here as tx \<longleftrightarrow> (\<exists>mid post. tx = mid @ post \<and> mid \<in> lang as \<and> (anchored as \<longrightarrow> post = []))"

lemma here_Nil: "here [] tx"
  by (simp add: here_def anchored_def)

lemma here_End: "here [End] tx \<longleftrightarrow> tx = []"
  by (simp add: here_def anchored_def)

lemma here_One: "here (One c # as) tx \<longleftrightarrow> (\<exists>x xs. tx = x # xs \<and> okc c x \<and> here as xs)"
proof -
  have "anchored (One c # as) = anchored as" by (simp add: anchored_def)
  then show ?thesis unfolding here_def by (simp, metis append_Cons)
qed

lemma here_Star_iff:
  "here (Star c # as) tx \<longleftrightarrow> (\<exists>u w post. tx = u @ w @ post \<and> (\<forall>x \<in> set u. okc c x) \<and> w \<in> lang as \<and> (anchored as \<longrightarrow> post = []))"
proof -
  have e: "anchored (Star c # as) = anchored as" by (simp add: anchored_def)
  show ?thesis
  proof
    assume "here (Star c # as) tx"
    then obtain u w post where "tx = (u @ w) @ post" "\<forall>x \<in> set u. okc c x" "w \<in> lang as" "anchored as \<longrightarrow> post = []"
      unfolding here_def e lang.simps by blast
    then show "\<exists>u w post. tx = u @ w @ post \<and> (\<forall>x \<in> set u. okc c x) \<and> w \<in> lang as \<and> (anchored as \<longrightarrow> post = [])"
      by (intro exI [of _ u] exI [of _ w] exI [of _ post]) simp
  next
    assume "\<exists>u w post. tx = u @ w @ post \<and> (\<forall>x \<in> set u. okc c x) \<and> w \<in> lang as \<and> (anchored as \<longrightarrow> post = [])"
    then obtain u w post where "tx = (u @ w) @ post" "\<forall>x \<in> set u. okc c x" "w \<in> lang as" and p: "anchored as \<longrightarrow> post = []" by auto
    then have "tx = (u @ w) @ post" "u @ w \<in> lang (Star c # as)" unfolding lang.simps by blast+
    with p show "here (Star c # as) tx" unfolding here_def e by blast
  qed
qed

lemma here_iff: "here as tx \<longleftrightarrow> (\<exists>w post. tx = w @ post \<and> w \<in> lang as \<and> (anchored as \<longrightarrow> post = []))"
  by (simp add: here_def)

lemma here_Star: "here (Star c # as) tx \<longleftrightarrow> here as tx \<or> (\<exists>x xs. tx = x # xs \<and> okc c x \<and> here (Star c # as) xs)"
proof
  assume "here (Star c # as) tx"
  then obtain u w post where t: "tx = u @ w @ post" "\<forall>x \<in> set u. okc c x" "w \<in> lang as" "anchored as \<longrightarrow> post = []"
    unfolding here_Star_iff by blast
  show "here as tx \<or> (\<exists>x xs. tx = x # xs \<and> okc c x \<and> here (Star c # as) xs)"
  proof (cases u)
    case Nil
    with t show ?thesis unfolding here_iff by auto
  next
    case (Cons x v)
    with t have "here (Star c # as) (v @ w @ post)" unfolding here_Star_iff by (intro exI [of _ v] exI [of _ w] exI [of _ post]) simp
    with Cons t show ?thesis by simp
  qed
next
  assume "here as tx \<or> (\<exists>x xs. tx = x # xs \<and> okc c x \<and> here (Star c # as) xs)"
  then show "here (Star c # as) tx"
  proof
    assume "here as tx"
    then obtain w post where "tx = [] @ w @ post" "w \<in> lang as" "anchored as \<longrightarrow> post = []" unfolding here_iff by auto
    then show ?thesis unfolding here_Star_iff by (intro exI [of _ "[]"] exI [of _ w] exI [of _ post]) simp
  next
    assume "\<exists>x xs. tx = x # xs \<and> okc c x \<and> here (Star c # as) xs"
    then obtain x u w post where "tx = (x # u) @ w @ post" "okc c x" "\<forall>x \<in> set u. okc c x" "w \<in> lang as" "anchored as \<longrightarrow> post = []"
      unfolding here_Star_iff by auto
    then show ?thesis unfolding here_Star_iff by (intro exI [of _ "x # u"] exI [of _ w] exI [of _ post]) simp
  qed
qed

lemma matchhere_here:
  shows "matchhere re tx = here (atoms re) tx" and "matchstar c re tx = here (Star c # atoms re) tx"
proof (induction re tx and c re tx rule: matchhere_matchstar.induct)
  case (4 c re tx)
  show ?case using 4 by (subst matchstar.simps, subst here_Star) (auto simp: okc_def split: list.splits)
qed (auto simp: here_Nil here_End here_One neq_Nil_conv)

lemma match_from_here: "match_from re tx \<longleftrightarrow> (\<exists>pre rest. tx = pre @ rest \<and> here (atoms re) rest)"
proof (induction tx)
  case Nil
  show ?case by (subst match_from.simps) (simp add: matchhere_here)
next
  case (Cons x xs)
  have "(\<exists>pre rest. x # xs = pre @ rest \<and> here (atoms re) rest) \<longleftrightarrow>
      here (atoms re) (x # xs) \<or> (\<exists>pre rest. xs = pre @ rest \<and> here (atoms re) rest)"
    by (auto simp: Cons_eq_append_conv)
  with Cons.IH show ?case by (subst match_from.simps) (simp add: matchhere_here)
qed

lemma match_occurs: "match re tx = occurs re tx"
proof (cases "re \<noteq> [] \<and> hd re = chr CHR ''^''")
  case True
  then obtain re' where "re = chr CHR ''^'' # re'" by (cases re) auto
  then show ?thesis by (simp add: match_def occurs_def matchhere_here here_def Let_def)
next
  case False
  then have "match re tx = match_from re tx" by (auto simp: match_def split: list.splits)
  with False show ?thesis by (auto simp: match_from_here occurs_def here_def Let_def)
qed

lemma match_eq: "match = occurs"
  by (intro ext match_occurs)

section \<open>Properties\<close>

definition terminated :: "uchar list list \<Rightarrow> uchar list" where
  "terminated ls = concat (map (\<lambda>l. l @ [10]) ls)"

lemma terminated_simps [simp]: "terminated [] = []" "terminated (l # ls) = l @ 10 # terminated ls" "terminated (ls @ ms) = terminated ls @ terminated ms"
  by (simp_all add: terminated_def)

lemma takeWhile_line [simp]: "10 \<notin> set l \<Longrightarrow> takeWhile (\<lambda>b. b \<noteq> (10 :: uchar)) (l @ 10 # x) = l"
  by (auto simp: takeWhile_append2 takeWhile_tail)

lemma grep_lines_ok:
  assumes "\<forall>l \<in> set ls. 10 \<notin> set l" and "10 \<notin> set rest" and "0 \<notin> set (terminated ls @ rest)"
  shows "grep_lines re (terminated ls @ rest) = (terminated (filter (match re) ls), rest)"
  using assms
proof (induction ls)
  case Nil
  then show ?case by (subst grep_lines.simps) (auto simp: Let_def dest: set_takeWhileD)
next
  case (Cons l ls)
  have s: "takeWhile (\<lambda>b. b \<noteq> 0) (l @ 10 # terminated ls @ rest) = l @ 10 # terminated ls @ rest"
    by (rule takeWhile_eq_all_conv [THEN iffD2]) (use Cons.prems(3) in auto)
  with Cons show ?case by (subst grep_lines.simps) (simp add: Let_def)
qed

lemma lines_exist: "\<exists>ls rest. p = terminated ls @ rest \<and> (\<forall>l \<in> set ls. 10 \<notin> set l) \<and> 10 \<notin> set rest \<and> (10 \<in> set p \<longrightarrow> ls \<noteq> [])"
proof (induction p)
  case (Cons b p)
  then obtain ls rest where p: "p = terminated ls @ rest" "\<forall>l \<in> set ls. 10 \<notin> set l" "10 \<notin> set rest" by blast
  show ?case
  proof (cases "b = 10")
    case True
    with p show ?thesis by (intro exI [of _ "[] # ls"] exI [of _ rest]) simp
  next
    case False
    show ?thesis
    proof (cases ls)
      case Nil
      with p False show ?thesis by (intro exI [of _ "[]"] exI [of _ "b # rest"]) auto
    next
      case (Cons l ms)
      with p False show ?thesis by (intro exI [of _ "(b # l) # ms"] exI [of _ rest]) auto
    qed
  qed
qed (auto intro: exI [of _ "[]"])

lemma no_lines: "10 \<notin> set (terminated ls @ rest) \<Longrightarrow> ls = []"
  by (cases ls) auto

lemma lines_split:
  assumes "terminated ks @ x = terminated ls @ rest" and "\<forall>l \<in> set ks \<union> set ls. 10 \<notin> set l" and "10 \<notin> set rest"
  shows "\<exists>ms. ls = ks @ ms \<and> x = terminated ms @ rest"
  using assms
proof (induction ks arbitrary: ls)
  case (Cons k ks)
  have "10 \<in> set (terminated ls @ rest)" unfolding Cons.prems(1) [symmetric] by simp
  with Cons.prems(3) obtain l ls' where l: "ls = l # ls'" by (cases ls) auto
  have "takeWhile (\<lambda>b. b \<noteq> 10) (terminated (k # ks) @ x) = takeWhile (\<lambda>b. b \<noteq> 10) (terminated ls @ rest)" using Cons.prems(1) by simp
  then have "k = l" using Cons.prems(2) by (simp add: l)
  with Cons l show ?case by auto
qed simp

text \<open>What a pass leaves of the buffer, and reads that bring the end of a line every time until no line is left.\<close>

definition tail_of :: "uchar list \<Rightarrow> uchar list" where
  "tail_of p = rev (takeWhile (\<lambda>b. b \<noteq> 10) (rev p))"

lemma tail_of_ok: "10 \<notin> set rest \<Longrightarrow> ls \<noteq> [] \<Longrightarrow> tail_of (terminated ls @ rest) = rest"
proof (cases ls rule: rev_cases)
  case (snoc ms l)
  assume r: "10 \<notin> set rest"
  then have "takeWhile (\<lambda>b. b \<noteq> 10) (rev rest @ 10 # x) = rev rest" for x using takeWhile_line [of "rev rest" x] by simp
  with snoc show ?thesis by (simp add: tail_of_def)
qed simp

fun fed :: "uchar list \<Rightarrow> nat list \<Rightarrow> uchar list \<Rightarrow> bool" where
  "fed buf [] inp = (10 \<notin> set inp)"
| "fed buf (k # ks) inp =
     (let n = min k (1024 - length buf - 1); chunk = take n inp
      in if chunk = [] then 10 \<notin> set inp else 10 \<in> set chunk \<and> fed (tail_of (buf @ chunk)) ks (drop n inp))"

lemma grep_ok:
  assumes "buf @ inp = terminated ls @ rest" and "\<forall>l \<in> set ls. 10 \<notin> set l" and "10 \<notin> set rest" and "10 \<notin> set buf" and "0 \<notin> set (buf @ inp)"
    and "fed buf ks inp"
  shows "grep re buf ks inp = terminated (filter (match re) ls)"
  using assms
proof (induction ks arbitrary: buf inp ls)
  case Nil
  then have "10 \<notin> set (terminated ls @ rest)" unfolding Nil.prems(1) [symmetric] by simp
  then have "ls = []" by (rule no_lines)
  then show ?case by simp
next
  case (Cons k ks)
  define n where "n = min k (1024 - length buf - 1)"
  show ?case
  proof (cases "take n inp = []")
    case True
    then have "10 \<notin> set (buf @ inp)" using Cons.prems(4,6) unfolding fed.simps n_def [symmetric] Let_def by simp
    then have "ls = []" unfolding Cons.prems(1) by (rule no_lines)
    with True show ?thesis unfolding grep.simps n_def [symmetric] Let_def by simp
  next
    case False
    let ?p = "buf @ take n inp"
    have f: "10 \<in> set (take n inp)" "fed (tail_of ?p) ks (drop n inp)" using False Cons.prems(6) unfolding fed.simps n_def [symmetric] Let_def by simp_all
    obtain ms r where p: "?p = terminated ms @ r" "\<forall>l \<in> set ms. 10 \<notin> set l" "10 \<notin> set r" "ms \<noteq> []"
      using lines_exist [of ?p] f(1) by auto
    have "terminated ms @ r @ drop n inp = ?p @ drop n inp" unfolding p(1) by simp
    also have "\<dots> = terminated ls @ rest" using Cons.prems(1) by simp
    finally have "terminated ms @ r @ drop n inp = terminated ls @ rest" .
    from lines_split [OF this] p(2) Cons.prems(2,3) obtain ns where ns: "ls = ms @ ns" "r @ drop n inp = terminated ns @ rest" by auto
    have z: "0 \<notin> set ?p" "0 \<notin> set (drop n inp)" using Cons.prems(5) by (auto dest: in_set_takeD in_set_dropD)
    then have zr: "0 \<notin> set (r @ drop n inp)" unfolding p(1) by simp
    from z have gl: "grep_lines re ?p = (terminated (filter (match re) ms), r)"
      using grep_lines_ok [OF p(2,3)] p(1) by simp
    have "length r \<noteq> length ?p" using p(1,4) by (cases ms) auto
    moreover have "grep re r ks (drop n inp) = terminated (filter (match re) ns)"
      by (rule Cons.IH [OF ns(2) _ Cons.prems(3) p(3) zr]) (use Cons.prems(2) ns(1) p(1) f(2) tail_of_ok [OF p(3,4)] in auto)
    ultimately show ?thesis using False gl ns(1) unfolding grep.simps n_def [symmetric] Let_def by simp
  qed
qed

text \<open>C37. \<open>grep\<close> prints, in order, exactly the lines in which the pattern occurs, in the sense of the strings it
  stands for: \<open>^\<close> ties the occurrence to the start of the line, \<open>$\<close> at the end to its end, \<open>.\<close> stands for any byte and
  \<open>c*\<close> for any number of them. This holds however the input arrives, as long as it has no null bytes and every
  \<open>read\<close> brings the end of a line.\<close>

theorem grep_prints_the_matching_lines:
  assumes "inp = terminated ls @ rest" and "\<forall>l \<in> set ls. 10 \<notin> set l" and "10 \<notin> set rest" and "0 \<notin> set inp" and "fed [] ks inp"
  shows "grep re [] ks inp = terminated (filter (occurs re) ls)"
  using grep_ok [of "[]" inp ls rest ks re] assms unfolding match_eq by simp

text \<open>Without the last condition lines are lost: what a \<open>read\<close> without an end of line brought is dropped.\<close>

lemma grep_drops_partial_lines:
  assumes "10 \<notin> set (take n inp)" and "10 \<notin> set buf" and "take n inp \<noteq> []" and "n = min k (1024 - length buf - 1)"
  shows "grep re buf (k # ks) inp = grep re [] ks (drop n inp)"
proof -
  have "10 \<notin> set (takeWhile (\<lambda>b. b \<noteq> 0) (buf @ take n inp))" using assms(1,2) by (auto dest: set_takeWhileD)
  then have "grep_lines re (buf @ take n inp) = ([], buf @ take n inp)" by (subst grep_lines.simps) (simp add: Let_def)
  with assms(3) show ?thesis unfolding grep.simps assms(4) [symmetric] Let_def by simp
qed

theorem grep_prints_the_matching_lines_witness:
  "grep (map chr ''^a.*c$'') [] [5, 100] (map chr ''abc'' @ [10] @ map chr ''b'' @ [10] @ map chr ''axxc'' @ [10]) =
     map chr ''abc'' @ [10] @ map chr ''axxc'' @ [10]"
proof -
  let ?ls = "[map chr ''abc'', map chr ''b'', map chr ''axxc'']"
  have t: "map chr ''abc'' @ [10] @ map chr ''b'' @ [10] @ map chr ''axxc'' @ [10] = terminated ?ls @ []" by simp
  have n: "\<forall>l \<in> set ?ls. 10 \<notin> set l" "0 \<notin> set (terminated ?ls @ [])" by (simp_all add: chr_def)
  have f: "fed [] [5, 100] (terminated ?ls @ [])" by code_simp
  have "filter (match (map chr ''^a.*c$'')) ?ls = [map chr ''abc'', map chr ''axxc'']" by code_simp
  then have "filter (occurs (map chr ''^a.*c$'')) ?ls = [map chr ''abc'', map chr ''axxc'']" unfolding match_eq .
  with grep_prints_the_matching_lines [OF refl n(1) _ n(2) f] show ?thesis unfolding t by simp
qed

end
