(* ===== verification/Sh.thy ===== *)
theory Sh
  imports Mem "HOL-Library.Sublist"
begin

text \<open>
  The shell (\<open>sh.c\<close>): the tokenizer, the recursive descent parser with the constructors of the command tree,
  the termination of the counted strings, and what a command does when it is run.

  A pointer into the command line is the rest of the line from there on; the end of the line is the empty
  rest. A word is the pair of pointers to its start and to its end. \<open>malloc\<close> is taken to succeed, so that a
  constructor is the constructor of the tree.
\<close>

subsection \<open>Command trees\<close>

datatype 't cmd =
    EXEC "'t list"
  | REDIR "'t cmd" 't int int
  | PIPE "'t cmd" "'t cmd"
  | LIST "'t cmd" "'t cmd"
  | BACK "'t cmd"

type_synonym sptr = "uchar list"
type_synonym word_ptrs = "sptr \<times> sptr"

definition MAXARGS :: nat where "MAXARGS = 10"
definition RD_MODE :: int where "RD_MODE = 0"
definition WR_MODE :: int where "WR_MODE = 0x201"

definition sc :: "char \<Rightarrow> uchar" where
  "sc c = of_char c"

text \<open>The parser ends with a tree, with a panic of the shell, or without fuel.\<close>

datatype 'a pres = Parsed 'a | Perr string | NoFuel

fun pbind :: "'a pres \<Rightarrow> ('a \<Rightarrow> 'b pres) \<Rightarrow> 'b pres" where
  "pbind (Parsed x) f = f x"
| "pbind (Perr msg) f = Perr msg"
| "pbind NoFuel f = NoFuel"

subsection \<open>Tokens\<close>

definition whitespace :: "uchar list" where
  "whitespace = [32, 9, 13, 10, 11]"

definition symbols :: "uchar list" where
  "symbols = map sc ''<|>&;()''"

definition skip_ws :: "sptr \<Rightarrow> sptr" where
  "skip_ws s = dropWhile (\<lambda>c. c \<in> set whitespace) s"

definition ordinary :: "uchar \<Rightarrow> bool" where
  "ordinary c \<longleftrightarrow> c \<notin> set whitespace \<and> c \<notin> set symbols"

definition gettoken :: "sptr \<Rightarrow> uchar \<times> sptr \<times> sptr \<times> sptr" where
  "gettoken s =
     (let q = skip_ws s
      in case q of
           [] \<Rightarrow> (0, q, q, skip_ws q)
         | c # t \<Rightarrow>
             if c \<in> set (map sc ''|();&<'') then (c, q, t, skip_ws t)
             else if c = sc CHR ''>'' then
               (case t of
                  [] \<Rightarrow> (c, q, t, skip_ws t)
                | d # u \<Rightarrow> if d = sc CHR ''>'' then (sc CHR ''+'', q, u, skip_ws u) else (c, q, t, skip_ws t))
             else
               (let e = dropWhile ordinary q in (sc CHR ''a'', q, e, skip_ws e)))"

definition peek :: "string \<Rightarrow> sptr \<Rightarrow> bool \<times> sptr" where
  "peek toks s = (let t = skip_ws s in (t \<noteq> [] \<and> hd t \<in> set (map sc toks), t))"

subsection \<open>The parser\<close>

text \<open>
  The fuel of a loop bounds its iterations, each of which takes at least one byte; the fuel of the
  mutual recursion bounds its depth. \<open>parsecmd\<close> starts with more than any line needs.
\<close>

fun parseredirs :: "nat \<Rightarrow> word_ptrs cmd \<Rightarrow> sptr \<Rightarrow> (word_ptrs cmd \<times> sptr) pres" where
  "parseredirs 0 c s = NoFuel"
| "parseredirs (Suc n) c s =
     (let (more, s) = peek ''<>'' s
      in if \<not> more then Parsed (c, s)
         else
           (let (tok, _, _, s) = gettoken s; (w, q, eq, s) = gettoken s
            in if w \<noteq> sc CHR ''a'' then Perr ''missing file for redirection''
               else if tok = sc CHR ''<'' then parseredirs n (REDIR c (q, eq) RD_MODE 0) s
               else parseredirs n (REDIR c (q, eq) WR_MODE 1) s))"

text \<open>The words go into the execution node, which the redirections found so far already surround.\<close>

fun set_args :: "'t list \<Rightarrow> 't cmd \<Rightarrow> 't cmd" where
  "set_args ws (REDIR c f m d) = REDIR (set_args ws c) f m d"
| "set_args ws (EXEC vs) = EXEC ws"
| "set_args ws c = c"

fun parse_words :: "nat \<Rightarrow> word_ptrs list \<Rightarrow> word_ptrs cmd \<Rightarrow> sptr \<Rightarrow> (word_ptrs cmd \<times> sptr) pres" where
  "parse_words 0 ws ret s = NoFuel"
| "parse_words (Suc n) ws ret s =
     (let (stop, s) = peek ''|)&;'' s
      in if stop then Parsed (set_args ws ret, s)
         else
           (let (tok, q, eq, s) = gettoken s
            in if tok = 0 then Parsed (set_args ws ret, s)
               else if tok \<noteq> sc CHR ''a'' then Perr ''syntax''
               else if MAXARGS \<le> length ws + 1 then Perr ''too many args''
               else pbind (parseredirs n ret s) (\<lambda>(ret, s). parse_words n (ws @ [(q, eq)]) ret s)))"

fun parse_backs :: "nat \<Rightarrow> word_ptrs cmd \<Rightarrow> sptr \<Rightarrow> (word_ptrs cmd \<times> sptr) pres" where
  "parse_backs 0 c s = NoFuel"
| "parse_backs (Suc n) c s =
     (let (more, s) = peek ''&'' s
      in if more then (let (_, _, _, s) = gettoken s in parse_backs n (BACK c) s) else Parsed (c, s))"

fun parseline :: "nat \<Rightarrow> sptr \<Rightarrow> (word_ptrs cmd \<times> sptr) pres"
and parsepipe :: "nat \<Rightarrow> sptr \<Rightarrow> (word_ptrs cmd \<times> sptr) pres"
and parseexec :: "nat \<Rightarrow> sptr \<Rightarrow> (word_ptrs cmd \<times> sptr) pres"
and parseblock :: "nat \<Rightarrow> sptr \<Rightarrow> (word_ptrs cmd \<times> sptr) pres" where
  "parseline 0 s = NoFuel"
| "parseline (Suc n) s =
     pbind (parsepipe n s) (\<lambda>(c, s).
     pbind (parse_backs (Suc (length s)) c s) (\<lambda>(c, s).
     let (more, s) = peek '';'' s
     in if more then
          (let (_, _, _, s) = gettoken s in pbind (parseline n s) (\<lambda>(d, s). Parsed (LIST c d, s)))
        else Parsed (c, s)))"
| "parsepipe 0 s = NoFuel"
| "parsepipe (Suc n) s =
     pbind (parseexec n s) (\<lambda>(c, s).
     let (more, s) = peek ''|'' s
     in if more then
          (let (_, _, _, s) = gettoken s in pbind (parsepipe n s) (\<lambda>(d, s). Parsed (PIPE c d, s)))
        else Parsed (c, s))"
| "parseexec 0 s = NoFuel"
| "parseexec (Suc n) s =
     (let (block, s) = peek ''('' s
      in if block then parseblock n s
         else
           pbind (parseredirs (Suc (length s)) (EXEC []) s) (\<lambda>(ret, s).
           parse_words (Suc (length s)) [] ret s))"
| "parseblock 0 s = NoFuel"
| "parseblock (Suc n) s =
     (let (open, s) = peek ''('' s
      in if \<not> open then Perr ''parseblock''
         else
           (let (_, _, _, s) = gettoken s
            in pbind (parseline n s) (\<lambda>(c, s).
               let (closed, s) = peek '')'' s
               in if \<not> closed then Perr ''syntax - missing )''
                  else (let (_, _, _, s) = gettoken s in parseredirs (Suc (length s)) c s))))"

definition parsecmd :: "uchar list \<Rightarrow> word_ptrs cmd pres" where
  "parsecmd s =
     pbind (parseline (4 * length s + 4) s) (\<lambda>(c, s).
     let (_, s) = peek '''' s
     in if s \<noteq> [] then Perr ''syntax'' else Parsed c)"

text \<open>A zero behind every word of the tree; behind the last byte of the line there is one already.\<close>

fun nulterminate :: "word_ptrs cmd \<Rightarrow> uchar list \<Rightarrow> uchar list" where
  "nulterminate (EXEC ws) line = fold (\<lambda>(q, eq) l. l[length l - length eq := 0]) ws line"
| "nulterminate (REDIR c (q, eq) m d) line = (let l = nulterminate c line in l[length l - length eq := 0])"
| "nulterminate (PIPE c d) line = nulterminate d (nulterminate c line)"
| "nulterminate (LIST c d) line = nulterminate d (nulterminate c line)"
| "nulterminate (BACK c) line = nulterminate c line"

definition string_at :: "uchar list \<Rightarrow> word_ptrs \<Rightarrow> uchar list" where
  "string_at line w = takeWhile (\<lambda>b. b \<noteq> 0) (drop (length line - length (fst w)) line)"

subsection \<open>Running commands\<close>

text \<open>
  A program of the shell's process as the system calls it makes: a call whose result the program looks at is
  followed by a function of the result. \<open>Fork\<close> goes on in the child with 0 and in the parent with the child's
  process id. \<open>runcmd\<close> does not return, so nothing follows it.
\<close>

datatype sysc =
    SysExit
  | SysExec "uchar list" "uchar list list" sysc
  | SysClose int sysc
  | SysOpen "uchar list" int "int \<Rightarrow> sysc"
  | SysPipe "(int \<times> int) option \<Rightarrow> sysc"
  | SysFork "int \<Rightarrow> sysc"
  | SysDup int sysc
  | SysWait sysc
  | SysChdir "uchar list" "int \<Rightarrow> sysc"
  | SysWrite int "uchar list" sysc
  | SysNoFuel

definition sh_panic :: "string \<Rightarrow> sysc" where
  "sh_panic msg = SysWrite 2 (map sc msg @ [10]) SysExit"

definition fork1 :: "(int \<Rightarrow> sysc) \<Rightarrow> sysc" where
  "fork1 k = SysFork (\<lambda>pid. if pid = - 1 then sh_panic ''fork'' else k pid)"

fun runcmd :: "uchar list cmd \<Rightarrow> sysc" where
  "runcmd (EXEC ws) =
     (case ws of
        [] \<Rightarrow> SysExit
      | w # _ \<Rightarrow> SysExec w ws (SysWrite 2 (map sc ''exec '' @ w @ map sc '' failed'' @ [10]) SysExit))"
| "runcmd (REDIR c f m d) =
     SysClose d (SysOpen f m (\<lambda>r.
       if r < 0 then SysWrite 2 (map sc ''open '' @ f @ map sc '' failed'' @ [10]) SysExit
       else runcmd c))"
| "runcmd (LIST c d) = fork1 (\<lambda>pid. if pid = 0 then runcmd c else SysWait (runcmd d))"
| "runcmd (PIPE c d) =
     SysPipe (\<lambda>r. case r of
       None \<Rightarrow> sh_panic ''pipe''
     | Some (p0, p1) \<Rightarrow>
         fork1 (\<lambda>pid.
         if pid = 0 then SysClose 1 (SysDup p1 (SysClose p0 (SysClose p1 (runcmd c))))
         else fork1 (\<lambda>pid.
         if pid = 0 then SysClose 0 (SysDup p0 (SysClose p0 (SysClose p1 (runcmd d))))
         else SysClose p0 (SysClose p1 (SysWait (SysWait SysExit))))))"
| "runcmd (BACK c) = fork1 (\<lambda>pid. if pid = 0 then runcmd c else SysExit)"

text \<open>What the child does with a line: the parser panics with its message, or the tree with its words cut out is run.\<close>

definition run_line :: "uchar list \<Rightarrow> sysc" where
  "run_line line =
     (case parsecmd line of
        Parsed t \<Rightarrow> runcmd (map_cmd (string_at (nulterminate t line)) t)
      | Perr msg \<Rightarrow> sh_panic msg
      | NoFuel \<Rightarrow> SysNoFuel)"

text \<open>
  The lines that \<open>getcmd\<close> reads, each with its newline; an empty one is the end of the input. A \<open>cd\<close> is done
  by the shell itself.
\<close>

fun sh_lines :: "uchar list list \<Rightarrow> sysc" where
  "sh_lines [] = SysWrite 2 (map sc ''$ '') SysExit"
| "sh_lines (line # lines) =
     SysWrite 2 (map sc ''$ '')
      (if line = [] then SysExit
       else if take 3 line = map sc ''cd '' then
         SysChdir (drop 3 (butlast line)) (\<lambda>r.
           if r < 0 then SysWrite 2 (map sc ''cannot cd '' @ drop 3 (butlast line) @ [10]) (sh_lines lines)
           else sh_lines lines)
       else fork1 (\<lambda>pid. if pid = 0 then run_line line else SysWait (sh_lines lines)))"

text \<open>The loop that makes sure that three descriptors are open; its fuel bounds the number of attempts.\<close>

definition RDWR_MODE :: int where "RDWR_MODE = 2"

fun open_console :: "nat \<Rightarrow> sysc \<Rightarrow> sysc" where
  "open_console 0 k = SysNoFuel"
| "open_console (Suc n) k =
     SysOpen (map sc ''console'') RDWR_MODE (\<lambda>fd.
       if fd < 0 then k
       else if 3 \<le> fd then SysClose fd k
       else open_console n k)"

definition sh_main :: "uchar list list \<Rightarrow> sysc" where
  "sh_main lines = open_console 4 (sh_lines lines)"

section \<open>The parser terminates\<close>

lemma skip_ws_le: "length (skip_ws s) \<le> length s"
  by (simp add: skip_ws_def length_dropWhile_le)

lemma skip_ws_idem [simp]: "skip_ws (skip_ws s) = skip_ws s"
  by (simp add: skip_ws_def)

lemma hd_skip_ws: "skip_ws s \<noteq> [] \<Longrightarrow> hd (skip_ws s) \<notin> set whitespace"
  unfolding skip_ws_def by (rule hd_dropWhile)

lemma symbols_split: "c \<in> set symbols \<longleftrightarrow> c \<in> set (map sc ''|();&<'') \<or> c = sc CHR ''>''"
  by (auto simp: symbols_def)

lemma gettoken_spec:
  assumes "gettoken s = (tok, q, eq, t)"
  shows "q = skip_ws s" and "t = skip_ws eq" and "length eq \<le> length q" and "q \<noteq> [] \<Longrightarrow> length eq < length q" and "tok = 0 \<Longrightarrow> q = []"
    and "tok = sc CHR ''a'' \<Longrightarrow> eq = dropWhile ordinary q \<and> q \<noteq> [] \<and> ordinary (hd q)"
proof -
  let ?q = "skip_ws s"
  have "q = ?q \<and> t = skip_ws eq \<and> length eq \<le> length q \<and> (q \<noteq> [] \<longrightarrow> length eq < length q) \<and> (tok = 0 \<longrightarrow> q = []) \<and>
      (tok = sc CHR ''a'' \<longrightarrow> eq = dropWhile ordinary q \<and> q \<noteq> [] \<and> ordinary (hd q))"
  proof (cases ?q)
    case Nil
    with assms show ?thesis by (auto simp: gettoken_def Let_def sc_def)
  next
    case (Cons c r)
    then have lq: "length ?q = Suc (length r)" by simp
    consider "c \<in> set (map sc ''|();&<'')" | "c = sc CHR ''>''" | "c \<notin> set symbols" by (auto simp: symbols_split)
    then show ?thesis
    proof cases
      case 1
      with assms Cons lq show ?thesis by (auto simp: gettoken_def Let_def sc_def)
    next
      case 2
      with assms Cons lq show ?thesis by (cases r) (auto simp: gettoken_def Let_def sc_def split: if_splits, (drule sym, simp)+)
    next
      case 3
      have o: "ordinary c" using 3 hd_skip_ws [of s] Cons by (simp add: ordinary_def)
      have l: "length (dropWhile ordinary r) \<le> length r" by (rule length_dropWhile_le)
      have "gettoken s = (sc CHR ''a'', c # r, dropWhile ordinary r, skip_ws (dropWhile ordinary r))"
        using 3 o by (simp add: gettoken_def Let_def Cons symbols_split)
      with assms have e: "tok = sc CHR ''a''" "q = c # r" "eq = dropWhile ordinary r" "t = skip_ws eq" by auto
      show ?thesis unfolding e Cons using l o by (simp add: sc_def)
    qed
  qed
  then show "q = skip_ws s" "t = skip_ws eq" "length eq \<le> length q" "q \<noteq> [] \<Longrightarrow> length eq < length q" "tok = 0 \<Longrightarrow> q = []"
      "tok = sc CHR ''a'' \<Longrightarrow> eq = dropWhile ordinary q \<and> q \<noteq> [] \<and> ordinary (hd q)"
    by blast+
qed

lemma gettoken_le: "gettoken s = (tok, q, eq, t) \<Longrightarrow> length t \<le> length s"
  using gettoken_spec(1-3) [of s tok q eq t] skip_ws_le [of s] skip_ws_le [of eq] by simp

lemma gettoken_less: "gettoken s = (tok, q, eq, t) \<Longrightarrow> skip_ws s \<noteq> [] \<Longrightarrow> length t < length s"
  using gettoken_spec(1,2,4) [of s tok q eq t] skip_ws_le [of s] skip_ws_le [of eq] by simp

lemma peek_le: "peek toks s = (b, t) \<Longrightarrow> length t \<le> length s"
  using skip_ws_le [of s] by (auto simp: peek_def Let_def)

lemma peek_more: "peek toks s = (b, t) \<Longrightarrow> b \<Longrightarrow> skip_ws t \<noteq> []"
  by (auto simp: peek_def Let_def)

text \<open>A part of the parser has enough fuel, and never moves back.\<close>

definition ends :: "sptr \<Rightarrow> ('a \<times> sptr) pres \<Rightarrow> bool" where
  "ends s r \<longleftrightarrow> r \<noteq> NoFuel \<and> (\<forall>c t. r = Parsed (c, t) \<longrightarrow> length t \<le> length s)"

lemma ends_Parsed: "length t \<le> length s \<Longrightarrow> ends s (Parsed (c, t))"
  by (simp add: ends_def)

lemma ends_Perr: "ends s (Perr msg)"
  by (simp add: ends_def)

lemma ends_bind: "ends u r \<Longrightarrow> (\<And>c t. length t \<le> length u \<Longrightarrow> ends s (f (c, t))) \<Longrightarrow> ends s (pbind r f)"
  by (cases r) (auto simp: ends_def)

lemma ends_mono: "ends t r \<Longrightarrow> length t \<le> length s \<Longrightarrow> ends s r"
  by (auto simp: ends_def)

lemma parseredirs_ends: "length s < n \<Longrightarrow> ends s (parseredirs n c s)"
proof (induction n arbitrary: c s)
  case (Suc n)
  obtain b s1 where p: "peek ''<>'' s = (b, s1)" by fastforce
  obtain tok q eq s2 where g: "gettoken s1 = (tok, q, eq, s2)" by (metis prod_cases4)
  obtain w q' eq' s3 where h: "gettoken s2 = (w, q', eq', s3)" by (metis prod_cases4)
  show ?case
  proof (cases b)
    case True
    then have "length s3 < length s"
      using peek_le [OF p] gettoken_less [OF g peek_more [OF p]] gettoken_le [OF h] by linarith
    then have "ends s (parseredirs n d s3)" for d using Suc.IH [of s3 d] Suc.prems ends_mono [of s3 _ s] by simp
    with p g h True show ?thesis by (simp add: ends_Perr)
  qed (use p peek_le [OF p] in \<open>simp add: ends_Parsed\<close>)
qed simp

lemma parse_words_ends: "length s < n \<Longrightarrow> ends s (parse_words n ws c s)"
proof (induction n arbitrary: ws c s)
  case (Suc n)
  obtain b s1 where p: "peek ''|)&;'' s = (b, s1)" by fastforce
  obtain tok q eq s2 where g: "gettoken s1 = (tok, q, eq, s2)" by (metis prod_cases4)
  have le: "length s2 \<le> length s" using gettoken_le [OF g] peek_le [OF p] by linarith
  have "ends s (pbind (parseredirs n c s2) (\<lambda>(ret, s). parse_words n (ws @ [(q, eq)]) ret s))" if "tok \<noteq> 0"
  proof -
    have "q \<noteq> []"
    proof
      assume "q = []"
      then have "tok = 0" using g gettoken_spec(1) [OF g] by (simp add: gettoken_def Let_def)
      with that show False by simp
    qed
    then have "length s2 < length s" using gettoken_less [OF g] gettoken_spec(1) [OF g] peek_le [OF p] by force
    then show ?thesis
      using Suc.prems by (intro ends_bind [OF parseredirs_ends]) (auto intro!: ends_mono [OF Suc.IH])
  qed
  with p g le peek_le [OF p] show ?case by (simp add: ends_Parsed ends_Perr)
qed simp

lemma parse_backs_ends: "length s < n \<Longrightarrow> ends s (parse_backs n c s)"
proof (induction n arbitrary: c s)
  case (Suc n)
  obtain b s1 where p: "peek ''&'' s = (b, s1)" by fastforce
  obtain tok q eq s2 where g: "gettoken s1 = (tok, q, eq, s2)" by (metis prod_cases4)
  show ?case
  proof (cases b)
    case True
    then have "length s2 < length s" using peek_le [OF p] gettoken_less [OF g peek_more [OF p]] by linarith
    then have "ends s (parse_backs n d s2)" for d using Suc.IH [of s2 d] Suc.prems ends_mono [of s2 _ s] by simp
    with p g True show ?thesis by simp
  qed (use p peek_le [OF p] in \<open>simp add: ends_Parsed\<close>)
qed simp

declare parseredirs.simps [simp del] parse_words.simps [simp del] parse_backs.simps [simp del]

lemma parse_ends:
  "(4 * length s + 4 \<le> n \<longrightarrow> ends s (parseline n s)) \<and> (4 * length s + 3 \<le> n \<longrightarrow> ends s (parsepipe n s)) \<and>
   (4 * length s + 2 \<le> n \<longrightarrow> ends s (parseexec n s)) \<and> (4 * length s + 1 \<le> n \<longrightarrow> ends s (parseblock n s))"
proof (induction n arbitrary: s)
  case (Suc n)
  note line = Suc.IH [THEN conjunct1, rule_format] and pipe = Suc.IH [THEN conjunct2, THEN conjunct1, rule_format]
    and exec = Suc.IH [THEN conjunct2, THEN conjunct2, THEN conjunct1, rule_format]
    and block = Suc.IH [THEN conjunct2, THEN conjunct2, THEN conjunct2, rule_format]
  have more: "ends s (case peek toks t of (m, u) \<Rightarrow> if m then (let (_, _, _, u) = gettoken u in f u) else g u)"
    if "length t \<le> length s" "\<And>u. length u < length s \<Longrightarrow> ends s (f u)" "\<And>u. length u \<le> length s \<Longrightarrow> ends s (g u)" for toks t f g
  proof -
    obtain m u where p: "peek toks t = (m, u)" by fastforce
    obtain tok q eq v where v: "gettoken u = (tok, q, eq, v)" by (metis prod_cases4)
      have "length v < length s" if m using peek_le [OF p] gettoken_less [OF v peek_more [OF p that]] \<open>length t \<le> length s\<close> by linarith
    with that peek_le [OF p] p v show ?thesis by simp
  qed
  have "ends s (parseline (Suc n) s)" if n: "4 * length s + 4 \<le> Suc n"
    unfolding parseline.simps
  proof (rule ends_bind [OF pipe [of s]])
    fix c t assume t: "length (t :: sptr) \<le> length s"
    show "ends s (case (c, t) of (c, s) \<Rightarrow> pbind (parse_backs (Suc (length s)) c s) (\<lambda>(c, s). let (more, s) = peek '';'' s
        in if more then (let (_, _, _, s) = gettoken s in pbind (parseline n s) (\<lambda>(d, s). Parsed (LIST c d, s))) else Parsed (c, s)))"
      using n t by (auto intro!: ends_bind [OF parse_backs_ends] more ends_Parsed ends_bind [OF line])
  qed (use n in simp)
  moreover have "ends s (parsepipe (Suc n) s)" if n: "4 * length s + 3 \<le> Suc n"
    unfolding parsepipe.simps
    by (rule ends_bind [OF exec [of s]]) (use n in \<open>auto intro!: more ends_Parsed ends_bind [OF pipe]\<close>)
  moreover have "ends s (parseexec (Suc n) s)" if n: "4 * length s + 2 \<le> Suc n"
  proof -
    obtain b t where p: "peek ''('' s = (b, t)" by fastforce
    have "ends s (parseblock n t)" using n peek_le [OF p] by (auto intro!: ends_mono [OF block])
    moreover have "ends s (pbind (parseredirs (Suc (length t)) (EXEC []) t) (\<lambda>(ret, s). parse_words (Suc (length s)) [] ret s))"
      using peek_le [OF p] by (auto intro!: ends_bind [OF parseredirs_ends] ends_mono [OF parse_words_ends])
    ultimately show ?thesis using p by simp
  qed
  moreover have "ends s (parseblock (Suc n) s)" if n: "4 * length s + 1 \<le> Suc n"
  proof -
    have c: "ends s (case peek '')'' t of (b, u) \<Rightarrow> if \<not> b then Perr ''syntax - missing )''
        else (let (_, _, _, u) = gettoken u in parseredirs (Suc (length u)) c u))" if "length t \<le> length s" for t c
    proof -
      have "ends s (parseredirs (Suc (length u)) c u)" if "length u < length s" for u using that by (intro ends_mono [OF parseredirs_ends]) simp_all
      from more [of t "\<lambda>u. parseredirs (Suc (length u)) c u", OF that this ends_Perr, of "\<lambda>_. ''syntax - missing )''" "'')''"]
      show ?thesis by (auto split: prod.splits if_splits)
    qed
    let ?f = "\<lambda>u. pbind (parseline n u) (\<lambda>(c, s). let (b, s) = peek '')'' s in if \<not> b then Perr ''syntax - missing )''
        else (let (_, _, _, s) = gettoken s in parseredirs (Suc (length s)) c s))"
    have "ends s (?f u)" if "length u < length s" for u
      using n that c by (intro ends_bind [OF line]) (auto simp: Let_def)
    from more [of s ?f, OF le_refl this ends_Perr, of "\<lambda>_. ''parseblock''" "''(''"] show ?thesis
      by (auto split: prod.splits if_splits)
  qed
  ultimately show ?case by blast
qed simp


text \<open>C39. The shell's parser terminates: on every line the recursion of \<open>parseline\<close>, \<open>parsepipe\<close>, \<open>parseexec\<close> and
  \<open>parseblock\<close> and the loops inside come to an end, with a command tree or with a report of an error.\<close>

theorem shell_parser_terminates: "(\<exists>c. parsecmd s = Parsed c) \<or> (\<exists>msg. parsecmd s = Perr msg)"
proof -
  have "ends s (parseline (4 * length s + 4) s)" using parse_ends [of s "4 * length s + 4"] by simp
  then show ?thesis
    by (cases "parseline (4 * length s + 4) s") (auto simp: parsecmd_def ends_def Let_def split: prod.splits)
qed

section \<open>Printed commands\<close>

text \<open>
  A printer for command trees over words, with parentheses where the grammar needs them: level 0 is a
  line, level 1 a command with its ampersands, level 2 a pipeline and level 3 a command of a pipeline.
\<close>

definition paren :: "bool \<Rightarrow> uchar list \<Rightarrow> uchar list" where
  "paren b s = (if b then sc CHR ''('' # s @ [sc CHR '')''] else s)"

definition print_words :: "uchar list list \<Rightarrow> uchar list" where
  "print_words ws = concat (map (\<lambda>w. w @ [32]) ws)"

definition print_redir :: "uchar list \<Rightarrow> int \<Rightarrow> uchar list" where
  "print_redir f m = (if m = RD_MODE then sc CHR ''<'' else sc CHR ''>'') # f @ [32]"

fun print :: "nat \<Rightarrow> uchar list cmd \<Rightarrow> uchar list" where
  "print k (EXEC ws) = print_words ws"
| "print k (REDIR c f m d) = print 3 c @ print_redir f m"
| "print k (PIPE c d) = paren (2 < k) (print 3 c @ sc CHR ''|'' # print 2 d)"
| "print k (LIST c d) = paren (0 < k) (print 1 c @ sc CHR '';'' # print 0 d)"
| "print k (BACK c) = paren (1 < k) (print 1 c @ [sc CHR ''&''])"

definition is_word :: "uchar list \<Rightarrow> bool" where
  "is_word w \<longleftrightarrow> w \<noteq> [] \<and> (\<forall>c \<in> set w. ordinary c \<and> c \<noteq> 0)"

fun wf_cmd :: "uchar list cmd \<Rightarrow> bool" where
  "wf_cmd (EXEC ws) \<longleftrightarrow> length ws < MAXARGS \<and> (\<forall>w \<in> set ws. is_word w)"
| "wf_cmd (REDIR c f m d) \<longleftrightarrow> wf_cmd c \<and> is_word f \<and> (m = RD_MODE \<and> d = 0 \<or> m = WR_MODE \<and> d = 1)"
| "wf_cmd (PIPE c d) \<longleftrightarrow> wf_cmd c \<and> wf_cmd d"
| "wf_cmd (LIST c d) \<longleftrightarrow> wf_cmd c \<and> wf_cmd d"
| "wf_cmd (BACK c) \<longleftrightarrow> wf_cmd c"

subsection \<open>Tokens of printed text\<close>

definition starts :: "(uchar \<Rightarrow> bool) \<Rightarrow> uchar list \<Rightarrow> bool" where
  "starts P s \<longleftrightarrow> s \<noteq> [] \<and> P (hd s)"

lemma ordinary_word: "ordinary c \<Longrightarrow> c \<notin> set whitespace \<and> c \<notin> set symbols"
  by (simp add: ordinary_def)

lemma special_chars [simp]:
  "sc CHR ''('' \<notin> set whitespace" "sc CHR '')'' \<notin> set whitespace" "sc CHR ''|'' \<notin> set whitespace" "sc CHR '';'' \<notin> set whitespace"
  "sc CHR ''&'' \<notin> set whitespace" "sc CHR ''<'' \<notin> set whitespace" "sc CHR ''>'' \<notin> set whitespace"
  by (simp_all add: sc_def whitespace_def)

lemma ordinary_special [simp]:
  "\<not> ordinary (sc CHR ''('')" "\<not> ordinary (sc CHR '')'')" "\<not> ordinary (sc CHR ''|'')" "\<not> ordinary (sc CHR '';'')" "\<not> ordinary (sc CHR ''&'')"
  "\<not> ordinary (sc CHR ''<'')" "\<not> ordinary (sc CHR ''>'')" "\<not> ordinary 32"
  by (simp_all add: ordinary_def symbols_def whitespace_def)

lemma skip_ws_stays: "s = [] \<or> hd s \<notin> set whitespace \<Longrightarrow> skip_ws s = s"
  by (cases s) (auto simp: skip_ws_def)

lemma skip_ws_space [simp]: "skip_ws (32 # s) = skip_ws s"
  by (simp add: skip_ws_def whitespace_def)

lemma skip_ws_special [simp]:
  "skip_ws (sc CHR ''('' # s) = sc CHR ''('' # s" "skip_ws (sc CHR '')'' # s) = sc CHR '')'' # s" "skip_ws (sc CHR ''|'' # s) = sc CHR ''|'' # s"
  "skip_ws (sc CHR '';'' # s) = sc CHR '';'' # s" "skip_ws (sc CHR ''&'' # s) = sc CHR ''&'' # s" "skip_ws (sc CHR ''<'' # s) = sc CHR ''<'' # s"
  "skip_ws (sc CHR ''>'' # s) = sc CHR ''>'' # s" "skip_ws [] = []"
  by (simp_all add: skip_ws_stays)

lemma skip_ws_word: "is_word w \<Longrightarrow> skip_ws (w @ s) = w @ s"
  by (rule skip_ws_stays) (auto simp: is_word_def ordinary_def)

lemma gettoken_word:
  assumes "is_word w"
  shows "gettoken (w @ 32 # s) = (sc CHR ''a'', w @ 32 # s, 32 # s, skip_ws s)"
proof -
  obtain c v where w: "w = c # v" "ordinary c" using assms by (cases w) (auto simp: is_word_def)
  have "dropWhile ordinary (w @ 32 # s) = 32 # s"
    using assms by (subst dropWhile_append2) (auto simp: is_word_def)
  moreover have "c \<notin> set (map sc ''|();&<'')" "c \<noteq> sc CHR ''>''" using w(2) by (auto simp: ordinary_def symbols_split)
  ultimately show ?thesis using skip_ws_word [OF assms, of "32 # s"] w by (simp add: gettoken_def Let_def)
qed

lemma gettoken_symbol:
  "c \<in> set (map sc ''|();&<'') \<Longrightarrow> gettoken (c # s) = (c, c # s, s, skip_ws s)"
  by (auto simp: gettoken_def Let_def)

lemma gettoken_greater:
  "is_word w \<Longrightarrow> gettoken (sc CHR ''>'' # w @ s) = (sc CHR ''>'', sc CHR ''>'' # w @ s, w @ s, w @ s)"
proof -
  assume a: "is_word w"
  then obtain c v where w: "w = c # v" "ordinary c" by (cases w) (auto simp: is_word_def)
  have "sc CHR ''>'' \<notin> set (map sc ''|();&<'')" by (simp add: sc_def)
  moreover have "c \<noteq> sc CHR ''>''" using w(2) by auto
  ultimately show ?thesis using skip_ws_word [OF a, of s] w by (simp add: gettoken_def Let_def)
qed

lemma peek_simps [simp]:
  "peek toks [] = (False, [])"
  "c \<notin> set whitespace \<Longrightarrow> peek toks (c # s) = (c \<in> set (map sc toks), c # s)"
  by (simp_all add: peek_def skip_ws_stays)

lemma peek_word: "is_word w \<Longrightarrow> set toks \<subseteq> set ''<|>&;()'' \<Longrightarrow> peek toks (w @ s) = (False, w @ s)"
proof -
  assume a: "is_word w" "set toks \<subseteq> set ''<|>&;()''"
  then obtain c v where w: "w = c # v" "ordinary c" by (cases w) (auto simp: is_word_def)
  have "c \<notin> set (map sc toks)" using a(2) w(2) by (auto simp: ordinary_def symbols_def)
  with w show ?thesis by (simp add: ordinary_def)
qed

subsection \<open>Redirections and words\<close>

text \<open>A tree of word pointers into a line that stands for a tree of words.\<close>

definition word_of :: "word_ptrs \<Rightarrow> uchar list" where
  "word_of w = take (length (fst w) - length (snd w)) (fst w)"

definition sound_word :: "uchar list \<Rightarrow> word_ptrs \<Rightarrow> bool" where
  "sound_word s w \<longleftrightarrow> suffix (fst w) s \<and> fst w = word_of w @ snd w \<and> is_word (word_of w) \<and> snd w \<noteq> [] \<and> \<not> ordinary (hd (snd w))"

definition stands_for :: "uchar list \<Rightarrow> word_ptrs cmd \<Rightarrow> uchar list cmd \<Rightarrow> bool" where
  "stands_for s t c \<longleftrightarrow> map_cmd word_of t = c \<and> (\<forall>w \<in> set_cmd t. sound_word s w)"

lemma sound_word_mono: "sound_word s w \<Longrightarrow> suffix s s' \<Longrightarrow> sound_word s' w"
  by (auto simp: sound_word_def intro: suffix_order.trans)

lemma stands_for_mono: "stands_for s t c \<Longrightarrow> suffix s s' \<Longrightarrow> stands_for s' t c"
  by (auto simp: stands_for_def intro: sound_word_mono)

lemma sound_printed: "is_word w \<Longrightarrow> sound_word (w @ 32 # s) (w @ 32 # s, 32 # s) \<and> word_of (w @ 32 # s, 32 # s) = w"
  by (simp add: sound_word_def word_of_def)

type_synonym redir = "uchar list \<times> int \<times> int"

definition wrap :: "uchar list cmd \<Rightarrow> redir list \<Rightarrow> uchar list cmd" where
  "wrap c rs = foldl (\<lambda>c (f, m, d). REDIR c f m d) c rs"

definition print_redirs :: "redir list \<Rightarrow> uchar list" where
  "print_redirs rs = concat (map (\<lambda>(f, m, d). print_redir f m) rs)"

definition wf_redirs :: "redir list \<Rightarrow> bool" where
  "wf_redirs rs \<longleftrightarrow> (\<forall>(f, m, d) \<in> set rs. is_word f \<and> (m = RD_MODE \<and> d = 0 \<or> m = WR_MODE \<and> d = 1))"

text \<open>What may follow redirections: nothing, or a byte that neither is white space nor starts another one.\<close>

definition after_redirs :: "uchar list \<Rightarrow> bool" where
  "after_redirs s \<longleftrightarrow> s = [] \<or> hd s \<notin> set whitespace \<and> hd s \<noteq> sc CHR ''<'' \<and> hd s \<noteq> sc CHR ''>''"

lemma after_redirs_skip: "after_redirs s \<Longrightarrow> skip_ws s = s"
  by (rule skip_ws_stays) (auto simp: after_redirs_def)

lemma print_redirs_skip: "after_redirs s \<Longrightarrow> skip_ws (print_redirs rs @ s) = print_redirs rs @ s"
  by (cases rs) (auto simp: print_redirs_def print_redir_def after_redirs_skip)

lemma peek_none: "after_redirs s \<Longrightarrow> peek ''<>'' s = (False, s)"
  by (cases s) (auto simp: after_redirs_def)

lemma parseredirs_printed:
  assumes "wf_redirs rs" and "after_redirs rest" and "length (print_redirs rs @ rest) < n"
    and "stands_for s t c" and "suffix (print_redirs rs @ rest) s"
  shows "\<exists>u. parseredirs n t (print_redirs rs @ rest) = Parsed (u, rest) \<and> stands_for s u (wrap c rs)"
  using assms
proof (induction rs arbitrary: n t c)
  case Nil
  then obtain n' where "n = Suc n'" by (cases n) auto
  with Nil show ?case by (simp add: parseredirs.simps print_redirs_def wrap_def peek_none)
next
  case (Cons r rs)
  obtain f m d where r: "r = (f, m, d)" by (cases r)
  from Cons.prems(3) obtain n' where n: "n = Suc n'" by (cases n) auto
  let ?rest = "print_redirs rs @ rest"
  have f: "is_word f" and md: "m = RD_MODE \<and> d = 0 \<or> m = WR_MODE \<and> d = 1" using Cons.prems(1) r by (auto simp: wf_redirs_def)
  have p: "print_redirs (r # rs) @ rest = (if m = RD_MODE then sc CHR ''<'' else sc CHR ''>'') # f @ 32 # ?rest"
    by (simp add: print_redirs_def print_redir_def r)
  let ?w = "(f @ 32 # ?rest, 32 # ?rest)"
  have sf: "suffix (f @ 32 # ?rest) s" "suffix ?rest s" using Cons.prems(5) unfolding p by (auto dest: suffix_ConsD suffix_appendD)
  have w: "sound_word s ?w" "word_of ?w = f" using sound_printed [OF f, of ?rest] sound_word_mono [OF _ sf(1)] by auto
  have step: "parseredirs n t (print_redirs (r # rs) @ rest) = parseredirs n' (REDIR t ?w m d) ?rest"
    unfolding p n using md gettoken_word [OF f, of ?rest] gettoken_greater [OF f, of "32 # ?rest"] skip_ws_word [OF f, of "32 # ?rest"] print_redirs_skip [OF Cons.prems(2), of rs]
    by (auto simp: parseredirs.simps gettoken_symbol RD_MODE_def WR_MODE_def) (simp_all add: sc_def)
  have "stands_for s (REDIR t ?w m d) (REDIR c f m d)" using Cons.prems(4) w by (simp add: stands_for_def)
  moreover have "length ?rest < n'" using Cons.prems(3) unfolding p n by simp
  moreover have "wf_redirs rs" using Cons.prems(1) by (simp add: wf_redirs_def)
  ultimately show ?case using Cons.IH [OF _ Cons.prems(2) _ _ sf(2)] unfolding step by (simp add: wrap_def r)
qed

definition after_cmd :: "string \<Rightarrow> uchar list \<Rightarrow> bool" where
  "after_cmd stops s \<longleftrightarrow> s = [] \<or> hd s \<in> set (map sc stops)"

lemma after_cmd_redirs: "after_cmd stops s \<Longrightarrow> set stops \<subseteq> set '')&;|'' \<Longrightarrow> after_redirs s"
  by (auto simp: after_cmd_def after_redirs_def sc_def whitespace_def)

lemma after_cmd_mono: "after_cmd stops s \<Longrightarrow> set stops \<subseteq> set stops' \<Longrightarrow> after_cmd stops' s"
  by (auto simp: after_cmd_def)

lemma symbol_ws: "x \<in> set ''<|>&;()'' \<Longrightarrow> sc x \<notin> set whitespace"
  by (auto simp: sc_def whitespace_def)

lemma symbol_inj: "x \<in> set ''<|>&;()'' \<Longrightarrow> y \<in> set ''<|>&;()'' \<Longrightarrow> sc x = sc y \<longleftrightarrow> x = y"
  by (auto simp: sc_def)

lemma peek_after:
  assumes "after_cmd stops s" and "set stops \<subseteq> set ''<|>&;()''"
  shows "s \<noteq> [] \<Longrightarrow> set stops \<subseteq> set toks \<Longrightarrow> peek toks s = (True, s)"
    and "set stops \<inter> set toks = {} \<Longrightarrow> set toks \<subseteq> set ''<|>&;()'' \<Longrightarrow> peek toks s = (False, s)"
proof -
  have c: "\<exists>x \<in> set stops. hd s = sc x \<and> sc x \<notin> set whitespace" if "s \<noteq> []"
    using assms that symbol_ws by (auto simp: after_cmd_def)
  show "peek toks s = (True, s)" if "s \<noteq> []" "set stops \<subseteq> set toks"
    using c [OF that(1)] that by (cases s) auto
  show "peek toks s = (False, s)" if t: "set stops \<inter> set toks = {}" "set toks \<subseteq> set ''<|>&;()''"
  proof (cases s)
    case (Cons d r)
    with c obtain x where x: "x \<in> set stops" "d = sc x" "sc x \<notin> set whitespace" by auto
    have "sc x \<notin> set (map sc toks)"
    proof
      assume "sc x \<in> set (map sc toks)"
      then obtain y where y: "y \<in> set toks" "sc x = sc y" by auto
      with symbol_inj [of x y] x(1) t assms(2) have "x = y" by blast
      with x(1) y(1) t(1) show False by auto
    qed
    with Cons x show ?thesis by simp
  qed simp
qed

definition execs :: "uchar list \<Rightarrow> word_ptrs list \<Rightarrow> uchar list list \<Rightarrow> bool" where
  "execs s vs ws \<longleftrightarrow> map word_of vs = ws \<and> (\<forall>v \<in> set vs. sound_word s v)"

lemma set_args_stands:
  assumes "stands_for s t (wrap (EXEC us) rs)" and "execs s vs ws"
  shows "stands_for s (set_args vs t) (wrap (EXEC ws) rs)"
  using assms(1)
proof (induction rs arbitrary: t rule: rev_induct)
  case Nil
  then show ?case using assms(2) by (cases t) (auto simp: wrap_def stands_for_def execs_def)
next
  case (snoc r rs)
  then show ?case by (cases t; cases r) (auto simp: wrap_def stands_for_def)
qed

lemma print_words_Cons: "print_words (w # ws) = w @ 32 # print_words ws"
  by (simp add: print_words_def)

lemma parse_words_printed:
  assumes "ws \<noteq> []" and "\<forall>w \<in> set ws. is_word w" and "length us + length ws < MAXARGS" and "wf_redirs rs" and "after_cmd '')&;|'' rest"
    and "length (print_words ws @ print_redirs rs @ rest) < n" and "stands_for s t (EXEC [])" and "execs s vs us"
    and "suffix (print_words ws @ print_redirs rs @ rest) s"
  shows "\<exists>u. parse_words n vs t (print_words ws @ print_redirs rs @ rest) = Parsed (u, rest) \<and> stands_for s u (wrap (EXEC (us @ ws)) rs)"
  using assms
proof (induction ws arbitrary: n us vs)
  case (Cons w ws)
  let ?tail = "print_words ws @ print_redirs rs @ rest"
  let ?w = "(w @ 32 # ?tail, 32 # ?tail)"
  have ar: "after_redirs rest" using after_cmd_redirs [OF Cons.prems(5)] by simp
  from Cons.prems(6) obtain n' where n: "n = Suc n'" by (cases n) auto
  have wd: "is_word w" using Cons.prems(2) by simp
  have p: "print_words (w # ws) @ print_redirs rs @ rest = w @ 32 # ?tail" by (simp add: print_words_Cons)
  have sf: "suffix (w @ 32 # ?tail) s" "suffix ?tail s" using Cons.prems(9) unfolding p by (auto dest: suffix_ConsD suffix_appendD)
  have ex: "execs s (vs @ [?w]) (us @ [w])"
    using Cons.prems(8) sound_printed [OF wd, of ?tail] sound_word_mono [OF _ sf(1)] by (auto simp: execs_def)
  have len: "length ?tail < n'" using Cons.prems(6) unfolding p n by simp
  have sk: "skip_ws ?tail = ?tail"
  proof (cases ws)
    case Nil
    then show ?thesis using print_redirs_skip [OF ar] by (simp add: print_words_def)
  next
    case (Cons v vs')
    with Cons.prems(2) show ?thesis using skip_ws_word [of v] by (simp add: print_words_Cons)
  qed
  have few: "\<not> MAXARGS \<le> length vs + 1" using Cons.prems(3,8) by (auto simp: execs_def)
  have step: "parse_words n vs t (w @ 32 # ?tail) = pbind (parseredirs n' t ?tail) (\<lambda>(ret, s). parse_words n' (vs @ [?w]) ret s)"
    unfolding n using gettoken_word [OF wd, of ?tail] peek_word [OF wd, of "''|)&;''"] few sk by (simp add: parse_words.simps sc_def)
  show ?case
  proof (cases ws)
    case Nil
    with sf(2) len obtain u where u: "parseredirs n' t ?tail = Parsed (u, rest)" "stands_for s u (wrap (EXEC []) rs)"
      using parseredirs_printed [OF Cons.prems(4) ar, of n' s t "EXEC []"] Cons.prems(7) by (auto simp: print_words_def)
    obtain n'' where n'': "n' = Suc n''" using len by (cases n') auto
    have "parse_words n' (vs @ [?w]) u rest = Parsed (set_args (vs @ [?w]) u, rest)"
      unfolding n'' using peek_after(1) [OF Cons.prems(5), of "''|)&;''"] by (cases "rest = []") (simp_all add: parse_words.simps gettoken_def)
    with step u set_args_stands [OF u(2) ex] Nil show ?thesis unfolding p by simp
  next
    case (Cons v vs')
    have v: "is_word v" using Cons Cons.prems(2) by simp
    have "after_redirs ?tail" using v Cons by (auto simp: after_redirs_def print_words_Cons is_word_def ordinary_def symbols_def)
    then have "parseredirs n' t ?tail = Parsed (t, ?tail)" using len by (cases n') (simp_all add: parseredirs.simps peek_none)
    with step Cons.IH [OF _ _ _ Cons.prems(4,5) len Cons.prems(7) ex sf(2)] Cons Cons.prems(2,3) show ?thesis unfolding p by simp
  qed
qed simp

subsection \<open>The levels of the grammar\<close>

definition parse_bg :: "nat \<Rightarrow> sptr \<Rightarrow> (word_ptrs cmd \<times> sptr) pres" where
  "parse_bg n s = pbind (parsepipe n s) (\<lambda>(c, s). parse_backs (Suc (length s)) c s)"

lemma parseline_bg:
  "parseline (Suc n) s = pbind (parse_bg n s) (\<lambda>(c, s).
     let (more, s) = peek '';'' s
     in if more then (let (_, _, _, s) = gettoken s in pbind (parseline n s) (\<lambda>(d, s). Parsed (LIST c d, s))) else Parsed (c, s))"
  by (cases "parsepipe n s") (auto simp: parse_bg_def)

declare parseline.simps(2) [simp del]

definition amps :: "nat \<Rightarrow> uchar list" where
  "amps j = replicate j (sc CHR ''&'')"

text \<open>A tree is read back at a level of the grammar, whatever may follow there.\<close>

definition reads0 :: "uchar list cmd \<Rightarrow> bool" where
  "reads0 c \<longleftrightarrow> (\<forall>n s rest. after_cmd '')'' rest \<longrightarrow> s = print 0 c @ rest \<longrightarrow> 4 * length s + 4 \<le> n \<longrightarrow>
     (\<exists>t. parseline n s = Parsed (t, rest) \<and> stands_for s t c))"

definition reads1 :: "uchar list cmd \<Rightarrow> bool" where
  "reads1 c \<longleftrightarrow> (\<forall>n s j rest. after_cmd '');'' rest \<longrightarrow> s = print 1 c @ amps j @ rest \<longrightarrow> 4 * length s + 3 \<le> n \<longrightarrow>
     (\<exists>t. parse_bg n s = Parsed (t, rest) \<and> stands_for s t ((BACK ^^ j) c)))"

definition reads2 :: "uchar list cmd \<Rightarrow> bool" where
  "reads2 c \<longleftrightarrow> (\<forall>n s rest. after_cmd '');&'' rest \<longrightarrow> s = print 2 c @ rest \<longrightarrow> 4 * length s + 3 \<le> n \<longrightarrow>
     (\<exists>t. parsepipe n s = Parsed (t, rest) \<and> stands_for s t c))"

definition reads3 :: "uchar list cmd \<Rightarrow> bool" where
  "reads3 c \<longleftrightarrow> (\<forall>n s rs rest. wf_redirs rs \<longrightarrow> after_cmd '')&;|'' rest \<longrightarrow> s = print 3 c @ print_redirs rs @ rest \<longrightarrow> 4 * length s + 2 \<le> n \<longrightarrow>
     (\<exists>t. parseexec n s = Parsed (t, rest) \<and> stands_for s t (wrap c rs)))"

lemmas reads_rules = reads0_def [THEN iffD1, rule_format] reads1_def [THEN iffD1, rule_format]
  reads2_def [THEN iffD1, rule_format] reads3_def [THEN iffD1, rule_format]

lemma print_skip: "wf_cmd c \<Longrightarrow> x = [] \<or> hd x \<notin> set whitespace \<Longrightarrow> skip_ws (print k c @ x) = print k c @ x"
proof (induction c arbitrary: k x)
  case (EXEC ws)
  then show ?case by (cases ws) (simp_all add: print_words_def skip_ws_stays skip_ws_word)
next
  case (REDIR c f m d)
  then show ?case by (simp add: print_redir_def)
qed (simp_all add: paren_def)

lemma after_cmd_ws:
  assumes "after_cmd stops x" and "set stops \<subseteq> set ''<|>&;()''"
  shows "x = [] \<or> hd x \<notin> set whitespace"
proof (cases "x = []")
  case False
  with assms(1) obtain y where y: "y \<in> set stops" "hd x = sc y" by (auto simp: after_cmd_def)
  show ?thesis using symbol_ws [OF subsetD [OF assms(2) y(1)]] y(2) by simp
qed simp

lemma stands_for_BACK: "stands_for s t c \<Longrightarrow> stands_for s (BACK t) (BACK c)"
  by (simp add: stands_for_def)

lemma parse_backs_printed:
  assumes "after_cmd '');'' rest" and "stands_for s t c" and "length (amps j @ rest) < n"
  shows "\<exists>u. parse_backs n t (amps j @ rest) = Parsed (u, rest) \<and> stands_for s u ((BACK ^^ j) c)"
  using assms(2,3)
proof (induction j arbitrary: n t c)
  case 0
  then obtain n' where "n = Suc n'" by (cases n) auto
  with 0 peek_after(2) [OF assms(1), of "''&''"] show ?case by (simp add: parse_backs.simps amps_def)
next
  case (Suc j)
  then obtain n' where n: "n = Suc n'" by (cases n) auto
  have "skip_ws (amps j @ rest) = amps j @ rest"
    using after_cmd_ws [OF assms(1)] by (cases j) (simp_all add: amps_def skip_ws_stays)
  then have "parse_backs n t (amps (Suc j) @ rest) = parse_backs n' (BACK t) (amps j @ rest)"
    by (simp add: n parse_backs.simps amps_def gettoken_symbol)
  with Suc.IH [OF stands_for_BACK [OF Suc.prems(1)], of n'] Suc.prems(2) show ?case by (simp add: n amps_def funpow_swap1)
qed

lemma reads_pipe:
  assumes "reads3 c" and "print 2 c = print 3 c"
  shows "reads2 c"
  unfolding reads2_def
proof (intro allI impI)
  fix n s rest assume a: "after_cmd '');&'' rest" "s = print 2 c @ rest" "4 * length s + 3 \<le> n"
  then obtain n' where n: "n = Suc n'" by (cases n) auto
  have "\<exists>t. parseexec n' s = Parsed (t, rest) \<and> stands_for s t (wrap c [])"
    by (rule reads_rules(4) [OF assms(1)]) (use a assms(2) n after_cmd_mono [OF a(1)] in \<open>auto simp: wf_redirs_def print_redirs_def\<close>)
  with peek_after(2) [OF a(1), of "''|''"] n show "\<exists>t. parsepipe n s = Parsed (t, rest) \<and> stands_for s t c"
    by (auto simp: wrap_def)
qed

lemma reads_bg:
  assumes "reads2 c" and "print 1 c = print 2 c"
  shows "reads1 c"
  unfolding reads1_def
proof (intro allI impI)
  fix n s j rest assume a: "after_cmd '');'' rest" "s = print 1 c @ amps j @ rest" "4 * length s + 3 \<le> n"
  have "after_cmd '');&'' (amps j @ rest)" using a(1) by (cases j) (auto simp: amps_def after_cmd_def)
  from reads_rules(3) [OF assms(1) this, of s n] a assms(2) obtain t where
    t: "parsepipe n s = Parsed (t, amps j @ rest)" "stands_for s t c" by auto
  from parse_backs_printed [OF a(1) t(2), of j "Suc (length (amps j @ rest))"] t(1)
  show "\<exists>t. parse_bg n s = Parsed (t, rest) \<and> stands_for s t ((BACK ^^ j) c)" by (simp add: parse_bg_def)
qed

lemma reads_line:
  assumes "reads1 c" and "print 0 c = print 1 c"
  shows "reads0 c"
  unfolding reads0_def
proof (intro allI impI)
  fix n s rest assume a: "after_cmd '')'' rest" "s = print 0 c @ rest" "4 * length s + 4 \<le> n"
  then obtain n' where n: "n = Suc n'" by (cases n) auto
  have "\<exists>t. parse_bg n' s = Parsed (t, rest) \<and> stands_for s t ((BACK ^^ 0) c)"
    by (rule reads_rules(2) [OF assms(1)]) (use a assms(2) n after_cmd_mono [OF a(1)] in \<open>auto simp: amps_def\<close>)
  with peek_after(2) [OF a(1), of "'';''"] n show "\<exists>t. parseline n s = Parsed (t, rest) \<and> stands_for s t c"
    by (auto simp: parseline_bg)
qed

lemma reads_block:
  assumes "reads0 c" and "print 3 c = paren True (print 0 c)" and wf: "wf_cmd c"
  shows "reads3 c"
  unfolding reads3_def
proof (intro allI impI)
  fix n s rs rest
  assume a: "wf_redirs rs" "after_cmd '')&;|'' rest" "s = print 3 c @ print_redirs rs @ rest" "4 * length s + 2 \<le> n"
  let ?r = "print_redirs rs @ rest"
  let ?i = "print 0 c @ sc CHR '')'' # ?r"
  have s: "s = sc CHR ''('' # ?i" using a(3) assms(2) by (simp add: paren_def)
  from a(4) obtain n' where n: "n = Suc (Suc n')" by (cases n; cases "n - 1") auto
  have sk: "skip_ws ?i = ?i" by (rule print_skip [OF wf]) simp
  have "\<exists>t. parseline n' ?i = Parsed (t, sc CHR '')'' # ?r) \<and> stands_for ?i t c"
    by (rule reads_rules(1) [OF assms(1)]) (use a(4) n s in \<open>auto simp: after_cmd_def\<close>)
  then obtain t where t: "parseline n' ?i = Parsed (t, sc CHR '')'' # ?r)" "stands_for ?i t c" by blast
  have sf: "suffix ?i s" "suffix ?r s" unfolding s by (auto simp: suffix_def)
  have ar: "after_redirs rest" using after_cmd_redirs [OF a(2)] by simp
  from parseredirs_printed [OF a(1) ar _ stands_for_mono [OF t(2) sf(1)] sf(2), of "Suc (length ?r)"]
  obtain u where u: "parseredirs (Suc (length ?r)) t ?r = Parsed (u, rest)" "stands_for s u (wrap c rs)" by auto
  have "parseexec n s = Parsed (u, rest)"
    using t(1) u(1) sk print_redirs_skip [OF ar, of rs] by (simp add: n s gettoken_symbol)
  with u(2) show "\<exists>t. parseexec n s = Parsed (t, rest) \<and> stands_for s t (wrap c rs)" by blast
qed

lemma reads_exec:
  assumes "wf_cmd (EXEC ws)"
  shows "reads3 (EXEC ws)"
  unfolding reads3_def
proof (intro allI impI)
  fix n s rs rest
  assume a: "wf_redirs rs" "after_cmd '')&;|'' rest" "s = print 3 (EXEC ws) @ print_redirs rs @ rest" "4 * length s + 2 \<le> n"
  from a(4) obtain n' where n: "n = Suc n'" by (cases n) auto
  have ar: "after_redirs rest" using after_cmd_redirs [OF a(2)] by simp
  have e: "stands_for s (EXEC []) (EXEC [])" "execs s [] []" by (simp_all add: stands_for_def execs_def)
  show "\<exists>t. parseexec n s = Parsed (t, rest) \<and> stands_for s t (wrap (EXEC ws) rs)"
  proof (cases ws)
    case Nil
    have s: "s = print_redirs rs @ rest" using a(3) Nil by (simp add: print_words_def)
    have pk: "peek ''('' s = (False, s)"
      unfolding s using peek_after(2) [OF a(2), of "''(''"] by (cases rs) (auto simp: print_redirs_def print_redir_def, simp_all add: sc_def)
    from parseredirs_printed [OF a(1) ar _ e(1), of "Suc (length s)"] s obtain u where
      u: "parseredirs (Suc (length s)) (EXEC []) s = Parsed (u, rest)" "stands_for s u (wrap (EXEC []) rs)" by auto
    have "parse_words (Suc (length rest)) [] u rest = Parsed (set_args [] u, rest)"
      using peek_after(1) [OF a(2), of "''|)&;''"] by (cases "rest = []") (simp_all add: parse_words.simps gettoken_def)
    with u(1) pk set_args_stands [OF u(2) e(2)] Nil show ?thesis by (simp add: n)
  next
    case (Cons v vs)
    have v: "is_word v" using assms Cons by simp
    have s: "s = v @ 32 # print_words vs @ print_redirs rs @ rest" using a(3) Cons by (simp add: print_words_Cons)
    have "after_redirs s" using v unfolding s by (auto simp: after_redirs_def is_word_def ordinary_def symbols_def)
    then have r: "parseredirs (Suc (length s)) (EXEC []) s = Parsed (EXEC [], s)" by (simp add: parseredirs.simps peek_none)
    have pk: "peek ''('' s = (False, s)" unfolding s by (rule peek_word [OF v]) simp
    have "\<exists>u. parse_words (Suc (length s)) [] (EXEC []) (print_words ws @ print_redirs rs @ rest) = Parsed (u, rest) \<and>
        stands_for s u (wrap (EXEC ([] @ ws)) rs)"
      by (rule parse_words_printed [OF _ _ _ a(1,2) _ e]) (use assms Cons a(3) in auto)
    with r pk a(3) show ?thesis by (auto simp: n)
  qed
qed

lemma reads_redir:
  assumes "reads3 c" and "wf_cmd (REDIR c f m d)"
  shows "reads3 (REDIR c f m d)"
  unfolding reads3_def
proof (intro allI impI)
  fix n s rs rest
  assume a: "wf_redirs rs" "after_cmd '')&;|'' rest" "s = print 3 (REDIR c f m d) @ print_redirs rs @ rest" "4 * length s + 2 \<le> n"
  have "\<exists>t. parseexec n s = Parsed (t, rest) \<and> stands_for s t (wrap c ((f, m, d) # rs))"
    by (rule reads_rules(4) [OF assms(1) _ a(2) _ a(4)]) (use a(1,3) assms(2) in \<open>auto simp: wf_redirs_def print_redirs_def\<close>)
  then show "\<exists>t. parseexec n s = Parsed (t, rest) \<and> stands_for s t (wrap (REDIR c f m d) rs)" by (simp add: wrap_def)
qed

lemma suffix_behind: "suffix b (a @ x # b)"
  by (simp add: suffix_def)

lemma reads_PIPE:
  assumes "reads3 c" and "reads2 d" and wf: "wf_cmd d"
  shows "reads2 (PIPE c d)"
  unfolding reads2_def
proof (intro allI impI)
  fix n s rest assume a: "after_cmd '');&'' rest" "s = print 2 (PIPE c d) @ rest" "4 * length s + 3 \<le> n"
  let ?r = "print 2 d @ rest"
  have s: "s = print 3 c @ sc CHR ''|'' # ?r" using a(2) by (simp add: paren_def)
  from a(3) obtain n' where n: "n = Suc n'" by (cases n) auto
  have sk: "skip_ws ?r = ?r" by (rule print_skip [OF wf after_cmd_ws [OF a(1)]]) simp
  have "\<exists>t. parseexec n' s = Parsed (t, sc CHR ''|'' # ?r) \<and> stands_for s t (wrap c [])"
    by (rule reads_rules(4) [OF assms(1)]) (use a n s in \<open>auto simp: wf_redirs_def print_redirs_def after_cmd_def\<close>)
  then obtain t where t: "parseexec n' s = Parsed (t, sc CHR ''|'' # ?r)" "stands_for s t c" by (auto simp: wrap_def)
  have "\<exists>u. parsepipe n' ?r = Parsed (u, rest) \<and> stands_for ?r u d"
    by (rule reads_rules(3) [OF assms(2) a(1)]) (use a(3) n s in auto)
  then obtain u where u: "parsepipe n' ?r = Parsed (u, rest)" "stands_for ?r u d" by blast
  have "stands_for s u d" using stands_for_mono [OF u(2) suffix_behind] s by simp
  then have "stands_for s (PIPE t u) (PIPE c d)" using t(2) by (auto simp: stands_for_def)
  then show "\<exists>t. parsepipe n s = Parsed (t, rest) \<and> stands_for s t (PIPE c d)"
    using t(1) u(1) sk by (simp add: n gettoken_symbol)
qed

lemma reads_BACK:
  assumes "reads1 c"
  shows "reads1 (BACK c)"
  unfolding reads1_def
proof (intro allI impI)
  fix n s j rest assume a: "after_cmd '');'' rest" "s = print 1 (BACK c) @ amps j @ rest" "4 * length s + 3 \<le> n"
  have "\<exists>t. parse_bg n s = Parsed (t, rest) \<and> stands_for s t ((BACK ^^ Suc j) c)"
    by (rule reads_rules(2) [OF assms a(1) _ a(3)]) (simp add: a(2) paren_def amps_def)
  then show "\<exists>t. parse_bg n s = Parsed (t, rest) \<and> stands_for s t ((BACK ^^ j) (BACK c))" by (simp add: funpow_swap1)
qed

lemma reads_LIST:
  assumes "reads1 c" and "reads0 d" and wf: "wf_cmd d"
  shows "reads0 (LIST c d)"
  unfolding reads0_def
proof (intro allI impI)
  fix n s rest assume a: "after_cmd '')'' rest" "s = print 0 (LIST c d) @ rest" "4 * length s + 4 \<le> n"
  let ?r = "print 0 d @ rest"
  have s: "s = print 1 c @ sc CHR '';'' # ?r" using a(2) by (simp add: paren_def)
  from a(3) obtain n' where n: "n = Suc n'" by (cases n) auto
  have sk: "skip_ws ?r = ?r" by (rule print_skip [OF wf after_cmd_ws [OF a(1)]]) simp
  have "\<exists>t. parse_bg n' s = Parsed (t, sc CHR '';'' # ?r) \<and> stands_for s t ((BACK ^^ 0) c)"
    by (rule reads_rules(2) [OF assms(1)]) (use a n s in \<open>auto simp: amps_def after_cmd_def\<close>)
  then obtain t where t: "parse_bg n' s = Parsed (t, sc CHR '';'' # ?r)" "stands_for s t c" by auto
  have "\<exists>u. parseline n' ?r = Parsed (u, rest) \<and> stands_for ?r u d"
    by (rule reads_rules(1) [OF assms(2) a(1)]) (use a(3) n s in auto)
  then obtain u where u: "parseline n' ?r = Parsed (u, rest)" "stands_for ?r u d" by blast
  have "stands_for s u d" using stands_for_mono [OF u(2) suffix_behind] s by simp
  then have "stands_for s (LIST t u) (LIST c d)" using t(2) by (auto simp: stands_for_def)
  then show "\<exists>t. parseline n s = Parsed (t, rest) \<and> stands_for s t (LIST c d)"
    using t(1) u(1) sk by (simp add: n parseline_bg gettoken_symbol)
qed

lemma reads_printed: "wf_cmd c \<Longrightarrow> reads0 c \<and> reads1 c \<and> reads2 c \<and> reads3 c"
proof (induction c)
  case (EXEC ws)
  then have "reads3 (EXEC ws)" by (rule reads_exec)
  then have "reads2 (EXEC ws)" by (rule reads_pipe) simp
  moreover from this have "reads1 (EXEC ws)" by (rule reads_bg) simp
  moreover from this have "reads0 (EXEC ws)" by (rule reads_line) simp
  ultimately show ?case using \<open>reads3 (EXEC ws)\<close> by simp
next
  case (REDIR c f m d)
  then have "reads3 (REDIR c f m d)" by (intro reads_redir) auto
  then have "reads2 (REDIR c f m d)" by (rule reads_pipe) simp
  moreover from this have "reads1 (REDIR c f m d)" by (rule reads_bg) simp
  moreover from this have "reads0 (REDIR c f m d)" by (rule reads_line) simp
  ultimately show ?case using \<open>reads3 (REDIR c f m d)\<close> by simp
next
  case (PIPE c d)
  then have "reads2 (PIPE c d)" by (intro reads_PIPE) auto
  moreover from this have "reads1 (PIPE c d)" by (rule reads_bg) (simp add: paren_def)
  moreover from this have "reads0 (PIPE c d)" by (rule reads_line) (simp add: paren_def)
  moreover from this have "reads3 (PIPE c d)" by (rule reads_block [OF _ _ PIPE.prems]) (simp add: paren_def)
  ultimately show ?case by simp
next
  case (LIST c d)
  then have "reads0 (LIST c d)" by (intro reads_LIST) auto
  moreover from this have "reads3 (LIST c d)" by (rule reads_block [OF _ _ LIST.prems]) (simp add: paren_def)
  moreover from this have "reads2 (LIST c d)" by (rule reads_pipe) (simp add: paren_def)
  moreover from this have "reads1 (LIST c d)" by (rule reads_bg) (simp add: paren_def)
  ultimately show ?case by simp
next
  case (BACK c)
  then have "reads1 (BACK c)" by (intro reads_BACK) auto
  moreover from this have "reads0 (BACK c)" by (rule reads_line) (simp add: paren_def)
  moreover from this have "reads3 (BACK c)" by (rule reads_block [OF _ _ BACK.prems]) (simp add: paren_def)
  moreover from this have "reads2 (BACK c)" by (rule reads_pipe) (simp add: paren_def)
  ultimately show ?case by simp
qed

lemma parsecmd_printed:
  assumes "wf_cmd c"
  shows "\<exists>t. parsecmd (print 0 c) = Parsed t \<and> stands_for (print 0 c) t c"
proof -
  have "reads0 c" using reads_printed [OF assms] by simp
  then have "\<exists>t. parseline (4 * length (print 0 c) + 4) (print 0 c) = Parsed (t, []) \<and> stands_for (print 0 c) t c"
    by (rule reads_rules(1)) (simp_all add: after_cmd_def)
  then show ?thesis by (auto simp: parsecmd_def)
qed

subsection \<open>Terminated words\<close>

definition cut :: "uchar list \<Rightarrow> word_ptrs \<Rightarrow> nat" where
  "cut l w = length l - length (snd w)"

lemma fold_cuts:
  "length (fold (\<lambda>(q, eq) l. l[length l - length eq := 0]) ws l) = length l \<and>
   (\<forall>i < length l. fold (\<lambda>(q, eq) l. l[length l - length eq := (0::uchar)]) ws l ! i = (if i \<in> cut l ` set ws then 0 else l ! i))"
proof (induction ws arbitrary: l)
  case (Cons w ws)
  obtain q eq where w: "w = (q, eq)" by (cases w)
  from Cons.IH [of "l[length l - length eq := 0]"] show ?case by (auto simp: w cut_def nth_list_update)
qed simp

lemma nulterminate_cuts:
  "length (nulterminate t l) = length l \<and>
   (\<forall>i < length l. nulterminate t l ! i = (if i \<in> cut l ` set_cmd t then 0 else l ! i))"
proof (induction t arbitrary: l)
  case (EXEC ws)
  then show ?case using fold_cuts [of ws l] by simp
next
  case (REDIR c w m d)
  obtain q eq where w: "w = (q, eq)" by (cases w)
  have "length (nulterminate c l) = length l" "\<And>i. i < length l \<Longrightarrow> nulterminate c l ! i = (if i \<in> cut l ` set_cmd c then 0 else l ! i)"
    using REDIR [of l] by simp_all
  then show ?case by (auto simp: w cut_def nth_update_at Let_def)
next
  case (PIPE c d)
  from PIPE(1) [of l] PIPE(2) [of "nulterminate c l"] show ?case by (auto simp: cut_def)
next
  case (LIST c d)
  from LIST(1) [of l] LIST(2) [of "nulterminate c l"] show ?case by (auto simp: cut_def)
qed simp

lemma sound_word_split:
  assumes "sound_word s w"
  shows "\<exists>u x v. s = u @ word_of w @ x # v \<and> snd w = x # v \<and> fst w = word_of w @ x # v \<and> \<not> ordinary x \<and> (\<forall>c \<in> set (word_of w). ordinary c \<and> c \<noteq> 0)"
proof -
  obtain u where "s = u @ fst w" using assms by (auto simp: sound_word_def suffix_def)
  moreover obtain x v where "snd w = x # v" using assms by (cases "snd w") (auto simp: sound_word_def)
  ultimately show ?thesis using assms by (intro exI [of _ u] exI [of _ x] exI [of _ v]) (auto simp: sound_word_def is_word_def)
qed

lemma cut_not_ordinary: "sound_word s w \<Longrightarrow> cut s w < length s \<and> \<not> ordinary (s ! cut s w)"
  using sound_word_split [of s w] by (auto simp: cut_def nth_append)

lemma string_at_word:
  assumes "\<forall>w \<in> set_cmd t. sound_word s w" and "w \<in> set_cmd t"
  shows "string_at (nulterminate t s) w = word_of w"
proof -
  obtain u x v where w: "s = u @ word_of w @ x # v" "snd w = x # v" "fst w = word_of w @ x # v"
    "\<forall>c \<in> set (word_of w). ordinary c \<and> c \<noteq> 0" using sound_word_split assms by blast
  let ?l = "nulterminate t s" and ?k = "length (word_of w)" and ?p = "length u"
  note l = nulterminate_cuts [of t s]
  have len: "length s = ?p + ?k + Suc (length v)" by (subst w(1)) simp
  have p: "length ?l - length (fst w) = ?p" using l len w(3) by simp
  have keep: "?l ! (?p + i) = word_of w ! i" if "i < ?k" for i
  proof -
    have si: "s ! (?p + i) = word_of w ! i" by (subst w(1)) (use that in \<open>simp add: nth_append\<close>)
    then have "ordinary (s ! (?p + i))" using w(4) that by simp
    then have "?p + i \<notin> cut s ` set_cmd t" using assms(1) cut_not_ordinary by fastforce
    with l len that si show ?thesis by simp
  qed
  have "cut s w = ?p + ?k" using len w(2) by (simp add: cut_def)
  then have stop: "?l ! (?p + ?k) = 0" using l len assms(2) by (auto simp: image_iff)
  have "takeWhile (\<lambda>b. b \<noteq> 0) (drop ?p ?l) = take ?k (drop ?p ?l)"
    by (rule takeWhile_eq_take_P_nth) (use l len keep stop w(4) in auto)
  also have "\<dots> = word_of w" by (rule nth_equalityI) (use l len keep in auto)
  finally show ?thesis by (simp add: string_at_def p)
qed

text \<open>
  The shell reads back every command tree: the printed text is parsed without an error into a tree of pointers,
  and once \<open>nulterminate\<close> has cut the line the strings at these pointers are the words of the tree.
\<close>

lemma parsed_words:
  assumes "wf_cmd c"
  shows "\<exists>t. parsecmd (print 0 c) = Parsed t \<and> map_cmd (string_at (nulterminate t (print 0 c))) t = c"
proof -
  obtain t where t: "parsecmd (print 0 c) = Parsed t" "map_cmd word_of t = c" "\<forall>w \<in> set_cmd t. sound_word (print 0 c) w"
    using parsecmd_printed [OF assms] by (auto simp: stands_for_def)
  have "map_cmd (string_at (nulterminate t (print 0 c))) t = map_cmd word_of t"
    by (rule cmd.map_cong [OF refl]) (rule string_at_word [OF t(3)])
  with t show ?thesis by blast
qed

section \<open>Running printed commands\<close>

text \<open>
  The processes that a program of system calls starts. A process has a table of descriptors; \<open>open\<close>, \<open>dup\<close> and
  \<open>pipe\<close> take the lowest free ones, a forked child starts with a copy. Which files can be opened and
  which programs exist is up to the parameters; \<open>fork\<close> succeeds. The result is the list of programs that were
  started, each with its arguments and its descriptors. Pipes are numbered in the order of this list.
\<close>

datatype desc = Inherited nat | Opened "uchar list" int | PipeR nat | PipeW nat

type_synonym fdtable = "desc option list"

definition fd_close :: "int \<Rightarrow> fdtable \<Rightarrow> fdtable" where
  "fd_close d fs = (if 0 \<le> d then fs[nat d := None] else fs)"

definition fd_alloc :: "desc \<Rightarrow> fdtable \<Rightarrow> (nat \<times> fdtable) option" where
  "fd_alloc x fs = (case scan (\<lambda>y. y = None) fs of None \<Rightarrow> None | Some i \<Rightarrow> Some (i, fs[i := Some x]))"

definition fd_dup :: "int \<Rightarrow> fdtable \<Rightarrow> fdtable" where
  "fd_dup d fs =
     (if 0 \<le> d \<and> nat d < length fs then
        (case fs ! nat d of None \<Rightarrow> fs | Some x \<Rightarrow> (case fd_alloc x fs of None \<Rightarrow> fs | Some (i, fs') \<Rightarrow> fs'))
      else fs)"

definition fd_pipe :: "nat \<Rightarrow> fdtable \<Rightarrow> (int \<times> int \<times> fdtable) option" where
  "fd_pipe n fs =
     (case fd_alloc (PipeR n) fs of None \<Rightarrow> None | Some (i, fs1) \<Rightarrow>
      (case fd_alloc (PipeW n) fs1 of None \<Rightarrow> None | Some (j, fs2) \<Rightarrow> Some (int i, int j, fs2)))"

type_synonym started = "(uchar list list \<times> fdtable) list"

primrec started_by :: "(uchar list \<Rightarrow> int \<Rightarrow> bool) \<Rightarrow> (uchar list \<Rightarrow> bool) \<Rightarrow> sysc \<Rightarrow> fdtable \<Rightarrow> nat \<Rightarrow> started \<times> nat" where
  "started_by opn exe SysExit = (\<lambda>fs n. ([], n))"
| "started_by opn exe (SysExec w ws k) = (\<lambda>fs n. if exe w then ([(ws, fs)], n) else started_by opn exe k fs n)"
| "started_by opn exe (SysClose d k) = (\<lambda>fs n. started_by opn exe k (fd_close d fs) n)"
| "started_by opn exe (SysOpen f m k) = (\<lambda>fs n.
     case (if opn f m then fd_alloc (Opened f m) fs else None) of
       None \<Rightarrow> started_by opn exe (k (- 1)) fs n
     | Some (i, fs') \<Rightarrow> started_by opn exe (k (int i)) fs' n)"
| "started_by opn exe (SysPipe k) = (\<lambda>fs n.
     case fd_pipe n fs of
       None \<Rightarrow> started_by opn exe (k None) fs n
     | Some (i, j, fs') \<Rightarrow> started_by opn exe (k (Some (i, j))) fs' (Suc n))"
| "started_by opn exe (SysFork k) = (\<lambda>fs n.
     let (child, n) = started_by opn exe (k 0) fs n; (parent, n) = started_by opn exe (k 1) fs n
     in (child @ parent, n))"
| "started_by opn exe (SysDup d k) = (\<lambda>fs n. started_by opn exe k (fd_dup d fs) n)"
| "started_by opn exe (SysWait k) = (\<lambda>fs n. started_by opn exe k fs n)"
| "started_by opn exe (SysChdir f k) = (\<lambda>fs n. started_by opn exe (k (if opn f 0 then 0 else - 1)) fs n)"
| "started_by opn exe (SysWrite d bs k) = (\<lambda>fs n. started_by opn exe k fs n)"
| "started_by opn exe SysNoFuel = (\<lambda>fs n. ([], n))"

text \<open>What a command tree means: the programs it starts, each with its input, its output and its error output.\<close>

fun wired :: "(uchar list \<Rightarrow> int \<Rightarrow> bool) \<Rightarrow> (uchar list \<Rightarrow> bool) \<Rightarrow> uchar list cmd \<Rightarrow> desc \<Rightarrow> desc \<Rightarrow> nat \<Rightarrow>
    (uchar list list \<times> desc \<times> desc) list \<times> nat" where
  "wired opn exe (EXEC ws) i out n = (if ws \<noteq> [] \<and> exe (hd ws) then [(ws, i, out)] else [], n)"
| "wired opn exe (REDIR c f m d) i out n =
     (if \<not> opn f m then ([], n)
      else if d = 0 then wired opn exe c (Opened f m) out n
      else wired opn exe c i (Opened f m) n)"
| "wired opn exe (PIPE c d) i out n =
     (let (a, n') = wired opn exe c i (PipeW n) (Suc n); (b, n'') = wired opn exe d (PipeR n) out n' in (a @ b, n''))"
| "wired opn exe (LIST c d) i out n =
     (let (a, n') = wired opn exe c i out n; (b, n'') = wired opn exe d i out n' in (a @ b, n''))"
| "wired opn exe (BACK c) i out n = wired opn exe c i out n"

definition std :: "desc \<Rightarrow> desc \<Rightarrow> desc \<Rightarrow> fdtable" where
  "std i out e = [Some i, Some out, Some e] @ replicate 13 None"

definition with_std :: "desc \<Rightarrow> (uchar list list \<times> desc \<times> desc) list \<Rightarrow> started" where
  "with_std e ps = map (\<lambda>(ws, i, out). (ws, std i out e)) ps"

lemma replicate_13: "replicate 13 x = [x, x, x, x, x, x, x, x, x, x, x, x, x]"
  by (simp add: numeral_eq_Suc)

lemma std_redirect:
  "fd_alloc x (fd_close 0 (std i out e)) = Some (0, std x out e)"
  "fd_alloc x (fd_close 1 (std i out e)) = Some (1, std i x e)"
  by (simp_all add: std_def fd_alloc_def fd_close_def)

lemma std_pipe:
  "\<exists>fs. fd_pipe n (std i out e) = Some (3, 4, fs) \<and>
     fd_close 4 (fd_close 3 (fd_dup 4 (fd_close 1 fs))) = std i (PipeW n) e \<and>
     fd_close 4 (fd_close 3 (fd_dup 3 (fd_close 0 fs))) = std (PipeR n) out e"
  by (simp add: std_def fd_pipe_def fd_alloc_def fd_close_def fd_dup_def replicate_13)

lemma with_std_simps [simp]: "with_std e [] = []" "with_std e (a @ b) = with_std e a @ with_std e b"
  by (simp_all add: with_std_def)

lemma runcmd_wired:
  "wf_cmd c \<Longrightarrow> started_by opn exe (runcmd c) (std i out e) n = map_prod (with_std e) id (wired opn exe c i out n)"
proof (induction c arbitrary: i out n)
  case (EXEC ws)
  then show ?case by (cases ws) (simp_all add: with_std_def)
next
  case (REDIR c f m d)
  then show ?case by (auto simp: std_redirect)
next
  case (PIPE c d)
  from std_pipe obtain fs where fs: "fd_pipe n (std i out e) = Some (3, 4, fs)"
    "fd_close 4 (fd_close 3 (fd_dup 4 (fd_close 1 fs))) = std i (PipeW n) e"
    "fd_close 4 (fd_close 3 (fd_dup 3 (fd_close 0 fs))) = std (PipeR n) out e" by blast
  with PIPE show ?case by (simp add: fork1_def split: prod.splits)
next
  case (LIST c d)
  then show ?case by (simp add: fork1_def split: prod.splits)
next
  case (BACK c)
  then show ?case by (simp add: fork1_def split: prod.splits)
qed

text \<open>Four attempts are enough to have three descriptors open, whichever of them were open before.\<close>

lemma fd_alloc_Cons:
  "fd_alloc x (None # r) = Some (0, Some x # r)"
  "fd_alloc x (Some a # r) = map_option (\<lambda>(i, r'). (Suc i, Some a # r')) (fd_alloc x r)"
  by (simp_all add: fd_alloc_def del: scan_None_iff split: option.split)

lemma fd_close_Suc: "fd_close (int (Suc i)) (x # r) = x # fd_close (int i) r"
  by (simp add: fd_close_def nat_add_distrib)

lemma open_console_full:
  assumes "opn (map sc ''console'') RDWR_MODE"
  shows "\<exists>r'. started_by opn exe (open_console (Suc m) k) (Some a # Some b # Some c # r) n =
     started_by opn exe k (Some a # Some b # Some c # r') n"
proof (cases "fd_alloc (Opened (map sc ''console'') RDWR_MODE) r")
  case None
  then show ?thesis using assms by (intro exI [of _ r]) (simp add: fd_alloc_Cons)
next
  case (Some p)
  then show ?thesis using assms
    by (cases p; intro exI [of _ "fd_close (int (fst p)) (snd p)"]) (simp add: fd_alloc_Cons fd_close_Suc del: of_nat_Suc)
qed

lemma open_console_three:
  assumes "opn (map sc ''console'') RDWR_MODE" and "3 \<le> length fs"
  shows "\<exists>a b c r. started_by opn exe (open_console 4 k) fs n = started_by opn exe k (Some a # Some b # Some c # r) n"
proof -
  obtain a b c r where fs: "fs = a # b # c # r"
    using assms(2) by (cases fs; cases "tl fs"; cases "tl (tl fs)") auto
  let ?f = "Opened (map sc ''console'') RDWR_MODE"
  let ?run = "\<lambda>m gs. started_by opn exe (open_console m k) gs n"
  let ?P = "\<lambda>m gs. \<exists>a b c r. ?run m gs = started_by opn exe k (Some a # Some b # Some c # r) n"
  have one: "?run (Suc m) gs = ?run m gs'" if "fd_alloc ?f gs = Some (i, gs')" "i < 3" for m gs gs' i using that assms(1) by simp
  have 3: "?P (Suc m) (Some a # Some b # Some c # r)" for m a b c using open_console_full [of opn exe, OF assms(1)] by blast
  have 2: "?P (Suc (Suc m)) (Some a # Some b # c # r)" for m a b
    using 3 one [of "Some a # Some b # None # r" 2 _ "Suc m"] by (cases c) (simp_all add: fd_alloc_Cons del: open_console.simps)
  have 1: "?P (Suc (Suc (Suc m))) (Some a # b # c # r)" for m a
    using 2 one [of "Some a # None # c # r" 1 _ "Suc (Suc m)"] by (cases b) (simp_all add: fd_alloc_Cons del: open_console.simps)
  have "?P (Suc (Suc (Suc (Suc 0)))) (a # b # c # r)"
    using 1 one [of "None # b # c # r" 0 _ "Suc (Suc (Suc 0))"] by (cases a) (simp_all add: fd_alloc_Cons del: open_console.simps)
  then show ?thesis by (simp add: fs numeral_eq_Suc del: open_console.simps)
qed

text \<open>C38. The shell starts what the command line means: for the text of a command tree the child process starts exactly the
  programs of the tree that exist, in order, with their arguments; the programs of a pipeline are connected by a
  pipe of their own, a redirection that can be opened replaces the input or the output, one that cannot starts
  nothing, and no program inherits a descriptor other than its input, its output and the error output.\<close>

theorem shell_starts_what_the_line_means:
  assumes "wf_cmd c"
  shows "started_by opn exe (run_line (print 0 c)) (std i out e) n = map_prod (with_std e) id (wired opn exe c i out n)"
proof -
  from parsed_words [OF assms] obtain t where
    "parsecmd (print 0 c) = Parsed t" "map_cmd (string_at (nulterminate t (print 0 c))) t = c" by blast
  with runcmd_wired [OF assms] show ?thesis by (simp add: run_line_def)
qed

theorem shell_starts_what_the_line_means_witness:
  "started_by (\<lambda>f m. True) (\<lambda>w. w \<noteq> map sc ''who'') (run_line (map sc ''who |wc -l >out &;echo '')) (std (Inherited 0) (Inherited 1) (Inherited 2)) 0 =
     ([([map sc ''wc'', map sc ''-l''], std (PipeR 0) (Opened (map sc ''out'') WR_MODE) (Inherited 2)),
       ([map sc ''echo''], std (Inherited 0) (Inherited 1) (Inherited 2))], 1)"
proof -
  let ?c = "LIST (BACK (PIPE (EXEC [map sc ''who'']) (REDIR (EXEC [map sc ''wc'', map sc ''-l'']) (map sc ''out'') WR_MODE 1))) (EXEC [map sc ''echo''])"
  have "wf_cmd ?c" by code_simp
  from shell_starts_what_the_line_means [OF this, of "\<lambda>f m. True" "\<lambda>w. w \<noteq> map sc ''who''" "Inherited 0" "Inherited 1" "Inherited 2" 0]
  have "started_by (\<lambda>f m. True) (\<lambda>w. w \<noteq> map sc ''who'') (run_line (print 0 ?c)) (std (Inherited 0) (Inherited 1) (Inherited 2)) 0 =
    map_prod (with_std (Inherited 2)) id (wired (\<lambda>f m. True) (\<lambda>w. w \<noteq> map sc ''who'') ?c (Inherited 0) (Inherited 1) 0)" .
  moreover have "print 0 ?c = map sc ''who |wc -l >out &;echo ''" by code_simp
  ultimately show ?thesis by (simp add: with_std_def sc_def)
qed

end
