(* ===== verification/Ide.thy ===== *)
theory Ide
  imports Bio
begin

unbundle bit_operations_syntax

text \<open>
  The driver of the IDE disk (\<open>ide.c\<close>), which the kernel uses in place of the memory disk when it is built without
  one: a queue of buffers linked through the buffers themselves, the commands sent to the controller, and
  the interrupt handler that completes a request and starts the next one.

  The controller is hardware. What the driver sends to it is recorded as the list of port writes; the status bytes it
  answers with are part of the state, and the bytes it returns for a read are a function of the port writes.
\<close>

subsection \<open>State\<close>

definition SECTOR_SIZE :: nat where "SECTOR_SIZE = 512"
definition IDE_BSY :: uchar where "IDE_BSY = 0x80"
definition IDE_DRDY :: uchar where "IDE_DRDY = 0x40"
definition IDE_DF :: uchar where "IDE_DF = 0x20"
definition IDE_ERR :: uchar where "IDE_ERR = 0x01"
definition IDE_CMD_READ :: uchar where "IDE_CMD_READ = 0x20"
definition IDE_CMD_WRITE :: uchar where "IDE_CMD_WRITE = 0x30"
definition IDE_CMD_RDMUL :: uchar where "IDE_CMD_RDMUL = 0xc4"
definition IDE_CMD_WRMUL :: uchar where "IDE_CMD_WRMUL = 0xc5"
definition FSSIZE :: nat where "FSSIZE = 1000"

datatype port_io = Outb uint uchar | Outsl uint "uchar list"

record ide_vars =
  idequeue :: "nat option"
  qnext :: "nat \<Rightarrow> nat option"
  havedisk1 :: bool
  ports :: "port_io list"
  statuses :: "uchar list"

record ide = bcache +
  drv :: ide_vars

lemma drv_frame [simp]:
  "drv (push s) = drv s"
  "drv (pop s) = drv s"
  "drv (settle s) = drv s"
  "drv (acq lk s) = drv s"
  "drv (rel lk s) = drv s"
  "drv (upd_cpu c g s) = drv s"
  "drv (upd_cur g s) = drv s"
  "drv (upd_lock lk h s) = drv s"
  "drv (upd_thread t k s) = drv s"
  "drv (upd_proc p q s) = drv s"
  "drv (run_on c s) = drv s"
  "settle (s\<lparr>drv := x\<rparr>) = (settle s)\<lparr>drv := x\<rparr>"
  "acq lk (s\<lparr>drv := x\<rparr>) = (acq lk s)\<lparr>drv := x\<rparr>"
  "rel lk (s\<lparr>drv := x\<rparr>) = (rel lk s)\<lparr>drv := x\<rparr>"
  "upd_cpu c g (s\<lparr>drv := x\<rparr>) = (upd_cpu c g s)\<lparr>drv := x\<rparr>"
  "upd_cur g (s\<lparr>drv := x\<rparr>) = (upd_cur g s)\<lparr>drv := x\<rparr>"
  "upd_lock lk h (s\<lparr>drv := x\<rparr>) = (upd_lock lk h s)\<lparr>drv := x\<rparr>"
  "upd_thread t k (s\<lparr>drv := x\<rparr>) = (upd_thread t k s)\<lparr>drv := x\<rparr>"
  "upd_proc p q (s\<lparr>drv := x\<rparr>) = (upd_proc p q s)\<lparr>drv := x\<rparr>"
  "run_on c (s\<lparr>drv := x\<rparr>) = (run_on c s)\<lparr>drv := x\<rparr>"
  "this_cpu (s\<lparr>drv := x\<rparr>) = this_cpu s"
  "cur (s\<lparr>drv := x\<rparr>) = cur s"
  "cpu_inv (s\<lparr>drv := x\<rparr>) = cpu_inv s"
  "in_cs (s\<lparr>drv := x\<rparr>) = in_cs s"
  "lock_free lk (s\<lparr>drv := x\<rparr>) = lock_free lk s"
  "lock_held lk (s\<lparr>drv := x\<rparr>) = lock_held lk s"
  "calm (s\<lparr>drv := x\<rparr>) = calm s"
  "runs (s\<lparr>drv := x\<rparr>) = runs s"
  by (simp_all add: frame_ext_defs)


definition upd_drv :: "(ide_vars \<Rightarrow> ide_vars) \<Rightarrow> 'm ide_scheme \<Rightarrow> 'm ide_scheme" where
  "upd_drv f s = s\<lparr>drv := f (drv s)\<rparr>"

subsection \<open>Ports\<close>

definition outb :: "uint \<Rightarrow> uchar \<Rightarrow> ('m ide_scheme, unit) kop" where
  "outb p v = kmod (upd_drv (\<lambda>d. d\<lparr>ports := ports d @ [Outb p v]\<rparr>))"

definition outsl :: "uint \<Rightarrow> uchar list \<Rightarrow> ('m ide_scheme, unit) kop" where
  "outsl p bs = kmod (upd_drv (\<lambda>d. d\<lparr>ports := ports d @ [Outsl p bs]\<rparr>))"

text \<open>A status that the controller never gives keeps the processor waiting.\<close>

definition inb_status :: "('m ide_scheme, uchar) kop" where
  "inb_status s = (case statuses (drv s) of [] \<Rightarrow> Spin s | r # rs \<Rightarrow> Ok r (upd_drv (\<lambda>d. d\<lparr>statuses := rs\<rparr>) s))"

definition insl :: "(port_io list \<Rightarrow> uchar list) \<Rightarrow> nat \<Rightarrow> ('m ide_scheme, unit) kop" where
  "insl dv b = kmod (\<lambda>s. upd_buf b (\<lambda>x. x\<lparr>data := dv (ports (drv s))\<rparr>) s)"

subsection \<open>Operations\<close>

text \<open>The loop of \<open>idewait\<close> reads status bytes until one says ready.\<close>

definition idewait :: "bool \<Rightarrow> ('m ide_scheme, int) kop" where
  "idewait checkerr s =
     (case dropWhile (\<lambda>r. r AND (IDE_BSY OR IDE_DRDY) \<noteq> IDE_DRDY) (statuses (drv s)) of
        [] \<Rightarrow> Spin s
      | r # rs \<Rightarrow> Ok (if checkerr \<and> r AND (IDE_DF OR IDE_ERR) \<noteq> 0 then - 1 else 0) (upd_drv (\<lambda>d. d\<lparr>statuses := rs\<rparr>) s))"

fun probe_disk1 :: "nat \<Rightarrow> ('m ide_scheme, unit) kop" where
  "probe_disk1 0 = kret ()"
| "probe_disk1 (Suc i) =
     kbind inb_status (\<lambda>r.
     if r \<noteq> 0 then kmod (upd_drv (\<lambda>d. d\<lparr>havedisk1 := True\<rparr>)) else probe_disk1 i)"

definition ideinit :: "('m ide_scheme, unit) kop" where
  "ideinit =
     kseq (initlock LkIde ''ide'')
     (kbind (idewait False) (\<lambda>_.
     kseq (outb 0x1f6 (0xe0 OR push_bit 4 1))
     (kseq (probe_disk1 1000)
     (outb 0x1f6 (0xe0 OR push_bit 4 0)))))"

definition idestart :: "nat option \<Rightarrow> ('m ide_scheme, unit) kop" where
  "idestart b0 =
     (case b0 of None \<Rightarrow> kpanic ''idestart'' | Some b \<Rightarrow>
      kbind (kget (\<lambda>s. bufs s ! b)) (\<lambda>x.
      if FSSIZE \<le> unat (blockno x) then kpanic ''incorrect blockno'' else
      let sector_per_block = BSIZE div SECTOR_SIZE;
          sector = blockno x * of_nat sector_per_block;
          read_cmd = (if sector_per_block = 1 then IDE_CMD_READ else IDE_CMD_RDMUL);
          write_cmd = (if sector_per_block = 1 then IDE_CMD_WRITE else IDE_CMD_WRMUL)
      in
      if 7 < sector_per_block then kpanic ''idestart'' else
      kbind (idewait False) (\<lambda>_.
      kseq (outb 0x3f6 0)
      (kseq (outb 0x1f2 (of_nat sector_per_block))
      (kseq (outb 0x1f3 (ucast (sector AND 0xff)))
      (kseq (outb 0x1f4 (ucast (drop_bit 8 sector AND 0xff)))
      (kseq (outb 0x1f5 (ucast (drop_bit 16 sector AND 0xff)))
      (kseq (outb 0x1f6 (ucast (0xe0 OR push_bit 4 (dev x AND 1) OR (drop_bit 24 sector AND 0x0f))))
      (if b_dirty x then
         kseq (outb 0x1f7 write_cmd)
         (outsl 0x1f0 (data x))
       else outb 0x1f7 read_cmd)))))))))"

definition ideintr :: "(port_io list \<Rightarrow> uchar list) \<Rightarrow> ('m ide_scheme, unit) kop" where
  "ideintr dv =
     kseq (acquire LkIde)
     (kbind (kget (\<lambda>s. idequeue (drv s))) (\<lambda>q.
     case q of None \<Rightarrow> release LkIde | Some b \<Rightarrow>
     kseq (kmod (upd_drv (\<lambda>d. d\<lparr>idequeue := qnext d b\<rparr>)))
     (kbind (kget (\<lambda>s. b_dirty (bufs s ! b))) (\<lambda>dirty.
     kseq (if \<not> dirty then kbind (idewait True) (\<lambda>r. if 0 \<le> r then insl dv b else kret ()) else kret ())
     (kseq (kmod (upd_buf b (\<lambda>x. x\<lparr>b_valid := True\<rparr>)))
     (kseq (kmod (upd_buf b (\<lambda>x. x\<lparr>b_dirty := False\<rparr>)))
     (kseq (wakeup (Some (ChBuf b)))
     (kbind (kget (\<lambda>s. idequeue (drv s))) (\<lambda>q.
     kseq (if q \<noteq> None then idestart q else kret ())
     (release LkIde))))))))))"

text \<open>The last buffer of the queue, by its links; a queue with more than \<open>NBUF\<close> buffers would be a cycle.\<close>

fun queue_tail :: "nat \<Rightarrow> (nat \<Rightarrow> nat option) \<Rightarrow> nat \<Rightarrow> nat option" where
  "queue_tail 0 nx b = None"
| "queue_tail (Suc n) nx b = (case nx b of None \<Rightarrow> Some b | Some c \<Rightarrow> queue_tail n nx c)"

definition ide_append :: "nat \<Rightarrow> ('m ide_scheme, unit) kop" where
  "ide_append b s =
     (case idequeue (drv s) of
        None \<Rightarrow> Ok () (upd_drv (\<lambda>d. d\<lparr>idequeue := Some b\<rparr>) s)
      | Some h \<Rightarrow>
          (case queue_tail (Suc NBUF) (qnext (drv s)) h of
             None \<Rightarrow> Spin s
           | Some t \<Rightarrow> Ok () (upd_drv (\<lambda>d. d\<lparr>qnext := (qnext d)(t := Some b)\<rparr>) s)))"

definition iderw_loop :: "nat \<Rightarrow> ('m ide_scheme, unit) kop" where
  "iderw_loop b =
     kbind (kget (\<lambda>s. bufs s ! b)) (\<lambda>x.
     if b_valid x \<and> \<not> b_dirty x then release LkIde else sleep (ChBuf b) (Some LkIde))"

definition iderw_queued :: "nat \<Rightarrow> ('m ide_scheme, unit) kop" where
  "iderw_queued b =
     kbind (holdingsleep (SlBuf b)) (\<lambda>h.
     if \<not> h then kpanic ''iderw: buf not locked'' else
     kbind (kget (\<lambda>s. bufs s ! b)) (\<lambda>x.
     if b_valid x \<and> \<not> b_dirty x then kpanic ''iderw: nothing to do'' else
     kbind (kget (\<lambda>s. havedisk1 (drv s))) (\<lambda>have.
     if dev x \<noteq> 0 \<and> \<not> have then kpanic ''iderw: ide disk 1 not present'' else
     kseq (acquire LkIde)
     (kseq (kmod (upd_drv (\<lambda>d. d\<lparr>qnext := (qnext d)(b := None)\<rparr>)))
     (kseq (ide_append b)
     (kbind (kget (\<lambda>s. idequeue (drv s))) (\<lambda>q.
     kseq (if q = Some b then idestart (Some b) else kret ())
     (iderw_loop b))))))))"

definition iderw_queued_resume :: "nat \<Rightarrow> ('m ide_scheme, unit) kop" where
  "iderw_queued_resume b = kseq (sleep_resume LkIde) (iderw_loop b)"

subsection \<open>Symbolic execution\<close>

lemma upd_drv_simps [simp]:
  "drv (upd_drv f s) = f (drv s)" "bufs (upd_drv f s) = bufs s" "procs (upd_drv f s) = procs s" "ttable (upd_drv f s) = ttable s"
  "sleeplocks (upd_drv f s) = sleeplocks s"
  "acq lk (upd_drv f s) = upd_drv f (acq lk s)" "rel lk (upd_drv f s) = upd_drv f (rel lk s)"
  "settle (upd_drv f s) = upd_drv f (settle s)" "cpu_inv (upd_drv f s) = cpu_inv s" "in_cs (upd_drv f s) = in_cs s"
  "cur (upd_drv f s) = cur s" "lock_free lk (upd_drv f s) = lock_free lk s" "lock_held lk (upd_drv f s) = lock_held lk s"
  "this_cpu (upd_drv f s) = this_cpu s"
  by (simp_all add: upd_drv_def)

lemma upd_drv_upd_drv [simp]: "upd_drv f (upd_drv g s) = upd_drv (\<lambda>d. f (g d)) s"
  by (simp add: upd_drv_def)

lemma drv_upd_buf [simp]: "drv (upd_buf b g s) = drv s" "upd_buf b g (upd_drv f s) = upd_drv f (upd_buf b g s)"
  by (simp_all add: upd_buf_def upd_drv_def)

text \<open>What \<open>idestart\<close> sends for a buffer, and a controller that answers at once and without an error.\<close>

definition sent :: "buf \<Rightarrow> port_io list" where
  "sent x =
     [Outb 0x3f6 0, Outb 0x1f2 1, Outb 0x1f3 (ucast (blockno x AND 0xff)), Outb 0x1f4 (ucast (drop_bit 8 (blockno x) AND 0xff)),
      Outb 0x1f5 (ucast (drop_bit 16 (blockno x) AND 0xff)),
      Outb 0x1f6 (ucast (0xe0 OR push_bit 4 (dev x AND 1) OR (drop_bit 24 (blockno x) AND 0x0f)))] @
     (if b_dirty x then [Outb 0x1f7 IDE_CMD_WRITE, Outsl 0x1f0 (data x)] else [Outb 0x1f7 IDE_CMD_READ])"

definition ready_status :: "uchar \<Rightarrow> bool" where
  "ready_status r \<longleftrightarrow> r AND (IDE_BSY OR IDE_DRDY) = IDE_DRDY \<and> r AND (IDE_DF OR IDE_ERR) = 0"

definition prompt :: "nat \<Rightarrow> ide_vars \<Rightarrow> bool" where
  "prompt n d \<longleftrightarrow> n \<le> length (statuses d) \<and> (\<forall>r \<in> set (statuses d). ready_status r)"

lemma prompt_less: "prompt n d \<Longrightarrow> m \<le> n \<Longrightarrow> prompt m d"
  by (simp add: prompt_def)

lemma idewait_ok:
  assumes "statuses (drv s) \<noteq> []" and "ready_status (hd (statuses (drv s)))"
  shows "idewait c s = Ok 0 (upd_drv (\<lambda>d. d\<lparr>statuses := tl (statuses d)\<rparr>) s)"
  using assms by (cases "statuses (drv s)") (simp_all add: idewait_def ready_status_def upd_drv_def)

definition small :: "buf \<Rightarrow> bool" where
  "small x \<longleftrightarrow> unat (blockno x) < FSSIZE"

lemma idestart_ok:
  assumes "statuses (drv s) \<noteq> []" and "ready_status (hd (statuses (drv s)))" and "small (bufs s ! b)"
  shows "idestart (Some b) s = Ok () (upd_drv (\<lambda>d. d\<lparr>statuses := tl (statuses d), ports := ports d @ sent (bufs s ! b)\<rparr>) s)"
  using assms idewait_ok [OF assms(1,2)]
  by (simp add: idestart_def outb_def outsl_def kexec BSIZE_def SECTOR_SIZE_def sent_def Let_def small_def)

subsection \<open>The queue\<close>

fun links :: "nat option \<Rightarrow> (nat \<Rightarrow> nat option) \<Rightarrow> nat list \<Rightarrow> bool" where
  "links p nx [] \<longleftrightarrow> p = None"
| "links p nx (b # q) \<longleftrightarrow> p = Some b \<and> links (nx b) nx q"

lemma links_tail: "links (nx h) nx q \<Longrightarrow> length q < n \<Longrightarrow> queue_tail n nx h = Some (last (h # q))"
proof (induction q arbitrary: h n)
  case Nil
  then show ?case by (cases n) auto
next
  case (Cons b q)
  then show ?case by (cases n) auto
qed

lemma links_other: "c \<notin> set q \<Longrightarrow> links p (nx(c := v)) q \<longleftrightarrow> links p nx q"
  by (induction q arbitrary: p) auto

lemma links_append:
  "links (nx h) nx q \<Longrightarrow> distinct (h # q) \<Longrightarrow> b \<notin> set (h # q) \<Longrightarrow> nx b = None \<Longrightarrow>
   links ((nx(last (h # q) := Some b)) h) (nx(last (h # q) := Some b)) (q @ [b])"
proof (induction q arbitrary: h)
  case (Cons c q)
  then have "h \<noteq> last (c # q)" using last_in_set [of "c # q"] by auto
  with Cons show ?case by auto
qed simp

lemma ide_append_ok:
  assumes "links (idequeue (drv s)) (qnext (drv s)) q" and "distinct (q @ [b])" and "qnext (drv s) b = None" and "length q \<le> NBUF"
  shows "\<exists>d. ide_append b s = Ok () (upd_drv (\<lambda>_. d) s) \<and> links (idequeue d) (qnext d) (q @ [b]) \<and>
     d = (drv s)\<lparr>idequeue := idequeue d, qnext := qnext d\<rparr> \<and> (idequeue d = Some b \<longleftrightarrow> q = [])"
proof (cases q)
  case Nil
  then show ?thesis using assms by (intro exI [of _ "(drv s)\<lparr>idequeue := Some b\<rparr>"]) (simp add: ide_append_def upd_drv_def)
next
  case (Cons h q')
  let ?d = "(drv s)\<lparr>qnext := (qnext (drv s))(last q := Some b)\<rparr>"
  have h: "idequeue (drv s) = Some h" "links (qnext (drv s) h) (qnext (drv s)) q'" using assms(1) Cons by simp_all
  have t: "queue_tail (Suc NBUF) (qnext (drv s)) h = Some (last q)"
    using links_tail [OF h(2), of "Suc NBUF"] assms(4) Cons by simp
  then have "ide_append b s = Ok () (upd_drv (\<lambda>_. ?d) s)" by (simp add: ide_append_def h(1) upd_drv_def del: queue_tail.simps)
  moreover have "links (idequeue ?d) (qnext ?d) (q @ [b])"
    using links_append [OF h(2), of b] assms(2,3) h(1) Cons by auto
  moreover have "b \<noteq> h" using assms(2) Cons by auto
  ultimately show ?thesis using h(1) Cons by (intro exI [of _ ?d]) simp
qed

subsection \<open>The controller\<close>

text \<open>
  How a controller understands the port writes: five registers hold the drive and the block address, a write to the
  command register starts a transfer, and the data of a write follow.
\<close>

datatype request = Rd bool uint | Wr bool uint "uchar list"

definition lba :: "(uint \<Rightarrow> uchar) \<Rightarrow> uint" where
  "lba r = ucast (r 0x1f3) OR push_bit 8 (ucast (r 0x1f4)) OR push_bit 16 (ucast (r 0x1f5)) OR push_bit 24 (ucast (r 0x1f6) AND 0x0f)"

definition drive :: "(uint \<Rightarrow> uchar) \<Rightarrow> bool" where
  "drive r \<longleftrightarrow> bit (r 0x1f6) 4"

fun ata :: "(uint \<Rightarrow> uchar) \<Rightarrow> port_io list \<Rightarrow> request list" where
  "ata r [] = []"
| "ata r (Outsl p bs # h) = ata r h"
| "ata r (Outb p v # h) =
     (if p \<noteq> 0x1f7 then ata (r(p := v)) h
      else if v = IDE_CMD_READ then Rd (drive r) (lba r) # ata r h
      else (case h of Outsl _ bs # _ \<Rightarrow> Wr (drive r) (lba r) bs # ata r h | _ \<Rightarrow> ata r h))"

definition request_of :: "buf \<Rightarrow> request" where
  "request_of x = (if b_dirty x then Wr (odd (dev x)) (blockno x) (data x) else Rd (odd (dev x)) (blockno x))"

lemma sector_bytes:
  assumes "unat n < FSSIZE"
  shows "ucast (ucast (n AND 0xff) :: uchar) OR push_bit 8 (ucast (ucast (drop_bit 8 n AND 0xff) :: uchar)) OR
     push_bit 16 (ucast (ucast (drop_bit 16 n AND 0xff) :: uchar)) = (n :: uint)" and "drop_bit 24 n = 0"
proof -
  have m: "(0xff :: uint) = mask 8" by (simp add: mask_eq_exp_minus_1)
  have "take_bit 24 (unat n) = unat n" using assms by (simp add: FSSIZE_def take_bit_nat_eq_self_iff)
  then have t: "take_bit 24 n = n" by (simp add: word_unat_eq_iff unsigned_take_bit_eq)
  have hi: "i < 24" if "bit n i" for i using that by (subst (asm) t [symmetric]) (simp add: bit_take_bit_iff)
  then show "drop_bit 24 n = 0" by (intro bit_word_eqI) (auto simp: bit_simps)
  show "ucast (ucast (n AND 0xff) :: uchar) OR push_bit 8 (ucast (ucast (drop_bit 8 n AND 0xff) :: uchar)) OR
     push_bit 16 (ucast (ucast (drop_bit 16 n AND 0xff) :: uchar)) = n"
    unfolding m
  proof (rule bit_word_eqI)
    fix i assume "i < LENGTH(32)"
    then have i: "i < 32" by simp
    consider "i < 8" | "8 \<le> i" "i < 16" | "16 \<le> i" "i < 24" | "24 \<le> i" by linarith
    then show "bit (ucast (ucast (n AND mask 8) :: uchar) OR push_bit 8 (ucast (ucast (drop_bit 8 n AND mask 8) :: uchar)) OR
      push_bit 16 (ucast (ucast (drop_bit 16 n AND mask 8) :: uchar)) :: uint) i \<longleftrightarrow> bit n i"
      by cases (use hi [of i] i in \<open>auto simp: bit_simps\<close>)
  qed
qed

lemma drive_byte:
  "(ucast (0xe0 OR push_bit 4 (d AND 1) :: uint) :: uchar) = (if odd d then 0xf0 else 0xe0)" for d :: uint
  by (simp add: and_one_eq odd_iff_mod_2_eq_one)

lemma ata_sent:
  assumes "unat (blockno x) < FSSIZE"
  shows "\<exists>r'. ata r (sent x @ h) = request_of x # ata r' h"
proof -
  let ?r = "r(0x3f6 := 0, 0x1f2 := 1, 0x1f3 := ucast (blockno x AND 0xff), 0x1f4 := ucast (drop_bit 8 (blockno x) AND 0xff),
      0x1f5 := ucast (drop_bit 16 (blockno x) AND 0xff), 0x1f6 := if odd (dev x) then 0xf0 else 0xe0)"
  have s: "sent x = [Outb 0x3f6 0, Outb 0x1f2 1, Outb 0x1f3 (ucast (blockno x AND 0xff)), Outb 0x1f4 (ucast (drop_bit 8 (blockno x) AND 0xff)),
      Outb 0x1f5 (ucast (drop_bit 16 (blockno x) AND 0xff)), Outb 0x1f6 (if odd (dev x) then 0xf0 else 0xe0)] @
     (if b_dirty x then [Outb 0x1f7 IDE_CMD_WRITE, Outsl 0x1f0 (data x)] else [Outb 0x1f7 IDE_CMD_READ])"
    using sector_bytes(2) [OF assms] drive_byte [of "dev x"] by (simp add: sent_def)
  have "lba ?r = blockno x" using sector_bytes(1) [OF assms] by (simp add: lba_def)
  moreover have "drive ?r = odd (dev x)" by (simp add: drive_def)
  ultimately have "ata r (sent x @ h) = request_of x # ata ?r h"
    unfolding s request_of_def by (simp add: IDE_CMD_READ_def IDE_CMD_WRITE_def)
  then show ?thesis by blast
qed

text \<open>Port writes that start nothing.\<close>

definition starts_nothing :: "port_io list \<Rightarrow> bool" where
  "starts_nothing h \<longleftrightarrow> (\<forall>r h'. \<exists>r'. ata r (h @ h') = ata r' h')"

lemma ata_all_sent: "starts_nothing h \<Longrightarrow> \<forall>x \<in> set xs. small x \<Longrightarrow> ata r (h @ concat (map sent xs)) = map request_of xs"
proof -
  have "ata r (concat (map sent xs)) = map request_of xs" if "\<forall>x \<in> set xs. small x" for r
    using that
  proof (induction xs arbitrary: r)
    case (Cons x xs)
    then show ?case using ata_sent [of x r "concat (map sent xs)"] by (auto simp: small_def)
  qed simp
  then show "starts_nothing h \<Longrightarrow> \<forall>x \<in> set xs. small x \<Longrightarrow> ata r (h @ concat (map sent xs)) = map request_of xs"
    by (metis starts_nothing_def)
qed

type_synonym image = "bool \<Rightarrow> uint \<Rightarrow> uchar list"

fun perform :: "request \<Rightarrow> image \<Rightarrow> image" where
  "perform (Rd d n) D = D"
| "perform (Wr d n bs) D = D(d := (D d)(n := bs))"

definition after :: "request list \<Rightarrow> image \<Rightarrow> image" where
  "after rs D = fold perform rs D"

text \<open>A disk: what it returns for a read is what the writes before it left in the block.\<close>

definition is_disk :: "(port_io list \<Rightarrow> uchar list) \<Rightarrow> image \<Rightarrow> bool" where
  "is_disk dv D \<longleftrightarrow> (\<forall>h rs d n. ata (\<lambda>_. 0) h = rs @ [Rd d n] \<longrightarrow> dv h = after rs D d n)"

subsection \<open>Requests\<close>

text \<open>
  The queue \<open>q\<close> of a state: linked through the buffers, each of which asks for a transfer; the commands sent so far
  are those of the completed requests \<open>xs\<close> and that of the head of the queue.
\<close>

definition ide_queue :: "'m ide_scheme \<Rightarrow> buf list \<Rightarrow> nat list \<Rightarrow> bool" where
  "ide_queue s xs q \<longleftrightarrow> links (idequeue (drv s)) (qnext (drv s)) q \<and> distinct q \<and> (\<forall>x \<in> set xs. small x) \<and>
     (\<forall>b \<in> set q. b < length (bufs s) \<and> small (bufs s ! b) \<and> (b_dirty (bufs s ! b) \<or> \<not> b_valid (bufs s ! b))) \<and>
     (\<exists>h. starts_nothing h \<and> ports (drv s) = h @ concat (map sent (xs @ map ((!) (bufs s)) (take 1 q))))"

definition completed :: "(port_io list \<Rightarrow> uchar list) \<Rightarrow> 'm ide_scheme \<Rightarrow> nat \<Rightarrow> buf" where
  "completed dv s b = (bufs s ! b)\<lparr>data := if b_dirty (bufs s ! b) then data (bufs s ! b) else dv (ports (drv s)),
     b_valid := True, b_dirty := False\<rparr>"

definition next_cmd :: "'m ide_scheme \<Rightarrow> nat \<Rightarrow> port_io list" where
  "next_cmd s b = (case qnext (drv s) b of None \<Rightarrow> [] | Some c \<Rightarrow> sent (bufs s ! c))"

definition waits :: "'m ide_scheme \<Rightarrow> nat \<Rightarrow> nat" where
  "waits s b = (if b_dirty (bufs s ! b) then 0 else 1) + (if qnext (drv s) b = None then 0 else 1)"

lemma ideintr_run:
  assumes "cpu_inv s" and "lock_free LkIde s" and "lock_free LkPtable s" and "idequeue (drv s) = Some b"
    and "statuses (drv s) = r # r' # rs" and "ready_status r" and "ready_status r'" and "b < length (bufs s)"
    and "\<And>c. qnext (drv s) b = Some c \<Longrightarrow> c \<noteq> b \<and> small (bufs s ! c)"
  shows "ideintr dv s = Ok () ((upd_drv (\<lambda>d. d\<lparr>idequeue := qnext d b, statuses := drop (waits s b) (statuses d), ports := ports d @ next_cmd s b\<rparr>)
     (upd_buf b (\<lambda>_. completed dv s b) (settle s)))\<lparr>ttable := wake_procs (Some (ChBuf b)) (procs s) (ttable s)\<rparr>)"
proof (cases "qnext (drv s) b")
  case None
  then show ?thesis using assms
    by (cases "b_dirty (bufs s ! b)") (simp_all add: ideintr_def kexec idewait_ok insl_def waits_def next_cmd_def completed_def,
      simp_all add: upd_buf_def upd_drv_def drop_Suc)
next
  case (Some c)
  then show ?thesis using assms
    by (cases "b_dirty (bufs s ! b)") (simp_all add: ideintr_def kexec idewait_ok idestart_ok insl_def waits_def next_cmd_def completed_def,
      simp_all add: upd_buf_def upd_drv_def drop_Suc)
qed

lemma ide_queue_cong: "drv v = drv u \<Longrightarrow> bufs v = bufs u \<Longrightarrow> ide_queue v xs q = ide_queue u xs q"
  by (simp add: ide_queue_def)

lemma ide_queue_ata: "ide_queue s xs q \<Longrightarrow> ata r (ports (drv s)) = map request_of (xs @ map ((!) (bufs s)) (take 1 q))"
  by (cases q) (auto simp: ide_queue_def ata_all_sent simp del: map_append)

lemma ideintr_ok:
  assumes "cpu_inv s" and "all_free s" and q: "ide_queue s xs (b # q)" and "prompt (Suc (Suc n)) (drv s)"
  shows "\<exists>u. ideintr dv s = Ok () u \<and> cpu_inv u \<and> all_free u \<and> procs u = procs s \<and>
     ttable u = wake_procs (Some (ChBuf b)) (procs s) (ttable s) \<and> bufs u = (bufs s)[b := completed dv s b] \<and>
     ide_queue u (xs @ [bufs s ! b]) q \<and> prompt n (drv u)"
proof -
  obtain r r' rs where st: "statuses (drv s) = r # r' # rs" "ready_status r" "ready_status r'" "\<forall>r \<in> set rs. ready_status r" "n \<le> length rs"
    using assms(4) by (cases "statuses (drv s)"; cases "tl (statuses (drv s))") (auto simp: prompt_def)
  have lk: "lock_free lk s" for lk using assms(2) by (simp add: all_free_def)
  have b: "idequeue (drv s) = Some b" "b < length (bufs s)" "b \<notin> set q" "small (bufs s ! b)" "\<forall>x \<in> set xs. small x" "distinct q"
    "links (qnext (drv s) b) (qnext (drv s)) q" using q by (auto simp: ide_queue_def)
  have nx: "c \<noteq> b \<and> small (bufs s ! c)" if "qnext (drv s) b = Some c" for c
    using q that by (cases q) (auto simp: ide_queue_def)
  let ?u = "(upd_drv (\<lambda>d. d\<lparr>idequeue := qnext d b, statuses := drop (waits s b) (statuses d), ports := ports d @ next_cmd s b\<rparr>)
     (upd_buf b (\<lambda>_. completed dv s b) (settle s)))\<lparr>ttable := wake_procs (Some (ChBuf b)) (procs s) (ttable s)\<rparr>"
  have run: "ideintr dv s = Ok () ?u" by (rule ideintr_run [OF assms(1) lk lk b(1) st(1-3) b(2) nx])
  have same: "bufs ?u ! c = bufs s ! c" if "c \<in> set q" for c using that b(3) by (cases "c = b") auto
  have "next_cmd s b = concat (map sent (map ((!) (bufs s)) (take 1 q)))"
    using b(7) by (cases q) (simp_all add: next_cmd_def)
  moreover have m: "map ((!) (bufs ?u)) (take 1 q) = map ((!) (bufs s)) (take 1 q)" using same by (cases q) simp_all
  moreover obtain h where h: "starts_nothing h" "ports (drv s) = h @ concat (map sent (xs @ [bufs s ! b]))" using q by (auto simp: ide_queue_def)
  ultimately have "ports (drv ?u) = h @ concat (map sent ((xs @ [bufs s ! b]) @ map ((!) (bufs ?u)) (take 1 q)))" unfolding m by simp
  moreover have "\<forall>c \<in> set q. c < length (bufs ?u) \<and> small (bufs ?u ! c) \<and> (b_dirty (bufs ?u ! c) \<or> \<not> b_valid (bufs ?u ! c))"
    using q same by (simp add: ide_queue_def)
  ultimately have iq: "ide_queue ?u (xs @ [bufs s ! b]) q" unfolding ide_queue_def using b(4-7) h(1) by auto
  have "waits s b \<le> 2" by (simp add: waits_def)
  then have "prompt n (drv ?u)" using st by (auto simp: prompt_def numeral_2_eq_2 le_Suc_eq)
  with run iq assms(1,2) show ?thesis by (intro exI [of _ ?u]) (simp add: all_free_def)
qed

primrec ideintrs :: "(port_io list \<Rightarrow> uchar list) \<Rightarrow> nat \<Rightarrow> ('m ide_scheme, unit) kop" where
  "ideintrs dv 0 = kret ()"
| "ideintrs dv (Suc n) = kseq (ideintr dv) (ideintrs dv n)"

text \<open>What a transfer leaves in its buffer.\<close>

definition transferred :: "image \<Rightarrow> request list \<Rightarrow> buf \<Rightarrow> uchar list" where
  "transferred D rs x = (if b_dirty x then data x else after rs D (odd (dev x)) (blockno x))"

definition asleep :: "'m ide_scheme \<Rightarrow> nat \<Rightarrow> nat \<Rightarrow> bool" where
  "asleep s b t \<longleftrightarrow> t < length (ttable s) \<and> (\<exists>p \<in> set (procs s). pstate p \<noteq> UNUSED \<and> t \<in> set (row (p_threads p))) \<and>
     tstate (ttable s ! t) = SLEEPING \<and> chan (ttable s ! t) = Some (ChBuf b)"

lemma completed_data:
  assumes "is_disk dv D" and "ide_queue s xs (b # q)"
  shows "data (completed dv s b) = transferred D (map request_of xs) (bufs s ! b)"
  using assms ide_queue_ata [OF assms(2), of "\<lambda>_. 0"] by (auto simp: completed_def transferred_def is_disk_def request_of_def)

lemma queue_served:
  assumes "is_disk dv D" and "cpu_inv s" and "all_free s" and "ide_queue s xs q" and "i < length q" and "prompt (2 * Suc i) (drv s)"
  shows "\<exists>u. ideintrs dv (Suc i) s = Ok () u \<and> ide_queue u (xs @ map ((!) (bufs s)) (take (Suc i) q)) (drop (Suc i) q) \<and>
     b_valid (bufs u ! (q ! i)) \<and> \<not> b_dirty (bufs u ! (q ! i)) \<and>
     data (bufs u ! (q ! i)) = transferred D (map request_of (xs @ map ((!) (bufs s)) (take i q))) (bufs s ! (q ! i)) \<and>
     (\<forall>t. asleep s (q ! i) t \<longrightarrow> tstate (ttable u ! t) = RUNNABLE)"
  using assms(2-)
proof (induction i arbitrary: s xs q)
  case 0
  then obtain b q' where q: "q = b # q'" by (cases q) auto
  from ideintr_ok [of s xs b q' 0 dv] 0 q obtain u where u: "ideintr dv s = Ok () u"
    "ttable u = wake_procs (Some (ChBuf b)) (procs s) (ttable s)" "bufs u = (bufs s)[b := completed dv s b]"
    "ide_queue u (xs @ [bufs s ! b]) q'" by (auto simp: numeral_2_eq_2)
  have "b < length (bufs s)" using 0(3) q by (simp add: ide_queue_def)
  with u completed_data [OF assms(1), of s xs b q'] 0(3) q show ?case
    by (intro exI [of _ u]) (auto simp: kexec completed_def asleep_def nth_wake_procs)
next
  case (Suc i)
  then obtain b q' where q: "q = b # q'" by (cases q) auto
  from ideintr_ok [of s xs b q' "2 * Suc i" dv] Suc.prems q obtain v where v: "ideintr dv s = Ok () v" "cpu_inv v" "all_free v" "procs v = procs s"
    "ttable v = wake_procs (Some (ChBuf b)) (procs s) (ttable s)" "bufs v = (bufs s)[b := completed dv s b]"
    "ide_queue v (xs @ [bufs s ! b]) q'" "prompt (2 * Suc i) (drv v)" by auto
  have i: "i < length q'" "b \<notin> set q'" using Suc.prems(3,4) q by (auto simp: ide_queue_def)
  have other: "bufs v ! c = bufs s ! c" if "c \<in> set q'" for c using that i(2) by (cases "c = b") (auto simp: v(6))
  have same: "map ((!) (bufs v)) (take k q') = map ((!) (bufs s)) (take k q')" "bufs v ! (q' ! i) = bufs s ! (q' ! i)" "q' ! i \<noteq> b" for k
    using i other by (auto dest: in_set_takeD)
  have "asleep s (q' ! i) t \<Longrightarrow> asleep v (q' ! i) t" for t
    using same(3) by (auto simp: asleep_def v(4,5) nth_wake_procs)
  with Suc.IH [OF v(2,3,7) i(1) v(8)] same v(1) q show ?case by (auto simp: kexec)
qed

lemma iderw_queued_ok:
  assumes "ready_in p s" and "slocked (sleeplocks s (SlBuf b))" and "sl_pid (sleeplocks s (SlBuf b)) = pid (procs s ! p)"
    and "cpu_thread (cur s) = Some t" and "t < length (ttable s)" and "ncli (cur s) = 0"
    and q: "ide_queue s xs q" and "b \<notin> set q" and "length q \<le> NBUF" and "b < length (bufs s)" and "small (bufs s ! b)"
    and "b_dirty (bufs s ! b) \<or> \<not> b_valid (bufs s ! b)" and "dev (bufs s ! b) = 0 \<or> havedisk1 (drv s)" and "prompt (Suc n) (drv s)"
  shows "\<exists>u. iderw_queued b s = Swtch u \<and> ide_queue u xs (q @ [b]) \<and> bufs u = bufs s \<and> procs u = procs s \<and> prompt n (drv u) \<and>
     lock_free LkIde u \<and> lock_held LkPtable u \<and> length (ttable u) = length (ttable s) \<and>
     tstate (ttable u ! t) = SLEEPING \<and> chan (ttable u ! t) = Some (ChBuf b)"
proof -
  obtain r rs where st: "statuses (drv s) = r # rs" "ready_status r" "\<forall>r \<in> set rs. ready_status r" "n \<le> length rs"
    using assms(14) by (cases "statuses (drv s)") (auto simp: prompt_def)
  note i = ready_inD [OF assms(1)]
  let ?s = "upd_drv (\<lambda>d. d\<lparr>qnext := (qnext d)(b := None)\<rparr>) (acq LkIde (settle s))"
  have "links (idequeue (drv ?s)) (qnext (drv ?s)) q" using q assms(8) by (simp add: ide_queue_def links_other)
  from ide_append_ok [OF this, of b] assms(8,9) q obtain d where
    d: "ide_append b ?s = Ok () (upd_drv (\<lambda>_. d) ?s)" "links (idequeue d) (qnext d) (q @ [b])"
      "d = (drv ?s)\<lparr>idequeue := idequeue d, qnext := qnext d\<rparr>" "idequeue d = Some b \<longleftrightarrow> q = []" by (auto simp: ide_queue_def)
  have ds: "statuses d = r # rs" "ports d = ports (drv s)" using st(1) by (subst d(3), simp)+
  let ?d = "if q = [] then d\<lparr>statuses := rs, ports := ports d @ sent (bufs s ! b)\<rparr> else d"
  let ?u = "sleeping t (ChBuf b) (rel LkIde (acq LkPtable (upd_drv (\<lambda>_. ?d) (acq LkIde (settle s)))))"
  have "iderw_queued b s = Swtch ?u"
    using assms i d(1,4) ds st(1,2)
    by (cases "q = []") (simp_all add: iderw_queued_def iderw_loop_def kexec holdingsleep_yes idestart_ok, auto)
  moreover have "ide_queue ?u xs (q @ [b])"
    using q d(2) ds assms(8,10-12) by (cases q) (auto simp: ide_queue_def sleeping_def)
  moreover have "prompt n (drv ?u)" using st ds by (simp add: prompt_def sleeping_def)
  ultimately show ?thesis using assms(5) i by (intro exI [of _ ?u]) (simp add: sleeping_def)
qed

lemma ideinit_ok:
  assumes "statuses (drv s) = r # r' # rs" and "ready_status r" and "r' \<noteq> 0" and "idequeue (drv s) = None" and "ports (drv s) = []"
  shows "\<exists>u. ideinit s = Ok () u \<and> havedisk1 (drv u) \<and> ide_queue u [] []"
proof -
  have "starts_nothing [Outb 0x1f6 v, Outb 0x1f6 w]" for v w by (auto simp: starts_nothing_def)
  then show ?thesis using assms
    by (simp add: ideinit_def initlock_def kexec idewait_ok inb_status_def outb_def ide_queue_def eval_nat_numeral)
qed


text \<open>A machine whose process holds buffer 0 and asks for block 5 of a disk that is all sevens.\<close>

definition sevens :: image where
  "sevens = (\<lambda>_ _. replicate BSIZE 7)"

definition seven_disk :: "port_io list \<Rightarrow> uchar list" where
  "seven_disk h = (case rev (ata (\<lambda>_. 0) h) of Rd d n # rs \<Rightarrow> after (rev rs) sevens d n | _ \<Rightarrow> [])"

definition asking :: ide where
  "asking = bcache.extend (upd_sl (SlBuf 0) \<lparr>slocked = True, sl_pid = 1\<rparr> ((parked_b [])\<lparr>bufs := replicate NBUF (buf0\<lparr>blockno := 5\<rparr>)\<rparr>))
     \<lparr>drv = \<lparr>idequeue = None, qnext = (\<lambda>_. None), havedisk1 = True, ports = [], statuses = replicate 3 0x40\<rparr>\<rparr>"

lemma seven_disk_ok: "is_disk seven_disk sevens"
  unfolding is_disk_def
proof (intro allI impI)
  fix h rs d n assume "ata (\<lambda>_. 0) h = rs @ [Rd d n]"
  then have "rev (ata (\<lambda>_. 0) h) = Rd d n # rev rs" by simp
  then show "seven_disk h = after rs sevens d n" by (simp add: seven_disk_def)
qed

lemma asking_fields:
  "bufs asking = replicate NBUF (buf0\<lparr>blockno := 5\<rparr>)" "sleeplocks asking (SlBuf 0) = \<lparr>slocked = True, sl_pid = 1\<rparr>"
  "procs asking = procs parked" "ttable asking = ttable parked" "cpus asking = cpus parked"
  "drv asking = \<lparr>idequeue = None, qnext = (\<lambda>_. None), havedisk1 = True, ports = [], statuses = replicate 3 0x40\<rparr>"
  by (simp_all add: asking_def parked_b_def parked_k_def parked_m_def parked_sl_def upd_sl_def
      ptable.extend_def sltable.extend_def mtable.extend_def kmem.extend_def bcache.extend_def)

lemma asking_ready: "ready_in 0 (run_on 0 asking)" "on_thread 0 0 asking" "calm asking"
proof -
  show o: "on_thread 0 0 asking" and c: "calm asking"
    using ready_calm ready_threads
    by (simp_all add: asking_def upd_sl_def parked_b_def parked_k_def parked_m_def parked_sl_def calm_def on_thread_def runs_def lock_free_def
        ptable.extend_def sltable.extend_def mtable.extend_def kmem.extend_def bcache.extend_def parked_def)
  have "all_free asking" "cpu_proc (cpus asking ! 0) = Some 0"
    using ready_calm
    by (simp_all add: asking_def upd_sl_def parked_b_def parked_k_def parked_m_def parked_sl_def lock_free_def all_free_def
        ptable.extend_def sltable.extend_def mtable.extend_def kmem.extend_def bcache.extend_def parked_def)
  then show "ready_in 0 (run_on 0 asking)" using on_threadD [OF o c] by (simp add: ready_in_def all_free_def)
qed


end
