(* ===== verification/Umalloc.thy ===== *)
theory Umalloc
  imports Mem
begin

text \<open>
  The allocator of user programs (\<open>umalloc.c\<close>): a circular list of free blocks in address order, threaded through the
  headers of the blocks. An address is a byte address, a header takes 8 bytes, and sizes count headers, as the
  pointer arithmetic of the source does. \<open>bs\<close> is the address of the static variable \<open>base\<close>. Whether the kernel grants the memory
  that \<open>sbrk\<close> asks for is up to the parameter \<open>sb\<close>, which sees the end of the memory and the amount.
\<close>

subsection \<open>State and operations\<close>

record header =
  hptr :: nat
  hsize :: nat

record uheap =
  hdr :: "nat \<Rightarrow> header"
  freep :: nat
  brk :: nat

text \<open>The search for the place of a block in the list.\<close>

partial_function (option) free_find :: "(nat \<Rightarrow> header) \<Rightarrow> nat \<Rightarrow> nat \<Rightarrow> nat option" where
  "free_find h bp p =
     (let n = hptr (h p)
      in if p < bp \<and> bp < n then Some p
         else if n \<le> p \<and> (p < bp \<or> bp < n) then Some p
         else free_find h bp n)"

definition join_right :: "nat \<Rightarrow> nat \<Rightarrow> (nat \<Rightarrow> header) \<Rightarrow> nat \<Rightarrow> header" where
  "join_right bp p h =
     (let n = hptr (h p)
      in if bp + 8 * hsize (h bp) = n then h(bp := \<lparr>hptr = hptr (h n), hsize = hsize (h bp) + hsize (h n)\<rparr>)
         else h(bp := (h bp)\<lparr>hptr := n\<rparr>))"

definition join_left :: "nat \<Rightarrow> nat \<Rightarrow> (nat \<Rightarrow> header) \<Rightarrow> nat \<Rightarrow> header" where
  "join_left bp p h =
     (if p + 8 * hsize (h p) = bp then h(p := \<lparr>hptr = hptr (h bp), hsize = hsize (h p) + hsize (h bp)\<rparr>)
      else h(p := (h p)\<lparr>hptr := bp\<rparr>))"

definition u_free :: "nat \<Rightarrow> uheap \<Rightarrow> uheap option" where
  "u_free ap s =
     (let bp = ap - 8
      in Option.bind (free_find (hdr s) bp (freep s)) (\<lambda>p.
         Some (s\<lparr>hdr := join_left bp p (join_right bp p (hdr s)), freep := p\<rparr>)))"

text \<open>The argument of \<open>sbrk\<close> is an \<open>int\<close>; the product wraps around.\<close>

definition sbrk_bytes :: "nat \<Rightarrow> int" where
  "sbrk_bytes nu = sint (of_nat nu * 8 :: uint)"

definition morecore :: "(nat \<Rightarrow> int \<Rightarrow> bool) \<Rightarrow> nat \<Rightarrow> uheap \<Rightarrow> (nat \<times> uheap) option" where
  "morecore sb nu0 s =
     (let nu = (if nu0 < 4096 then 4096 else nu0)
      in if \<not> sb (brk s) (sbrk_bytes nu) then Some (0, s)
         else
           (let hp = brk s;
                s = s\<lparr>brk := nat (int (brk s) + sbrk_bytes nu), hdr := (hdr s)(hp := (hdr s hp)\<lparr>hsize := nu\<rparr>)\<rparr>
            in Option.bind (u_free (hp + 8) s) (\<lambda>s. Some (freep s, s))))"

definition take_block :: "nat \<Rightarrow> nat \<Rightarrow> nat \<Rightarrow> uheap \<Rightarrow> nat \<times> uheap" where
  "take_block nunits prevp p s =
     (let h = hdr s
      in if hsize (h p) = nunits then (p + 8, s\<lparr>hdr := h(prevp := (h prevp)\<lparr>hptr := hptr (h p)\<rparr>), freep := prevp\<rparr>)
         else
           (let h = h(p := (h p)\<lparr>hsize := hsize (h p) - nunits\<rparr>);
                q = p + 8 * hsize (h p)
            in (q + 8, s\<lparr>hdr := h(q := (h q)\<lparr>hsize := nunits\<rparr>), freep := prevp\<rparr>)))"

partial_function (option) malloc_loop :: "(nat \<Rightarrow> int \<Rightarrow> bool) \<Rightarrow> nat \<Rightarrow> nat \<Rightarrow> nat \<Rightarrow> uheap \<Rightarrow> (nat \<times> uheap) option" where
  "malloc_loop sb nunits prevp p s =
     (if nunits \<le> hsize (hdr s p) then Some (take_block nunits prevp p s)
      else if p = freep s then
        Option.bind (morecore sb nunits s) (\<lambda>(p, s).
        if p = 0 then Some (0, s) else malloc_loop sb nunits p (hptr (hdr s p)) s)
      else malloc_loop sb nunits p (hptr (hdr s p)) s)"

definition units_for :: "uint \<Rightarrow> nat" where
  "units_for nbytes = unat ((nbytes + 8 - 1) div 8 + 1)"

definition malloc :: "nat \<Rightarrow> (nat \<Rightarrow> int \<Rightarrow> bool) \<Rightarrow> uint \<Rightarrow> uheap \<Rightarrow> (nat \<times> uheap) option" where
  "malloc bs sb nbytes s =
     (let s = (if freep s = 0 then s\<lparr>hdr := (hdr s)(bs := \<lparr>hptr = bs, hsize = 0\<rparr>), freep := bs\<rparr> else s);
          prevp = freep s
      in malloc_loop sb (units_for nbytes) prevp (hptr (hdr s prevp)) s)"

subsection \<open>The list of free blocks\<close>

text \<open>\<open>chain h p L e\<close>: the links lead from \<open>p\<close> through the blocks of \<open>L\<close> to \<open>e\<close>.\<close>

fun chain :: "(nat \<Rightarrow> header) \<Rightarrow> nat \<Rightarrow> (nat \<times> nat) list \<Rightarrow> nat \<Rightarrow> bool" where
  "chain h p [] e \<longleftrightarrow> hptr (h p) = e"
| "chain h p ((a, n) # L) e \<longleftrightarrow> hptr (h p) = a \<and> hsize (h a) = n \<and> chain h a L e"

text \<open>Blocks in address order between two bounds.\<close>

fun ordered :: "nat \<Rightarrow> (nat \<times> nat) list \<Rightarrow> nat \<Rightarrow> bool" where
  "ordered lo [] hi \<longleftrightarrow> lo \<le> hi"
| "ordered lo ((a, n) # L) hi \<longleftrightarrow> lo \<le> a \<and> 0 < n \<and> ordered (a + 8 * n) L hi"

lemma chain_append: "chain h p (L @ (a, n) # M) e \<longleftrightarrow> chain h p L a \<and> hsize (h a) = n \<and> chain h a M e"
  by (induction h p L a rule: chain.induct) auto

lemma chain_end: "chain h p L e \<Longrightarrow> hptr (h (last (p # map fst L))) = e"
  by (induction h p L e rule: chain.induct) auto

lemma chain_cong:
  "(\<And>x. x \<in> insert p (fst ` set L) \<Longrightarrow> h' x = h x) \<Longrightarrow> chain h' p L e \<longleftrightarrow> chain h p L e"
  by (induction h p L e rule: chain.induct) auto

lemma ordered_append: "ordered lo (L @ M) hi \<longleftrightarrow> (\<exists>m. ordered lo L m \<and> ordered m M hi)"
proof (induction lo L hi rule: ordered.induct)
  case (1 lo hi)
  then show ?case by (cases M) (auto intro: exI [of _ lo])
qed auto

lemma ordered_less: "ordered lo L hi \<Longrightarrow> lo \<le> hi"
  by (induction lo L hi rule: ordered.induct) auto

lemma ordered_bounds: "ordered lo L hi \<Longrightarrow> (a, n) \<in> set L \<Longrightarrow> lo \<le> a \<and> 0 < n \<and> a + 8 * n \<le> hi"
proof (induction lo L hi rule: ordered.induct)
  case (2 lo b m L hi)
  then show ?case using ordered_less [of "b + 8 * m" L hi] by auto
qed simp

lemma ordered_widen: "ordered lo L hi \<Longrightarrow> lo' \<le> lo \<Longrightarrow> hi \<le> hi' \<Longrightarrow> ordered lo' L hi'"
  by (induction lo L hi arbitrary: lo' rule: ordered.induct) auto

lemma ordered_below: "ordered lo L hi \<Longrightarrow> lo \<le> m \<Longrightarrow> \<forall>x \<in> set L. fst x + 8 * snd x \<le> m \<Longrightarrow> ordered lo L m"
  by (induction lo L hi rule: ordered.induct) auto

lemma ordered_above: "ordered lo L hi \<Longrightarrow> m \<le> hi \<Longrightarrow> \<forall>x \<in> set L. m \<le> fst x \<Longrightarrow> ordered m L hi"
  by (cases L) auto

lemma split_at:
  "ordered lo L hi \<Longrightarrow> b \<notin> fst ` set L \<Longrightarrow> L = filter (\<lambda>(a, n). a < b) L @ filter (\<lambda>(a, n). b < a) L"
proof (induction lo L hi rule: ordered.induct)
  case (2 lo a n L hi)
  show ?case
  proof (cases "a < b")
    case True
    with 2 show ?thesis by auto
  next
    case False
    then have "b < a" using 2(3) by auto
    moreover have "\<And>c m. (c, m) \<in> set L \<Longrightarrow> a < c" using ordered_bounds [of "a + 8 * n" L hi] 2(2) by fastforce
    ultimately have "filter (\<lambda>(a, n). a < b) L = []" "filter (\<lambda>(a, n). b < a) L = L"
      by (auto simp: filter_empty_conv intro!: filter_True) fastforce+
    with \<open>b < a\<close> show ?thesis by simp
  qed
qed simp

subsection \<open>Finding the place of a block\<close>

lemma find_up:
  assumes "chain h p L e" and "ordered lo L hi" and "p < lo" and "p < bp" and "\<forall>x \<in> set L. fst x < bp"
    and "bp < e \<or> e \<le> p"
  shows "free_find h bp p = Some (last (p # map fst L))"
  using assms
proof (induction L arbitrary: p lo)
  case Nil
  then show ?case by (subst free_find.simps) (auto simp: Let_def)
next
  case (Cons x L)
  obtain a n where x: "x = (a, n)" by (cases x)
  with Cons.prems have a: "hptr (h p) = a" "chain h a L e" "ordered (a + 8 * n) L hi" "a < a + 8 * n" "a < bp" "p < a" "bp < e \<or> e \<le> a" by auto
  have "free_find h bp p = free_find h bp a" using a by (subst free_find.simps) (auto simp: Let_def)
  with Cons.IH [OF a(2-5) _ a(7)] Cons.prems(5) x show ?case by simp
qed

lemma find_down:
  assumes "chain h p L bs" and "ordered lo L hi" and "p < lo" and "bp < p" and "bs < bp"
  shows "free_find h bp p = free_find h bp bs"
  using assms
proof (induction L arbitrary: p lo)
  case Nil
  then show ?case by (subst free_find.simps) (auto simp: Let_def)
next
  case (Cons x L)
  obtain a n where x: "x = (a, n)" by (cases x)
  with Cons.prems have a: "hptr (h p) = a" "chain h a L bs" "ordered (a + 8 * n) L hi" "a < a + 8 * n" "p < a" by auto
  have "free_find h bp p = free_find h bp a" using a Cons.prems(4) by (subst free_find.simps) (auto simp: Let_def)
  with Cons.IH [OF a(2-4)] a(5) Cons.prems(4,5) show ?case by simp
qed

lemma free_find_ok:
  assumes c: "chain h bs (L @ M) bs" and o: "ordered lo (L @ M) hi" and "bs < lo" and "bs < bp"
    and l: "\<forall>x \<in> set L. fst x < bp" and m: "\<forall>x \<in> set M. bp < fst x"
    and "f \<in> insert bs (fst ` set (L @ M))"
  shows "free_find h bp f = Some (last (bs # map fst L))"
proof -
  obtain k where k: "ordered lo L k" "ordered k M hi" using o by (auto simp: ordered_append)
  obtain e where e: "chain h bs L e" "bp < e \<or> e = bs"
  proof (cases M)
    case Nil
    with c that show ?thesis by simp
  next
    case (Cons x M')
    with c m that show ?thesis by (cases x) (auto simp: chain_append)
  qed
  have base: "free_find h bp bs = Some (last (bs # map fst L))"
    using find_up [OF e(1) k(1) assms(3,4) l] e(2) by auto
  from assms(7) consider "f = bs" | n where "(f, n) \<in> set L" | n where "(f, n) \<in> set M" by auto
  then show ?thesis
  proof cases
    case 1
    then show ?thesis using base by simp
  next
    case (2 n)
    then obtain A B where L: "L = A @ (f, n) # B" by (auto dest: split_list)
    have f: "chain h f B e" "ordered (f + 8 * n) B k" "f < f + 8 * n" "f < bp"
      using e(1) k(1) l by (auto simp: L chain_append ordered_append)
    have "bs < f" using ordered_bounds [OF k(1) 2] assms(3) by simp
    then have "bp < e \<or> e \<le> f" using e(2) by auto
    from find_up [OF f _ this] l show ?thesis by (simp add: L)
  next
    case (3 n)
    then obtain A B where M: "M = A @ (f, n) # B" by (auto dest: split_list)
    have "chain h bs ((L @ A) @ (f, n) # B) bs" using c by (simp add: M)
    then have f: "chain h f B bs" by (simp only: chain_append)
    have "ordered (f + 8 * n) B hi" "f < f + 8 * n" using k(2) by (auto simp: M ordered_append)
    from find_down [OF f this _ assms(4)] bspec [OF m 3] base show ?thesis by simp
  qed
qed

subsection \<open>Putting a block into the list\<close>

text \<open>The bytes of blocks.\<close>

definition span :: "nat \<times> nat \<Rightarrow> nat set" where
  "span b = {fst b ..< fst b + 8 * snd b}"

definition spans :: "(nat \<times> nat) list \<Rightarrow> nat set" where
  "spans L = (\<Union>b \<in> set L. span b)"

lemma spans_simps [simp]: "spans [] = {}" "spans (b # L) = span b \<union> spans L" "spans (L @ M) = spans L \<union> spans M"
  by (auto simp: spans_def)

lemma span_join: "span (a, n) \<union> span (a + 8 * n, m) = span (a, n + m)"
  by (auto simp: span_def)

lemma chain_upd: "a \<notin> insert p (fst ` set L) \<Longrightarrow> chain (h(a := v)) p L e = chain h p L e"
  by (rule chain_cong) auto

lemma chain_start:
  "chain h c L e \<Longrightarrow> hptr (h' p) = hptr (h c) \<Longrightarrow> (\<And>x. x \<in> fst ` set L \<Longrightarrow> h' x = h x) \<Longrightarrow> chain h' p L e"
proof (cases L)
  case (Cons x M)
  assume a: "chain h c L e" "hptr (h' p) = hptr (h c)" "\<And>x. x \<in> fst ` set L \<Longrightarrow> h' x = h x"
  obtain a n where "x = (a, n)" by (cases x)
  with a Cons show ?thesis using chain_cong [of a M h' h e] by auto
qed auto

lemma join_right_ok:
  assumes "chain h p M bs" and "hsize (h bp) = n" and "0 < n" and "ordered (bp + 8 * n) M hi" and "bs < bp" and "p \<noteq> bp"
  shows "\<exists>k N. chain (join_right bp p h) bp N bs \<and> hsize (join_right bp p h bp) = k \<and> 0 < k \<and> ordered (bp + 8 * k) N hi \<and>
     span (bp, k) \<union> spans N = span (bp, n) \<union> spans M \<and> n \<le> k \<and> fst ` set N \<subseteq> fst ` set M"
proof (cases M)
  case Nil
  then have "join_right bp p h = h(bp := (h bp)\<lparr>hptr := bs\<rparr>)" using assms by (simp add: join_right_def Let_def)
  then show ?thesis using assms Nil by (intro exI [of _ n] exI [of _ "[]"]) simp
next
  case (Cons x N)
  obtain c t where x: "x = (c, t)" by (cases x)
  have c: "hptr (h p) = c" "hsize (h c) = t" "chain h c N bs" "0 < t" "bp + 8 * n \<le> c" "ordered (c + 8 * t) N hi"
    using assms(1,4) Cons x by auto
  have far: "y \<noteq> bp" if "y \<in> fst ` set M" for y
    using that ordered_bounds [OF assms(4)] assms(3) by fastforce
  show ?thesis
  proof (cases "bp + 8 * n = c")
    case True
    let ?h = "h(bp := \<lparr>hptr = hptr (h c), hsize = n + t\<rparr>)"
    have j: "join_right bp p h = ?h" using True c assms(2) by (simp add: join_right_def)
    have "chain ?h bp N bs" by (rule chain_start [OF c(3)]) (use far Cons in auto)
    moreover have "bp + 8 * (n + t) = c + 8 * t" using True by simp
    then have "ordered (bp + 8 * (n + t)) N hi" using c(6) by (simp only:)
    ultimately show ?thesis unfolding j using c True span_join [of bp n t] Cons x assms(3)
      by (intro exI [of _ "n + t"] exI [of _ N]) auto
  next
    case False
    let ?h = "h(bp := (h bp)\<lparr>hptr := c\<rparr>)"
    have j: "join_right bp p h = ?h" using False c assms(2) by (simp add: join_right_def Let_def)
    have "chain ?h bp M bs" by (rule chain_start [OF assms(1)]) (use far c in auto)
    then show ?thesis unfolding j using assms by (intro exI [of _ n] exI [of _ M]) auto
  qed
qed

lemma join_left_ok:
  assumes "chain h bs L e" and "chain h bp N bs" and "hsize (h bp) = k" and "0 < k" and "ordered lo L bp" and "ordered (bp + 8 * k) N hi"
    and "bs < lo" and "hsize (h bs) = 0" and p: "p = last (bs # map fst L)"
  shows "\<exists>K. chain (join_left bp p h) bs K bs \<and> ordered lo K hi \<and> spans K = spans L \<union> span (bp, k) \<union> spans N \<and>
     p \<in> insert bs (fst ` set K) \<and> hsize (join_left bp p h bs) = 0 \<and> fst ` set K \<subseteq> insert bp (fst ` set (L @ N)) \<and> (\<exists>x \<in> set K. k \<le> snd x)"
proof -
  have lo: "lo \<le> bp" using ordered_less [OF assms(5)] .
  have far: "bp \<noteq> y \<and> bs \<noteq> y" if "y \<in> fst ` set N" for y
    using that ordered_bounds [OF assms(6)] assms(4,7) lo by fastforce
  have farL: "bp \<noteq> y \<and> bs \<noteq> y \<and> y \<notin> fst ` set N" if "y \<in> fst ` set L" for y
    using that ordered_bounds [OF assms(5)] ordered_bounds [OF assms(6)] assms(7) by fastforce
  show ?thesis
  proof (cases L rule: rev_cases)
    case Nil
    let ?h = "h(bs := (h bs)\<lparr>hptr := bp\<rparr>)"
    have j: "join_left bp p h = ?h" using Nil p assms(7,8) lo by (simp add: join_left_def)
    have "chain ?h bp N bs" using far assms(2,7) lo by (subst chain_upd) auto
    then show ?thesis unfolding j using assms Nil lo
      by (intro exI [of _ "(bp, k) # N"]) auto
  next
    case (snoc K x)
    obtain a u where x: "x = (a, u)" by (cases x)
    have pa: "p = a" using p snoc x by simp
    have a: "chain h bs K a" "hsize (h a) = u" using assms(1) snoc x by (simp_all add: chain_append)
    obtain m where o: "ordered lo K m" "m \<le> a" "0 < u" "a + 8 * u \<le> bp" using assms(5) snoc x by (auto simp: ordered_append)
    have aK: "a \<notin> insert bs (fst ` set K)" "a \<notin> fst ` set N" "a \<noteq> bp"
      using farL [of a] snoc x ordered_bounds [OF o(1)] o(2) by (auto, fastforce)
    show ?thesis
    proof (cases "a + 8 * u = bp")
      case True
      let ?h = "h(a := \<lparr>hptr = hptr (h bp), hsize = u + k\<rparr>)"
      have j: "join_left bp p h = ?h" using True pa a(2) assms(3) by (simp add: join_left_def)
      have "chain ?h bs K a" using a(1) aK by (subst chain_upd) auto
      moreover have "chain ?h a N bs" by (rule chain_start [OF assms(2)]) (use aK in auto)
      ultimately have "chain ?h bs (K @ (a, u + k) # N) bs" by (simp add: chain_append)
      moreover have "ordered lo (K @ (a, u + k) # N) hi" using o assms(6) True by (auto simp: ordered_append algebra_simps)
      ultimately show ?thesis unfolding j using snoc x pa aK assms(8) span_join [of a u k] True
        by (intro exI [of _ "K @ (a, u + k) # N"]) auto
    next
      case False
      let ?h = "h(a := (h a)\<lparr>hptr := bp\<rparr>)"
      have j: "join_left bp p h = ?h" using False pa a(2) by (simp add: join_left_def)
      have "chain ?h bs K a" using a(1) aK by (subst chain_upd) auto
      moreover have "chain ?h bp N bs" using assms(2) aK by (subst chain_upd) auto
      ultimately have "chain ?h bs (K @ (a, u) # (bp, k) # N) bs" using a(2) assms(3) aK by (simp add: chain_append)
      moreover have "ordered lo (K @ (a, u) # (bp, k) # N) hi" using o assms(4,6) by (auto simp: ordered_append)
      ultimately show ?thesis unfolding j using snoc x pa aK assms(8)
        by (intro exI [of _ "K @ (a, u) # (bp, k) # N"]) auto
    qed
  qed
qed

lemma chain_split: "chain h p (L @ M) e \<Longrightarrow> chain h p L (hptr (h (last (p # map fst L)))) \<and> chain h (last (p # map fst L)) M e"
  by (induction L arbitrary: p) auto

lemma join_right_upd: "\<exists>v. join_right bp p h = h(bp := v)"
  by (auto simp: join_right_def Let_def)

lemma join_left_upd: "\<exists>v. join_left bp p h = h(p := v)"
  by (auto simp: join_left_def)

lemma fst_in_spans: "ordered lo L hi \<Longrightarrow> a \<in> fst ` set L \<Longrightarrow> a \<in> spans L"
  using ordered_bounds [of lo L hi] by (force simp: spans_def span_def)

lemma spans_bounds: "ordered lo L hi \<Longrightarrow> spans L \<subseteq> {lo ..< hi}"
  using ordered_bounds [of lo L hi] by (force simp: spans_def span_def)

lemma apart:
  assumes "span (a, n) \<inter> span (b, m) = {}" and "0 < n" and "0 < m"
  shows "a < b \<Longrightarrow> a + 8 * n \<le> b"
  using assms by (auto simp: span_def disjoint_iff)

lemma u_free_core:
  assumes c: "chain (hdr s) bs L bs" and "hsize (hdr s bs) = 0" and o: "ordered lo L hi" and "freep s \<in> insert bs (fst ` set L)"
    and "bs < lo" and "lo \<le> bp" and "0 < n" and "hsize (hdr s bp) = n" and d: "span (bp, n) \<inter> spans L = {}" and "bp + 8 * n \<le> hi"
  shows "\<exists>s' K. u_free (bp + 8) s = Some s' \<and> brk s' = brk s \<and> chain (hdr s') bs K bs \<and> hsize (hdr s' bs) = 0 \<and> ordered lo K hi \<and>
     freep s' \<in> insert bs (fst ` set K) \<and> spans K = spans L \<union> span (bp, n) \<and> (\<exists>x \<in> set K. n \<le> snd x) \<and>
     (\<forall>x. x \<notin> spans L \<and> x \<notin> span (bp, n) \<and> x \<noteq> bs \<longrightarrow> hdr s' x = hdr s x)"
proof -
  let ?h = "hdr s"
  have bp: "bp \<notin> fst ` set L" using fst_in_spans [OF o] d assms(7) by (fastforce simp: span_def)
  define M where "M = filter (\<lambda>(a, n). a < bp) L"
  define N where "N = filter (\<lambda>(a, n). bp < a) L"
  have L: "L = M @ N" unfolding M_def N_def by (rule split_at [OF o bp])
  have m: "\<forall>x \<in> set M. fst x < bp" and n: "\<forall>x \<in> set N. bp < fst x" by (auto simp: M_def N_def)
  have pos: "0 < snd x" "span (bp, n) \<inter> span x = {}" if "x \<in> set L" for x
    using ordered_bounds [OF o, of "fst x" "snd x"] that d by (auto simp: spans_def)
  obtain k where "ordered lo M k" "ordered k N hi" using o L by (auto simp: ordered_append)
  have oM: "ordered lo M bp"
    by (rule ordered_below [OF \<open>ordered lo M k\<close> assms(6)]) (use apart [of _ _ bp n] pos m assms(7) L in \<open>fastforce simp: Int_commute\<close>)
  have oN: "ordered (bp + 8 * n) N hi"
    by (rule ordered_above [OF \<open>ordered k N hi\<close> assms(10)]) (use apart [of bp n] pos n assms(7) L in fastforce)
  let ?p = "last (bs # map fst M)"
  have p: "?p \<in> insert bs (fst ` set M)" by (cases M rule: rev_cases) auto
  have ff: "free_find ?h bp (freep s) = Some ?p"
    using free_find_ok [of ?h bs M N lo hi bp "freep s"] c o assms(4,5,6) m n L by auto
  obtain e where e: "chain ?h bs M e" and eN: "chain ?h ?p N bs" using chain_split [of ?h bs M N bs] c L by blast
  have nb: "bp \<notin> insert bs (fst ` set M)" using bp L assms(5,6) by auto
  with p have pb: "?p \<noteq> bp" by metis
  obtain j K' where r: "chain (join_right bp ?p ?h) bp K' bs" "hsize (join_right bp ?p ?h bp) = j" "0 < j" "ordered (bp + 8 * j) K' hi"
    "span (bp, j) \<union> spans K' = span (bp, n) \<union> spans N" "n \<le> j"
    using join_right_ok [OF eN assms(8,7) oN _ pb] assms(5,6) by auto
  obtain v where v: "join_right bp ?p ?h = ?h(bp := v)" using join_right_upd by blast
  have "chain (?h(bp := v)) bs M e" by (subst chain_upd [OF nb]) (rule e)
  then have jr: "chain (join_right bp ?p ?h) bs M e" "hsize (join_right bp ?p ?h bs) = 0"
    using nb assms(2) unfolding v by simp_all
  from join_left_ok [OF jr(1) r(1-3) oM r(4) assms(5) jr(2) refl] obtain K where
    K: "chain (join_left bp ?p (join_right bp ?p ?h)) bs K bs" "ordered lo K hi" "spans K = spans M \<union> span (bp, j) \<union> spans K'"
      "?p \<in> insert bs (fst ` set K)" "hsize (join_left bp ?p (join_right bp ?p ?h) bs) = 0" "\<exists>x \<in> set K. j \<le> snd x" by blast
  let ?s = "s\<lparr>hdr := join_left bp ?p (join_right bp ?p ?h), freep := ?p\<rparr>"
  have "u_free (bp + 8) s = Some ?s" using ff by (simp add: u_free_def)
  moreover have "spans K = spans L \<union> span (bp, n)" using K(3) r(5) L by auto
  moreover have "\<exists>x \<in> set K. n \<le> snd x" using K(6) le_trans [OF r(6)] by blast
  moreover have "hdr ?s x = ?h x" if "x \<notin> spans L" "x \<notin> span (bp, n)" "x \<noteq> bs" for x
  proof -
    have "insert bs (fst ` set M) \<subseteq> insert bs (spans L)" using fst_in_spans [OF o] L by auto
    from subsetD [OF this p] that have "x \<noteq> ?p" by (metis insertE)
    moreover have "x \<noteq> bp" using that(2) assms(7) by (auto simp: span_def)
    ultimately show ?thesis using v join_left_upd [of bp ?p "join_right bp ?p ?h"] by auto
  qed
  ultimately show ?thesis using K by (intro exI [of _ ?s] exI [of _ K]) auto
qed

subsection \<open>The invariant of the heap\<close>

text \<open>
  The free list holds the blocks \<open>L\<close>, the blocks \<open>A\<close> are handed out, each with its size in its header, and
  together they are the memory from \<open>lo\<close>, where the heap began, to its end, each byte in one block.
\<close>

definition live_ok :: "nat \<Rightarrow> uheap \<Rightarrow> (nat \<times> nat) list \<Rightarrow> (nat \<times> nat) set \<Rightarrow> bool" where
  "live_ok lo s L A \<longleftrightarrow> (\<forall>x \<in> A. lo \<le> fst x \<and> 0 < snd x \<and> hsize (hdr s (fst x)) = snd x \<and> span x \<inter> spans L = {}) \<and>
     (\<forall>x \<in> A. \<forall>y \<in> A. x \<noteq> y \<longrightarrow> span x \<inter> span y = {}) \<and> spans L \<union> (\<Union>x \<in> A. span x) = {lo ..< brk s}"

definition heap_ok :: "nat \<Rightarrow> nat \<Rightarrow> uheap \<Rightarrow> (nat \<times> nat) list \<Rightarrow> (nat \<times> nat) set \<Rightarrow> bool" where
  "heap_ok bs lo s L A \<longleftrightarrow> 0 < bs \<and> bs < lo \<and> chain (hdr s) bs L bs \<and> hsize (hdr s bs) = 0 \<and> ordered lo L (brk s) \<and>
     freep s \<in> insert bs (fst ` set L) \<and> live_ok lo s L A"

lemma live_ok_change:
  assumes "live_ok lo s L B" and "A \<subseteq> B" and "\<And>x. x \<in> A \<Longrightarrow> hdr s' (fst x) = hdr s (fst x)" and "\<And>x. x \<in> A \<Longrightarrow> span x \<inter> spans K = {}"
    and "spans K \<union> (\<Union>x \<in> A. span x) = {lo ..< brk s'}"
  shows "live_ok lo s' K A"
  unfolding live_ok_def
proof (intro conjI ballI impI)
  fix x y assume "x \<in> A"
  with assms(1,2) have "lo \<le> fst x" "0 < snd x" "hsize (hdr s (fst x)) = snd x" by (auto simp: live_ok_def)
  with assms(3) [OF \<open>x \<in> A\<close>] show "lo \<le> fst x" "0 < snd x" "hsize (hdr s' (fst x)) = snd x" by simp_all
  show "span x \<inter> spans K = {}" by (rule assms(4) [OF \<open>x \<in> A\<close>])
  show "span x \<inter> span y = {}" if "y \<in> A" "x \<noteq> y" using assms(1,2) that \<open>x \<in> A\<close> unfolding live_ok_def by blast
qed (rule assms(5))

lemma live_fst: "live_ok lo s L A \<Longrightarrow> x \<in> A \<Longrightarrow> fst x \<in> span x"
  by (auto simp: live_ok_def span_def)

lemma u_free_ok:
  assumes h: "heap_ok bs lo s L (insert (bp, n) A)" and "(bp, n) \<notin> A"
  shows "\<exists>s' K. u_free (bp + 8) s = Some s' \<and> heap_ok bs lo s' K A"
proof -
  have l: "live_ok lo s L (insert (bp, n) A)" and lo: "lo \<le> bp" "0 < n" "hsize (hdr s bp) = n" "span (bp, n) \<inter> spans L = {}"
    using h by (auto simp: heap_ok_def live_ok_def)
  have "span (bp, n) \<subseteq> {lo ..< brk s}" using l by (auto simp: live_ok_def)
  then have "bp + 8 * n \<le> brk s" using lo(2) by (auto simp: span_def)
  have p: "chain (hdr s) bs L bs" "hsize (hdr s bs) = 0" "ordered lo L (brk s)" "freep s \<in> insert bs (fst ` set L)" "bs < lo"
    using h by (simp_all add: heap_ok_def)
  from u_free_core [OF p lo \<open>bp + 8 * n \<le> brk s\<close>] obtain s' K where
    s': "u_free (bp + 8) s = Some s'" "brk s' = brk s" "chain (hdr s') bs K bs" "hsize (hdr s' bs) = 0" "ordered lo K (brk s)"
      "freep s' \<in> insert bs (fst ` set K)" "spans K = spans L \<union> span (bp, n)"
      "\<forall>x. x \<notin> spans L \<and> x \<notin> span (bp, n) \<and> x \<noteq> bs \<longrightarrow> hdr s' x = hdr s x" by blast
  have dj: "span x \<inter> span (bp, n) = {}" "span x \<inter> spans L = {}" "fst x \<noteq> bs" if "x \<in> A" for x
    using l that assms(2) h by (auto simp: live_ok_def heap_ok_def)
  have "hdr s' (fst x) = hdr s (fst x)" if "x \<in> A" for x
    using s'(8) dj [OF that] live_fst [OF l, of x] that by blast
  moreover have "span x \<inter> spans K = {}" if "x \<in> A" for x using dj [OF that] unfolding s'(7) by blast
  moreover have "spans K \<union> (\<Union>x \<in> A. span x) = {lo ..< brk s'}" using l unfolding s'(2,7) live_ok_def by auto
  ultimately have "live_ok lo s' K A" using live_ok_change [OF l subset_insertI] by blast
  then show ?thesis using s' h by (auto simp: heap_ok_def)
qed

lemma sbrk_bytes_small: "nu < 2 ^ 28 \<Longrightarrow> sbrk_bytes nu = int (8 * nu)"
proof -
  assume a: "nu < 2 ^ 28"
  have "(of_nat nu * 8 :: uint) = word_of_int (int (8 * nu))" by simp
  moreover have "sint (word_of_int (int (8 * nu)) :: uint) = int (8 * nu)"
    using a by (subst sint_sbintrunc') (simp add: signed_take_bit_int_eq_self_iff)
  ultimately show "sbrk_bytes nu = int (8 * nu)" by (simp only: sbrk_bytes_def)
qed

definition core_units :: "nat \<Rightarrow> nat" where
  "core_units nu = (if nu < 4096 then 4096 else nu)"

lemma morecore_ok:
  assumes h: "heap_ok bs lo s L A" and "nu < 2 ^ 28" and "sb (brk s) (sbrk_bytes (core_units nu))"
  shows "\<exists>s' K. morecore sb nu s = Some (freep s', s') \<and> heap_ok bs lo s' K A \<and> (\<exists>x \<in> set K. nu \<le> snd x) \<and> freep s' \<noteq> 0"
proof -
  let ?n = "core_units nu" and ?hp = "brk s"
  have n: "nu \<le> ?n" "0 < ?n" "?n < 2 ^ 28" using assms(2) by (auto simp: core_units_def)
  let ?s = "s\<lparr>brk := ?hp + 8 * ?n, hdr := (hdr s)(?hp := (hdr s ?hp)\<lparr>hsize := ?n\<rparr>)\<rparr>"
  have o: "ordered lo L ?hp" and l: "live_ok lo s L A" and b: "0 < bs" "bs < lo" using h by (auto simp: heap_ok_def)
  have lo: "lo \<le> ?hp" using ordered_less [OF o] .
  have out: "?hp \<notin> insert bs (fst ` set L)" using fst_in_spans [OF o] spans_bounds [OF o] lo b by fastforce
  have "chain (hdr ?s) bs L bs" "hsize (hdr ?s bs) = 0" using h out by (auto simp: heap_ok_def chain_upd)
  moreover have "ordered lo L (?hp + 8 * ?n)" by (rule ordered_widen [OF o]) simp_all
  moreover have "span (?hp, ?n) \<inter> spans L = {}" using spans_bounds [OF o] by (auto simp: span_def)
  ultimately obtain s' K where
    s': "u_free (?hp + 8) ?s = Some s'" "brk s' = ?hp + 8 * ?n" "chain (hdr s') bs K bs" "hsize (hdr s' bs) = 0" "ordered lo K (?hp + 8 * ?n)"
      "freep s' \<in> insert bs (fst ` set K)" "spans K = spans L \<union> span (?hp, ?n)" "\<exists>x \<in> set K. ?n \<le> snd x"
      "\<forall>x. x \<notin> spans L \<and> x \<notin> span (?hp, ?n) \<and> x \<noteq> bs \<longrightarrow> hdr s' x = hdr ?s x"
    using u_free_core [of ?s bs L lo "?hp + 8 * ?n" ?hp ?n] h b lo n(2) by (auto simp: heap_ok_def)
  have sp: "span x \<subseteq> {lo ..< ?hp}" if "x \<in> A" for x using l that by (auto simp: live_ok_def)
  have "hdr s' (fst x) = hdr s (fst x)" if "x \<in> A" for x
  proof -
    have "fst x \<in> span x" "fst x \<notin> spans L" using live_fst [OF l that] l that by (auto simp: live_ok_def)
    then show ?thesis using s'(9) sp [OF that] b by (auto simp: span_def)
  qed
  moreover have "span x \<inter> spans K = {}" if "x \<in> A" for x
  proof -
    have "span x \<inter> span (?hp, ?n) = {}" using sp [OF that] by (auto simp: span_def)
    moreover have "span x \<inter> spans L = {}" using l that by (auto simp: live_ok_def)
    ultimately show ?thesis unfolding s'(7) by blast
  qed
  moreover have "spans K \<union> (\<Union>x \<in> A. span x) = {lo ..< brk s'}"
  proof -
    have "spans L \<union> (\<Union>x \<in> A. span x) = {lo ..< ?hp}" using l by (simp add: live_ok_def)
    then have "spans K \<union> (\<Union>x \<in> A. span x) = {lo ..< ?hp} \<union> span (?hp, ?n)" unfolding s'(7) by auto
    with lo s'(2) show ?thesis by (auto simp: span_def)
  qed
  ultimately have "live_ok lo s' K A" using live_ok_change [OF l subset_refl] by blast
  then have "heap_ok bs lo s' K A" using s' b by (auto simp: heap_ok_def)
  moreover have "freep s' \<noteq> 0" using s'(6) ordered_bounds [OF s'(5)] b by fastforce
  moreover have "morecore sb nu s = Some (freep s', s')"
    using assms(3) s'(1) sbrk_bytes_small [OF n(3)] by (simp add: morecore_def core_units_def [symmetric] nat_add_distrib nat_mult_distrib Let_def)
  moreover have "\<exists>x \<in> set K. nu \<le> snd x" using s'(8) le_trans [OF n(1)] by blast
  ultimately show ?thesis by blast
qed

subsection \<open>Taking a block\<close>

lemma ordered_distinct: "ordered lo L hi \<Longrightarrow> b < lo \<Longrightarrow> distinct (b # map fst L)"
proof (induction L arbitrary: lo b)
  case (Cons x L)
  obtain a n where x: "x = (a, n)" by (cases x)
  with Cons.prems have a: "b < a" "a < a + 8 * n" "ordered (a + 8 * n) L hi" by auto
  note d = Cons.IH [OF a(3,2)]
  have "c \<noteq> b" if "c \<in> fst ` set L" for c using that ordered_bounds [OF a(3)] a(1) by fastforce
  with a d x show ?case by auto
qed simp

lemma chain_glue: "chain h p L c \<Longrightarrow> chain h (last (p # map fst L)) M e \<Longrightarrow> chain h p (L @ M) e"
proof (induction L arbitrary: p)
  case (Cons x L)
  then show ?case by (cases x) simp
qed simp

lemma chain_relink:
  assumes "chain h b M c" and "distinct (b # map fst M)" and "q = last (b # map fst M)"
  shows "chain (h(q := (h q)\<lparr>hptr := e\<rparr>)) b M e"
proof (cases M rule: rev_cases)
  case (snoc K x)
  obtain a u where x: "x = (a, u)" by (cases x)
  have "q \<notin> insert b (fst ` set K)" using assms(2,3) snoc by auto
  with assms(1,3) snoc x show ?thesis by (simp add: chain_append chain_upd)
qed (use assms in simp)

lemma live_ok_insert:
  assumes "live_ok lo s ((a, n) # K) A" and "hsize (hdr s a) = n" and "0 < n" and "lo \<le> a" and "span (a, n) \<inter> spans K = {}"
  shows "live_ok lo s K (insert (a, n) A) \<and> (a, n) \<notin> A"
proof -
  have dj: "span x \<inter> span (a, n) = {}" "span x \<inter> spans K = {}" if "x \<in> A" for x
    using assms(1) that unfolding live_ok_def spans_simps by blast+
  have no: "(a, n) \<notin> A"
  proof
    assume "(a, n) \<in> A"
    from dj(1) [OF this] assms(3) show False by (simp add: span_def)
  qed
  have "span x \<inter> span y = {}" if "x \<in> insert (a, n) A" "y \<in> insert (a, n) A" "x \<noteq> y" for x y
    using that dj(1) assms(1) unfolding live_ok_def by blast
  moreover have "lo \<le> fst x \<and> 0 < snd x \<and> hsize (hdr s (fst x)) = snd x \<and> span x \<inter> spans K = {}" if "x \<in> insert (a, n) A" for x
    using that dj(2) assms unfolding live_ok_def by auto
  moreover have "spans K \<union> (\<Union>x \<in> insert (a, n) A. span x) = {lo ..< brk s}"
    using assms(1) unfolding live_ok_def by auto
  ultimately show ?thesis using no unfolding live_ok_def by blast
qed

lemma live_ok_taken:
  assumes l: "live_ok lo s L A" and "hsize (hdr s' a) = n" and "0 < n" and "lo \<le> a" and "span (a, n) \<union> spans K = spans L"
    and "span (a, n) \<inter> spans K = {}" and "brk s' = brk s" and "\<And>x. x \<in> A \<Longrightarrow> hdr s' (fst x) = hdr s (fst x)"
  shows "live_ok lo s' K (insert (a, n) A) \<and> (a, n) \<notin> A"
proof -
  have "live_ok lo s' ((a, n) # K) A"
    by (rule live_ok_change [OF l subset_refl assms(8)]) (use assms(5,7) l in \<open>simp_all add: live_ok_def\<close>)
  then show ?thesis using assms(2-4,6) by (intro live_ok_insert)
qed

text \<open>What is known where the list is taken apart at a block.\<close>

lemma heap_at:
  assumes h: "heap_ok bs lo s (M @ (p, t) # N) A"
  shows "chain (hdr s) bs M p" and "hsize (hdr s p) = t" and "chain (hdr s) p N bs"
    and "\<exists>m \<le> p. ordered lo M m" and "ordered (p + 8 * t) N (brk s)" and "lo \<le> p"
    and "\<And>x. x \<in> insert bs (fst ` set M) \<Longrightarrow> x < p" and "\<And>x. x \<in> fst ` set N \<Longrightarrow> p + 8 * t \<le> x"
    and "spans M \<subseteq> {lo ..< p}" and "spans N \<subseteq> {p + 8 * t ..< brk s}"
    and "\<And>x a. x \<in> A \<Longrightarrow> a \<in> insert bs (fst ` set M) \<or> a \<in> span (p, t) \<Longrightarrow> fst x \<noteq> a"
proof -
  have c: "chain (hdr s) bs (M @ (p, t) # N) bs" and o: "ordered lo (M @ (p, t) # N) (brk s)" and l: "live_ok lo s (M @ (p, t) # N) A" and b: "bs < lo"
    using h by (auto simp: heap_ok_def)
  show "chain (hdr s) bs M p" "hsize (hdr s p) = t" "chain (hdr s) p N bs" using c by (simp_all add: chain_append)
  obtain m where m: "ordered lo M m" "m \<le> p" and n: "ordered (p + 8 * t) N (brk s)" using o by (auto simp: ordered_append)
  from m show "\<exists>m \<le> p. ordered lo M m" by blast
  from n show "ordered (p + 8 * t) N (brk s)" .
  show lo: "lo \<le> p" using ordered_less [OF m(1)] m(2) by simp
  show "x < p" if "x \<in> insert bs (fst ` set M)" for x
    using that ordered_bounds [OF m(1)] lo m(2) b by fastforce
  show "p + 8 * t \<le> x" if "x \<in> fst ` set N" for x using that ordered_bounds [OF n] by fastforce
  show "spans M \<subseteq> {lo ..< p}" using spans_bounds [OF m(1)] m(2) by auto
  show "spans N \<subseteq> {p + 8 * t ..< brk s}" by (rule spans_bounds [OF n])
  show "fst x \<noteq> a" if x: "x \<in> A" and a: "a \<in> insert bs (fst ` set M) \<or> a \<in> span (p, t)" for x a
  proof -
    have "fst x \<in> span x" "span x \<inter> spans (M @ (p, t) # N) = {}" "lo \<le> fst x" using live_fst [OF l x] l x by (auto simp: live_ok_def)
    moreover have "a \<in> insert bs (spans (M @ (p, t) # N))" using a fst_in_spans [OF m(1)] by auto
    ultimately show ?thesis using b by auto
  qed
qed

lemma take_whole:
  assumes h: "heap_ok bs lo s (M @ (p, n) # N) A" and "0 < n" and q: "q = last (bs # map fst M)"
  shows "\<exists>K s'. take_block n q p s = (p + 8, s') \<and> heap_ok bs lo s' K (insert (p, n) A) \<and> (p, n) \<notin> A"
proof -
  let ?h = "hdr s"
  let ?s = "s\<lparr>hdr := ?h(q := (?h q)\<lparr>hptr := hptr (?h p)\<rparr>), freep := q\<rparr>"
  note at = heap_at [OF h]
  have b: "0 < bs" "bs < lo" "hsize (?h bs) = 0" and l: "live_ok lo s (M @ (p, n) # N) A" using h by (auto simp: heap_ok_def)
  obtain m where m: "m \<le> p" "ordered lo M m" using at(4) by blast
  have qM: "q \<in> insert bs (fst ` set M)" unfolding q by (cases M rule: rev_cases) auto
  have pq: "q < p" by (rule at(7) [OF qM])
  have tb: "take_block n q p s = (p + 8, ?s)" using at(2) by (simp add: take_block_def Let_def)
  have "chain (hdr ?s) bs M (hptr (?h p))" using chain_relink [OF at(1) ordered_distinct [OF m(2) b(2)] q] by simp
  moreover have "chain (hdr ?s) q N bs"
    by (rule chain_start [OF at(3)]) (use pq at(8) in fastforce)+
  ultimately have "chain (hdr ?s) bs (M @ N) bs" using chain_glue q by blast
  moreover have "ordered lo (M @ N) (brk s)" using m ordered_widen [OF at(5), of m] by (auto simp: ordered_append)
  moreover have "hsize (hdr ?s bs) = 0" using b(3) by (cases "bs = q") simp_all
  moreover have "live_ok lo ?s (M @ N) (insert (p, n) A) \<and> (p, n) \<notin> A"
  proof (rule live_ok_taken [OF l _ assms(2) at(6)])
    show "span (p, n) \<inter> spans (M @ N) = {}" using at(9,10) by (auto simp: span_def)
    show "hdr ?s (fst x) = ?h (fst x)" if "x \<in> A" for x using at(11) [OF that, of q] qM by auto
  qed (use at(2) pq in auto)
  ultimately show ?thesis using tb b qM by (intro exI [of _ "M @ N"] exI [of _ ?s]) (auto simp: heap_ok_def)
qed

lemma take_tail:
  assumes h: "heap_ok bs lo s (M @ (p, t) # N) A" and "0 < n" and "n < t" and q: "q = last (bs # map fst M)"
  shows "\<exists>a K s'. take_block n q p s = (a + 8, s') \<and> heap_ok bs lo s' K (insert (a, n) A) \<and> (a, n) \<notin> A"
proof -
  let ?h = "hdr s" and ?z = "t - n" let ?a = "p + 8 * ?z"
  let ?h1 = "?h(p := (?h p)\<lparr>hsize := ?z\<rparr>)"
  let ?s = "s\<lparr>hdr := ?h1(?a := (?h1 ?a)\<lparr>hsize := n\<rparr>), freep := q\<rparr>"
  note at = heap_at [OF h]
  have b: "0 < bs" "bs < lo" "hsize (?h bs) = 0" and l: "live_ok lo s (M @ (p, t) # N) A" using h by (auto simp: heap_ok_def)
  have z: "0 < ?z" "?z + n = t" "?a \<noteq> p" using assms(3) by auto
  have sj: "span (p, ?z) \<union> span (?a, n) = span (p, t)" using span_join [of p ?z n] z(2) by simp
  have qM: "q \<in> insert bs (fst ` set M)" unfolding q by (cases M rule: rev_cases) auto
  have tb: "take_block n q p s = (?a + 8, ?s)" using at(2) assms(3) by (simp add: take_block_def Let_def)
  have aM: "?a \<notin> insert bs (fst ` set M)" "p \<notin> insert bs (fst ` set M)"
    using at(7) [of ?a] at(7) [of p] by (meson less_irrefl not_add_less1, meson less_irrefl)
  have "chain (hdr ?s) bs M p" using at(1) aM by (simp add: chain_upd)
  moreover have "chain (hdr ?s) p N bs"
    by (rule chain_start [OF at(3)]) (use z at(8) assms(2) in fastforce)+
  ultimately have "chain (hdr ?s) bs (M @ (p, ?z) # N) bs" using z(3) by (simp add: chain_append)
  moreover obtain m where "m \<le> p" "ordered lo M m" using at(4) by blast
  then have "ordered lo (M @ (p, ?z) # N) (brk s)" using z ordered_widen [OF at(5), of ?a] by (auto simp: ordered_append)
  moreover have "hsize (hdr ?s bs) = 0" using b(3) aM by simp
  moreover have "live_ok lo ?s (M @ (p, ?z) # N) (insert (?a, n) A) \<and> (?a, n) \<notin> A"
  proof (rule live_ok_taken [OF l _ assms(2)])
    show "span (?a, n) \<union> spans (M @ (p, ?z) # N) = spans (M @ (p, t) # N)" using sj by auto
    have "span (?a, n) \<subseteq> {?a ..< p + 8 * t}" "spans M \<subseteq> {lo ..< p}" "span (p, ?z) = {p ..< ?a}" "spans N \<subseteq> {p + 8 * t ..< brk s}" "?a < p + 8 * t"
      using at(9,10) z assms(2) by (auto simp: span_def)
    then show "span (?a, n) \<inter> spans (M @ (p, ?z) # N) = {}" by fastforce
    show "hdr ?s (fst x) = ?h (fst x)" if "x \<in> A" for x
    proof -
      have "?a \<in> span (p, t)" "p \<in> span (p, t)" using sj z(1) assms(2) by (auto simp: span_def)
      then show ?thesis using at(11) [OF that] by auto
    qed
  qed (use at(6) z(3) in auto)
  ultimately show ?thesis using tb b qM by (intro exI [of _ ?a] exI [of _ "M @ (p, ?z) # N"] exI [of _ ?s]) (auto simp: heap_ok_def)
qed

subsection \<open>The search for a block\<close>

fun path :: "(nat \<Rightarrow> header) \<Rightarrow> nat \<Rightarrow> nat list \<Rightarrow> bool" where
  "path h p [] \<longleftrightarrow> True"
| "path h p (x # xs) \<longleftrightarrow> hptr (h p) = x \<and> path h x xs"

lemma path_append: "path h p (xs @ ys) \<longleftrightarrow> path h p xs \<and> path h (last (p # xs)) ys"
  by (induction xs arbitrary: p) auto

lemma chain_path: "chain h p L e \<Longrightarrow> path h p (map fst L @ [e])"
proof (induction L arbitrary: p)
  case (Cons x L)
  then show ?case by (cases x) simp
qed simp

text \<open>Once around the list from any of its blocks.\<close>

lemma path_round:
  assumes c: "chain h bs L bs" and "distinct (bs # map fst L)" and "f \<in> insert bs (fst ` set L)"
  shows "\<exists>xs. path h f (xs @ [f]) \<and> f \<notin> set xs \<and> set (xs @ [f]) = insert bs (fst ` set L)"
proof (cases "f = bs")
  case True
  then show ?thesis using chain_path [OF c] assms(2) by (intro exI [of _ "map fst L"]) auto
next
  case False
  then obtain n where "(f, n) \<in> set L" using assms(3) by auto
  then obtain M N where L: "L = M @ (f, n) # N" by (auto dest: split_list)
  have "chain h bs M f" "chain h f N bs" using c by (simp_all add: L chain_append)
  from chain_path [OF this(1)] chain_path [OF this(2)] have "path h f ((map fst N @ [bs] @ map fst M) @ [f])"
    by (simp add: path_append)
  then show ?thesis using assms(2) False by (intro exI [of _ "map fst N @ [bs] @ map fst M"]) (auto simp: L)
qed

lemma next_unique:
  assumes "chain h bs (M @ (p, t) # N) bs" and "distinct (bs # map fst (M @ (p, t) # N))" and "x \<in> insert bs (fst ` set (M @ (p, t) # N))" and "hptr (h x) = p"
  shows "x = last (bs # map fst M)"
proof -
  let ?L = "M @ (p, t) # N"
  have m: "map (\<lambda>x. hptr (h x)) (b # map fst K) = map fst K @ [e]" if "chain h b K e" for b K e
    using that by (induction h b K e rule: chain.induct) auto
  have "distinct (map (\<lambda>x. hptr (h x)) (bs # map fst ?L))" unfolding m [OF assms(1)] using assms(2) by auto
  then have inj: "inj_on (\<lambda>x. hptr (h x)) (set (bs # map fst ?L))" by (simp only: distinct_map)
  have e: "hptr (h (last (bs # map fst M))) = p" using assms(1) chain_end [of h bs M p] by (simp only: chain_append)
  have l: "last (bs # map fst M) \<in> set (bs # map fst ?L)" by (cases M rule: rev_cases) auto
  have x: "x \<in> set (bs # map fst ?L)" using assms(3) by auto
  show ?thesis by (rule inj_onD [OF inj _ x l]) (simp only: assms(4) e)
qed

lemma malloc_walk:
  assumes "path (hdr s) prevp (xs @ [f])" and "f = freep s" and "f \<notin> set xs"
  shows "(\<exists>q p. p \<in> set (xs @ [f]) \<and> q \<in> insert prevp (set xs) \<and> hptr (hdr s q) = p \<and> n \<le> hsize (hdr s p) \<and>
       malloc_loop sb n prevp (hptr (hdr s prevp)) s = Some (take_block n q p s)) \<or>
     (\<forall>x \<in> set (xs @ [f]). hsize (hdr s x) < n) \<and>
       malloc_loop sb n prevp (hptr (hdr s prevp)) s =
         Option.bind (morecore sb n s) (\<lambda>(p, s). if p = 0 then Some (0, s) else malloc_loop sb n p (hptr (hdr s p)) s)"
  using assms
proof (induction xs arbitrary: prevp)
  case Nil
  then show ?case by (cases "n \<le> hsize (hdr s f)") (auto simp: malloc_loop.simps [of sb n prevp])
next
  case (Cons x xs)
  have x: "hptr (hdr s prevp) = x" "path (hdr s) x (xs @ [f])" "x \<noteq> freep s" "f \<notin> set xs" using Cons.prems by auto
  show ?case
  proof (cases "n \<le> hsize (hdr s x)")
    case True
    then show ?thesis using x(1) by (intro disjI1 exI [of _ prevp] exI [of _ x]) (simp add: malloc_loop.simps [of sb n prevp])
  next
    case False
    then have "malloc_loop sb n prevp (hptr (hdr s prevp)) s = malloc_loop sb n x (hptr (hdr s x)) s"
      using x by (simp add: malloc_loop.simps [of sb n prevp])
    with Cons.IH [OF x(2) Cons.prems(2) x(4)] False show ?thesis by fastforce
  qed
qed

lemma heap_ring:
  assumes "heap_ok bs lo s L A"
  shows "chain (hdr s) bs L bs" and "distinct (bs # map fst L)" and "freep s \<in> insert bs (fst ` set L)"
proof -
  have "ordered lo L (brk s)" "bs < lo" using assms by (simp_all add: heap_ok_def)
  then show "distinct (bs # map fst L)" by (rule ordered_distinct)
qed (use assms in \<open>simp_all add: heap_ok_def\<close>)

lemma heap_fits:
  assumes h: "heap_ok bs lo s L A" and "0 < n" and "q \<in> insert bs (fst ` set L)" and "hptr (hdr s q) = p" and "p \<in> insert bs (fst ` set L)" and "n \<le> hsize (hdr s p)"
  shows "\<exists>a K s'. take_block n q p s = (a + 8, s') \<and> heap_ok bs lo s' K (insert (a, n) A) \<and> (a, n) \<notin> A"
proof -
  have "p \<noteq> bs" using assms(2,6) h by (auto simp: heap_ok_def)
  then obtain t where "(p, t) \<in> set L" using assms(5) by auto
  then obtain M N where L: "L = M @ (p, t) # N" by (auto dest: split_list)
  note c = heap_ring [OF h]
  have "n \<le> t" using c(1) assms(6) by (simp add: L chain_append)
  moreover have "q = last (bs # map fst M)" using next_unique [of "hdr s" bs M p t N q] c assms(3,4) unfolding L by blast
  ultimately show ?thesis using take_whole [of bs lo s M p n N A q] take_tail [of bs lo s M p t N A n q] h assms(2) unfolding L
    by (cases "n = t") auto
qed

lemma heap_search:
  assumes h: "heap_ok bs lo s L A" and "0 < n"
  shows "(\<exists>a K s'. malloc_loop sb n (freep s) (hptr (hdr s (freep s))) s = Some (a + 8, s') \<and> heap_ok bs lo s' K (insert (a, n) A) \<and> (a, n) \<notin> A) \<or>
     (\<forall>x \<in> set L. snd x < n) \<and>
       malloc_loop sb n (freep s) (hptr (hdr s (freep s))) s =
         Option.bind (morecore sb n s) (\<lambda>(p, s). if p = 0 then Some (0, s) else malloc_loop sb n p (hptr (hdr s p)) s)"
proof -
  note c = heap_ring [OF h]
  from path_round [OF c] obtain xs where xs: "path (hdr s) (freep s) (xs @ [freep s])" "freep s \<notin> set xs" "set (xs @ [freep s]) = insert bs (fst ` set L)" by blast
  have size: "hsize (hdr s a) = m" if "(a, m) \<in> set L" for a m
    using c(1) split_list [OF that] by (auto simp: chain_append)
  from malloc_walk [OF xs(1) refl xs(2), of n sb] show ?thesis
  proof (elim disjE exE conjE)
    fix q p assume a: "p \<in> set (xs @ [freep s])" "q \<in> insert (freep s) (set xs)" "hptr (hdr s q) = p" "n \<le> hsize (hdr s p)"
      and r: "malloc_loop sb n (freep s) (hptr (hdr s (freep s))) s = Some (take_block n q p s)"
    from a(1,2) xs(3) have "p \<in> insert bs (fst ` set L)" "q \<in> insert bs (fst ` set L)" by auto
    with heap_fits [OF h assms(2), of q p] a(3,4) r show ?thesis by auto
  next
    assume lt: "\<forall>x \<in> set (xs @ [freep s]). hsize (hdr s x) < n"
      and r: "malloc_loop sb n (freep s) (hptr (hdr s (freep s))) s =
         Option.bind (morecore sb n s) (\<lambda>(p, s). if p = 0 then Some (0, s) else malloc_loop sb n p (hptr (hdr s p)) s)"
    have "\<forall>x \<in> set L. snd x < n"
    proof
      fix x assume x: "x \<in> set L"
      then have "fst x \<in> set (xs @ [freep s])" unfolding xs(3) by simp
      from bspec [OF lt this] size [of "fst x" "snd x"] x show "snd x < n" by simp
    qed
    from disjI2 [OF conjI [OF this r]] show ?thesis .
  qed
qed

text \<open>A heap before its first use, or one with a free list.\<close>

definition heap_inv :: "nat \<Rightarrow> nat \<Rightarrow> uheap \<Rightarrow> (nat \<times> nat) set \<Rightarrow> bool" where
  "heap_inv bs lo s A \<longleftrightarrow> 0 < bs \<and> bs < lo \<and> (freep s = 0 \<and> brk s = lo \<and> A = {} \<or> (\<exists>L. heap_ok bs lo s L A))"

lemma heap_ok_freep: "heap_ok bs lo s L A \<Longrightarrow> freep s \<noteq> 0"
  using ordered_bounds [of lo L "brk s"] by (fastforce simp: heap_ok_def)

lemma heap_invI: "heap_ok bs lo s L A \<Longrightarrow> heap_inv bs lo s A"
  by (auto simp: heap_inv_def heap_ok_def)

lemma units_for_room:
  assumes "unat nbytes < 2 ^ 30"
  shows "0 < units_for nbytes" and "units_for nbytes < 2 ^ 28" and "unat nbytes + 8 \<le> 8 * units_for nbytes"
proof -
  have "unat (nbytes + 7) = unat nbytes + 7" using assms by (simp add: unat_word_ariths)
  then have "unat ((nbytes + 7) div 8) = (unat nbytes + 7) div 8" by (simp add: unat_div)
  then have "units_for nbytes = (unat nbytes + 7) div 8 + 1" using assms by (simp add: units_for_def unat_word_ariths)
  then show "0 < units_for nbytes" "units_for nbytes < 2 ^ 28" "unat nbytes + 8 \<le> 8 * units_for nbytes" using assms by auto
qed

lemma malloc_ok:
  assumes "heap_inv bs lo s A" and "unat nbytes < 2 ^ 30"
  shows "\<exists>r s'. malloc bs sb nbytes s = Some (r, s') \<and>
     (r = 0 \<and> \<not> sb (brk s) (sbrk_bytes (core_units (units_for nbytes))) \<and> heap_inv bs lo s' A \<or>
      (\<exists>a. r = a + 8 \<and> heap_inv bs lo s' (insert (a, units_for nbytes) A) \<and> (a, units_for nbytes) \<notin> A))"
proof -
  let ?n = "units_for nbytes"
  define u where "u = (if freep s = 0 then s\<lparr>hdr := (hdr s)(bs := \<lparr>hptr = bs, hsize = 0\<rparr>), freep := bs\<rparr> else s)"
  have b: "0 < bs" "bs < lo" "brk u = brk s" using assms(1) by (auto simp: heap_inv_def u_def)
  have "\<exists>L. heap_ok bs lo u L A"
  proof (cases "freep s = 0")
    case True
    then have "\<nexists>L. heap_ok bs lo s L A" using heap_ok_freep by metis
    then have "brk s = lo" "A = {}" using assms(1) by (auto simp: heap_inv_def)
    then have "heap_ok bs lo u [] A" using True b by (simp add: heap_ok_def live_ok_def u_def)
    then show ?thesis ..
  next
    case False
    then show ?thesis using assms(1) by (auto simp: heap_inv_def u_def)
  qed
  then obtain L where L: "heap_ok bs lo u L A" ..
  have m: "malloc bs sb nbytes s = malloc_loop sb ?n (freep u) (hptr (hdr u (freep u))) u" by (simp add: malloc_def u_def Let_def)
  note n = units_for_room [OF assms(2)]
  from heap_search [OF L n(1), of sb] show ?thesis
  proof (elim disjE exE conjE)
    fix a K s' assume "malloc_loop sb ?n (freep u) (hptr (hdr u (freep u))) u = Some (a + 8, s')" "heap_ok bs lo s' K (insert (a, ?n) A)" "(a, ?n) \<notin> A"
    then show ?thesis using m heap_invI by (intro exI [of _ "a + 8"] exI [of _ s']) simp
  next
    assume r: "malloc_loop sb ?n (freep u) (hptr (hdr u (freep u))) u =
         Option.bind (morecore sb ?n u) (\<lambda>(p, s). if p = 0 then Some (0, s) else malloc_loop sb ?n p (hptr (hdr s p)) s)"
    show ?thesis
    proof (cases "sb (brk s) (sbrk_bytes (core_units ?n))")
      case False
      then have "morecore sb ?n u = Some (0, u)" by (simp add: morecore_def core_units_def b(3))
      then show ?thesis using r m heap_invI [OF L] False by (intro exI [of _ 0] exI [of _ u]) simp
    next
      case True
      with morecore_ok [OF L n(2), of sb] b(3) obtain v K where
        v: "morecore sb ?n u = Some (freep v, v)" "heap_ok bs lo v K A" "\<exists>x \<in> set K. ?n \<le> snd x" "freep v \<noteq> 0" by auto
      then have "malloc bs sb nbytes s = malloc_loop sb ?n (freep v) (hptr (hdr v (freep v))) v" using r m by simp
      moreover have "\<not> (\<forall>x \<in> set K. snd x < ?n)" using v(3) not_less by blast
      ultimately obtain a M s' where "malloc bs sb nbytes s = Some (a + 8, s')" "heap_ok bs lo s' M (insert (a, ?n) A)" "(a, ?n) \<notin> A"
        using heap_search [OF v(2) n(1), of sb] by auto
      then show ?thesis using heap_invI by (intro exI [of _ "a + 8"] exI [of _ s']) simp
    qed
  qed
qed

lemma heap_inv_blocks:
  assumes "heap_inv bs lo s A"
  shows "\<forall>x \<in> A. span x \<subseteq> {lo ..< brk s}" and "\<forall>x \<in> A. \<forall>y \<in> A. x \<noteq> y \<longrightarrow> span x \<inter> span y = {}"
proof -
  consider "A = {}" | L where "live_ok lo s L A" using assms by (auto simp: heap_inv_def heap_ok_def)
  note c = this
  from c show "\<forall>x \<in> A. span x \<subseteq> {lo ..< brk s}" by cases (auto simp: live_ok_def)
  from c show "\<forall>x \<in> A. \<forall>y \<in> A. x \<noteq> y \<longrightarrow> span x \<inter> span y = {}" by cases (simp, unfold live_ok_def, blast)
qed

lemma malloc_fresh:
  assumes i: "heap_inv bs lo s A" and nb: "unat nbytes < 2 ^ 30"
  shows "\<exists>r s'. malloc bs sb nbytes s = Some (r, s') \<and> (r = 0 \<longrightarrow> \<not> sb (brk s) (sbrk_bytes (core_units (units_for nbytes)))) \<and>
      (r \<noteq> 0 \<longrightarrow> (\<forall>x \<in> A. {r ..< r + unat nbytes} \<inter> span x = {}) \<and> {r ..< r + unat nbytes} \<subseteq> {lo ..< brk s'})"
proof -
  let ?n = "units_for nbytes"
  from malloc_ok [OF i nb, of sb] obtain r s' where m: "malloc bs sb nbytes s = Some (r, s')"
    "r = 0 \<and> \<not> sb (brk s) (sbrk_bytes (core_units ?n)) \<and> heap_inv bs lo s' A \<or>
     (\<exists>a. r = a + 8 \<and> heap_inv bs lo s' (insert (a, ?n) A) \<and> (a, ?n) \<notin> A)" by blast
  from m(2) show ?thesis
  proof (elim disjE exE conjE)
    fix a assume a: "r = a + 8" "heap_inv bs lo s' (insert (a, ?n) A)" "(a, ?n) \<notin> A"
    have sub: "{r ..< r + unat nbytes} \<subseteq> span (a, ?n)" using units_for_room(3) [OF nb] a(1) by (auto simp: span_def)
    have "span (a, ?n) \<subseteq> {lo ..< brk s'}" using heap_inv_blocks(1) [OF a(2)] by blast
    moreover have "span (a, ?n) \<inter> span x = {}" if "x \<in> A" for x
      using heap_inv_blocks(2) [OF a(2)] that a(3) by (metis insertI1 insertI2)
    ultimately have "(\<forall>x \<in> A. {r ..< r + unat nbytes} \<inter> span x = {}) \<and> {r ..< r + unat nbytes} \<subseteq> {lo ..< brk s'}" using sub by blast
    with m(1) a(1) show ?thesis by (intro exI [of _ r] exI [of _ s']) simp
  next
    assume "r = 0" "\<not> sb (brk s) (sbrk_bytes (core_units ?n))"
    with m(1) show ?thesis by (intro exI [of _ r] exI [of _ s']) simp
  qed
qed

lemma free_ok:
  assumes "heap_inv bs lo s A" and "(a, n) \<in> A"
  shows "\<exists>s'. u_free (a + 8) s = Some s' \<and> heap_inv bs lo s' (A - {(a, n)})"
proof -
  obtain L where "heap_ok bs lo s L (insert (a, n) (A - {(a, n)}))" using assms by (auto simp: heap_inv_def insert_absorb)
  from u_free_ok [OF this] assms(1) show ?thesis by (auto simp: heap_inv_def)
qed

subsection \<open>Programs that allocate and free\<close>

text \<open>The heap and the blocks a program holds, over its calls; it frees only what it holds.\<close>

inductive heap_step :: "nat \<Rightarrow> (nat \<Rightarrow> int \<Rightarrow> bool) \<Rightarrow> uheap \<times> (nat \<times> nat) set \<Rightarrow> uheap \<times> (nat \<times> nat) set \<Rightarrow> bool" for bs sb where
  allocates: "unat nbytes < 2 ^ 30 \<Longrightarrow> malloc bs sb nbytes s = Some (r, s') \<Longrightarrow>
     heap_step bs sb (s, A) (s', if r = 0 then A else insert (r - 8, units_for nbytes) A)"
| frees: "(a, n) \<in> A \<Longrightarrow> u_free (a + 8) s = Some s' \<Longrightarrow> heap_step bs sb (s, A) (s', A - {(a, n)})"

interpretation heap_invariant: step_invariant "\<lambda>(s, A). 0 < bs \<and> bs < brk s \<and> brk s = lo \<and> freep s = 0 \<and> A = {}" "heap_step bs sb" "\<lambda>(s, A). heap_inv bs lo s A" for bs lo sb
proof
  fix s t assume i: "case s of (s, A) \<Rightarrow> heap_inv bs lo s A" and st: "heap_step bs sb s t"
  from st i show "case t of (s, A) \<Rightarrow> heap_inv bs lo s A"
  proof cases
    case (allocates nbytes s r s' A)
    with malloc_ok [of bs lo s A nbytes sb] i show ?thesis by auto
  next
    case (frees a n A s s')
    with free_ok [of bs lo s A a n] i show ?thesis by auto
  qed
qed (auto simp: heap_inv_def)

text \<open>C27. The user's allocator never hands out memory twice. Whatever calls a program has made, starting with an unused heap
  and freeing only what it holds, the blocks it holds lie apart from each other inside the heap; every further \<open>malloc\<close> of less than a
  gigabyte returns, with 0 only when the kernel refuses memory, and otherwise with room for all the bytes asked for, away from every
  block that is held; and every \<open>free\<close> of a block that is held returns.\<close>

theorem malloc_hands_out_fresh_memory:
  assumes "0 < bs" and "bs < brk s0" and "freep s0 = 0" and "reach (heap_step bs sb) (s0, {}) (s, A)"
  shows "(\<forall>x \<in> A. span x \<subseteq> {brk s0 ..< brk s}) \<and> (\<forall>x \<in> A. \<forall>y \<in> A. x \<noteq> y \<longrightarrow> span x \<inter> span y = {}) \<and>
     (\<forall>nbytes. unat nbytes < 2 ^ 30 \<longrightarrow>
        (\<exists>r s'. malloc bs sb nbytes s = Some (r, s') \<and>
           (r = 0 \<longrightarrow> \<not> sb (brk s) (sbrk_bytes (core_units (units_for nbytes)))) \<and>
           (r \<noteq> 0 \<longrightarrow> (\<forall>x \<in> A. {r ..< r + unat nbytes} \<inter> span x = {}) \<and> {r ..< r + unat nbytes} \<subseteq> {brk s0 ..< brk s'}))) \<and>
     (\<forall>x \<in> A. \<exists>s'. u_free (fst x + 8) s = Some s')"
proof -
  have i: "heap_inv bs (brk s0) s A"
    using heap_invariant.inv_reach [of bs "brk s0" "(s0, {})" sb "(s, A)"] assms by simp
  moreover have "\<exists>s'. u_free (fst x + 8) s = Some s'" if "x \<in> A" for x using free_ok [OF i, of "fst x" "snd x"] that by auto
  ultimately show ?thesis using malloc_fresh [OF i, of _ sb] heap_inv_blocks [OF i] by blast
qed

theorem malloc_hands_out_fresh_memory_witness:
  "\<exists>r s'. malloc 16 (\<lambda>_ _. True) 100 \<lparr>hdr = \<lambda>_. \<lparr>hptr = 0, hsize = 0\<rparr>, freep = 0, brk = 4096\<rparr> = Some (r, s') \<and> {r ..< r + 100} \<subseteq> {4096 ..< brk s'}"
proof -
  let ?s = "\<lparr>hdr = \<lambda>_. \<lparr>hptr = 0, hsize = 0\<rparr>, freep = 0, brk = 4096\<rparr>"
  have s: "(0 :: nat) < 16" "16 < brk ?s" "freep ?s = 0" by simp_all
  have "unat (100 :: uint) < 2 ^ 30" by simp
  with malloc_hands_out_fresh_memory [OF s reach_refl, of "\<lambda>_ _. True"] obtain r s' where
    r: "malloc 16 (\<lambda>_ _. True) 100 ?s = Some (r, s')" "r = 0 \<longrightarrow> \<not> True" "r \<noteq> 0 \<longrightarrow> {r ..< r + unat (100 :: uint)} \<subseteq> {brk ?s ..< brk s'}" by blast
  then show ?thesis by (intro exI [of _ r] exI [of _ s']) simp
qed

text \<open>
  The bound on the size is needed. The count of units wraps around for the largest requests, which then get a block with a
  header and nothing else, and from \<open>2 ^ 28\<close> units on the argument of \<open>sbrk\<close> is negative: the memory of the process shrinks.
\<close>

lemma units_for_wraps: "units_for 0xFFFFFFFF = 1" "sbrk_bytes (units_for 0x7FFFFFF8) = - (2 ^ 31)"
  by (simp_all add: units_for_def sbrk_bytes_def)

end
