(* ===== verification/Spec2Isabelle.thy ===== *)
theory Spec2Isabelle
  imports Tables Tournament Grep Sh Ide Umalloc
begin

text \<open>
  A verification development for an xv6 kernel with kernel threads, kernel mutexes and a user-level
  tournament tree (the sources under \<^verbatim>\<open>src/\<close>).

  \<^bold>\<open>The program.\<close> xv6 is a small Unix for multiprocessor x86 machines. Processors run kernel code
  that is protected by spinlocks (\<^verbatim>\<open>spinlock.c\<close>). A process has a row of threads; the scheduler
  (\<^verbatim>\<open>proc.c\<close>) moves threads between running, runnable and sleeping. Sleeping locks
  (\<^verbatim>\<open>sleeplock.c\<close>) and the mutexes offered to user threads (\<^verbatim>\<open>mutex.c\<close>) are built on
  sleep and wakeup. Physical pages come from a free list (\<^verbatim>\<open>kalloc.c\<close>), address spaces are two-level
  page tables in such pages (\<^verbatim>\<open>vm.c\<close>). The file system is a stack: disk (\<^verbatim>\<open>memide.c\<close> or \<^verbatim>\<open>ide.c\<close>),
  buffer cache (\<^verbatim>\<open>bio.c\<close>), write-ahead log (\<^verbatim>\<open>log.c\<close>), inodes, directories and paths
  (\<^verbatim>\<open>fs.c\<close>), open files and pipes (\<^verbatim>\<open>file.c\<close>, \<^verbatim>\<open>pipe.c\<close>). The console
  (\<^verbatim>\<open>console.c\<close>, \<^verbatim>\<open>kbd.c\<close>, \<^verbatim>\<open>uart.c\<close>) is a device file. System calls and traps
  (\<^verbatim>\<open>syscall.c\<close>, \<^verbatim>\<open>sysproc.c\<close>, \<^verbatim>\<open>sysfile.c\<close>, \<^verbatim>\<open>trap.c\<close>) are the
  entries from user mode. On top are user programs and libraries.

  \<^bold>\<open>How code becomes definitions.\<close> A kernel function is a \<^emph>\<open>kernel operation\<close>, a function from the
  state to an outcome (\<open>res\<close> of the theory \<open>Prelude\<close>): it returns a value and a state, panics with the
  message of the source, gives up the processor (\<open>Swtch\<close>: it called \<open>swtch\<close> from \<open>sched\<close>), spins on a
  lock that is held (\<open>Spin\<close>), or does what C leaves undefined (\<open>Fault\<close>, a null pointer for example).
  Every early return and every panic of the source is a branch. The state is a chain of records,
  each of which adds the variables of one component: \<open>machine\<close> (processors, spinlocks), \<open>ptable\<close>,
  \<open>sltable\<close>, \<open>mtable\<close>, \<open>kmem\<close> (memory and free list), \<open>bcache\<close> (buffers and disk), \<open>logged\<close>,
  \<open>fsys\<close>, \<open>ftab\<close>, \<open>cons_state\<close>, \<open>life\<close>, \<open>kernel\<close>. An operation is polymorphic in the fields behind its own
  record, so a later component calls an earlier one as it is. C arrays are lists with C indices,
  pointers into a table are indices, \<open>uint\<close> and \<open>uchar\<close> are words, memory is a function from addresses
  to bytes.

  A call that sleeps ends with \<open>Swtch\<close>; what it does when it runs again is a definition of its own, with
  the suffix \<open>_resume\<close>. Interleaving is modelled by step relations over sections of the code that no other
  processor can observe halfway: the three pieces of \<open>acquire\<close> and the two of \<open>release\<close> in \<open>Spinlock\<close>, one
  section under \<open>ptable.lock\<close> in \<open>Sched\<close>, one call or one resumption in \<open>Sleeplock\<close> and \<open>Mutex\<close>, one trap,
  resumption or scheduler round in \<open>Tables\<close>.

  \<^bold>\<open>The theories.\<close>

  \<^item> \<open>Prelude\<close>: outcomes and their sequencing, scans of fixed tables, and the interfaces \<open>slot_table\<close> (claiming
    the first free slot), \<open>step_invariant\<close> (an invariant of a step relation) and \<open>simulation\<close>.
  \<^item> \<open>Spinlock\<close> (\<^verbatim>\<open>spinlock.c\<close>): at most one processor is between acquire and release of a lock, in every
    interleaving; correctly nested code never panics and restores the interrupt flag.
  \<^item> \<open>Proc\<close>, \<open>Sched\<close> (\<^verbatim>\<open>proc.c\<close>): no thread runs on two processors, no wakeup is lost between the test
    of a condition and \<open>sleep\<close>, wakeup wakes exactly the sleepers of its channel, and a processor that looks
    for work dispatches a runnable thread if there is one.
  \<^item> \<open>Sleeplock\<close>, \<open>Mutex\<close> (\<^verbatim>\<open>sleeplock.c\<close>, \<^verbatim>\<open>mutex.c\<close>): one holder at a time, the count of waiters is
    exact, only the holder unlocks; and the case in which a lock call returns success without the lock.
  \<^item> \<open>Mem\<close> (\<^verbatim>\<open>string.c\<close>, \<^verbatim>\<open>x86.h\<close>): memory routines on overlapping regions and with wrap-around.
  \<^item> \<open>Kalloc\<close>, \<open>Vm\<close> (\<^verbatim>\<open>kalloc.c\<close>, \<^verbatim>\<open>vm.c\<close>): the free list implements a list of pages (interface
    \<open>page_source\<close>), the initial memory is exactly the whole pages of its range, and \<open>mappages\<close> maps exactly
    the pages asked for and leaves every other translation as it was.
  \<^item> \<open>Bio\<close>, \<open>Block\<close>, \<open>Log\<close> (\<^verbatim>\<open>bio.c\<close>, \<^verbatim>\<open>memide.c\<close>, \<^verbatim>\<open>log.c\<close>): the cache implements an array of
    blocks; at every disk write of a commit a crash followed by recovery leaves all or none of the
    transaction; recovery is idempotent; and an operation within its declared size can overflow the log.
  \<^item> \<open>Ide\<close> (\<^verbatim>\<open>ide.c\<close>): the interrupt-driven driver, an alternative to the memory disk with the same interface:
    every queued request completes, in order and with the right data, on a controller that answers as a disk does.
  \<^item> \<open>Fs\<close> (\<^verbatim>\<open>fs.c\<close>): one cache entry per inode, inodes on disk round-trip, a path is walked component
    by component.
  \<^item> \<open>Ring\<close>, \<open>File\<close> (\<^verbatim>\<open>file.c\<close>, \<^verbatim>\<open>pipe.c\<close>): a ring with free-running counters is a bounded queue (interface
    \<open>ring\<close>, interpreted for pipes and for the console), reference counts of open files.
  \<^item> \<open>Console\<close> (\<^verbatim>\<open>console.c\<close>, \<^verbatim>\<open>kbd.c\<close>, \<^verbatim>\<open>uart.c\<close>): line editing refines an editor on lists of
    lines, numbers are printed in full width.
  \<^item> \<open>Life\<close> (\<^verbatim>\<open>proc.c\<close>, \<^verbatim>\<open>kthread.c\<close>): neither \<open>wait\<close> nor \<open>kthread_join\<close> misses an exit, a forked child
    inherits its parent's files, directory and size; \<open>exit\<close> returns while other threads are alive.
  \<^item> \<open>Exec\<close>, \<open>Syscall\<close> (\<^verbatim>\<open>exec.c\<close>, \<^verbatim>\<open>syscall.c\<close>, \<^verbatim>\<open>sysproc.c\<close>, \<^verbatim>\<open>sysfile.c\<close>, \<^verbatim>\<open>trap.c\<close>):
    program loading, all system calls, traps and the clock; pointer arguments lie in user memory, \<open>dup\<close>
    takes the lowest descriptor.
  \<^item> \<open>Tables\<close>: every operation of the kernel, whatever its outcome, keeps the sizes of all tables, so that the
    lists of the model are the fixed arrays of the source.
  \<^item> \<open>Ulib\<close> (\<^verbatim>\<open>ulib.c\<close>, \<^verbatim>\<open>printf.c\<close>): string routines return with the right answer on terminated
    strings; printing and reading a number round-trips.
  \<^item> \<open>Umalloc\<close> (\<^verbatim>\<open>umalloc.c\<close>): the free list is kept in address order; no byte is handed out twice and none is
    lost; \<open>malloc\<close> and \<open>free\<close> return; and what goes wrong for requests of gigabytes.
  \<^item> \<open>Tournament\<close> (\<^verbatim>\<open>tree.c\<close>): allocation builds a complete tree with a mutex per inner node, and at
    most one thread gets through the tree.
  \<^item> \<open>Grep\<close> (\<^verbatim>\<open>grep.c\<close>): the matcher agrees with the set of strings a pattern stands for.
  \<^item> \<open>Sh\<close> (\<^verbatim>\<open>sh.c\<close>): the parser ends on every line, and reads back every printed command tree.

  \<^bold>\<open>Interfaces.\<close> Every locale is interpreted on the kernel's own definitions: \<open>slot_table\<close> on the tables of
  mutexes, inodes and open files, \<open>step_invariant\<close> on spinlocks, the scheduler, sleeping locks, mutexes,
  the kernel's tables and the user's heap, \<open>simulation\<close> on mutexes, \<open>page_source\<close> on the page allocator, \<open>ring\<close> on
  pipes and the console input.

  \<^bold>\<open>Bounds and fuel.\<close> Loops over tables run over the list of indices of the table. Loops over memory run
  over a number of bytes or pages that is at most the size of the address space, which is the fuel of
  \<open>mappages\<close> and \<open>deallocuvm\<close> (\<open>2 ^ 20\<close> pages). The loops of the shell's parser get the length of the rest
  of the line, its recursion four levels per byte, and it is proved that this is enough. The walks of the
  tournament tree get the number of live blocks. Loops over strings that need a terminator, and the
  loops of the user's allocator around its list, are partial functions into \<open>option\<close>, and their theorems say that they return.

  \<^bold>\<open>Not modelled.\<close> The boot path and the assembly (\<^verbatim>\<open>bootasm.S\<close>, \<^verbatim>\<open>bootmain.c\<close>, \<^verbatim>\<open>entry.S\<close>,
  \<^verbatim>\<open>entryother.S\<close>, \<^verbatim>\<open>main.c\<close>, \<^verbatim>\<open>swtch.S\<close>, \<^verbatim>\<open>trapasm.S\<close>, \<^verbatim>\<open>initcode.S\<close>, \<^verbatim>\<open>usys.S\<close>): it
  consists of processor instructions whose meaning is not in the sources; the effect of \<open>swtch\<close> is the
  outcome \<open>Swtch\<close>. The set-up of interrupt controllers and processors (\<^verbatim>\<open>lapic.c\<close>, \<^verbatim>\<open>ioapic.c\<close>,
  \<^verbatim>\<open>picirq.c\<close>, \<^verbatim>\<open>mp.c\<close>, \<open>seginit\<close>, \<open>tvinit\<close>, \<open>idtinit\<close>): writes to device registers with no effect on
  the state of the kernel. The file system is modelled over the memory disk, the other of the two drivers. The programs \<^verbatim>\<open>usertests.c\<close>, \<^verbatim>\<open>sanity.c\<close>, \<^verbatim>\<open>myprog.c\<close>,
  \<^verbatim>\<open>stressfs.c\<close>, \<^verbatim>\<open>forktest.c\<close> test the system, and the small commands (\<^verbatim>\<open>cat.c\<close>,
  \<^verbatim>\<open>echo.c\<close>, \<^verbatim>\<open>init.c\<close>, \<^verbatim>\<open>kill.c\<close>, \<^verbatim>\<open>ln.c\<close>, \<^verbatim>\<open>ls.c\<close>, \<^verbatim>\<open>mkdir.c\<close>, \<^verbatim>\<open>rm.c\<close>,
  \<^verbatim>\<open>wc.c\<close>, \<^verbatim>\<open>zombie.c\<close>) are loops over system calls. \<^verbatim>\<open>mkfs.c\<close> runs on the build machine.
  A call that blocks deep inside another one (\<open>exit\<close> that waits for the log, say) is described up to the
  point where it blocks; the continuation of such nested calls is modelled for the calls that have a
  \<open>_resume\<close> definition only.
\<close>

end
